(* ===== verification/Prelude.thy ===== *)
theory Prelude
  imports Main "HOL-Library.Word"
begin

text \<open>
  Shared vocabulary of the development: the machine integers of the Rust sources, byte
  slices, fallible results, the slice operations of the standard library that can panic,
  and the little endian byte form of an unsigned integer.  The collection
  \<open>res_simps\<close> holds the rewrite rules by which a chain of fallible calls is evaluated.
\<close>

unbundle bit_operations_syntax

named_theorems res_simps \<open>evaluation of fallible calls\<close>

type_synonym u8 = "8 word"
type_synonym u16 = "16 word"
type_synonym u32 = "32 word"
type_synonym u64 = "64 word"
type_synonym bytes = "u8 list"

subsection \<open>Fallible results\<close>

text \<open>
  The variants of \<open>packed_struct::PackingError\<close> that the sources (or the trait
  implementations they rely on) produce.  A failed call either returns such an error or
  panics; both are values here, so that every theorem says which one happens.
\<close>

datatype packing_error =
    InvalidValue
  | BufferTooSmall
  | BufferSizeMismatch nat nat
  | InstanceRequiredForSize

datatype failure = Fail packing_error | Panic

type_synonym 'a result = "failure + 'a"

abbreviation Ok :: "'a \<Rightarrow> 'a result" where
  "Ok x \<equiv> Inr x"

abbreviation Err :: "packing_error \<Rightarrow> 'a result" where
  "Err e \<equiv> Inl (Fail e)"

abbreviation Panicked :: "'a result" where
  "Panicked \<equiv> Inl Panic"

text \<open>The question mark operator: continue with the value, or return the failure.\<close>

fun and_then :: "'a result \<Rightarrow> ('a \<Rightarrow> 'b result) \<Rightarrow> 'b result" where
  "and_then (Inl e) f = Inl e"
| "and_then (Inr x) f = f x"

lemma and_then_Ok_iff [simp]:
  "and_then r f = Inr y \<longleftrightarrow> (\<exists>x. r = Inr x \<and> f x = Inr y)"
  by (cases r) auto

lemma and_then_Inl_iff:
  "and_then r f = Inl e \<longleftrightarrow> r = Inl e \<or> (\<exists>x. r = Inr x \<and> f x = Inl e)"
  by (cases r) auto

lemma and_then_no_panic:
  assumes "r \<noteq> Panicked" and "\<And>x. r = Inr x \<Longrightarrow> f x \<noteq> Panicked"
  shows "and_then r f \<noteq> Panicked"
  using assms by (cases r) auto

declare and_then.simps [res_simps]

subsection \<open>Slices\<close>

text \<open>
  \<open>dst.copy_from_slice(src)\<close> panics unless both slices have the same length,
  \<open>xs.split_at(n)\<close> and \<open>xs[..n]\<close> panic when \<open>n\<close> is out of range.
\<close>

definition copy_from_slice :: "'a list \<Rightarrow> 'a list \<Rightarrow> 'a list result" where
  "copy_from_slice dst src = (if length dst = length src then Ok src else Panicked)"

definition split_at :: "nat \<Rightarrow> 'a list \<Rightarrow> ('a list \<times> 'a list) result" where
  "split_at n xs = (if n \<le> length xs then Ok (take n xs, drop n xs) else Panicked)"

definition slice_to :: "nat \<Rightarrow> 'a list \<Rightarrow> 'a list result" where
  "slice_to n xs = (if n \<le> length xs then Ok (take n xs) else Panicked)"

lemma copy_from_slice_same [simp, res_simps]:
  "length dst = length src \<Longrightarrow> copy_from_slice dst src = Ok src"
  by (simp add: copy_from_slice_def)

lemma split_at_le [simp, res_simps]:
  "n \<le> length xs \<Longrightarrow> split_at n xs = Ok (take n xs, drop n xs)"
  by (simp add: split_at_def)

lemma slice_to_le [simp, res_simps]:
  "n \<le> length xs \<Longrightarrow> slice_to n xs = Ok (take n xs)"
  by (simp add: slice_to_def)

lemma split_last:
  assumes "xs \<noteq> []"
  shows "drop (length xs - Suc 0) xs = [last xs]" and "take (length xs - Suc 0) xs = butlast xs"
proof -
  show "take (length xs - Suc 0) xs = butlast xs" by (simp add: butlast_conv_take)
  have "butlast xs @ [last xs] = xs" using assms by simp
  then show "drop (length xs - Suc 0) xs = [last xs]"
    by (metis One_nat_def append_eq_conv_conj length_butlast)
qed

lemma length_1_conv: "length xs = Suc 0 \<longleftrightarrow> (\<exists>x. xs = [x])"
  by (cases xs) auto

lemma length_numeral_ConsE:
  assumes "length xs = Suc n"
  obtains x ys where "xs = x # ys" and "length ys = n"
  using assms by (cases xs) auto

subsection \<open>Little endian integers\<close>

definition le_bytes :: "nat \<Rightarrow> 'a::len word \<Rightarrow> bytes" where
  "le_bytes n w = map (\<lambda>i. ucast (drop_bit (8 * i) w)) [0..<n]"

fun of_le_bytes :: "bytes \<Rightarrow> 'a::len word" where
  "of_le_bytes [] = 0"
| "of_le_bytes (b # bs) = ucast b OR push_bit 8 (of_le_bytes bs)"

lemma length_le_bytes [simp]: "length (le_bytes n w) = n"
  by (simp add: le_bytes_def)

lemma nth_le_bytes [simp]: "i < n \<Longrightarrow> le_bytes n w ! i = ucast (drop_bit (8 * i) w)"
  by (simp add: le_bytes_def)

lemma bit_of_le_bytes:
  "bit (of_le_bytes bs :: 'a::len word) k \<longleftrightarrow>
     k < LENGTH('a) \<and> k div 8 < length bs \<and> bit (bs ! (k div 8)) (k mod 8)"
proof (induction bs arbitrary: k)
  case Nil
  then show ?case by simp
next
  case (Cons b bs)
  show ?case
  proof (cases "k < 8")
    case True
    then show ?thesis by (auto simp: bit_or_iff bit_push_bit_iff bit_ucast_iff)
  next
    case False
    then obtain m where k: "k = m + 8" by (metis add.commute le_add_diff_inverse not_less)
    have "\<not> bit b k" using False by (auto dest: bit_imp_le_length)
    moreover have "(m + 8) div 8 = Suc (m div 8)" by simp
    ultimately show ?thesis using k
      by (auto simp: bit_or_iff bit_push_bit_iff bit_ucast_iff Cons.IH)
  qed
qed

lemma of_le_bytes_le_bytes [simp]:
  assumes "LENGTH('a) = 8 * n"
  shows "of_le_bytes (le_bytes n w) = (w :: 'a::len word)"
proof (rule bit_word_eqI)
  fix k
  assume k: "k < LENGTH('a)"
  then have "k div 8 < n" using assms by simp
  then show "bit (of_le_bytes (le_bytes n w) :: 'a word) k = bit w k"
    using k by (simp add: bit_of_le_bytes bit_ucast_iff bit_drop_bit_eq)
qed

lemma le_bytes_of_le_bytes [simp]:
  assumes "8 * length bs \<le> LENGTH('a)" and "n = length bs"
  shows "le_bytes n (of_le_bytes bs :: 'a::len word) = bs"
proof (rule nth_equalityI)
  show "length (le_bytes n (of_le_bytes bs :: 'a word)) = length bs"
    using assms by simp
  fix i
  assume i: "i < length (le_bytes n (of_le_bytes bs :: 'a word))"
  show "le_bytes n (of_le_bytes bs :: 'a word) ! i = bs ! i"
  proof (rule bit_word_eqI)
    fix k
    assume k: "k < LENGTH(8)"
    then have "8 * i + k < LENGTH('a)" and "(8 * i + k) div 8 = i" and "(8 * i + k) mod 8 = k"
      using i assms by auto
    then show "bit (le_bytes n (of_le_bytes bs :: 'a word) ! i) k = bit (bs ! i) k"
      using i k assms by (simp add: bit_ucast_iff bit_drop_bit_eq bit_of_le_bytes)
  qed
qed

end
