(* ===== verification/Packing.thy ===== *)
theory Packing
  imports Prelude
begin

text \<open>
  The packing traits through which every wire type of \<open>message/src\<close> goes.  A Rust trait
  implementation is a dictionary, a record of the trait's methods; a generic
  implementation (\<open>impl PackedStructSlice for HeaderPacket<H, P>\<close>) is a function from
  dictionaries to a dictionary.  The locales state what a dictionary promises: a wire form
  \<open>enc\<close> of the observable value \<open>view\<close> that both directions agree on, and that no
  input makes the parser panic.
\<close>

text \<open>
  The methods of \<open>PackedStructSlice\<close>.  \<open>pack_to_slice\<close> takes the output slice as it
  is before the call and returns its new contents; the contents after a failed call are
  not observed by any caller in the sources.
\<close>

record 'a packed_ops =
  pack_to_slice :: "'a \<Rightarrow> bytes \<Rightarrow> bytes result"
  unpack_from_slice :: "bytes \<Rightarrow> 'a result"
  packed_bytes_size :: "'a option \<Rightarrow> nat result"

text \<open>
  \<open>pack_to_vec\<close>, the trait's provided method: a zeroed vector of the packed size, packed
  into as a slice.
\<close>

definition pack_to_vec :: "('a, 'm) packed_ops_scheme \<Rightarrow> 'a \<Rightarrow> bytes result" where
  "pack_to_vec T x =
     and_then (packed_bytes_size T (Some x)) (\<lambda>n. pack_to_slice T x (replicate n 0))"

text \<open>
  The methods of \<open>PackedStruct\<close>, for types whose \<open>ByteArray\<close> has a fixed length, and
  the blanket implementation of the slice trait for them, which checks the slice length.
\<close>

record 'a struct_ops =
  byte_array_len :: nat
  pack :: "'a \<Rightarrow> bytes result"
  unpack :: "bytes \<Rightarrow> 'a result"

definition slice_of_struct :: "'a struct_ops \<Rightarrow> 'a packed_ops" where
  "slice_of_struct S = \<lparr>
     pack_to_slice = (\<lambda>x out.
       if length out \<noteq> byte_array_len S
       then Err (BufferSizeMismatch (byte_array_len S) (length out))
       else and_then (pack S x) (copy_from_slice out)),
     unpack_from_slice = (\<lambda>src.
       if length src \<noteq> byte_array_len S
       then Err (BufferSizeMismatch (byte_array_len S) (length src))
       else unpack S src),
     packed_bytes_size = (\<lambda>_. Ok (byte_array_len S)) \<rparr>"

lemma unpack_slice_of_struct:
  "unpack_from_slice (slice_of_struct S) src =
     (if length src \<noteq> byte_array_len S
      then Err (BufferSizeMismatch (byte_array_len S) (length src))
      else unpack S src)"
  by (simp add: slice_of_struct_def)

subsection \<open>What a packing promises\<close>

text \<open>
  \<open>inv\<close> is the representation invariant of a value (a \<open>WithCRC\<close> carries caches),
  \<open>view\<close> its observable part (what \<open>PartialEq\<close> compares), \<open>enc\<close> the wire form.
\<close>

locale packed_slice =
  fixes ops :: "'a packed_ops"
    and inv :: "'a \<Rightarrow> bool"
    and view :: "'a \<Rightarrow> 'v"
    and enc :: "'v \<Rightarrow> bytes"
  assumes size_inv: "inv x \<Longrightarrow> packed_bytes_size ops (Some x) = Ok (length (enc (view x)))"
    and pack_exact: "inv x \<Longrightarrow> length out = length (enc (view x)) \<Longrightarrow>
      pack_to_slice ops x out = Ok (enc (view x))"
    and unpack_enc: "\<exists>x. unpack_from_slice ops (enc v) = Ok x \<and> inv x \<and> view x = v"
    and unpack_sound: "unpack_from_slice ops bs = Ok x \<Longrightarrow> inv x \<and> bs = enc (view x)"
    and unpack_no_panic: "unpack_from_slice ops bs \<noteq> Panicked"
begin

lemma pack_to_vec_enc: "inv x \<Longrightarrow> pack_to_vec ops x = Ok (enc (view x))"
  by (simp add: pack_to_vec_def size_inv pack_exact)

lemma roundtrip:
  assumes "inv x"
  shows "\<exists>bs y. pack_to_vec ops x = Ok bs \<and> unpack_from_slice ops bs = Ok y
    \<and> inv y \<and> view y = view x"
  using assms unpack_enc [of "view x"] by (auto simp: pack_to_vec_enc)

lemma canonical: "unpack_from_slice ops bs = Ok x \<Longrightarrow> pack_to_vec ops x = Ok bs"
  by (auto simp: pack_to_vec_enc dest: unpack_sound)

lemma unpack_inv: "unpack_from_slice ops bs = Ok x \<Longrightarrow> inv x"
  by (auto dest: unpack_sound)

lemma enc_inject: "enc v = enc w \<longleftrightarrow> v = w"
proof
  assume eq: "enc v = enc w"
  obtain x where "unpack_from_slice ops (enc v) = Ok x" and "view x = v"
    using unpack_enc by blast
  moreover obtain y where "unpack_from_slice ops (enc w) = Ok y" and "view y = w"
    using unpack_enc by blast
  ultimately show "v = w" using eq by simp
qed simp

lemma accepted_iff:
  "(\<exists>x. unpack_from_slice ops bs = Ok x) \<longleftrightarrow> bs \<in> range enc"
  by (metis rangeE rangeI unpack_enc unpack_sound)

end

locale fixed_slice = packed_slice +
  fixes width :: nat
  assumes length_enc: "length (enc v) = width"
begin

lemma unpack_length: "unpack_from_slice ops bs = Ok x \<Longrightarrow> length bs = width"
  using unpack_sound length_enc by blast

end

text \<open>The same promise for a fixed length \<open>PackedStruct\<close>; the blanket implementation
  turns it into the slice promise.\<close>

locale packed_struct =
  fixes sops :: "'a struct_ops"
    and senc :: "'a \<Rightarrow> bytes"
  assumes pack_senc: "pack sops x = Ok (senc x)"
    and length_senc: "length (senc x) = byte_array_len sops"
    and unpack_senc: "unpack sops (senc x) = Ok x"
    and unpack_sound: "length bs = byte_array_len sops \<Longrightarrow>
      unpack sops bs = Ok x \<Longrightarrow> bs = senc x"
    and unpack_no_panic: "length bs = byte_array_len sops \<Longrightarrow> unpack sops bs \<noteq> Panicked"

sublocale packed_struct \<subseteq> slice: fixed_slice
  "slice_of_struct sops" "\<lambda>_. True" "\<lambda>x. x" senc "byte_array_len sops"
  by unfold_locales
    (auto simp: slice_of_struct_def pack_senc length_senc unpack_senc
      intro: unpack_sound dest: unpack_no_panic split: if_splits)

end
