(* ===== verification/Magic_Epoch.thy ===== *)
theory Magic_Epoch
  imports Packing "HOL-Library.Signed_Division"
begin

text \<open>
  The two leaf types of the message header: \<open>MagicValue<C>\<close>
  (\<open>message/src/magic_value.rs\<close>), a value that is fully determined by its type and whose
  parser only checks the byte, and \<open>MissionEpoch\<close> (\<open>message/src/mission_epoch.rs\<close>), a
  32 bit count of milliseconds since the mission's reference instant, with its conversions
  to and from wall clock time.
\<close>

subsection \<open>MagicValue\<close>

datatype magic_value = MagicValue

lemma magic_value_unique [simp]: "(MagicValue = m) = True" "(m = MagicValue) = True"
  by (cases m; simp)+

datatype ordering = Less | Equal | Greater

fun compare_u8 :: "u8 \<Rightarrow> u8 \<Rightarrow> ordering" where
  "compare_u8 a b = (if a < b then Less else if a = b then Equal else Greater)"

definition magic_pack :: "u8 \<Rightarrow> magic_value \<Rightarrow> bytes result" where
  "magic_pack C m = Ok [C]"

definition magic_unpack :: "u8 \<Rightarrow> bytes \<Rightarrow> magic_value result" where
  "magic_unpack C src = (if take 1 src = [C] then Ok MagicValue else Err InvalidValue)"

definition magic_packed_bits :: nat where
  "magic_packed_bits = 1 * 8"

definition magic_ops :: "u8 \<Rightarrow> magic_value struct_ops" where
  "magic_ops C = \<lparr> byte_array_len = 1, pack = magic_pack C, unpack = magic_unpack C \<rparr>"

text \<open>Values of two magic types are compared by the bytes of the types.\<close>

definition magic_eq :: "u8 \<Rightarrow> u8 \<Rightarrow> magic_value \<Rightarrow> magic_value \<Rightarrow> bool" where
  "magic_eq C D m other \<longleftrightarrow> C = D"

definition magic_partial_cmp :: "u8 \<Rightarrow> u8 \<Rightarrow> magic_value \<Rightarrow> magic_value \<Rightarrow> ordering option" where
  "magic_partial_cmp C D m other = Some (compare_u8 C D)"

text \<open>The serde form is the byte itself; \<open>None\<close> is the custom deserialization error.\<close>

definition magic_serialize :: "u8 \<Rightarrow> magic_value \<Rightarrow> u8" where
  "magic_serialize C m = C"

definition magic_deserialize :: "u8 \<Rightarrow> u8 \<Rightarrow> magic_value option" where
  "magic_deserialize C val = (if val \<noteq> C then None else Some MagicValue)"

lemma magic_unpack_Ok [simp]: "magic_unpack C [b] = Ok m \<longleftrightarrow> b = C"
  by (cases m) (simp add: magic_unpack_def)

lemma magic_unpack_single:
  "magic_unpack C [b] = (if b = C then Ok MagicValue else Err InvalidValue)"
  by (simp add: magic_unpack_def)

lemma magic_unpack_no_panic [simp]: "magic_unpack C bs \<noteq> Panicked"
  by (simp add: magic_unpack_def)

interpretation magic: packed_struct "magic_ops C" "\<lambda>_. [C]" for C
  by unfold_locales
    (auto simp: magic_ops_def magic_pack_def magic_unpack_def length_1_conv
      split: if_splits)

lemma magic_serde: "magic_deserialize C (magic_serialize D m) = Some m \<longleftrightarrow> C = D"
  by (cases m) (auto simp: magic_deserialize_def magic_serialize_def)

subsection \<open>MissionEpoch\<close>

datatype mission_epoch = MissionEpoch (epoch_val: u32)

definition epoch_pack :: "mission_epoch \<Rightarrow> bytes result" where
  "epoch_pack e = Ok (le_bytes 4 (epoch_val e))"

definition epoch_unpack :: "bytes \<Rightarrow> mission_epoch result" where
  "epoch_unpack src = (if length src = 4 then Ok (MissionEpoch (of_le_bytes src)) else Panicked)"

definition epoch_ops :: "mission_epoch struct_ops" where
  "epoch_ops = \<lparr> byte_array_len = 4, pack = epoch_pack, unpack = epoch_unpack \<rparr>"

interpretation mepoch: packed_struct epoch_ops "\<lambda>e. le_bytes 4 (epoch_val e)"
  by unfold_locales (auto simp: epoch_ops_def epoch_pack_def epoch_unpack_def)

text \<open>
  A \<open>DateTime<Utc>\<close> is an instant in nanoseconds since the Unix epoch; the mission epoch is
  midnight of 2022-06-01.  \<open>num_milliseconds\<close> is the number of whole milliseconds of a
  duration (rounded towards zero), Rust's \<open>%\<close> keeps the sign of the dividend, and the cast
  to \<open>u32\<close> keeps the low 32 bits.
\<close>

type_synonym datetime = int

definition EPOCH :: datetime where
  "EPOCH = 1654041600 * 10 ^ 9"

definition num_milliseconds :: "int \<Rightarrow> int" where
  "num_milliseconds dur = dur sdiv 10 ^ 6"

definition datetime_of_epoch :: "mission_epoch \<Rightarrow> datetime" where
  "datetime_of_epoch e = EPOCH + uint (epoch_val e) * 10 ^ 6"

definition epoch_of_datetime :: "datetime \<Rightarrow> mission_epoch" where
  "epoch_of_datetime dt =
     (let dur = dt - EPOCH
      in MissionEpoch (word_of_int (num_milliseconds dur smod (2 ^ 32 - 1))))"

text \<open>\<open>now\<close>, given what the clock shows.\<close>

definition epoch_now :: "datetime \<Rightarrow> mission_epoch" where
  "epoch_now clock = epoch_of_datetime clock"

text \<open>The derived order compares the counts.\<close>

instantiation mission_epoch :: linorder
begin

definition less_eq_mission_epoch :: "mission_epoch \<Rightarrow> mission_epoch \<Rightarrow> bool" where
  "less_eq_mission_epoch a b \<longleftrightarrow> epoch_val a \<le> epoch_val b"

definition less_mission_epoch :: "mission_epoch \<Rightarrow> mission_epoch \<Rightarrow> bool" where
  "less_mission_epoch a b \<longleftrightarrow> epoch_val a < epoch_val b"

instance
  by standard
    (auto simp: less_eq_mission_epoch_def less_mission_epoch_def intro: mission_epoch.expand)

end

lemma num_milliseconds_exact [simp]: "num_milliseconds (k * 10 ^ 6) = k"
  by (simp add: num_milliseconds_def signed_divide_int_def sgn_mult abs_mult mult_sgn_abs)

lemma num_milliseconds_nonneg:
  "0 \<le> dur \<Longrightarrow> num_milliseconds dur = dur div 10 ^ 6"
  by (cases "dur = 0") (simp_all add: num_milliseconds_def signed_divide_int_def)

lemma smod_nonneg: "0 \<le> k \<Longrightarrow> 0 < (l :: int) \<Longrightarrow> k smod l = k mod l"
  by (cases "k = 0") (simp_all add: signed_modulo_int_def)

lemma epoch_of_datetime_after:
  assumes "EPOCH \<le> dt"
  shows "epoch_of_datetime dt =
    MissionEpoch (word_of_int (((dt - EPOCH) div 10 ^ 6) mod (2 ^ 32 - 1)))"
proof -
  have "0 \<le> dt - EPOCH" using assms by simp
  moreover from this have "0 \<le> (dt - EPOCH) div 10 ^ 6" by (simp add: pos_imp_zdiv_nonneg_iff)
  ultimately show ?thesis
    by (simp add: epoch_of_datetime_def num_milliseconds_nonneg smod_nonneg)
qed

text \<open>Readings of the clock whose counts of milliseconds are congruent modulo \<open>u32::MAX\<close> give the
  same epoch.\<close>

lemma epoch_now_eq:
  assumes "EPOCH \<le> t" and "EPOCH \<le> u"
  shows "epoch_now t = epoch_now u \<longleftrightarrow>
    (t - EPOCH) div 10 ^ 6 mod (2 ^ 32 - 1) = (u - EPOCH) div 10 ^ 6 mod (2 ^ 32 - 1)"
proof -
  have small: "uint (word_of_int (k mod (2 ^ 32 - 1)) :: u32) = k mod (2 ^ 32 - 1)" for k :: int
    by (simp add: uint_word_of_int)
  show ?thesis
    unfolding epoch_now_def epoch_of_datetime_after [OF assms(1)] epoch_of_datetime_after [OF assms(2)]
      mission_epoch.inject word_uint_eq_iff small ..
qed

lemma epoch_of_datetime_of_epoch:
  "epoch_of_datetime (datetime_of_epoch e) =
     MissionEpoch (word_of_int (uint (epoch_val e) mod (2 ^ 32 - 1)))"
  by (simp add: epoch_of_datetime_after datetime_of_epoch_def)

text \<open>Wall clock conversion of a mission timestamp.  Converting a timestamp to a
  \<open>DateTime\<close> and back gives the timestamp again, except for the largest one: the
  conversion reduces modulo \<open>u32::MAX\<close>, so \<open>0xffffffff\<close> comes back as 0.\<close>

theorem mission_epoch_datetime_roundtrip:
  "epoch_of_datetime (datetime_of_epoch e) =
     (if epoch_val e = - 1 then MissionEpoch 0 else e)"
proof (cases "epoch_val e = - 1")
  case True
  then show ?thesis by (simp add: epoch_of_datetime_of_epoch unsigned_minus_1_eq_mask mask_eq_exp_minus_1)
next
  case False
  then have "uint (epoch_val e) \<noteq> uint (- 1 :: u32)" by (simp add: word_uint_eq_iff)
  then have "uint (epoch_val e) \<noteq> 2 ^ 32 - 1"
    by (simp add: unsigned_minus_1_eq_mask mask_eq_exp_minus_1)
  moreover have "uint (epoch_val e) < 2 ^ 32" and "0 \<le> uint (epoch_val e)"
    using uint_lt2p [of "epoch_val e"] by simp_all
  ultimately have "uint (epoch_val e) mod (2 ^ 32 - 1) = uint (epoch_val e)" by simp
  with False show ?thesis by (simp add: epoch_of_datetime_of_epoch)
qed

text \<open>Instants before the reference epoch.  They do not fail: a whole millisecond count
  \<open>-k\<close> becomes the timestamp \<open>2^32 - k\<close>, which reads as an instant near the end of the
  50 day range.\<close>

theorem mission_epoch_before_reference:
  assumes "1 \<le> k" and "k < 2 ^ 32 - 1"
  shows "uint (epoch_val (epoch_of_datetime (EPOCH - k * 10 ^ 6))) = 2 ^ 32 - k"
proof -
  have "num_milliseconds (- (k * 10 ^ 6)) = - k"
    using num_milliseconds_exact [of "- k"] by simp
  moreover have "- k smod (2 ^ 32 - 1) = - k"
    using assms by (simp add: signed_modulo_int_def signed_divide_int_def)
  moreover have "(- k) mod 2 ^ 32 = 2 ^ 32 - k"
    using assms by (simp add: zmod_zminus1_eq_if)
  ultimately have "epoch_of_datetime (EPOCH - k * 10 ^ 6) = MissionEpoch (word_of_int (- k))"
    by (simp add: epoch_of_datetime_def)
  moreover have "uint (word_of_int (- k) :: u32) = 2 ^ 32 - k"
    using \<open>(- k) mod 2 ^ 32 = 2 ^ 32 - k\<close> by (simp only: uint_word_of_int) simp
  ultimately show ?thesis by simp
qed

theorem mission_epoch_before_reference_witness:
  "uint (epoch_val (epoch_of_datetime (EPOCH - 1 * 10 ^ 6))) = 4294967295"
  using mission_epoch_before_reference [of 1] by simp

end
