(* ===== verification/Header.thy ===== *)
theory Header
  imports Magic_Epoch
begin

text \<open>
  The 8 byte message header of \<open>message/src/header.rs\<close>: its enums with their
  discriminants, the one byte message type (a disposition bit, an invalid bit and a 6 bit
  event), the packed layout that the struct's attributes declare (most significant bit
  first, little endian timestamp), and the constructors.  The debug build is modelled, so
  the event \<open>DebugCSPing\<close> exists.
\<close>

subsection \<open>Destinations, dispositions and events\<close>

datatype destination = Frontend | CentralStation | Ant | Ground

fun destination_to_primitive :: "destination \<Rightarrow> u8" where
  "destination_to_primitive Frontend = 0x90"
| "destination_to_primitive CentralStation = 0x91"
| "destination_to_primitive Ant = 0x92"
| "destination_to_primitive Ground = 0xde"

definition destination_variants :: "destination list" where
  "destination_variants = [Frontend, CentralStation, Ant, Ground]"

datatype disposition = Command | Ack

fun disposition_to_primitive :: "disposition \<Rightarrow> u8" where
  "disposition_to_primitive Command = 0x0"
| "disposition_to_primitive Ack = 0x1"

definition disposition_variants :: "disposition list" where
  "disposition_variants = [Command, Ack]"

datatype event =
    AntPing
  | AntStart
  | AntCalibrate
  | AntOTA
  | AntStop
  | AntPowerOff
  | AntHeaterOn
  | AntHeaterOff
  | AntMoveForward
  | AntMoveBackward
  | CSGarageOpen
  | CSRoverStop
  | CSRoverMove
  | CSPing
  | CSDFUViaBLE
  | CSDFUSerial
  | CSAntDFUInit
  | CSAntDFUPacket
  | CSRelay
  | CSBLEConnect
  | CSBLEDisconnect
  | FEGarageOpen
  | FERoverStop
  | FERoverMove
  | FEPowerSupplied
  | FEPing
  | FERestart
  | FECSPowerCycled
  | DebugCSPing

fun event_to_primitive :: "event \<Rightarrow> u8" where
  "event_to_primitive AntPing = 0x01"
| "event_to_primitive AntStart = 0x02"
| "event_to_primitive AntCalibrate = 0x03"
| "event_to_primitive AntOTA = 0x04"
| "event_to_primitive AntStop = 0x05"
| "event_to_primitive AntPowerOff = 0x06"
| "event_to_primitive AntHeaterOn = 0x07"
| "event_to_primitive AntHeaterOff = 0x08"
| "event_to_primitive AntMoveForward = 0x09"
| "event_to_primitive AntMoveBackward = 0x0a"
| "event_to_primitive CSGarageOpen = 0x11"
| "event_to_primitive CSRoverStop = 0x12"
| "event_to_primitive CSRoverMove = 0x13"
| "event_to_primitive CSPing = 0x14"
| "event_to_primitive CSDFUViaBLE = 0x15"
| "event_to_primitive CSDFUSerial = 0x16"
| "event_to_primitive CSAntDFUInit = 0x17"
| "event_to_primitive CSAntDFUPacket = 0x18"
| "event_to_primitive CSRelay = 0x19"
| "event_to_primitive CSBLEConnect = 0x1a"
| "event_to_primitive CSBLEDisconnect = 0x1b"
| "event_to_primitive FEGarageOpen = 0x21"
| "event_to_primitive FERoverStop = 0x22"
| "event_to_primitive FERoverMove = 0x23"
| "event_to_primitive FEPowerSupplied = 0x24"
| "event_to_primitive FEPing = 0x25"
| "event_to_primitive FERestart = 0x26"
| "event_to_primitive FECSPowerCycled = 0x27"
| "event_to_primitive DebugCSPing = 0x2f"

definition event_variants :: "event list" where
  "event_variants = [
     AntPing, AntStart, AntCalibrate, AntOTA, AntStop,
     AntPowerOff, AntHeaterOn, AntHeaterOff, AntMoveForward, AntMoveBackward,
     CSGarageOpen, CSRoverStop, CSRoverMove, CSPing, CSDFUViaBLE,
     CSDFUSerial, CSAntDFUInit, CSAntDFUPacket, CSRelay, CSBLEConnect,
     CSBLEDisconnect, FEGarageOpen, FERoverStop, FERoverMove, FEPowerSupplied,
     FEPing, FERestart, FECSPowerCycled, DebugCSPing]"

text \<open>Reading a primitive: the variant that has this discriminant, or
  \<open>InvalidValue\<close>.\<close>

definition from_primitive :: "('e \<Rightarrow> u8) \<Rightarrow> 'e list \<Rightarrow> u8 \<Rightarrow> 'e result" where
  "from_primitive prim vs b =
     (case find (\<lambda>v. prim v = b) vs of None \<Rightarrow> Err InvalidValue | Some v \<Rightarrow> Ok v)"

lemma from_primitive_Ok: "from_primitive prim vs b = Ok v \<Longrightarrow> prim v = b"
  by (auto simp: from_primitive_def find_Some_iff split: option.splits)

lemma from_primitive_no_panic [simp]: "from_primitive prim vs b \<noteq> Panicked"
  by (auto simp: from_primitive_def split: option.splits)

lemma destination_from_to [simp]:
  "from_primitive destination_to_primitive destination_variants (destination_to_primitive d) = Ok d"
  by (cases d) (simp_all add: from_primitive_def destination_variants_def)

lemma disposition_from_to [simp]:
  "from_primitive disposition_to_primitive disposition_variants (disposition_to_primitive d) = Ok d"
  by (cases d) (simp_all add: from_primitive_def disposition_variants_def)

lemma event_from_to [simp]:
  "from_primitive event_to_primitive event_variants (event_to_primitive e) = Ok e"
  by (cases e) (simp_all add: from_primitive_def event_variants_def)

lemma event_to_primitive_inject [simp]:
  "event_to_primitive e = event_to_primitive f \<longleftrightarrow> e = f"
  by (metis event_from_to sum.inject(2))

lemma destination_to_primitive_inject [simp]:
  "destination_to_primitive d = destination_to_primitive e \<longleftrightarrow> d = e"
  by (metis destination_from_to sum.inject(2))

subsection \<open>MessageType\<close>

record message_type =
  disposition :: disposition
  invalid :: bool
  event :: event

text \<open>Bits 0, 1 and 2 to 7 of the byte, counted from the most significant one.\<close>

definition message_type_byte :: "message_type \<Rightarrow> u8" where
  "message_type_byte t =
     push_bit 7 (disposition_to_primitive (disposition t)) OR
     push_bit 6 (of_bool (invalid t)) OR
     event_to_primitive (event t)"

definition message_type_of_byte :: "u8 \<Rightarrow> message_type result" where
  "message_type_of_byte b =
     and_then (from_primitive disposition_to_primitive disposition_variants (drop_bit 7 b)) (\<lambda>d.
     and_then (from_primitive event_to_primitive event_variants (b AND 0x3f)) (\<lambda>e.
       Ok \<lparr> disposition = d, invalid = bit b 6, event = e \<rparr>))"

lemma message_type_of_byte_no_panic [simp]: "message_type_of_byte b \<noteq> Panicked"
  by (auto simp: message_type_of_byte_def and_then_Inl_iff)

lemma event_to_primitive_bits:
  "event_to_primitive e AND 0x3f = event_to_primitive e"
  "drop_bit 6 (event_to_primitive e) = 0"
  by (cases e; simp)+

lemma message_type_byte_fields:
  "drop_bit 7 (message_type_byte t) = disposition_to_primitive (disposition t)"
  "message_type_byte t AND 0x3f = event_to_primitive (event t)"
  "bit (message_type_byte t) 6 = invalid t"
  by (cases t; cases "disposition t"; cases "invalid t"; cases "event t";
      simp add: message_type_byte_def)+

lemma message_type_of_byte_byte [simp]:
  "message_type_of_byte (message_type_byte t) = Ok t"
  by (simp add: message_type_of_byte_def message_type_byte_fields)

lemma byte_split:
  "(b :: u8) = push_bit 7 (drop_bit 7 b) OR push_bit 6 (of_bool (bit b 6)) OR (b AND 0x3f)"
proof (rule bit_word_eqI)
  fix n
  assume "n < LENGTH(8)"
  then have "n \<in> {0, 1, 2, 3, 4, 5, 6, 7}" by auto
  moreover have "(0x3f :: u8) = mask 6" by (simp add: mask_eq_exp_minus_1)
  ultimately show "bit b n =
      bit (push_bit 7 (drop_bit 7 b) OR push_bit 6 (of_bool (bit b 6)) OR (b AND 0x3f)) n"
    by (auto simp: bit_or_iff bit_push_bit_iff bit_drop_bit_eq bit_and_iff bit_mask_iff
        simp del: bit_of_bool_iff)
qed

lemma message_type_of_byte_sound:
  assumes "message_type_of_byte b = Ok t"
  shows "b = message_type_byte t"
proof -
  from assms obtain d e where
    "from_primitive disposition_to_primitive disposition_variants (drop_bit 7 b) = Ok d"
    and "from_primitive event_to_primitive event_variants (b AND 0x3f) = Ok e"
    and t: "t = \<lparr> disposition = d, invalid = bit b 6, event = e \<rparr>"
    by (auto simp: message_type_of_byte_def)
  then have "disposition_to_primitive d = drop_bit 7 b" and "event_to_primitive e = b AND 0x3f"
    by (auto dest: from_primitive_Ok)
  then show ?thesis using byte_split [of b] by (simp add: message_type_byte_def t)
qed

subsection \<open>Header\<close>

definition MAGIC :: u8 where
  "MAGIC = 0xeb"

record header =
  magic :: magic_value
  destination :: destination
  timestamp :: mission_epoch
  seq :: u8
  ty :: message_type

definition header_pack :: "header \<Rightarrow> bytes result" where
  "header_pack h =
     and_then (magic_pack MAGIC (magic h)) (\<lambda>m.
     and_then (epoch_pack (timestamp h)) (\<lambda>t.
       Ok (m @ [destination_to_primitive (destination h)] @ t
         @ [seq h, message_type_byte (ty h)])))"

definition header_unpack :: "bytes \<Rightarrow> header result" where
  "header_unpack src =
     (case src of
        [m, d, t0, t1, t2, t3, s, t] \<Rightarrow>
          and_then (magic_unpack MAGIC [m]) (\<lambda>mg.
          and_then (from_primitive destination_to_primitive destination_variants d) (\<lambda>dst.
          and_then (epoch_unpack [t0, t1, t2, t3]) (\<lambda>ts.
          and_then (message_type_of_byte t) (\<lambda>mt.
            Ok \<lparr> magic = mg, destination = dst, timestamp = ts, seq = s, ty = mt \<rparr>))))
      | _ \<Rightarrow> Panicked)"

definition header_ops :: "header struct_ops" where
  "header_ops = \<lparr> byte_array_len = 8, pack = header_pack, unpack = header_unpack \<rparr>"

definition header_packed_bits :: nat where
  "header_packed_bits = 8 * 8"

text \<open>\<open>SIZE_BYTES\<close>: the packed bits of the header in bytes.\<close>

definition SIZE_BYTES :: nat where
  "SIZE_BYTES = header_packed_bits div 8"

text \<open>The wire form of a header, as one list.\<close>

definition header_enc :: "header \<Rightarrow> bytes" where
  "header_enc h =
     [MAGIC, destination_to_primitive (destination h)] @ le_bytes 4 (epoch_val (timestamp h))
       @ [seq h, message_type_byte (ty h)]"

lemma length_header_enc [simp]: "length (header_enc h) = 8"
  by (simp add: header_enc_def)

lemma header_pack_eq: "header_pack h = Ok (header_enc h)"
  by (simp add: header_pack_def header_enc_def magic_pack_def epoch_pack_def)

lemma list_8_cases:
  assumes "length xs = 8"
  obtains a b c d e f g h where "xs = [a, b, c, d, e, f, g, h]"
  using assms by (auto simp: eval_nat_numeral length_Suc_conv)

lemma le_bytes_4: "le_bytes 4 w =
    [ucast w, ucast (drop_bit 8 w), ucast (drop_bit 16 w), ucast (drop_bit 24 w)]"
  by (simp add: le_bytes_def upt_rec)

lemma header_unpack_enc [simp]: "header_unpack (header_enc h) = Ok h"
proof -
  obtain m d t s y where h: "h = \<lparr> magic = m, destination = d, timestamp = t, seq = s, ty = y \<rparr>"
    by (cases h) auto
  have "header_unpack (header_enc h) =
      and_then (epoch_unpack (le_bytes 4 (epoch_val t))) (\<lambda>ts.
        Ok \<lparr> magic = MagicValue, destination = d, timestamp = ts, seq = s, ty = y \<rparr>)"
    by (simp add: header_unpack_def header_enc_def h le_bytes_4 magic_unpack_single)
  also have "\<dots> = Ok h" by (simp add: epoch_unpack_def h)
  finally show ?thesis .
qed

lemma header_unpack_sound:
  assumes "length bs = 8" and "header_unpack bs = Ok h"
  shows "bs = header_enc h"
proof -
  obtain m d t0 t1 t2 t3 s t where bs: "bs = [m, d, t0, t1, t2, t3, s, t]"
    using assms(1) by (rule list_8_cases)
  with assms(2) obtain dst mt where "m = MAGIC"
    and "from_primitive destination_to_primitive destination_variants d = Ok dst"
    and "message_type_of_byte t = Ok mt"
    and h: "h = \<lparr> magic = MagicValue, destination = dst,
      timestamp = MissionEpoch (of_le_bytes [t0, t1, t2, t3]), seq = s, ty = mt \<rparr>"
    by (auto simp: header_unpack_def epoch_unpack_def magic_unpack_single
        simp del: of_le_bytes.simps split: if_splits)
  then have "destination_to_primitive dst = d" and "message_type_byte mt = t"
    by (auto dest: from_primitive_Ok message_type_of_byte_sound)
  moreover have "le_bytes 4 (of_le_bytes [t0, t1, t2, t3] :: u32) = [t0, t1, t2, t3]"
    by (rule le_bytes_of_le_bytes) simp_all
  ultimately show ?thesis
    using \<open>m = MAGIC\<close> by (simp add: bs header_enc_def h del: of_le_bytes.simps)
qed

lemma header_unpack_no_panic:
  assumes "length bs = 8"
  shows "header_unpack bs \<noteq> Panicked"
  using assms by (rule list_8_cases)
    (auto simp: header_unpack_def epoch_unpack_def and_then_Inl_iff)

interpretation hdr: packed_struct header_ops header_enc
  by unfold_locales
    (auto simp: header_ops_def header_pack_eq header_unpack_no_panic intro: header_unpack_sound)

subsection \<open>Constructors\<close>

record params =
  env_time :: mission_epoch
  env_seq :: u8

datatype unique_id = UniqueId (uid_timestamp: mission_epoch) (uid_seq: u8)

instantiation unique_id :: linorder
begin

definition less_eq_unique_id :: "unique_id \<Rightarrow> unique_id \<Rightarrow> bool" where
  "less_eq_unique_id a b \<longleftrightarrow>
     uid_timestamp a < uid_timestamp b \<or>
     uid_timestamp a = uid_timestamp b \<and> uid_seq a \<le> uid_seq b"

definition less_unique_id :: "unique_id \<Rightarrow> unique_id \<Rightarrow> bool" where
  "less_unique_id a b \<longleftrightarrow>
     uid_timestamp a < uid_timestamp b \<or>
     uid_timestamp a = uid_timestamp b \<and> uid_seq a < uid_seq b"

instance
  by standard (auto simp: less_eq_unique_id_def less_unique_id_def unique_id.expand)

end

definition header_downlink :: "params \<Rightarrow> event \<Rightarrow> header" where
  "header_downlink env evt = \<lparr>
     magic = MagicValue, destination = Ground,
     timestamp = env_time env, seq = env_seq env,
     ty = \<lparr> disposition = Command, invalid = False, event = evt \<rparr> \<rparr>"

definition header_log :: "params \<Rightarrow> event \<Rightarrow> header" where
  "header_log env kind =
     (header_downlink env kind)\<lparr> ty := \<lparr> disposition = Ack, invalid = False, event = FEPing \<rparr> \<rparr>"

definition header_command :: "params \<Rightarrow> destination \<Rightarrow> event \<Rightarrow> header" where
  "header_command env dest evt = \<lparr>
     magic = MagicValue, destination = dest,
     timestamp = env_time env, seq = env_seq env,
     ty = \<lparr> disposition = Command, invalid = False, event = evt \<rparr> \<rparr>"

definition header_unique_id :: "header \<Rightarrow> unique_id" where
  "header_unique_id h = UniqueId (timestamp h) (seq h)"

lemma unique_id_command [simp]:
  "header_unique_id (header_command env d e) = UniqueId (env_time env) (env_seq env)"
  by (simp add: header_unique_id_def header_command_def)

text \<open>The event passed to the log header constructor is not recorded; every log header
  of the same parameters is the same ping acknowledgement.\<close>

theorem header_log_ignores_kind:
  "header_log env kind = header_log env kind' \<and> event (ty (header_log env kind)) = FEPing"
  by (simp add: header_log_def header_downlink_def)

end
