(* ===== verification/Packet.thy ===== *)
theory Packet
  imports Header
begin

text \<open>
  The parts a message is assembled from: the raw payload \<open>BytesWrap\<close>
  (\<open>message/src/bytes_wrap.rs\<close>), the 9 byte \<open>SourceInfo\<close> that an acknowledgement carries
  (\<open>message/src/source_info.rs\<close>) and the generic \<open>HeaderPacket<Header, Payload>\<close>
  (\<open>message/src/header_packet.rs\<close>).  The locale \<open>header_packet_laws\<close> shows that pairing
  two types that keep the packing promise gives a type that keeps it.
\<close>

subsection \<open>BytesWrap\<close>

type_synonym bytes_wrap = bytes

definition bytes_wrap_pack_to_slice :: "bytes_wrap \<Rightarrow> bytes \<Rightarrow> bytes result" where
  "bytes_wrap_pack_to_slice b out = copy_from_slice out b"

definition bytes_wrap_unpack_from_slice :: "bytes \<Rightarrow> bytes_wrap result" where
  "bytes_wrap_unpack_from_slice src = Ok src"

definition bytes_wrap_packed_bytes_size :: "bytes_wrap option \<Rightarrow> nat result" where
  "bytes_wrap_packed_bytes_size opt_self =
     (case opt_self of None \<Rightarrow> Err InstanceRequiredForSize | Some slf \<Rightarrow> Ok (length slf))"

definition bytes_wrap_ops :: "bytes_wrap packed_ops" where
  "bytes_wrap_ops = \<lparr>
     pack_to_slice = bytes_wrap_pack_to_slice,
     unpack_from_slice = bytes_wrap_unpack_from_slice,
     packed_bytes_size = bytes_wrap_packed_bytes_size \<rparr>"

interpretation bw: packed_slice bytes_wrap_ops "\<lambda>_. True" "\<lambda>b. b" "\<lambda>b. b"
  by unfold_locales
    (auto simp: bytes_wrap_ops_def bytes_wrap_pack_to_slice_def bytes_wrap_unpack_from_slice_def
      bytes_wrap_packed_bytes_size_def)

lemma unpack_bytes_wrap [simp]: "unpack_from_slice bytes_wrap_ops bs = Ok bs"
  by (simp add: bytes_wrap_ops_def bytes_wrap_unpack_from_slice_def)

subsection \<open>SourceInfo\<close>

record info =
  info_header :: header
  info_checksum :: u8

datatype source_info = Empty | Info info

definition SOURCE_SIZE :: nat where
  "SOURCE_SIZE = 9"

definition SOURCE_EMPTY :: bytes where
  "SOURCE_EMPTY = replicate SOURCE_SIZE 0"

definition source_invalid :: "source_info \<Rightarrow> bool" where
  "source_invalid s = (case s of Empty \<Rightarrow> False | Info i \<Rightarrow> invalid (ty (info_header i)))"

definition source_pack :: "source_info \<Rightarrow> bytes result" where
  "source_pack s =
     (case s of
        Info i \<Rightarrow>
          and_then (pack_to_slice (slice_of_struct header_ops) (info_header i)
              (replicate (SOURCE_SIZE - 1) 0)) (\<lambda>b.
            Ok (b @ [info_checksum i]))
      | Empty \<Rightarrow> Ok SOURCE_EMPTY)"

definition source_unpack :: "bytes \<Rightarrow> source_info result" where
  "source_unpack src =
     (if length src \<noteq> SOURCE_SIZE then Panicked
      else if src = SOURCE_EMPTY then Ok Empty
      else and_then (unpack_from_slice (slice_of_struct header_ops) (butlast src)) (\<lambda>h.
        Ok (Info \<lparr> info_header = h, info_checksum = last src \<rparr>)))"

definition source_ops :: "source_info struct_ops" where
  "source_ops = \<lparr> byte_array_len = SOURCE_SIZE, pack = source_pack, unpack = source_unpack \<rparr>"

definition source_packed_bits :: nat where
  "source_packed_bits = SOURCE_SIZE * 8"

fun source_enc :: "source_info \<Rightarrow> bytes" where
  "source_enc Empty = replicate 9 0"
| "source_enc (Info i) = header_enc (info_header i) @ [info_checksum i]"

lemma header_ops_sel [simp]: "byte_array_len header_ops = 8" "unpack header_ops = header_unpack"
  by (simp_all add: header_ops_def)

lemma source_ops_sel [simp]: "byte_array_len source_ops = 9" "unpack source_ops = source_unpack"
  by (simp_all add: source_ops_def SOURCE_SIZE_def)

lemma length_source_enc [simp]: "length (source_enc s) = 9"
  by (cases s) simp_all

lemma source_enc_nonempty: "source_enc (Info i) \<noteq> SOURCE_EMPTY"
proof -
  have e: "SOURCE_EMPTY = 0 # replicate 8 0"
    by (simp add: SOURCE_EMPTY_def SOURCE_SIZE_def flip: replicate_Suc)
  show ?thesis unfolding e source_enc.simps header_enc_def MAGIC_def by simp
qed

lemma source_pack_enc: "source_pack s = Ok (source_enc s)"
  by (cases s)
    (simp_all add: source_pack_def SOURCE_EMPTY_def SOURCE_SIZE_def hdr.slice.pack_exact)

lemma unpack_slice_header_enc [simp]:
  "unpack_from_slice (slice_of_struct header_ops) (header_enc h) = Ok h"
  using hdr.slice.unpack_enc [of h] by auto

lemma source_unpack_enc: "source_unpack (source_enc s) = Ok s"
proof (cases s)
  case Empty
  then show ?thesis by (simp add: source_unpack_def SOURCE_EMPTY_def SOURCE_SIZE_def)
next
  case (Info i)
  then show ?thesis using source_enc_nonempty [of i]
    by (simp add: source_unpack_def SOURCE_SIZE_def)
qed

lemma source_unpack_sound:
  assumes "length bs = 9" and "source_unpack bs = Ok s"
  shows "bs = source_enc s"
proof (cases "bs = SOURCE_EMPTY")
  case True
  then show ?thesis using assms by (auto simp: source_unpack_def SOURCE_EMPTY_def SOURCE_SIZE_def)
next
  case False
  with assms obtain h where "unpack_from_slice (slice_of_struct header_ops) (butlast bs) = Ok h"
    and s: "s = Info \<lparr> info_header = h, info_checksum = last bs \<rparr>"
    by (auto simp: source_unpack_def SOURCE_SIZE_def)
  then have "butlast bs = header_enc h" using hdr.slice.unpack_sound by blast
  moreover have "bs \<noteq> []" using assms(1) by auto
  ultimately show ?thesis using append_butlast_last_id [of bs] by (simp add: s)
qed

lemma source_unpack_no_panic: "length bs = 9 \<Longrightarrow> source_unpack bs \<noteq> Panicked"
  using hdr.slice.unpack_no_panic
  by (auto simp: source_unpack_def SOURCE_SIZE_def and_then_Inl_iff)

interpretation src_info: packed_struct source_ops source_enc
  by unfold_locales
    (auto simp: source_ops_def source_pack_enc source_unpack_enc SOURCE_SIZE_def
      source_unpack_no_panic intro: source_unpack_sound)

subsection \<open>HeaderPacket\<close>

record ('h, 'p) header_packet =
  header :: 'h
  payload :: 'p

lemma header_packet_collapse [simp]: "\<lparr> header = header x, payload = payload x \<rparr> = x"
  by (cases x) simp

text \<open>
  \<open>header_bytes\<close>: the header's packed bits in bytes, with the debug assertion that they are
  whole bytes.  The header type of the packet enters as its number of bits and its slice
  dictionary, the payload type as its slice dictionary.
\<close>

definition header_bytes :: "nat \<Rightarrow> nat result" where
  "header_bytes bits = (if bits mod 8 = 0 then Ok (bits div 8) else Panicked)"

definition hp_pack_to_slice ::
  "nat \<Rightarrow> 'h packed_ops \<Rightarrow> 'p packed_ops \<Rightarrow> ('h, 'p) header_packet \<Rightarrow> bytes \<Rightarrow> bytes result" where
  "hp_pack_to_slice bits H P hp out =
     and_then (header_bytes bits) (\<lambda>header_len.
       if header_len > length out then Err BufferTooSmall
       else and_then (split_at header_len out) (\<lambda>(hb, pb).
         and_then (pack_to_slice H (header hp) hb) (\<lambda>hb'.
         and_then (pack_to_slice P (payload hp) pb) (\<lambda>pb'.
           Ok (hb' @ pb')))))"

definition hp_unpack_from_slice ::
  "nat \<Rightarrow> 'h packed_ops \<Rightarrow> 'p packed_ops \<Rightarrow> bytes \<Rightarrow> ('h, 'p) header_packet result" where
  "hp_unpack_from_slice bits H P src =
     and_then (header_bytes bits) (\<lambda>header_len.
       if header_len > length src then Err BufferTooSmall
       else and_then (split_at header_len src) (\<lambda>(hb, pb).
         and_then (unpack_from_slice H hb) (\<lambda>h.
         and_then (unpack_from_slice P pb) (\<lambda>p.
           Ok \<lparr> header = h, payload = p \<rparr>))))"

definition hp_packed_bytes_size ::
  "nat \<Rightarrow> 'p packed_ops \<Rightarrow> ('h, 'p) header_packet option \<Rightarrow> nat result" where
  "hp_packed_bytes_size bits P opt_self =
     and_then (packed_bytes_size P (map_option payload opt_self)) (\<lambda>payload_size.
     and_then (header_bytes bits) (\<lambda>n. Ok (n + payload_size)))"

definition header_packet_ops ::
  "nat \<Rightarrow> 'h packed_ops \<Rightarrow> 'p packed_ops \<Rightarrow> ('h, 'p) header_packet packed_ops" where
  "header_packet_ops bits H P = \<lparr>
     pack_to_slice = hp_pack_to_slice bits H P,
     unpack_from_slice = hp_unpack_from_slice bits H P,
     packed_bytes_size = hp_packed_bytes_size bits P \<rparr>"

definition hp_packed_bits :: "nat \<Rightarrow> nat \<Rightarrow> nat" where
  "hp_packed_bits header_bits payload_bits = header_bits + payload_bits"

text \<open>\<open>payload_into\<close>: repack the payload and read it as another type.\<close>

definition payload_into ::
  "'p packed_ops \<Rightarrow> 't packed_ops \<Rightarrow> ('h, 'p) header_packet \<Rightarrow> ('h, 't) header_packet result" where
  "payload_into P T hp =
     and_then (pack_to_vec P (payload hp)) (\<lambda>packed_payload.
     and_then (unpack_from_slice T packed_payload) (\<lambda>new_payload.
       Ok \<lparr> header = header hp, payload = new_payload \<rparr>))"

locale header_packet_laws =
  H: fixed_slice hops hinv hview henc n + P: packed_slice pops pinv pview penc
  for hops :: "'h packed_ops" and hinv :: "'h \<Rightarrow> bool" and hview :: "'h \<Rightarrow> 'hv"
    and henc :: "'hv \<Rightarrow> bytes" and n :: nat
    and pops :: "'p packed_ops" and pinv :: "'p \<Rightarrow> bool" and pview :: "'p \<Rightarrow> 'pv"
    and penc :: "'pv \<Rightarrow> bytes" +
  fixes bits :: nat
  assumes bits: "bits = 8 * n"
begin

lemma header_bytes_bits [simp]: "header_bytes bits = Ok n"
  by (simp add: header_bytes_def bits)

lemma unpack_split:
  "hp_unpack_from_slice bits hops pops src =
     (if length src < n then Err BufferTooSmall
      else and_then (unpack_from_slice hops (take n src)) (\<lambda>h.
        and_then (unpack_from_slice pops (drop n src)) (\<lambda>p.
          Ok \<lparr> header = h, payload = p \<rparr>)))"
  by (simp add: hp_unpack_from_slice_def)

lemma pack_split:
  "hp_pack_to_slice bits hops pops hp out =
     (if length out < n then Err BufferTooSmall
      else and_then (pack_to_slice hops (header hp) (take n out)) (\<lambda>hb.
        and_then (pack_to_slice pops (payload hp) (drop n out)) (\<lambda>pb. Ok (hb @ pb))))"
  by (simp add: hp_pack_to_slice_def)

end

sublocale header_packet_laws \<subseteq> hp: packed_slice
  "header_packet_ops bits hops pops"
  "\<lambda>x. hinv (header x) \<and> pinv (payload x)"
  "\<lambda>x. \<lparr> header = hview (header x), payload = pview (payload x) \<rparr>"
  "\<lambda>v. henc (header v) @ penc (payload v)"
proof (unfold_locales, goal_cases)
  case (1 x)
  then show ?case
    by (simp add: header_packet_ops_def hp_packed_bytes_size_def P.size_inv H.length_enc)
next
  case (2 x out)
  then show ?case
    by (simp add: header_packet_ops_def pack_split H.length_enc H.pack_exact P.pack_exact)
next
  case (3 v)
  obtain h where "unpack_from_slice hops (henc (header v)) = Ok h" "hinv h" "hview h = header v"
    using H.unpack_enc by blast
  moreover obtain p where "unpack_from_slice pops (penc (payload v)) = Ok p"
    "pinv p" "pview p = payload v"
    using P.unpack_enc by blast
  ultimately show ?case
    by (intro exI [of _ "\<lparr> header = h, payload = p \<rparr>"])
      (simp add: header_packet_ops_def unpack_split H.length_enc)
next
  case (4 bs x)
  then have len: "\<not> length bs < n"
    and "unpack_from_slice hops (take n bs) = Ok (header x)"
    and "unpack_from_slice pops (drop n bs) = Ok (payload x)"
    by (auto simp: header_packet_ops_def unpack_split split: if_splits)
  then have "hinv (header x) \<and> take n bs = henc (hview (header x))"
    and "pinv (payload x) \<and> drop n bs = penc (pview (payload x))"
    by (auto dest: H.unpack_sound P.unpack_sound)
  then show ?case using append_take_drop_id [of n bs] by simp
next
  case (5 bs)
  then show ?case using H.unpack_no_panic P.unpack_no_panic
    by (auto simp: header_packet_ops_def unpack_split and_then_Inl_iff)
qed

locale header_packet_fixed = header_packet_laws +
  fixes m :: nat
  assumes payload_width: "length (penc v) = m"

sublocale header_packet_fixed \<subseteq> hpf: fixed_slice
  "header_packet_ops bits hops pops"
  "\<lambda>x. hinv (header x) \<and> pinv (payload x)"
  "\<lambda>x. \<lparr> header = hview (header x), payload = pview (payload x) \<rparr>"
  "\<lambda>v. henc (header v) @ penc (payload v)" "n + m"
  by unfold_locales (simp add: H.length_enc payload_width)

end
