(* ===== verification/Crc.thy ===== *)
theory Crc
  imports Packet
begin

text \<open>
  The checksum trait and its implementing macro (\<open>message/src/checksum.rs\<close>), and
  \<open>WithCRC<T, CRC>\<close> (\<open>message/src/crc.rs\<close>): a value with a checksum trailer and two
  once-cells that cache the packed bytes and the checksum.  The checksum algorithm itself
  (the crate \<open>crc\<close>) is a parameter.  The locale \<open>with_crc_laws\<close> shows that the caches
  are never observable and that the trailer is appended and checked as promised.
\<close>

subsection \<open>Checksum\<close>

record checksum_ops =
  checksum_size :: nat
  checksum_array :: "bytes \<Rightarrow> bytes"

datatype endian = BE | LE

definition write_uint :: "endian \<Rightarrow> nat \<Rightarrow> 'a::len word \<Rightarrow> bytes" where
  "write_uint e n w = (case e of LE \<Rightarrow> le_bytes n w | BE \<Rightarrow> rev (le_bytes n w))"

definition read_uint :: "endian \<Rightarrow> bytes \<Rightarrow> 'a::len word" where
  "read_uint e bs = of_le_bytes (case e of LE \<Rightarrow> bs | BE \<Rightarrow> rev bs)"

text \<open>The macro's two arms: a one byte checksum is pushed as it is, a wider one is written
  in the given byte order (big endian by default).\<close>

definition impl_checksum_u8 :: "(bytes \<Rightarrow> u8) \<Rightarrow> checksum_ops" where
  "impl_checksum_u8 algo = \<lparr> checksum_size = 1, checksum_array = (\<lambda>vals. [algo vals]) \<rparr>"

definition impl_checksum_uint :: "endian \<Rightarrow> (bytes \<Rightarrow> 'a::len word) \<Rightarrow> checksum_ops" where
  "impl_checksum_uint e algo =
     (let size = LENGTH('a) div 8
      in \<lparr> checksum_size = size, checksum_array = (\<lambda>vals. write_uint e size (algo vals)) \<rparr>)"

locale checksum_laws =
  fixes cops :: checksum_ops
  assumes length_checksum_array: "length (checksum_array cops vals) = checksum_size cops"

interpretation crc_u8: checksum_laws "impl_checksum_u8 algo" for algo
  by unfold_locales (simp add: impl_checksum_u8_def)

interpretation crc_uint: checksum_laws "impl_checksum_uint e algo" for e algo
  by unfold_locales (simp add: impl_checksum_uint_def Let_def write_uint_def split: endian.splits)

lemma read_write_uint:
  "LENGTH('a) = 8 * n \<Longrightarrow> read_uint e (write_uint e n w) = (w :: 'a::len word)"
  by (cases e) (simp_all add: read_uint_def write_uint_def)

lemma checksum_array_reread:
  fixes algo :: "bytes \<Rightarrow> 'a::len word"
  assumes "LENGTH('a) mod 8 = 0"
  shows "length (checksum_array (impl_checksum_uint e algo) vals) = LENGTH('a) div 8"
    and "read_uint e (checksum_array (impl_checksum_uint e algo) vals) = algo vals"
proof -
  show "length (checksum_array (impl_checksum_uint e algo) vals) = LENGTH('a) div 8"
    using crc_uint.length_checksum_array by (simp add: impl_checksum_uint_def Let_def)
  show "read_uint e (checksum_array (impl_checksum_uint e algo) vals) = algo vals"
    using assms by (auto simp: impl_checksum_uint_def Let_def intro: read_write_uint)
qed

subsection \<open>WithCRC\<close>

record 'a with_crc =
  val :: 'a
  cache_bytes :: "bytes result option"
  cache_checksum :: "bytes result option"

definition with_crc_new :: "'a \<Rightarrow> 'a with_crc" where
  "with_crc_new data = \<lparr> val = data, cache_bytes = None, cache_checksum = None \<rparr>"

definition with_crc_take :: "'a with_crc \<Rightarrow> 'a" where
  "with_crc_take w = val w"

text \<open>
  \<open>payload_bytes\<close> and \<open>checksum\<close> fill a once-cell on the first call; the model returns
  the result and the value with its cells after the call.  A panic inside the initializer
  leaves the cell empty.
\<close>

definition payload_bytes :: "'a packed_ops \<Rightarrow> 'a with_crc \<Rightarrow> bytes result \<times> 'a with_crc" where
  "payload_bytes T w =
     (case cache_bytes w of
        Some r \<Rightarrow> (r, w)
      | None \<Rightarrow>
          (let r = pack_to_vec T (val w)
           in (r, if r = Panicked then w else w\<lparr> cache_bytes := Some r \<rparr>)))"

definition with_crc_checksum ::
  "'a packed_ops \<Rightarrow> checksum_ops \<Rightarrow> 'a with_crc \<Rightarrow> bytes result \<times> 'a with_crc" where
  "with_crc_checksum T C w =
     (case cache_checksum w of
        Some r \<Rightarrow> (r, w)
      | None \<Rightarrow>
          (let (p, w') = payload_bytes T w;
               r = and_then p (\<lambda>payload. Ok (checksum_array C payload))
           in (r, if r = Panicked then w' else w'\<lparr> cache_checksum := Some r \<rparr>)))"

definition split_point :: "checksum_ops \<Rightarrow> bytes \<Rightarrow> nat" where
  "split_point C buf = length buf - checksum_size C"

definition wc_packed_bytes_size ::
  "'a packed_ops \<Rightarrow> checksum_ops \<Rightarrow> 'a with_crc option \<Rightarrow> nat result" where
  "wc_packed_bytes_size T C opt_self =
     (case opt_self of
        None \<Rightarrow> Err InstanceRequiredForSize
      | Some slf \<Rightarrow>
          and_then (packed_bytes_size T (Some (val slf))) (\<lambda>n. Ok (n + checksum_size C)))"

definition wc_pack_to_slice ::
  "'a packed_ops \<Rightarrow> checksum_ops \<Rightarrow> 'a with_crc \<Rightarrow> bytes \<Rightarrow> bytes result \<times> 'a with_crc" where
  "wc_pack_to_slice T C w out =
     (let parts =
        and_then (wc_packed_bytes_size T C (Some w)) (\<lambda>size.
        and_then (slice_to size out) (\<lambda>front.
        and_then (split_at (split_point C out) front) (\<lambda>(pl, ck).
          if length ck \<noteq> checksum_size C then Err BufferTooSmall
          else Ok (pl, ck, drop size out))))
      in case parts of
           Inl e \<Rightarrow> (Inl e, w)
         | Inr (pl, ck, rest) \<Rightarrow>
             (let (pb, w1) = payload_bytes T w
              in case and_then pb (copy_from_slice pl) of
                   Inl e \<Rightarrow> (Inl e, w1)
                 | Inr pl' \<Rightarrow>
                     (let (cb, w2) = with_crc_checksum T C w1
                      in (and_then cb (\<lambda>c. and_then (copy_from_slice ck c) (\<lambda>ck'.
                            Ok (pl' @ ck' @ rest))), w2))))"

definition wc_unpack_from_slice ::
  "'a packed_ops \<Rightarrow> checksum_ops \<Rightarrow> bytes \<Rightarrow> 'a with_crc result" where
  "wc_unpack_from_slice T C src =
     and_then (split_at (split_point C src) src) (\<lambda>(pl, src_checksum).
       if length src_checksum \<noteq> checksum_size C then Err BufferTooSmall
       else and_then (unpack_from_slice T pl) (\<lambda>p.
         let (cb, result) = with_crc_checksum T C (with_crc_new p)
         in and_then cb (\<lambda>computed_checksum.
              if src_checksum \<noteq> computed_checksum then Err InvalidValue else Ok result)))"

definition with_crc_ops :: "'a packed_ops \<Rightarrow> checksum_ops \<Rightarrow> 'a with_crc packed_ops" where
  "with_crc_ops T C = \<lparr>
     pack_to_slice = (\<lambda>w out. fst (wc_pack_to_slice T C w out)),
     unpack_from_slice = wc_unpack_from_slice T C,
     packed_bytes_size = wc_packed_bytes_size T C \<rparr>"

text \<open>Equality, order and serde go through the value; deserializing starts with empty cells.\<close>

definition with_crc_eq :: "'a with_crc \<Rightarrow> 'a with_crc \<Rightarrow> bool" where
  "with_crc_eq a b \<longleftrightarrow> val a = val b"

definition with_crc_le :: "'a::linorder with_crc \<Rightarrow> 'a with_crc \<Rightarrow> bool" where
  "with_crc_le a b \<longleftrightarrow> val a \<le> val b"

definition with_crc_serialize :: "('a \<Rightarrow> 's) \<Rightarrow> 'a with_crc \<Rightarrow> 's" where
  "with_crc_serialize ser w = ser (val w)"

definition with_crc_deserialize :: "('s \<Rightarrow> 'a option) \<Rightarrow> 's \<Rightarrow> 'a with_crc option" where
  "with_crc_deserialize de s = map_option with_crc_new (de s)"

lemma with_crc_new_sel [simp]:
  "val (with_crc_new x) = x" "cache_bytes (with_crc_new x) = None"
  "cache_checksum (with_crc_new x) = None"
  by (simp_all add: with_crc_new_def)

text \<open>The cells hold nothing or what would be computed now; the wire form is the packed
  value followed by its checksum.\<close>

definition with_crc_coherent ::
  "('a \<Rightarrow> bool) \<Rightarrow> ('a \<Rightarrow> 'v) \<Rightarrow> ('v \<Rightarrow> bytes) \<Rightarrow> checksum_ops \<Rightarrow> 'a with_crc \<Rightarrow> bool" where
  "with_crc_coherent tinv tview tenc C w \<longleftrightarrow> tinv (val w)
     \<and> (\<forall>r. cache_bytes w = Some r \<longrightarrow> r = Ok (tenc (tview (val w))))
     \<and> (\<forall>r. cache_checksum w = Some r \<longrightarrow> r = Ok (checksum_array C (tenc (tview (val w)))))"

definition with_crc_wire :: "('v \<Rightarrow> bytes) \<Rightarrow> checksum_ops \<Rightarrow> 'v \<Rightarrow> bytes" where
  "with_crc_wire tenc C v = tenc v @ checksum_array C (tenc v)"

locale with_crc_laws =
  T: packed_slice tops tinv tview tenc + C: checksum_laws cops
  for tops :: "'a packed_ops" and tinv :: "'a \<Rightarrow> bool" and tview :: "'a \<Rightarrow> 'v"
    and tenc :: "'v \<Rightarrow> bytes" and cops :: checksum_ops
begin

abbreviation coherent :: "'a with_crc \<Rightarrow> bool" where
  "coherent \<equiv> with_crc_coherent tinv tview tenc cops"

abbreviation wire :: "'v \<Rightarrow> bytes" where
  "wire \<equiv> with_crc_wire tenc cops"

lemma coherent_new [simp]: "coherent (with_crc_new x) \<longleftrightarrow> tinv x"
  by (simp add: with_crc_coherent_def)

lemma payload_bytes_coherent:
  assumes "coherent w"
  obtains w' where "payload_bytes tops w = (Ok (tenc (tview (val w))), w')"
    and "coherent w'" and "val w' = val w"
proof (cases "cache_bytes w")
  case None
  have "tinv (val w)" using assms by (simp add: with_crc_coherent_def)
  then have "payload_bytes tops w =
      (Ok (tenc (tview (val w))), w\<lparr> cache_bytes := Some (Ok (tenc (tview (val w)))) \<rparr>)"
    using None by (simp add: payload_bytes_def Let_def T.pack_to_vec_enc)
  then show ?thesis by (rule that) (use assms in \<open>simp_all add: with_crc_coherent_def\<close>)
next
  case (Some r)
  then have "payload_bytes tops w = (Ok (tenc (tview (val w))), w)"
    using assms by (simp add: payload_bytes_def with_crc_coherent_def)
  then show ?thesis by (rule that) (use assms in simp_all)
qed

lemma checksum_coherent:
  assumes "coherent w"
  obtains w' where
    "with_crc_checksum tops cops w = (Ok (checksum_array cops (tenc (tview (val w)))), w')"
    and "coherent w'" and "val w' = val w"
proof (cases "cache_checksum w")
  case None
  obtain w1 where "payload_bytes tops w = (Ok (tenc (tview (val w))), w1)"
    and "coherent w1" and "val w1 = val w"
    using assms by (rule payload_bytes_coherent)
  then have "with_crc_checksum tops cops w = (Ok (checksum_array cops (tenc (tview (val w)))),
      w1\<lparr> cache_checksum := Some (Ok (checksum_array cops (tenc (tview (val w))))) \<rparr>)"
    using None by (simp add: with_crc_checksum_def Let_def)
  then show ?thesis
    by (rule that)
      (use \<open>coherent w1\<close> \<open>val w1 = val w\<close> in \<open>simp_all add: with_crc_coherent_def\<close>)
next
  case (Some r)
  then have "with_crc_checksum tops cops w = (Ok (checksum_array cops (tenc (tview (val w)))), w)"
    using assms by (simp add: with_crc_checksum_def with_crc_coherent_def)
  then show ?thesis by (rule that) (use assms in simp_all)
qed

lemma size_coherent:
  "coherent w \<Longrightarrow> wc_packed_bytes_size tops cops (Some w) = Ok (length (wire (tview (val w))))"
  by (simp add: wc_packed_bytes_size_def with_crc_coherent_def T.size_inv with_crc_wire_def C.length_checksum_array)

text \<open>Packing into a slice on every length of the slice: exact, one byte or more short, one
  to \<open>CRC_SIZE\<close> bytes too long, longer still.\<close>

lemma pack_to_slice_exact:
  assumes w: "coherent w" and len: "length out = length (wire (tview (val w)))"
  obtains w' where "wc_pack_to_slice tops cops w out = (Ok (wire (tview (val w))), w')"
    and "coherent w'" and "val w' = val w"
proof -
  obtain w1 where 1: "payload_bytes tops w = (Ok (tenc (tview (val w))), w1)"
    "coherent w1" "val w1 = val w"
    using w by (rule payload_bytes_coherent)
  obtain w2 where 2: "with_crc_checksum tops cops w1 =
      (Ok (checksum_array cops (tenc (tview (val w1)))), w2)" "coherent w2" "val w2 = val w1"
    using \<open>coherent w1\<close> by (rule checksum_coherent)
  have "wc_pack_to_slice tops cops w out = (Ok (wire (tview (val w))), w2)"
    using len 1 2 C.length_checksum_array
    by (simp add: wc_pack_to_slice_def size_coherent [OF w] split_point_def with_crc_wire_def
        copy_from_slice_def)
  then show ?thesis using 1 2 that by simp
qed

lemma pack_to_slice_wrong_length:
  assumes w: "coherent w" and len: "length out \<noteq> length (wire (tview (val w)))"
  shows "fst (wc_pack_to_slice tops cops w out) =
    (if length out < length (wire (tview (val w))) then Panicked
     else if length out - length (wire (tview (val w))) \<le> checksum_size cops
       then Err BufferTooSmall else Panicked)"
  using len C.length_checksum_array
  by (auto simp: wc_pack_to_slice_def size_coherent [OF w] split_point_def with_crc_wire_def
      slice_to_def split_at_def)

lemma unpack_cases:
  "wc_unpack_from_slice tops cops src =
     (if length src < checksum_size cops then Err BufferTooSmall
      else and_then (unpack_from_slice tops (take (length src - checksum_size cops) src)) (\<lambda>p.
        if drop (length src - checksum_size cops) src = checksum_array cops (tenc (tview p))
        then Ok (snd (with_crc_checksum tops cops (with_crc_new p)))
        else Err InvalidValue))"
proof (cases "unpack_from_slice tops (take (length src - checksum_size cops) src)")
  case (Inl e)
  then show ?thesis by (auto simp: wc_unpack_from_slice_def split_point_def)
next
  case (Inr p)
  then have "coherent (with_crc_new p)" by (simp add: T.unpack_inv)
  then obtain w' where "with_crc_checksum tops cops (with_crc_new p) =
      (Ok (checksum_array cops (tenc (tview p))), w')"
    by (rule checksum_coherent) simp
  with Inr show ?thesis by (auto simp: wc_unpack_from_slice_def split_point_def)
qed

lemma checked_new:
  assumes "tinv p"
  shows "coherent (snd (with_crc_checksum tops cops (with_crc_new p)))"
    and "val (snd (with_crc_checksum tops cops (with_crc_new p))) = p"
proof -
  have c: "coherent (with_crc_new p)" using assms by simp
  obtain w' where w': "with_crc_checksum tops cops (with_crc_new p) =
      (Ok (checksum_array cops (tenc (tview (val (with_crc_new p))))), w')"
    "coherent w'" "val w' = val (with_crc_new p)"
    using c by (rule checksum_coherent)
  then show "coherent (snd (with_crc_checksum tops cops (with_crc_new p)))"
    and "val (snd (with_crc_checksum tops cops (with_crc_new p))) = p"
    by simp_all
qed

end

sublocale with_crc_laws \<subseteq> wc: packed_slice
  "with_crc_ops tops cops" coherent "\<lambda>w. tview (val w)" wire
proof (unfold_locales, goal_cases)
  case (1 x)
  then show ?case by (simp add: with_crc_ops_def size_coherent)
next
  case (2 x out)
  then obtain w' where "wc_pack_to_slice tops cops x out = (Ok (wire (tview (val x))), w')"
    by (rule pack_to_slice_exact)
  then show ?case by (simp add: with_crc_ops_def)
next
  case (3 v)
  obtain p where p: "unpack_from_slice tops (tenc v) = Ok p" "tinv p" "tview p = v"
    using T.unpack_enc by blast
  let ?w = "snd (with_crc_checksum tops cops (with_crc_new p))"
  have "unpack_from_slice (with_crc_ops tops cops) (wire v) = Ok ?w"
    using p C.length_checksum_array by (simp add: with_crc_ops_def unpack_cases with_crc_wire_def)
  then show ?case using p by (intro exI [of _ ?w]) (simp add: checked_new)
next
  case (4 bs x)
  let ?k = "length bs - checksum_size cops"
  from 4 obtain p where p: "unpack_from_slice tops (take ?k bs) = Ok p"
    and d: "drop ?k bs = checksum_array cops (tenc (tview p))"
    and x: "x = snd (with_crc_checksum tops cops (with_crc_new p))"
    by (auto simp: with_crc_ops_def unpack_cases split: if_splits)
  from p have "tinv p" and "take ?k bs = tenc (tview p)" by (auto dest: T.unpack_sound)
  then show ?case using append_take_drop_id [of ?k bs] d by (simp add: x checked_new with_crc_wire_def)
next
  case (5 bs)
  then show ?case using T.unpack_no_panic
    by (auto simp: with_crc_ops_def unpack_cases and_then_Inl_iff split: if_splits)
qed

end
