(* ===== verification/Message.thy ===== *)
theory Message
  imports Crc
begin

text \<open>
  The message type of \<open>message/src/lib.rs\<close>: \<open>Message = WithCRC<HeaderPacket<
  HeaderWithSource, BytesWrap>, StandardCRC>\<close>, its two constructors, and what its wire
  format promises.  \<open>crc8\<close> stands for the crate \<open>crc\<close>'s checksum with the parameters
  \<open>CRC_8_SMBUS\<close>; no property of it is needed here.
\<close>

type_synonym header_with_source = "(header, source_info) header_packet"
type_synonym message_val = "(header_with_source, bytes_wrap) header_packet"
type_synonym message = "message_val with_crc"

definition StandardCRC :: "(bytes \<Rightarrow> u8) \<Rightarrow> checksum_ops" where
  "StandardCRC crc8 = impl_checksum_u8 crc8"

definition header_with_source_ops :: "header_with_source packed_ops" where
  "header_with_source_ops =
     header_packet_ops header_packed_bits (slice_of_struct header_ops) (slice_of_struct source_ops)"

definition header_with_source_bits :: nat where
  "header_with_source_bits = hp_packed_bits header_packed_bits source_packed_bits"

definition message_val_ops :: "message_val packed_ops" where
  "message_val_ops = header_packet_ops header_with_source_bits header_with_source_ops bytes_wrap_ops"

definition message_ops :: "(bytes \<Rightarrow> u8) \<Rightarrow> message packed_ops" where
  "message_ops crc8 = with_crc_ops message_val_ops (StandardCRC crc8)"

definition message_command :: "params \<Rightarrow> destination \<Rightarrow> event \<Rightarrow> message" where
  "message_command env dest evt =
     with_crc_new \<lparr>
       header = \<lparr> header = header_command env dest evt, payload = Empty \<rparr>,
       payload = [] \<rparr>"

definition message_downlink :: "params \<Rightarrow> bytes \<Rightarrow> message" where
  "message_downlink env b =
     with_crc_new \<lparr>
       header = \<lparr> header = header_downlink env FEPing, payload = Empty \<rparr>,
       payload = b \<rparr>"

abbreviation message_header :: "message \<Rightarrow> header" where
  "message_header m \<equiv> header (header (val m))"

abbreviation message_source :: "message \<Rightarrow> source_info" where
  "message_source m \<equiv> payload (header (val m))"

abbreviation message_payload :: "message \<Rightarrow> bytes_wrap" where
  "message_payload m \<equiv> payload (val m)"

subsection \<open>Wire form\<close>

definition header_with_source_enc :: "header_with_source \<Rightarrow> bytes" where
  "header_with_source_enc hs = header_enc (header hs) @ source_enc (payload hs)"

definition message_val_enc :: "message_val \<Rightarrow> bytes" where
  "message_val_enc v = header_with_source_enc (header v) @ payload v"

definition message_wire :: "(bytes \<Rightarrow> u8) \<Rightarrow> message_val \<Rightarrow> bytes" where
  "message_wire crc8 v = message_val_enc v @ [crc8 (message_val_enc v)]"

definition message_coherent :: "(bytes \<Rightarrow> u8) \<Rightarrow> message \<Rightarrow> bool" where
  "message_coherent crc8 =
     with_crc_coherent (\<lambda>_. True) (\<lambda>v. v) message_val_enc (StandardCRC crc8)"

interpretation hws: header_packet_fixed
  "slice_of_struct header_ops" "\<lambda>_. True" "\<lambda>h. h" header_enc 8
  "slice_of_struct source_ops" "\<lambda>_. True" "\<lambda>s. s" source_enc header_packed_bits 9
  using hdr.slice.fixed_slice_axioms src_info.slice.fixed_slice_axioms
  by (simp add: header_packet_fixed_def header_packet_laws_def header_packet_laws_axioms_def
      header_packet_fixed_axioms_def fixed_slice_def header_packed_bits_def)

lemma header_with_source_fixed:
  "fixed_slice header_with_source_ops (\<lambda>_. True) (\<lambda>v. v) header_with_source_enc 17"
  using hws.hpf.fixed_slice_axioms
  by (simp add: header_with_source_ops_def header_with_source_enc_def [abs_def])

interpretation msg_val: header_packet_laws
  header_with_source_ops "\<lambda>_. True" "\<lambda>v. v" header_with_source_enc 17
  bytes_wrap_ops "\<lambda>_. True" "\<lambda>b. b" "\<lambda>b. b" header_with_source_bits
  using header_with_source_fixed bw.packed_slice_axioms
  by (simp add: header_packet_laws_def header_packet_laws_axioms_def header_with_source_bits_def
      hp_packed_bits_def header_packed_bits_def source_packed_bits_def SOURCE_SIZE_def)

lemma message_val_slice:
  "packed_slice message_val_ops (\<lambda>_. True) (\<lambda>v. v) message_val_enc"
  using msg_val.hp.packed_slice_axioms
  by (simp add: message_val_ops_def message_val_enc_def [abs_def])

interpretation std_crc: checksum_laws "StandardCRC crc8" for crc8
  by unfold_locales (simp add: StandardCRC_def impl_checksum_u8_def)

interpretation msg: with_crc_laws
  message_val_ops "\<lambda>_. True" "\<lambda>v. v" message_val_enc "StandardCRC crc8" for crc8
  by (simp add: with_crc_laws_def message_val_slice std_crc.checksum_laws_axioms)

lemma message_wire_eq: "with_crc_wire message_val_enc (StandardCRC crc8) = message_wire crc8"
  by (simp add: fun_eq_iff with_crc_wire_def message_wire_def StandardCRC_def impl_checksum_u8_def)

lemma message_slice:
  "packed_slice (message_ops crc8) (message_coherent crc8) val (message_wire crc8)"
  using msg.wc.packed_slice_axioms [of crc8]
  by (simp add: message_ops_def message_coherent_def message_wire_eq eta_contract_eq)

interpretation message: packed_slice "message_ops crc8" "message_coherent crc8" val
  "message_wire crc8" for crc8
  by (rule message_slice)

lemma message_coherent_new [simp]: "message_coherent crc8 (with_crc_new v)"
  by (simp add: message_coherent_def)

lemma length_message_wire: "length (message_wire crc8 v) = 18 + length (payload v)"
  by (simp add: message_wire_def message_val_enc_def header_with_source_enc_def)

subsection \<open>Round trip and canonicity\<close>

text \<open>C1: every message survives the wire.  Packing a fresh message gives its wire form
  (header, source, payload, checksum byte) and unpacking that gives a message with the same
  value and coherent caches, for any checksum algorithm.\<close>

theorem message_roundtrip:
  "pack_to_vec (message_ops crc8) (with_crc_new v) = Ok (message_wire crc8 v)
   \<and> (\<exists>m. unpack_from_slice (message_ops crc8) (message_wire crc8 v) = Ok m
        \<and> val m = v \<and> message_coherent crc8 m)"
  using message.pack_to_vec_enc [of crc8 "with_crc_new v"] message.unpack_enc [of crc8 v] by auto

text \<open>C2: the wire format is canonical.  Bytes that are accepted are exactly what packing the
  accepted message produces, so two different byte strings never decode to one message.\<close>

theorem message_canonical:
  assumes "unpack_from_slice (message_ops crc8) bs = Ok m"
  shows "pack_to_vec (message_ops crc8) m = Ok bs \<and> bs = message_wire crc8 (val m)"
  using message.canonical [OF assms] message.unpack_sound [OF assms] by simp

theorem message_canonical_witness:
  "\<exists>m. pack_to_vec (message_ops (\<lambda>_. 7)) m =
      Ok (message_wire (\<lambda>_. 7) (val (message_command \<lparr> env_time = MissionEpoch 5, env_seq = 1 \<rparr> Ant AntPing)))"
proof -
  obtain m where "unpack_from_slice (message_ops (\<lambda>_. 7))
      (message_wire (\<lambda>_. 7) (val (message_command \<lparr> env_time = MissionEpoch 5, env_seq = 1 \<rparr> Ant AntPing))) = Ok m"
    using message.unpack_enc by blast
  from message_canonical [OF this] show ?thesis by blast
qed

subsection \<open>Rejected input\<close>

lemma from_primitive_error: "from_primitive prim vs b = Inl e \<Longrightarrow> e = Fail InvalidValue"
  by (auto simp: from_primitive_def split: option.splits)

lemma header_unpack_error:
  assumes "length bs = 8" and "header_unpack bs = Inl e"
  shows "e = Fail InvalidValue"
proof -
  obtain a b t0 t1 t2 t3 s t where "bs = [a, b, t0, t1, t2, t3, s, t]"
    using assms(1) by (rule list_8_cases)
  with assms(2) show ?thesis
    by (auto simp: header_unpack_def magic_unpack_single epoch_unpack_def message_type_of_byte_def
        and_then_Inl_iff dest: from_primitive_error split: if_splits)
qed

lemma source_unpack_error:
  assumes "length bs = 9" and "source_unpack bs = Inl e"
  shows "e = Fail InvalidValue"
proof -
  have "length (butlast bs) = 8" using assms(1) by simp
  with assms show ?thesis
    by (auto simp: source_unpack_def SOURCE_SIZE_def and_then_Inl_iff unpack_slice_of_struct
        dest!: header_unpack_error [rotated] split: if_splits)
qed

lemma header_with_source_unpack_error:
  assumes "length bs = 17" and "unpack_from_slice header_with_source_ops bs = Inl e"
  shows "e = Fail InvalidValue"
proof -
  have "length (take 8 bs) = 8" and "length (drop 8 bs) = 9" using assms(1) by simp_all
  with assms show ?thesis
    by (auto simp: header_with_source_ops_def header_packet_ops_def hws.unpack_split
        and_then_Inl_iff unpack_slice_of_struct dest!: header_unpack_error [rotated] source_unpack_error [rotated])
qed

lemma unpack_message_val:
  "unpack_from_slice message_val_ops bs =
     (if length bs < 17 then Err BufferTooSmall
      else and_then (unpack_from_slice header_with_source_ops (take 17 bs)) (\<lambda>h.
        Ok \<lparr> header = h, payload = drop 17 bs \<rparr>))"
  by (simp add: message_val_ops_def header_packet_ops_def msg_val.unpack_split)

lemma unpack_message:
  "unpack_from_slice (message_ops crc8) = wc_unpack_from_slice message_val_ops (StandardCRC crc8)"
  by (simp add: message_ops_def with_crc_ops_def)

lemma StandardCRC_sel [simp]:
  "checksum_size (StandardCRC crc8) = 1" "checksum_array (StandardCRC crc8) bs = [crc8 bs]"
  by (simp_all add: StandardCRC_def impl_checksum_u8_def)

lemma message_unpack_split:
  "unpack_from_slice (message_ops crc8) bs =
     (if length bs < 18 then Err BufferTooSmall
      else and_then (unpack_from_slice header_with_source_ops (take 17 bs)) (\<lambda>h.
        let v = \<lparr> header = h, payload = drop 17 (butlast bs) \<rparr>
        in if last bs = crc8 (message_val_enc v)
           then Ok (snd (with_crc_checksum message_val_ops (StandardCRC crc8) (with_crc_new v)))
           else Err InvalidValue))"
proof (cases "length bs < 18")
  case True
  then have "length bs - 1 < 17" by simp
  then show ?thesis using True
    by (auto simp: unpack_message msg.unpack_cases unpack_message_val)
next
  case False
  then obtain n where n: "length bs = 18 + n" by (metis le_iff_add not_less)
  then have "bs \<noteq> []" and "take 17 (butlast bs) = take 17 bs"
    by (auto simp: butlast_conv_take min_def)
  moreover from this have "drop (17 + n) bs = [last bs]" and "take (17 + n) bs = butlast bs"
    using split_last [of bs] n by simp_all
  ultimately show ?thesis using n
    by (cases "unpack_from_slice header_with_source_ops (take 17 bs)")
      (auto simp: unpack_message msg.unpack_cases unpack_message_val Let_def)
qed

lemma message_unpack_short: "length bs < 18 \<Longrightarrow> unpack_from_slice (message_ops crc8) bs = Err BufferTooSmall"
  by (simp add: message_unpack_split)

lemma message_unpack_error:
  assumes "18 \<le> length bs" and "unpack_from_slice (message_ops crc8) bs = Inl e"
  shows "e = Fail InvalidValue"
proof -
  have "length (take 17 bs) = 17" using assms(1) by simp
  with assms show ?thesis
    by (auto simp: message_unpack_split and_then_Inl_iff Let_def
        dest!: header_with_source_unpack_error [rotated] split: if_splits)
qed

lemma message_too_small_iff:
  "unpack_from_slice (message_ops crc8) bs = Err BufferTooSmall \<longleftrightarrow> length bs < 18"
proof (cases "length bs < 18")
  case True
  then show ?thesis by (simp add: message_unpack_short)
next
  case False
  then show ?thesis using message_unpack_error [of bs crc8 "Fail BufferTooSmall"] by auto
qed

lemma message_invalid_iff:
  "unpack_from_slice (message_ops crc8) bs = Err InvalidValue
     \<longleftrightarrow> 18 \<le> length bs \<and> bs \<notin> range (message_wire crc8)"
proof (cases "unpack_from_slice (message_ops crc8) bs")
  case (Inl e)
  then have "bs \<notin> range (message_wire crc8)" using message.accepted_iff [of crc8 bs] by auto
  moreover have "18 \<le> length bs \<Longrightarrow> e = Fail InvalidValue" using Inl message_unpack_error by blast
  moreover have "\<not> 18 \<le> length bs \<Longrightarrow> e = Fail BufferTooSmall" using Inl message_unpack_short [of bs crc8] by simp
  ultimately show ?thesis using Inl by auto
next
  case (Inr m)
  then show ?thesis using message.accepted_iff [of crc8 bs] by auto
qed

text \<open>C3: the fate of every byte string offered to the message parser.  Fewer than 18 bytes
  are \<open>BufferTooSmall\<close>; a wire form of some message is accepted; everything else is
  \<open>InvalidValue\<close>.  No input makes the parser panic or report another error.\<close>

theorem message_unpack_total:
  "(unpack_from_slice (message_ops crc8) bs = Err BufferTooSmall \<longleftrightarrow> length bs < 18)
   \<and> ((\<exists>m. unpack_from_slice (message_ops crc8) bs = Ok m) \<longleftrightarrow> bs \<in> range (message_wire crc8))
   \<and> (unpack_from_slice (message_ops crc8) bs = Err InvalidValue
        \<longleftrightarrow> 18 \<le> length bs \<and> bs \<notin> range (message_wire crc8))"
  by (simp add: message_too_small_iff message_invalid_iff message.accepted_iff)

lemma message_val_enc_inject [simp]: "message_val_enc v = message_val_enc w \<longleftrightarrow> v = w"
  by (rule packed_slice.enc_inject [OF message_val_slice])

lemma length_message_val_enc [simp]: "length (message_val_enc v) = 17 + length (payload v)"
  by (simp add: message_val_enc_def header_with_source_enc_def)

lemma message_wire_snoc:
  "message_val_enc v @ [c] = message_wire crc8 w \<longleftrightarrow> w = v \<and> c = crc8 (message_val_enc v)"
  by (auto simp: message_wire_def)

text \<open>The trailing byte is a checksum of everything before it.  With any other trailing
  byte a packed message is rejected as \<open>InvalidValue\<close>; with the right one it is the
  message again.\<close>

theorem message_checksum_guard:
  "((\<exists>m. unpack_from_slice (message_ops crc8) (message_val_enc v @ [c]) = Ok m \<and> val m = v)
      \<longleftrightarrow> c = crc8 (message_val_enc v))
   \<and> (unpack_from_slice (message_ops crc8) (message_val_enc v @ [c]) = Err InvalidValue
      \<longleftrightarrow> c \<noteq> crc8 (message_val_enc v))"
proof
  show "(\<exists>m. unpack_from_slice (message_ops crc8) (message_val_enc v @ [c]) = Ok m \<and> val m = v)
      \<longleftrightarrow> c = crc8 (message_val_enc v)"
  proof
    assume "\<exists>m. unpack_from_slice (message_ops crc8) (message_val_enc v @ [c]) = Ok m \<and> val m = v"
    then show "c = crc8 (message_val_enc v)"
      by (auto dest!: message.unpack_sound simp: message_wire_snoc)
  next
    assume "c = crc8 (message_val_enc v)"
    then have "message_val_enc v @ [c] = message_wire crc8 v" by (simp add: message_wire_def)
    then show "\<exists>m. unpack_from_slice (message_ops crc8) (message_val_enc v @ [c]) = Ok m \<and> val m = v"
      using message.unpack_enc [of crc8 v] by auto
  qed
  show "unpack_from_slice (message_ops crc8) (message_val_enc v @ [c]) = Err InvalidValue
      \<longleftrightarrow> c \<noteq> crc8 (message_val_enc v)"
    by (auto simp: message_invalid_iff image_iff message_wire_snoc)
qed

subsection \<open>The caches are not observable\<close>

datatype crc_call = PayloadBytesCall | ChecksumCall | PackCall bytes

text \<open>Any sequence of the calls that fill the cells, applied to one message.\<close>

fun crc_calls :: "(bytes \<Rightarrow> u8) \<Rightarrow> message \<Rightarrow> crc_call list \<Rightarrow> message" where
  "crc_calls crc8 m [] = m"
| "crc_calls crc8 m (PayloadBytesCall # cs) =
     crc_calls crc8 (snd (payload_bytes message_val_ops m)) cs"
| "crc_calls crc8 m (ChecksumCall # cs) =
     crc_calls crc8 (snd (with_crc_checksum message_val_ops (StandardCRC crc8) m)) cs"
| "crc_calls crc8 m (PackCall out # cs) =
     crc_calls crc8 (snd (wc_pack_to_slice message_val_ops (StandardCRC crc8) m out)) cs"

lemma message_payload_bytes:
  assumes "message_coherent crc8 m"
  shows "fst (payload_bytes message_val_ops m) = Ok (message_val_enc (val m))"
    and "message_coherent crc8 (snd (payload_bytes message_val_ops m))"
    and "val (snd (payload_bytes message_val_ops m)) = val m"
  by (rule msg.payload_bytes_coherent [OF assms [unfolded message_coherent_def]],
      simp add: message_coherent_def)+

lemma message_checksum:
  assumes "message_coherent crc8 m"
  shows "fst (with_crc_checksum message_val_ops (StandardCRC crc8) m) = Ok [crc8 (message_val_enc (val m))]"
    and "message_coherent crc8 (snd (with_crc_checksum message_val_ops (StandardCRC crc8) m))"
    and "val (snd (with_crc_checksum message_val_ops (StandardCRC crc8) m)) = val m"
  by (rule msg.checksum_coherent [OF assms [unfolded message_coherent_def]],
      simp add: message_coherent_def)+

lemma message_pack_state:
  assumes "message_coherent crc8 m"
  shows "message_coherent crc8 (snd (wc_pack_to_slice message_val_ops (StandardCRC crc8) m out))
    \<and> val (snd (wc_pack_to_slice message_val_ops (StandardCRC crc8) m out)) = val m"
proof -
  note pb = message_payload_bytes [OF assms]
  note cs = message_checksum [OF pb(2)]
  show ?thesis using assms pb cs
    by (auto simp: wc_pack_to_slice_def Let_def split: sum.splits prod.splits)
qed

lemma crc_calls_coherent:
  "message_coherent crc8 m \<Longrightarrow>
     message_coherent crc8 (crc_calls crc8 m cs) \<and> val (crc_calls crc8 m cs) = val m"
  by (induction crc8 m cs rule: crc_calls.induct)
    (auto simp: message_payload_bytes message_checksum message_pack_state)

text \<open>The once-cells of \<open>WithCRC\<close> never change an answer.  After any sequence of calls
  that fill them, the value, the payload bytes, the checksum and the packed form are what
  they are for a fresh message.\<close>

theorem message_caches_transparent:
  "let m = crc_calls crc8 (with_crc_new v) cs
   in val m = v
      \<and> fst (payload_bytes message_val_ops m) = Ok (message_val_enc v)
      \<and> fst (with_crc_checksum message_val_ops (StandardCRC crc8) m) = Ok [crc8 (message_val_enc v)]
      \<and> pack_to_vec (message_ops crc8) m = Ok (message_wire crc8 v)"
  using crc_calls_coherent [of crc8 "with_crc_new v" cs]
    message_payload_bytes(1) [of crc8 "crc_calls crc8 (with_crc_new v) cs"]
    message_checksum(1) [of crc8 "crc_calls crc8 (with_crc_new v) cs"]
  by (simp add: Let_def message.pack_to_vec_enc)

text \<open>Packing into a caller's slice succeeds for exactly one slice length.  A shorter slice
  panics, one extra byte is reported as \<open>BufferTooSmall\<close>, and any longer slice panics,
  because the split point is taken from the whole slice and not from the part in use.\<close>

theorem message_pack_slice_length:
  assumes "message_coherent crc8 m"
  shows "pack_to_slice (message_ops crc8) m out =
    (let n = 18 + length (message_payload m)
     in if length out = n then Ok (message_wire crc8 (val m))
        else if length out = n + 1 then Err BufferTooSmall
        else Panicked)"
proof (cases "length out = 18 + length (message_payload m)")
  case True
  then show ?thesis
    using message.pack_exact [OF assms, of out] by (simp add: Let_def length_message_wire)
next
  case False
  then show ?thesis
    using msg.pack_to_slice_wrong_length [OF assms [unfolded message_coherent_def], of out]
    by (auto simp: Let_def message_ops_def with_crc_ops_def message_wire_eq length_message_wire)
qed

theorem message_pack_slice_length_witness:
  "pack_to_slice (message_ops (\<lambda>_. 7))
     (message_command \<lparr> env_time = MissionEpoch 5, env_seq = 1 \<rparr> Ant AntPing) (replicate 20 0) = Panicked"
proof -
  have "message_coherent (\<lambda>_. 7)
      (message_command \<lparr> env_time = MissionEpoch 5, env_seq = 1 \<rparr> Ant AntPing)"
    by (simp add: message_command_def)
  from message_pack_slice_length [OF this, of "replicate 20 0"] show ?thesis
    by (simp add: Let_def message_command_def)
qed

end
