(* ===== verification/Payloads.thy ===== *)
theory Payloads
  imports Message
begin

text \<open>
  The payload types of \<open>message/src\<close>: vectors, the ant's telemetry (\<open>ant.rs\<close>), the
  central station's telemetry (\<open>cs.rs\<close>), the relay message in which the central station
  passes an ant packet on (\<open>AntPacket\<close>, \<open>CSRelay\<close> of \<open>lib.rs\<close>), and the relay's own
  status and log headers (\<open>payload/\<close>).  All but the central station's payload consist of
  whole bytes and are packed as their attributes say; that one has a one bit field before a
  two byte field, and how the derive macro lays that out is not in the sources: its packing
  is a parameter \<open>C\<close>.
\<close>

subsection \<open>Fields of a byte string\<close>

definition field :: "bytes \<Rightarrow> nat \<Rightarrow> nat \<Rightarrow> bytes" where
  "field bs off n = take n (drop off bs)"

lemma length_field: "off + n \<le> length bs \<Longrightarrow> length (field bs off n) = n"
  by (simp add: field_def)

lemma field_join: "m = off + n \<Longrightarrow> field bs off n @ field bs m k = field bs off (n + k)"
  by (simp only: field_def take_add drop_drop add.commute [of n off])

lemma field_join_left:
  "m = off + n \<Longrightarrow> field bs off n @ (field bs m k @ xs) = field bs off (n + k) @ xs"
  using field_join [of m off n bs k] by (metis append.assoc)

lemma field_all: "length bs = n \<Longrightarrow> field bs 0 n = bs"
  by (simp add: field_def)

subsection \<open>Vec3\<close>

record vec3 =
  vec_x :: u32
  vec_y :: u32
  vec_z :: u32

definition vec3_pack :: "vec3 \<Rightarrow> bytes" where
  "vec3_pack v = le_bytes 4 (vec_x v) @ le_bytes 4 (vec_y v) @ le_bytes 4 (vec_z v)"

definition vec3_unpack :: "bytes \<Rightarrow> vec3" where
  "vec3_unpack bs = \<lparr> vec_x = of_le_bytes (field bs 0 4), vec_y = of_le_bytes (field bs 4 4),
     vec_z = of_le_bytes (field bs 8 4) \<rparr>"

lemma length_vec3_pack [simp]: "length (vec3_pack v) = 12"
  by (simp add: vec3_pack_def)

lemma vec3_unpack_pack [simp]: "vec3_unpack (vec3_pack v) = v"
  by (cases v) (simp add: vec3_unpack_def vec3_pack_def field_def)

lemma vec3_pack_unpack [simp]: "length bs = 12 \<Longrightarrow> vec3_pack (vec3_unpack bs) = bs"
  by (simp add: vec3_pack_def vec3_unpack_def length_field field_join field_join_left field_all)

subsection \<open>The ant's payload\<close>

record ant_payload =
  pcb_temp :: u16
  battery_temp :: u16
  battery_voltage :: u8
  fram_usage :: u16
  gyro :: vec3
  accelerometer :: vec3
  calipile_object :: u32
  calipile_ambient :: u32
  orientation :: u16
  steer :: u8
  ant_r0 :: u64
  ant_r1 :: u16

definition ant_payload_pack :: "ant_payload \<Rightarrow> bytes" where
  "ant_payload_pack p =
     le_bytes 2 (pcb_temp p) @ le_bytes 2 (battery_temp p) @ [battery_voltage p]
     @ le_bytes 2 (fram_usage p) @ vec3_pack (gyro p) @ vec3_pack (accelerometer p)
     @ le_bytes 4 (calipile_object p) @ le_bytes 4 (calipile_ambient p)
     @ le_bytes 2 (orientation p) @ [steer p] @ le_bytes 8 (ant_r0 p) @ le_bytes 2 (ant_r1 p)"

definition ant_payload_unpack :: "bytes \<Rightarrow> ant_payload" where
  "ant_payload_unpack bs = \<lparr>
     pcb_temp = of_le_bytes (field bs 0 2),
     battery_temp = of_le_bytes (field bs 2 2),
     battery_voltage = of_le_bytes (field bs 4 1),
     fram_usage = of_le_bytes (field bs 5 2),
     gyro = vec3_unpack (field bs 7 12),
     accelerometer = vec3_unpack (field bs 19 12),
     calipile_object = of_le_bytes (field bs 31 4),
     calipile_ambient = of_le_bytes (field bs 35 4),
     orientation = of_le_bytes (field bs 39 2),
     steer = of_le_bytes (field bs 41 1),
     ant_r0 = of_le_bytes (field bs 42 8),
     ant_r1 = of_le_bytes (field bs 50 2) \<rparr>"

definition ant_payload_ops :: "ant_payload struct_ops" where
  "ant_payload_ops = \<lparr> byte_array_len = 52, pack = (\<lambda>p. Ok (ant_payload_pack p)),
     unpack = (\<lambda>bs. Ok (ant_payload_unpack bs)) \<rparr>"

lemma length_ant_payload_pack [simp]: "length (ant_payload_pack p) = 52"
  by (simp add: ant_payload_pack_def)

lemma of_le_bytes_single [simp]: "of_le_bytes [b] = (b :: u8)"
  by simp

lemma ant_payload_unpack_pack: "ant_payload_unpack (ant_payload_pack p) = p"
  by (cases p) (simp add: ant_payload_unpack_def ant_payload_pack_def field_def)

lemma single_field:
  assumes "off < length bs"
  shows "(of_le_bytes (field bs off (Suc 0)) :: u8) # xs = field bs off (Suc 0) @ xs"
proof -
  obtain b r where "drop off bs = b # r" using assms by (cases "drop off bs") auto
  then show ?thesis by (simp add: field_def)
qed

lemma ant_payload_pack_unpack: "length bs = 52 \<Longrightarrow> ant_payload_pack (ant_payload_unpack bs) = bs"
  by (simp add: ant_payload_pack_def ant_payload_unpack_def length_field single_field
      field_join field_join_left field_all)

interpretation ant_pl: packed_struct ant_payload_ops ant_payload_pack
  by unfold_locales
    (auto simp: ant_payload_ops_def ant_payload_unpack_pack ant_payload_pack_unpack)

subsection \<open>Ant packets\<close>

type_synonym ant_packet_val = "(header_with_source, ant_payload) header_packet"
type_synonym ant_packet = "ant_packet_val with_crc"

definition ant_packet_val_ops :: "ant_packet_val packed_ops" where
  "ant_packet_val_ops =
     header_packet_ops header_with_source_bits header_with_source_ops (slice_of_struct ant_payload_ops)"

definition ant_packet_ops :: "(bytes \<Rightarrow> u8) \<Rightarrow> ant_packet packed_ops" where
  "ant_packet_ops crc8 = with_crc_ops ant_packet_val_ops (StandardCRC crc8)"

definition ant_packet_enc :: "ant_packet_val \<Rightarrow> bytes" where
  "ant_packet_enc v = header_with_source_enc (header v) @ ant_payload_pack (payload v)"

definition ant_packet_wire :: "(bytes \<Rightarrow> u8) \<Rightarrow> ant_packet_val \<Rightarrow> bytes" where
  "ant_packet_wire crc8 v = ant_packet_enc v @ [crc8 (ant_packet_enc v)]"

definition ant_packet_coherent :: "(bytes \<Rightarrow> u8) \<Rightarrow> ant_packet \<Rightarrow> bool" where
  "ant_packet_coherent crc8 =
     with_crc_coherent (\<lambda>_. True) (\<lambda>v. v) ant_packet_enc (StandardCRC crc8)"

abbreviation ant_packet_source :: "ant_packet \<Rightarrow> source_info" where
  "ant_packet_source p \<equiv> payload (header (val p))"

interpretation ant_val: header_packet_laws
  header_with_source_ops "\<lambda>_. True" "\<lambda>v. v" header_with_source_enc 17
  "slice_of_struct ant_payload_ops" "\<lambda>_. True" "\<lambda>b. b" ant_payload_pack header_with_source_bits
  using header_with_source_fixed ant_pl.slice.packed_slice_axioms
  by (simp add: header_packet_laws_def header_packet_laws_axioms_def header_with_source_bits_def
      hp_packed_bits_def header_packed_bits_def source_packed_bits_def SOURCE_SIZE_def)

lemma ant_packet_val_slice:
  "packed_slice ant_packet_val_ops (\<lambda>_. True) (\<lambda>v. v) ant_packet_enc"
  using ant_val.hp.packed_slice_axioms
  by (simp add: ant_packet_val_ops_def ant_packet_enc_def [abs_def])

interpretation ant_crc: with_crc_laws
  ant_packet_val_ops "\<lambda>_. True" "\<lambda>v. v" ant_packet_enc "StandardCRC crc8" for crc8
  by (simp add: with_crc_laws_def ant_packet_val_slice std_crc.checksum_laws_axioms)

lemma ant_packet_wire_eq: "with_crc_wire ant_packet_enc (StandardCRC crc8) = ant_packet_wire crc8"
  by (simp add: fun_eq_iff with_crc_wire_def ant_packet_wire_def StandardCRC_def impl_checksum_u8_def)

interpretation ant_packet: packed_slice "ant_packet_ops crc8" "ant_packet_coherent crc8" val
  "ant_packet_wire crc8" for crc8
  using ant_crc.wc.packed_slice_axioms [of crc8]
  by (simp add: ant_packet_ops_def ant_packet_coherent_def ant_packet_wire_eq eta_contract_eq)

lemma length_header_with_source_enc [simp]: "length (header_with_source_enc h) = 17"
  by (simp add: header_with_source_enc_def)

lemma length_ant_packet_wire [simp]: "length (ant_packet_wire crc8 v) = 70"
  by (simp add: ant_packet_wire_def ant_packet_enc_def)

text \<open>C30: ant packets are accepted exactly in their wire form.  Every byte string that the ant
  packet parser accepts has 70 bytes and is what packing the accepted packet gives; packing a
  fresh packet and parsing that gives the packet back; no input makes the parser panic.\<close>

theorem ant_packet_exact:
  "((\<exists>p. unpack_from_slice (ant_packet_ops crc8) bs = Ok p \<and> val p = v)
     \<longleftrightarrow> bs = ant_packet_wire crc8 v)
   \<and> pack_to_vec (ant_packet_ops crc8) (with_crc_new v) = Ok (ant_packet_wire crc8 v)
   \<and> length (ant_packet_wire crc8 v) = 70
   \<and> unpack_from_slice (ant_packet_ops crc8) bs \<noteq> Panicked"
proof (intro conjI)
  show "(\<exists>p. unpack_from_slice (ant_packet_ops crc8) bs = Ok p \<and> val p = v)
     \<longleftrightarrow> bs = ant_packet_wire crc8 v"
    using ant_packet.unpack_enc [of crc8 v] ant_packet.unpack_sound [of crc8 bs] by blast
  have "ant_packet_coherent crc8 (with_crc_new v)"
    by (simp add: ant_packet_coherent_def)
  from ant_packet.pack_to_vec_enc [OF this]
  show "pack_to_vec (ant_packet_ops crc8) (with_crc_new v) = Ok (ant_packet_wire crc8 v)"
    by (simp add: with_crc_new_def)
qed (simp_all add: ant_packet.unpack_no_panic)

subsection \<open>The central station's payload and the relay message\<close>

record cs_payload =
  temperature :: u16
  power_5v :: u8
  power_vcc :: u8
  fram_used :: u8
  accel :: vec3
  heat_enabled :: bool
  cs_r0 :: u16

type_synonym cs_relay = "(cs_payload, ant_packet) header_packet"

text \<open>The size that the attribute of \<open>cs::Payload\<close> declares, in bits.\<close>

definition cs_payload_bits :: nat where
  "cs_payload_bits = 20 * 8"

definition cs_relay_ops :: "cs_payload struct_ops \<Rightarrow> (bytes \<Rightarrow> u8) \<Rightarrow> cs_relay packed_ops" where
  "cs_relay_ops C crc8 =
     header_packet_ops cs_payload_bits (slice_of_struct C) (ant_packet_ops crc8)"

lemma unpack_cs_relay:
  assumes "byte_array_len C = 20"
  shows "unpack_from_slice (cs_relay_ops C crc8) bs =
    (if length bs < 20 then Err BufferTooSmall
     else and_then (unpack C (take 20 bs)) (\<lambda>cs.
       and_then (unpack_from_slice (ant_packet_ops crc8) (drop 20 bs)) (\<lambda>p.
         Ok \<lparr> header = cs, payload = p \<rparr>)))"
  by (simp add: cs_relay_ops_def header_packet_ops_def hp_unpack_from_slice_def cs_payload_bits_def
      header_bytes_def slice_of_struct_def assms)

text \<open>A packing of the central station's payload for concrete inputs: whole bytes, with the
  flag in the highest bit of its own byte and the reserved bytes dropped.\<close>

definition cs_bytewise :: "cs_payload struct_ops" where
  "cs_bytewise = \<lparr> byte_array_len = 20,
     pack = (\<lambda>p. Ok (le_bytes 2 (temperature p) @ [power_5v p, power_vcc p, fram_used p]
       @ vec3_pack (accel p) @ [if heat_enabled p then 0x80 else 0, 0, 0])),
     unpack = (\<lambda>bs. Ok \<lparr> temperature = of_le_bytes (field bs 0 2),
       power_5v = of_le_bytes (field bs 2 1), power_vcc = of_le_bytes (field bs 3 1),
       fram_used = of_le_bytes (field bs 4 1), accel = vec3_unpack (field bs 5 12),
       heat_enabled = bit (of_le_bytes (field bs 17 1) :: u8) 7, cs_r0 = 0 \<rparr>) \<rparr>"

lemma relay_unpack_iff:
  assumes "byte_array_len C = 20"
  shows "(\<exists>r. unpack_from_slice (cs_relay_ops C crc8) bs = Ok r
        \<and> header r = cs \<and> val (payload r) = v)
    \<longleftrightarrow> (\<exists>cb. length cb = 20 \<and> unpack C cb = Ok cs \<and> bs = cb @ ant_packet_wire crc8 v)"
proof
  assume "\<exists>r. unpack_from_slice (cs_relay_ops C crc8) bs = Ok r \<and> header r = cs \<and> val (payload r) = v"
  then obtain p where "\<not> length bs < 20" "unpack C (take 20 bs) = Ok cs"
    "unpack_from_slice (ant_packet_ops crc8) (drop 20 bs) = Ok p" "val p = v"
    by (auto simp: unpack_cs_relay [OF assms] split: if_splits)
  moreover from this have "drop 20 bs = ant_packet_wire crc8 v"
    using ant_packet.unpack_sound by blast
  ultimately show "\<exists>cb. length cb = 20 \<and> unpack C cb = Ok cs \<and> bs = cb @ ant_packet_wire crc8 v"
    by (intro exI [of _ "take 20 bs"]) (metis append_take_drop_id length_take min.absorb2 not_less)
next
  assume "\<exists>cb. length cb = 20 \<and> unpack C cb = Ok cs \<and> bs = cb @ ant_packet_wire crc8 v"
  then obtain cb where cb: "length cb = 20" "unpack C cb = Ok cs" "bs = cb @ ant_packet_wire crc8 v"
    by blast
  obtain p where "unpack_from_slice (ant_packet_ops crc8) (ant_packet_wire crc8 v) = Ok p" "val p = v"
    using ant_packet.unpack_enc [of crc8 v] by blast
  then show "\<exists>r. unpack_from_slice (cs_relay_ops C crc8) bs = Ok r \<and> header r = cs
      \<and> val (payload r) = v"
    using cb by (simp add: unpack_cs_relay [OF assms])
qed

text \<open>The ant packet inside a relay message is found and checked.  A payload is accepted as
  a relay message with the ant packet \<open>v\<close> if and only if it consists of 20 bytes that the
  central station's parser accepts and the wire form of \<open>v\<close>; so it has 90 bytes, and the
  inner checksum is checked.\<close>

theorem relay_unpack_exact:
  assumes "byte_array_len C = 20"
  shows "(\<exists>r. unpack_from_slice (cs_relay_ops C crc8) bs = Ok r
        \<and> header r = cs \<and> val (payload r) = v)
    \<longleftrightarrow> (\<exists>cb. length cb = 20 \<and> unpack C cb = Ok cs \<and> bs = cb @ ant_packet_wire crc8 v)"
  using assms by (rule relay_unpack_iff)

theorem relay_unpack_exact_witness:
  "\<exists>r. unpack_from_slice (cs_relay_ops cs_bytewise (\<lambda>_. 7))
        (replicate 20 0 @ ant_packet_wire (\<lambda>_. 7) v) = Ok r
      \<and> heat_enabled (header r) = False \<and> val (payload r) = v"
proof -
  have len: "byte_array_len cs_bytewise = 20" by (simp add: cs_bytewise_def)
  let ?cb = "replicate 20 0 :: bytes"
  obtain cs where cs: "unpack cs_bytewise ?cb = Ok cs" "heat_enabled cs = False"
    by (simp add: cs_bytewise_def field_def)
  from relay_unpack_exact [OF len, of "\<lambda>_. 7" "?cb @ ant_packet_wire (\<lambda>_. 7) v" cs v] cs
  show ?thesis by auto
qed

subsection \<open>Status and log headers of the relay\<close>

datatype flags =
    FlagNone
  | Booted
  | FlagShutdown
  | SerialError
  | SocketError
  | DownlinkPacketError
  | UplinkPacketError

fun flags_to_primitive :: "flags \<Rightarrow> u8" where
  "flags_to_primitive FlagNone = 0x0"
| "flags_to_primitive Booted = 0x01"
| "flags_to_primitive FlagShutdown = 0x02"
| "flags_to_primitive SerialError = 0x04"
| "flags_to_primitive SocketError = 0x08"
| "flags_to_primitive DownlinkPacketError = 0x10"
| "flags_to_primitive UplinkPacketError = 0x20"

definition flags_variants :: "flags list" where
  "flags_variants = [FlagNone, Booted, FlagShutdown, SerialError, SocketError,
     DownlinkPacketError, UplinkPacketError]"

record realtime_status =
  memory_usage :: u8
  logs_pending :: u8
  flags :: flags

definition realtime_status_ops :: "realtime_status struct_ops" where
  "realtime_status_ops = \<lparr> byte_array_len = 3,
     pack = (\<lambda>s. Ok [memory_usage s, logs_pending s, flags_to_primitive (flags s)]),
     unpack = (\<lambda>bs. and_then (from_primitive flags_to_primitive flags_variants (bs ! 2)) (\<lambda>f.
       Ok \<lparr> memory_usage = bs ! 0, logs_pending = bs ! 1, flags = f \<rparr>)) \<rparr>"

definition relay_packet_ops :: "(realtime_status, bytes_wrap) header_packet packed_ops" where
  "relay_packet_ops = header_packet_ops 24 (slice_of_struct realtime_status_ops) bytes_wrap_ops"

text \<open>\<open>memory_mb\<close>; the floating point operands and results are whole numbers below \<open>2\<^sup>5\<^sup>3\<close>,
  on which the operations are exact.\<close>

definition MEMORY_RANGE_MB :: "nat \<times> nat" where
  "MEMORY_RANGE_MB = (0, 64)"

definition MEMORY_RANGE_SIZE :: nat where
  "MEMORY_RANGE_SIZE = snd MEMORY_RANGE_MB - fst MEMORY_RANGE_MB"

definition memory_mb :: "realtime_status \<Rightarrow> nat" where
  "memory_mb s = unat (memory_usage s) * MEMORY_RANGE_SIZE + fst MEMORY_RANGE_MB"

datatype log_type =
    Startup
  | DownlinkConnected
  | UplinkConnected
  | SerialConnected
  | RelayStarted
  | Interrupted
  | LogShutdown

fun log_type_to_primitive :: "log_type \<Rightarrow> u8" where
  "log_type_to_primitive Startup = 0"
| "log_type_to_primitive DownlinkConnected = 1"
| "log_type_to_primitive UplinkConnected = 2"
| "log_type_to_primitive SerialConnected = 3"
| "log_type_to_primitive RelayStarted = 4"
| "log_type_to_primitive Interrupted = 5"
| "log_type_to_primitive LogShutdown = 6"

definition log_type_variants :: "log_type list" where
  "log_type_variants = [Startup, DownlinkConnected, UplinkConnected, SerialConnected,
     RelayStarted, Interrupted, LogShutdown]"

lemma flags_from_to [simp]: "from_primitive flags_to_primitive flags_variants (flags_to_primitive f) = Ok f"
  by (cases f) (simp_all add: from_primitive_def flags_variants_def)

lemma log_type_from_to [simp]:
  "from_primitive log_type_to_primitive log_type_variants (log_type_to_primitive t) = Ok t"
  by (cases t) (simp_all add: from_primitive_def log_type_variants_def)

interpretation status: packed_struct realtime_status_ops
  "\<lambda>s. [memory_usage s, logs_pending s, flags_to_primitive (flags s)]"
proof (unfold_locales, goal_cases)
  case (4 bs x)
  then obtain f where "from_primitive flags_to_primitive flags_variants (bs ! 2) = Ok f"
    "x = \<lparr> memory_usage = bs ! 0, logs_pending = bs ! 1, flags = f \<rparr>" "length bs = 3"
    by (auto simp: realtime_status_ops_def)
  then show ?case using from_primitive_Ok [of flags_to_primitive flags_variants "bs ! 2" f]
    by (auto simp: list_eq_iff_nth_eq nth_Cons' less_Suc_eq numeral_3_eq_3 numeral_2_eq_2)
qed (auto simp: realtime_status_ops_def and_then_Inl_iff)

interpretation relay_pkt: header_packet_laws
  "slice_of_struct realtime_status_ops" "\<lambda>_. True" "\<lambda>s. s"
  "\<lambda>s. [memory_usage s, logs_pending s, flags_to_primitive (flags s)]" 3
  bytes_wrap_ops "\<lambda>_. True" "\<lambda>b. b" "\<lambda>b. b" 24
  using status.slice.fixed_slice_axioms bw.packed_slice_axioms
  by (simp add: header_packet_laws_def header_packet_laws_axioms_def realtime_status_ops_def)

text \<open>The memory usage of a status is out of its declared range.  \<open>memory_mb\<close> multiplies
  the byte by the whole range instead of scaling it, so only the byte 0 gives a value inside
  \<open>MEMORY_RANGE_MB\<close>, and the byte 255 gives 16320.\<close>

theorem memory_mb_out_of_range:
  "((fst MEMORY_RANGE_MB \<le> memory_mb s \<and> memory_mb s < snd MEMORY_RANGE_MB)
      \<longleftrightarrow> memory_usage s = 0)
   \<and> memory_mb (s\<lparr> memory_usage := 255 \<rparr>) = 16320"
proof -
  have "unat (memory_usage s) = 0 \<longleftrightarrow> memory_usage s = 0" by (simp add: unat_eq_0)
  then show ?thesis
    by (auto simp: memory_mb_def MEMORY_RANGE_SIZE_def MEMORY_RANGE_MB_def)
qed

text \<open>The header of a log payload: a timestamp and a type byte.\<close>

record log_header =
  log_timestamp :: mission_epoch
  log_ty :: log_type

definition log_header_ops :: "log_header struct_ops" where
  "log_header_ops = \<lparr> byte_array_len = 5,
     pack = (\<lambda>h. and_then (epoch_pack (log_timestamp h)) (\<lambda>ts.
       Ok (ts @ [log_type_to_primitive (log_ty h)]))),
     unpack = (\<lambda>bs. and_then (epoch_unpack (take 4 bs)) (\<lambda>ts.
       and_then (from_primitive log_type_to_primitive log_type_variants (bs ! 4)) (\<lambda>t.
       Ok \<lparr> log_timestamp = ts, log_ty = t \<rparr>))) \<rparr>"

interpretation log_hdr: packed_struct log_header_ops
  "\<lambda>h. le_bytes 4 (epoch_val (log_timestamp h)) @ [log_type_to_primitive (log_ty h)]"
proof (unfold_locales, goal_cases)
  case (4 bs x)
  then have len: "length bs = 5" by (simp add: log_header_ops_def)
  then have ne: "bs \<noteq> []" by auto
  with len have "take 4 bs = butlast bs" "bs ! 4 = last bs"
    by (simp_all add: butlast_conv_take last_conv_nth)
  with 4 show ?case
    using from_primitive_Ok [of log_type_to_primitive log_type_variants "bs ! 4"] len
      append_butlast_last_id [OF ne]
    by (auto simp: log_header_ops_def epoch_unpack_def)
qed (auto simp: log_header_ops_def epoch_pack_def epoch_unpack_def and_then_Inl_iff nth_append)

end
