(* ===== verification/Downlink_Data.thy ===== *)
theory Downlink_Data
  imports Payloads
begin

text \<open>
  What the relay sends to the ground: the log records and the \<open>Downlink\<close> enum of
  \<open>message/src/downlink\<close>, and the messages that the actors of \<open>runtime/src\<close> issue to each
  other over the system broker.  A floating point value is kept as its 64 bits.
\<close>

text \<open>A string is the list of its Unicode scalar values.\<close>

type_synonym rust_str = "nat list"

definition str :: "string \<Rightarrow> rust_str" where
  "str s = map of_char s"

datatype field_value =
    FieldString rust_str
  | FieldU64 u64
  | FieldI64 u64
  | FieldF64 u64
  | FieldBool bool

datatype level = ERROR | WARN | INFO | DEBUG | TRACE | UNKNOWN

datatype tracing_level = TracingError | TracingWarn | TracingInfo | TracingDebug | TracingTrace

fun level_of_tracing :: "tracing_level \<Rightarrow> level" where
  "level_of_tracing TracingDebug = DEBUG"
| "level_of_tracing TracingWarn = WARN"
| "level_of_tracing TracingInfo = INFO"
| "level_of_tracing TracingTrace = TRACE"
| "level_of_tracing TracingError = ERROR"

text \<open>The fields are a \<open>BTreeMap\<close>.\<close>

record span_data =
  span_name :: rust_str
  span_target :: rust_str
  span_fields :: "rust_str \<Rightarrow> field_value option"
  span_level :: level

type_synonym log = "span_data list"

datatype downlink =
    DownlinkLog log
  | UplinkMirror bytes_wrap
  | UplinkInterpreted message
  | SerialUplink message
  | SerialDownlink message
  | SerialUplinkRaw bytes_wrap
  | SerialDownlinkRaw bytes_wrap

text \<open>The broker's messages: packets and messages of the serial side, then of the ground side.\<close>

datatype broker_msg =
    RawUpPacket bytes
  | RawDownPacket bytes
  | UpMessageB message
  | DownMessageB message
  | AckMessageB message
  | AntMessageB ant_packet
  | GroundUpPacket bytes
  | GroundUpCommand message
  | GroundLog log

end
