(* ===== verification/Mail.thy ===== *)
theory Mail
  imports Downlink_Data
begin

text \<open>
  How the actors of \<open>runtime/src\<close> reach each other: the messages that actors issue to the
  system broker, which passes a copy to every subscriber of the message's type, and the
  messages sent directly to an actor.  Broker and mailboxes (the crates \<open>actix-broker\<close> and
  \<open>actix\<close>) are not part of the repository: their operations are the dictionary \<open>mail_ops\<close>,
  what is observed of them is \<open>mail_view\<close>, and the locale \<open>mail_laws\<close> names the documented
  behaviour, which lists of mail satisfy.
\<close>

subsection \<open>Actors and their subscriptions\<close>

text \<open>The actors that \<open>main\<close> starts, with one downlink for each address, and the commander.\<close>

datatype actor_id =
    AStateMachine
  | AAntDecode
  | ASerial
  | ARawIO
  | ACommander
  | ADownlink nat

datatype broker_kind =
    KRawUpPacket
  | KRawDownPacket
  | KUpMessage
  | KDownMessage
  | KAckMessage
  | KAntMessage
  | KGroundUpPacket
  | KGroundUpCommand
  | KGroundLog

fun kind_of :: "broker_msg \<Rightarrow> broker_kind" where
  "kind_of (RawUpPacket p) = KRawUpPacket"
| "kind_of (RawDownPacket p) = KRawDownPacket"
| "kind_of (UpMessageB m) = KUpMessage"
| "kind_of (DownMessageB m) = KDownMessage"
| "kind_of (AckMessageB m) = KAckMessage"
| "kind_of (AntMessageB p) = KAntMessage"
| "kind_of (GroundUpPacket p) = KGroundUpPacket"
| "kind_of (GroundUpCommand m) = KGroundUpCommand"
| "kind_of (GroundLog l) = KGroundLog"

text \<open>What each actor's \<open>started\<close> subscribes to, in the order of the calls.\<close>

definition machine_subscriptions :: "broker_kind list" where
  "machine_subscriptions = [KGroundUpCommand, KDownMessage]"

definition serial_subscriptions :: "broker_kind list" where
  "serial_subscriptions = [KUpMessage, KRawDownPacket]"

definition ant_decode_subscriptions :: "broker_kind list" where
  "ant_decode_subscriptions = [KDownMessage]"

definition raw_subscriptions :: "broker_kind list" where
  "raw_subscriptions = [KRawUpPacket]"

definition commander_subscriptions :: "broker_kind list" where
  "commander_subscriptions = [KAckMessage, KAntMessage]"

definition downlink_subscriptions :: "broker_kind list" where
  "downlink_subscriptions = [KRawDownPacket, KRawUpPacket, KDownMessage, KUpMessage,
     KGroundUpPacket, KGroundUpCommand, KGroundLog]"

fun subscriptions :: "actor_id \<Rightarrow> broker_kind list" where
  "subscriptions AStateMachine = machine_subscriptions"
| "subscriptions AAntDecode = ant_decode_subscriptions"
| "subscriptions ASerial = serial_subscriptions"
| "subscriptions ARawIO = raw_subscriptions"
| "subscriptions ACommander = commander_subscriptions"
| "subscriptions (ADownlink i) = downlink_subscriptions"

lemmas subscription_defs = machine_subscriptions_def serial_subscriptions_def
  ant_decode_subscriptions_def raw_subscriptions_def commander_subscriptions_def
  downlink_subscriptions_def

subsection \<open>Mail\<close>

text \<open>A broker message, or a request sent to the commander.\<close>

datatype mail = BrokerMail broker_msg | RequestMail message

record 'b mail_ops =
  mail_send :: "actor_id \<Rightarrow> mail \<Rightarrow> 'b \<Rightarrow> 'b"
  broker_subscribe :: "actor_id \<Rightarrow> broker_kind \<Rightarrow> 'b \<Rightarrow> 'b"
  broker_issue :: "broker_msg \<Rightarrow> 'b \<Rightarrow> 'b"

record 'b mail_view =
  inbox :: "'b \<Rightarrow> actor_id \<Rightarrow> mail list"
  subscribed_to :: "'b \<Rightarrow> broker_kind \<Rightarrow> actor_id \<Rightarrow> bool"
  inbox_pop :: "actor_id \<Rightarrow> 'b \<Rightarrow> 'b"

locale mail_laws =
  fixes B :: "'b mail_ops" and I :: "'b mail_view"
  assumes inbox_send [simp]: "inbox I (mail_send B a x b) = (inbox I b)(a := inbox I b a @ [x])"
    and subscribed_send [simp]: "subscribed_to I (mail_send B a x b) = subscribed_to I b"
    and inbox_subscribe [simp]: "inbox I (broker_subscribe B a k b) = inbox I b"
    and subscribed_subscribe [simp]: "subscribed_to I (broker_subscribe B a k b)
      = (subscribed_to I b)(k := (subscribed_to I b k)(a := True))"
    and inbox_issue [simp]: "inbox I (broker_issue B msg b) = (\<lambda>a.
      if subscribed_to I b (kind_of msg) a then inbox I b a @ [BrokerMail msg] else inbox I b a)"
    and subscribed_issue [simp]: "subscribed_to I (broker_issue B msg b) = subscribed_to I b"
    and inbox_pop_tl [simp]: "inbox I (inbox_pop I a b) = (inbox I b)(a := tl (inbox I b a))"
    and subscribed_pop [simp]: "subscribed_to I (inbox_pop I a b) = subscribed_to I b"

definition issue_all :: "'b mail_ops \<Rightarrow> broker_msg list \<Rightarrow> 'b \<Rightarrow> 'b" where
  "issue_all B out b = fold (broker_issue B) out b"

definition subscribe_all :: "'b mail_ops \<Rightarrow> actor_id \<Rightarrow> broker_kind list \<Rightarrow> 'b \<Rightarrow> 'b" where
  "subscribe_all B a ks b = fold (broker_subscribe B a) ks b"

context mail_laws
begin

lemma subscribed_issue_all [simp]: "subscribed_to I (issue_all B out b) = subscribed_to I b"
  by (induction out arbitrary: b) (simp_all add: issue_all_def)

lemma inbox_issue_all [simp]:
  "inbox I (issue_all B out b) a =
    inbox I b a @ map BrokerMail (filter (\<lambda>x. subscribed_to I b (kind_of x) a) out)"
  by (induction out arbitrary: b) (simp_all add: issue_all_def)

lemma inbox_subscribe_all [simp]: "inbox I (subscribe_all B a ks b) = inbox I b"
  by (induction ks arbitrary: b) (simp_all add: subscribe_all_def)

lemma subscribed_subscribe_all [simp]:
  "subscribed_to I (subscribe_all B a ks b) k a' \<longleftrightarrow>
    subscribed_to I b k a' \<or> a' = a \<and> k \<in> set ks"
  by (induction ks arbitrary: b) (auto simp: subscribe_all_def)

end

subsection \<open>Mailboxes as lists\<close>

record list_mail =
  lm_boxes :: "actor_id \<Rightarrow> mail list"
  lm_subs :: "broker_kind \<Rightarrow> actor_id \<Rightarrow> bool"

definition list_mail_ops :: "list_mail mail_ops" where
  "list_mail_ops = \<lparr>
     mail_send = (\<lambda>a x b. b\<lparr> lm_boxes := (lm_boxes b)(a := lm_boxes b a @ [x]) \<rparr>),
     broker_subscribe = (\<lambda>a k b. b\<lparr> lm_subs := (lm_subs b)(k := (lm_subs b k)(a := True)) \<rparr>),
     broker_issue = (\<lambda>x b. b\<lparr> lm_boxes := (\<lambda>a.
       if lm_subs b (kind_of x) a then lm_boxes b a @ [BrokerMail x] else lm_boxes b a) \<rparr>) \<rparr>"

definition list_mail_view :: "list_mail mail_view" where
  "list_mail_view = \<lparr>
     inbox = lm_boxes,
     subscribed_to = lm_subs,
     inbox_pop = (\<lambda>a b. b\<lparr> lm_boxes := (lm_boxes b)(a := tl (lm_boxes b a)) \<rparr>) \<rparr>"

definition no_mail :: list_mail where
  "no_mail = \<lparr> lm_boxes = (\<lambda>_. []), lm_subs = (\<lambda>_ _. False) \<rparr>"

interpretation mail_list: mail_laws list_mail_ops list_mail_view
  by unfold_locales (auto simp: list_mail_ops_def list_mail_view_def fun_eq_iff)

end
