(* ===== verification/Commander.thy ===== *)
theory Commander
  imports Payloads
begin

text \<open>
  The request table of \<open>runtime/src/serial/commander.rs\<close>: a request sent over the serial
  line is registered under its unique id with the sender of a oneshot channel, and the
  packet that names this id as its source is passed to the channel.  The oneshot channels
  (\<open>tokio::sync::oneshot\<close>) and the retry driver (\<open>tokio_retry\<close>) are parameters; the locales
  \<open>oneshot_laws\<close> and \<open>retry_laws\<close> name what they document.
\<close>

datatype response =
    ResponseMessage message
  | ResponseAnt ant_packet

subsection \<open>Oneshot channels\<close>

text \<open>
  \<open>'h\<close> identifies a channel, \<open>'w\<close> is the state of all channels.  \<open>tx_send\<close> reports whether
  the receiver was still there.
\<close>

record ('h, 'w) oneshot_ops =
  channel :: "'w \<Rightarrow> 'h \<times> 'w"
  tx_send :: "'h \<Rightarrow> response \<Rightarrow> 'w \<Rightarrow> bool \<times> 'w"
  tx_is_closed :: "'h \<Rightarrow> 'w \<Rightarrow> bool"
  tx_drop :: "'h \<Rightarrow> 'w \<Rightarrow> 'w"

datatype channel_state =
    Unused
  | Open
  | Delivered response
  | SenderDropped
  | ReceiverDropped

record ('h, 'w) oneshot_view =
  chan :: "'w \<Rightarrow> 'h \<Rightarrow> channel_state"
  rx_drop :: "'h \<Rightarrow> 'w \<Rightarrow> 'w"

locale oneshot_laws =
  fixes X :: "('h, 'w) oneshot_ops" and V :: "('h, 'w) oneshot_view"
  assumes channel_fresh: "chan V w (fst (channel X w)) = Unused"
    and chan_channel: "chan V (snd (channel X w)) = (chan V w)(fst (channel X w) := Open)"
    and send_open: "chan V w h = Open \<Longrightarrow> fst (tx_send X h r w)
      \<and> chan V (snd (tx_send X h r w)) = (chan V w)(h := Delivered r)"
    and send_gone: "chan V w h = ReceiverDropped \<Longrightarrow> \<not> fst (tx_send X h r w)
      \<and> chan V (snd (tx_send X h r w)) = chan V w"
    and closed_iff: "tx_is_closed X h w \<longleftrightarrow> chan V w h = ReceiverDropped"
    and chan_tx_drop: "chan V (tx_drop X h w) =
      (if chan V w h = Open then (chan V w)(h := SenderDropped) else chan V w)"
    and chan_rx_drop: "chan V (rx_drop V h w) =
      (if chan V w h = Open then (chan V w)(h := ReceiverDropped) else chan V w)"

text \<open>Channels as a list of states.\<close>

definition list_channels :: "(nat, channel_state list) oneshot_ops" where
  "list_channels = \<lparr>
     channel = (\<lambda>w. (length w, w @ [Open])),
     tx_send = (\<lambda>h r w. if h < length w \<and> w ! h = Open then (True, w[h := Delivered r]) else (False, w)),
     tx_is_closed = (\<lambda>h w. h < length w \<and> w ! h = ReceiverDropped),
     tx_drop = (\<lambda>h w. if h < length w \<and> w ! h = Open then w[h := SenderDropped] else w) \<rparr>"

definition list_channels_view :: "(nat, channel_state list) oneshot_view" where
  "list_channels_view = \<lparr>
     chan = (\<lambda>w h. if h < length w then w ! h else Unused),
     rx_drop = (\<lambda>h w. if h < length w \<and> w ! h = Open then w[h := ReceiverDropped] else w) \<rparr>"

interpretation list_chan: oneshot_laws list_channels list_channels_view
  by unfold_locales
    (auto simp: list_channels_def list_channels_view_def fun_eq_iff nth_append nth_list_update
      split: if_splits)

subsection \<open>The commander\<close>

record 'h commander =
  requests :: "unique_id \<Rightarrow> 'h option"
  commander_once :: bool

definition commander_default :: "'h commander" where
  "commander_default = \<lparr> requests = Map.empty, commander_once = False \<rparr>"

text \<open>\<open>started\<close>: subscribe to acknowledgements and ant messages once; the result says whether
  this call subscribed.  The garbage collection runs every 5 s.\<close>

definition commander_started :: "'h commander \<Rightarrow> 'h commander \<times> bool" where
  "commander_started c = (c\<lparr> commander_once := True \<rparr>, \<not> commander_once c)"

definition drop_sender :: "('h, 'w) oneshot_ops \<Rightarrow> 'h option \<Rightarrow> 'w \<Rightarrow> 'w" where
  "drop_sender X tx w = (case tx of None \<Rightarrow> w | Some h \<Rightarrow> tx_drop X h w)"

text \<open>
  A request: a new channel, registered under the message's id in place of any sender
  registered before, which is dropped; the message is issued to the serial actor, and the
  reply is what arrives on the channel.
\<close>

definition handle_request ::
  "('h, 'w) oneshot_ops \<Rightarrow> message \<Rightarrow> 'h commander \<Rightarrow> 'w \<Rightarrow> 'h \<times> 'h commander \<times> 'w \<times> message" where
  "handle_request X msg c w =
     (let (h, w1) = channel X w;
          uid = header_unique_id (message_header msg);
          w2 = drop_sender X (requests c uid) w1
      in (h, c\<lparr> requests := (requests c)(uid \<mapsto> h) \<rparr>, w2, msg))"

definition take_and_send ::
  "('h, 'w) oneshot_ops \<Rightarrow> unique_id \<Rightarrow> response \<Rightarrow> 'h commander \<Rightarrow> 'w \<Rightarrow> 'h commander \<times> 'w" where
  "take_and_send X uid r c w =
     (case requests c uid of
        None \<Rightarrow> (c, w)
      | Some tx \<Rightarrow> (c\<lparr> requests := (requests c)(uid := None) \<rparr>, snd (tx_send X tx r w)))"

text \<open>The type of a relay message, which is skipped in favour of the ant message inside.\<close>

definition is_relay_ack :: "message_type \<Rightarrow> bool" where
  "is_relay_ack t \<longleftrightarrow> event t = CSRelay \<and> disposition t = Ack"

definition handle_ack_message ::
  "('h, 'w) oneshot_ops \<Rightarrow> message \<Rightarrow> 'h commander \<Rightarrow> 'w \<Rightarrow> 'h commander \<times> 'w" where
  "handle_ack_message X msg c w =
     (if is_relay_ack (ty (message_header msg)) then (c, w)
      else case message_source msg of
        Empty \<Rightarrow> (c, w)
      | Info info \<Rightarrow>
          take_and_send X (header_unique_id (info_header info)) (ResponseMessage msg) c w)"

definition handle_ant_message ::
  "('h, 'w) oneshot_ops \<Rightarrow> ant_packet \<Rightarrow> 'h commander \<Rightarrow> 'w \<Rightarrow> 'h commander \<times> 'w" where
  "handle_ant_message X pkt c w =
     (case ant_packet_source pkt of
        Empty \<Rightarrow> (c, w)
      | Info info \<Rightarrow>
          take_and_send X (header_unique_id (info_header info)) (ResponseAnt pkt) c w)"

definition collect_garbage :: "('h, 'w) oneshot_ops \<Rightarrow> 'w \<Rightarrow> 'h commander \<Rightarrow> 'h commander" where
  "collect_garbage X w c =
     c\<lparr> requests := (\<lambda>uid.
          case requests c uid of
            None \<Rightarrow> None
          | Some tx \<Rightarrow> if tx_is_closed X tx w then None else Some tx) \<rparr>"

subsection \<open>Sending and waiting\<close>

datatype mailbox_error = MailboxClosed | MailboxTimeout

datatype commander_error =
    Mailbox mailbox_error
  | RequestDropped
  | InvalidChecksum
  | InvalidAckChecksum

definition response_header :: "response \<Rightarrow> header" where
  "response_header r =
     (case r of ResponseAnt pkt \<Rightarrow> header (header (val pkt)) | ResponseMessage msg \<Rightarrow> message_header msg)"

text \<open>\<open>send\<close>: what the mailbox answered, with a timeout or without, as a result.\<close>

definition send_result :: "mailbox_error + response option \<Rightarrow> commander_error + response" where
  "send_result reply =
     (case reply of
        Inl e \<Rightarrow> Inl (Mailbox e)
      | Inr None \<Rightarrow> Inl RequestDropped
      | Inr (Some resp) \<Rightarrow>
          if invalid (ty (response_header resp)) then Inl InvalidAckChecksum else Inr resp)"

text \<open>
  \<open>send_retry\<close>: \<open>spawn\<close> is the retry driver, given the delays and the action; the action's
  \<open>i\<close>th run makes its own message, sends it and classifies the reply, which the environment
  \<open>reply\<close> decides.  The result comes with the messages that were sent.
\<close>

type_synonym ('e, 'a) retry_spawn = "nat list \<Rightarrow> (nat \<Rightarrow> 'e + 'a) \<Rightarrow> ('e + 'a) \<times> nat"

definition send_retry ::
  "(commander_error, response) retry_spawn \<Rightarrow> (nat \<Rightarrow> message)
     \<Rightarrow> (nat \<Rightarrow> message \<Rightarrow> mailbox_error + response option) \<Rightarrow> nat list
     \<Rightarrow> (commander_error + response) \<times> message list" where
  "send_retry spawn message reply strategy =
     (let (result, runs) = spawn strategy (\<lambda>i. send_result (reply i (message i)))
      in (result, map message [0..<runs]))"

text \<open>The strategy of the state machine: the first \<open>max_count\<close> delays of an exponential
  backoff, each scaled by a random jitter (\<open>jitter\<close>, by the number of the delay).\<close>

definition retry_strategy :: "(nat \<Rightarrow> nat) \<Rightarrow> (nat \<Rightarrow> nat \<Rightarrow> nat) \<Rightarrow> nat \<Rightarrow> nat list" where
  "retry_strategy backoff jitter max_count = map (\<lambda>i. jitter i (backoff i)) [0..<max_count]"

text \<open>
  The documented behaviour of the retry driver: the action is run until it succeeds or the
  delays are used up, one delay between two runs; the result is that of the last run.
\<close>

locale retry_laws =
  fixes spawn :: "('e, 'a) retry_spawn"
  assumes spawn_runs: "spawn delays act = (r, runs) \<Longrightarrow>
      0 < runs \<and> runs \<le> Suc (length delays) \<and> r = act (runs - 1)
      \<and> (\<forall>i < runs - 1. \<exists>e. act i = Inl e) \<and> (runs \<le> length delays \<longrightarrow> (\<exists>a. r = Inr a))"

fun run_delays :: "nat \<Rightarrow> nat list \<Rightarrow> (nat \<Rightarrow> 'e + 'a) \<Rightarrow> ('e + 'a) \<times> nat" where
  "run_delays k [] act = (act k, Suc k)"
| "run_delays k (d # ds) act =
     (case act k of Inr a \<Rightarrow> (Inr a, Suc k) | Inl e \<Rightarrow> run_delays (Suc k) ds act)"

lemma run_delays_runs:
  "run_delays k delays act = (r, runs) \<Longrightarrow>
    k < runs \<and> runs \<le> Suc (k + length delays) \<and> r = act (runs - 1)
    \<and> (\<forall>i. k \<le> i \<longrightarrow> i < runs - 1 \<longrightarrow> (\<exists>e. act i = Inl e))
    \<and> (runs \<le> k + length delays \<longrightarrow> (\<exists>a. r = Inr a))"
proof (induction k delays act rule: run_delays.induct)
  case (2 k d ds act)
  show ?case
  proof (cases "act k")
    case (Inl e)
    then have run: "run_delays (Suc k) ds act = (r, runs)" using "2.prems" by simp
    have f: "Suc k < runs" "runs \<le> Suc (Suc k + length ds)" "r = act (runs - 1)"
      "\<forall>i. Suc k \<le> i \<longrightarrow> i < runs - 1 \<longrightarrow> (\<exists>e. act i = Inl e)"
      "runs \<le> Suc k + length ds \<longrightarrow> (\<exists>a. r = Inr a)"
      using "2.IH" [OF Inl run] by blast+
    have "\<exists>e. act i = Inl e" if "k \<le> i" "i < runs - 1" for i
      using f(4) that Inl by (cases "i = k") auto
    then show ?thesis using f(1,2,3,5) by (intro conjI) simp_all
  next
    case (Inr a)
    then have "r = Inr a" "runs = Suc k" using "2.prems" by auto
    then show ?thesis using Inr by simp
  qed
qed auto

interpretation delays: retry_laws "run_delays 0"
  by unfold_locales (use run_delays_runs [of 0] in fastforce)

subsection \<open>Operations on the table\<close>

text \<open>What happens to a commander: a request, an acknowledgement, an ant packet, a garbage
  collection, or a caller that gives up waiting (its timeout, or its future is dropped).\<close>

datatype 'h commander_op =
    DoRequest message
  | GotAck message
  | GotAnt ant_packet
  | Collect
  | Abandon 'h

fun commander_step ::
  "('h, 'w) oneshot_ops \<Rightarrow> ('h, 'w) oneshot_view \<Rightarrow> 'h commander_op \<Rightarrow> 'h commander \<times> 'w
     \<Rightarrow> 'h commander \<times> 'w" where
  "commander_step X V (DoRequest msg) (c, w) =
     (let (h, c', w', up) = handle_request X msg c w in (c', w'))"
| "commander_step X V (GotAck msg) (c, w) = handle_ack_message X msg c w"
| "commander_step X V (GotAnt pkt) (c, w) = handle_ant_message X pkt c w"
| "commander_step X V Collect (c, w) = (collect_garbage X w c, w)"
| "commander_step X V (Abandon h) (c, w) = (c, rx_drop V h w)"

fun commander_run ::
  "('h, 'w) oneshot_ops \<Rightarrow> ('h, 'w) oneshot_view \<Rightarrow> 'h commander_op list \<Rightarrow> 'h commander \<times> 'w
     \<Rightarrow> 'h commander \<times> 'w" where
  "commander_run X V [] cw = cw"
| "commander_run X V (op # ops) cw = commander_run X V ops (commander_step X V op cw)"

text \<open>The id that a response names as its source.\<close>

definition response_source :: "response \<Rightarrow> unique_id option" where
  "response_source r =
     (case (case r of ResponseMessage msg \<Rightarrow> message_source msg | ResponseAnt pkt \<Rightarrow> ant_packet_source pkt)
      of Empty \<Rightarrow> None | Info info \<Rightarrow> Some (header_unique_id (info_header info)))"

text \<open>
  The table's invariant: registered channels are still waiting or were abandoned, no channel
  is registered twice, and (with the ids \<open>ids\<close> requested so far) every registered id and
  every delivered response belongs to a request.
\<close>

definition table_inv ::
  "('h, 'w) oneshot_view \<Rightarrow> unique_id set \<Rightarrow> 'h commander \<Rightarrow> 'w \<Rightarrow> bool" where
  "table_inv V ids c w \<longleftrightarrow>
     (\<forall>uid h. requests c uid = Some h \<longrightarrow> chan V w h = Open \<or> chan V w h = ReceiverDropped)
     \<and> (\<forall>uid uid' h. requests c uid = Some h \<longrightarrow> requests c uid' = Some h \<longrightarrow> uid = uid')
     \<and> dom (requests c) \<subseteq> ids
     \<and> (\<forall>h r. chan V w h = Delivered r \<longrightarrow> (\<exists>uid \<in> ids. response_source r = Some uid))"

definition op_ids :: "'h commander_op \<Rightarrow> unique_id set" where
  "op_ids op = (case op of DoRequest msg \<Rightarrow> {header_unique_id (message_header msg)} | _ \<Rightarrow> {})"

lemma op_ids_iff:
  "uid \<in> op_ids op \<longleftrightarrow> (\<exists>msg. op = DoRequest msg \<and> uid = header_unique_id (message_header msg))"
  by (cases op) (auto simp: op_ids_def)

lemma table_invD:
  assumes "table_inv V ids c w"
  shows "requests c uid = Some h \<Longrightarrow> chan V w h = Open \<or> chan V w h = ReceiverDropped"
    and "requests c uid = Some h \<Longrightarrow> requests c uid' = Some h \<Longrightarrow> uid = uid'"
    and "requests c uid = Some h \<Longrightarrow> uid \<in> ids"
    and "chan V w h = Delivered r \<Longrightarrow> \<exists>uid \<in> ids. response_source r = Some uid"
  using assms unfolding table_inv_def by blast+

context oneshot_laws
begin

lemma take_and_send_inv:
  assumes inv: "table_inv V ids c w" and r: "response_source r = Some uid"
    and "take_and_send X uid r c w = (c', w')"
  shows "table_inv V ids c' w'"
proof (cases "requests c uid")
  case None
  then show ?thesis using assms by (simp add: take_and_send_def)
next
  case (Some tx)
  then have c': "c' = c\<lparr> requests := (requests c)(uid := None) \<rparr>" and w': "w' = snd (tx_send X tx r w)"
    using assms(3) by (auto simp: take_and_send_def)
  have st: "chan V w tx = Open \<or> chan V w tx = ReceiverDropped" using table_invD(1) [OF inv Some] .
  have cw': "chan V w' g = (if g = tx \<and> chan V w tx = Open then Delivered r else chan V w g)" for g
    using st send_open [of w tx r] send_gone [of w tx r] by (auto simp: w')
  have reg: "requests c' u = Some g \<longleftrightarrow> u \<noteq> uid \<and> requests c u = Some g" for u g
    by (auto simp: c')
  have 1: "chan V w' g = Open \<or> chan V w' g = ReceiverDropped" if "requests c' u = Some g" for u g
    using that table_invD(1) [OF inv, of u g] table_invD(2) [OF inv _ Some, of u]
    by (auto simp: reg cw')
  have 2: "u = u'" if "requests c' u = Some g" "requests c' u' = Some g" for u u' g
    using that table_invD(2) [OF inv, of u g u'] by (simp add: reg)
  have 3: "dom (requests c') \<subseteq> ids" using inv by (auto simp: table_inv_def c')
  have 4: "\<exists>u \<in> ids. response_source r' = Some u" if "chan V w' g = Delivered r'" for g r'
    using that table_invD(4) [OF inv, of g r'] table_invD(3) [OF inv Some] r
    by (auto simp: cw' split: if_splits)
  show ?thesis unfolding table_inv_def using 1 2 3 4 by blast
qed

lemma handle_request_inv:
  assumes inv: "table_inv V ids c w"
    and "handle_request X msg c w = (h, c', w', up)"
  shows "table_inv V (insert (header_unique_id (message_header msg)) ids) c' w'"
proof -
  let ?uid = "header_unique_id (message_header msg)"
  define w1 where "w1 = snd (channel X w)"
  have h: "h = fst (channel X w)" and c': "c' = c\<lparr> requests := (requests c)(?uid \<mapsto> h) \<rparr>"
    and w': "w' = drop_sender X (requests c ?uid) w1"
    using assms(2) by (auto simp: handle_request_def w1_def Let_def split: prod.splits)
  have fresh: "chan V w h = Unused" and w1: "chan V w1 = (chan V w)(h := Open)"
    using channel_fresh chan_channel by (simp_all add: h w1_def)
  have nreg: "requests c uid \<noteq> Some h" for uid
    using table_invD(1) [OF inv, of uid h] fresh by auto
  have cw': "chan V w' g = (if requests c ?uid = Some g \<and> chan V w g = Open then SenderDropped
      else if g = h then Open else chan V w g)" for g
    using nreg [of ?uid] by (cases "requests c ?uid") (auto simp: w' drop_sender_def chan_tx_drop w1)
  have reg: "requests c' uid = Some g \<longleftrightarrow>
      (if uid = ?uid then g = h else requests c uid = Some g)" for uid g
    by (auto simp: c')
  have 1: "chan V w' g = Open \<or> chan V w' g = ReceiverDropped" if "requests c' uid = Some g" for uid g
  proof (cases "uid = ?uid")
    case True
    then show ?thesis using that nreg by (simp add: reg cw')
  next
    case False
    then have "requests c uid = Some g" "requests c ?uid \<noteq> Some g"
      using that table_invD(2) [OF inv, of uid g ?uid] by (auto simp: reg)
    then show ?thesis using table_invD(1) [OF inv] by (auto simp: cw')
  qed
  have 2: "uid = uid'" if "requests c' uid = Some g" "requests c' uid' = Some g" for uid uid' g
    using that nreg table_invD(2) [OF inv, of uid g uid'] by (auto simp: reg split: if_splits)
  have 3: "dom (requests c') \<subseteq> insert ?uid ids" using inv by (auto simp: table_inv_def c')
  have 4: "\<exists>uid \<in> insert ?uid ids. response_source r = Some uid" if "chan V w' g = Delivered r" for g r
    using that table_invD(4) [OF inv, of g r] by (auto simp: cw' split: if_splits)
  show ?thesis unfolding table_inv_def using 1 2 3 4 by blast
qed

lemma request_channel:
  assumes inv: "table_inv V ids c w"
    and "handle_request X msg c w = (h, c', w', up)"
  shows "requests c' (header_unique_id (message_header msg)) = Some h" and "chan V w' h = Open"
    and "up = msg"
proof -
  have req: "requests c' (header_unique_id (message_header msg)) = Some h" and up: "up = msg"
    using assms(2) by (auto simp: handle_request_def Let_def split: prod.splits)
  have "chan V w h = Unused"
    using assms(2) channel_fresh [of w] by (auto simp: handle_request_def Let_def split: prod.splits)
  then have nreg: "requests c uid \<noteq> Some h" for uid using table_invD(1) [OF inv, of uid h] by auto
  define w1 where "w1 = snd (channel X w)"
  have w1: "chan V w1 = (chan V w)(h := Open)"
    and w': "w' = drop_sender X (requests c (header_unique_id (message_header msg))) w1"
    using assms(2) chan_channel [of w]
    by (auto simp: handle_request_def w1_def Let_def split: prod.splits)
  have "chan V w' h = Open"
    using nreg [of "header_unique_id (message_header msg)"]
    by (cases "requests c (header_unique_id (message_header msg))")
      (auto simp: w' drop_sender_def chan_tx_drop w1)
  then show "requests c' (header_unique_id (message_header msg)) = Some h" "chan V w' h = Open" "up = msg"
    using req up by blast+
qed

lemma commander_step_inv:
  assumes inv: "table_inv V ids c w" and st: "commander_step X V op (c, w) = (c', w')"
  shows "table_inv V (ids \<union> op_ids op) c' w'"
proof (cases op)
  case (DoRequest msg)
  then obtain h up where "handle_request X msg c w = (h, c', w', up)"
    using st by (auto split: prod.splits)
  from handle_request_inv [OF inv this] show ?thesis using DoRequest by (simp add: op_ids_def)
next
  case (GotAck msg)
  have "table_inv V ids c' w'"
  proof (cases "(c', w') = (c, w)")
    case False
    then obtain info where i: "message_source msg = Info info"
      "take_and_send X (header_unique_id (info_header info)) (ResponseMessage msg) c w = (c', w')"
      using st GotAck by (auto simp: handle_ack_message_def split: if_splits source_info.splits)
    have "response_source (ResponseMessage msg) = Some (header_unique_id (info_header info))"
      using i(1) by (simp add: response_source_def)
    from take_and_send_inv [OF inv this i(2)] show ?thesis .
  qed (use inv in simp)
  then show ?thesis using GotAck by (simp add: op_ids_def)
next
  case (GotAnt pkt)
  have "table_inv V ids c' w'"
  proof (cases "(c', w') = (c, w)")
    case False
    then obtain info where i: "ant_packet_source pkt = Info info"
      "take_and_send X (header_unique_id (info_header info)) (ResponseAnt pkt) c w = (c', w')"
      using st GotAnt by (auto simp: handle_ant_message_def split: source_info.splits)
    have "response_source (ResponseAnt pkt) = Some (header_unique_id (info_header info))"
      using i(1) by (simp add: response_source_def)
    from take_and_send_inv [OF inv this i(2)] show ?thesis .
  qed (use inv in simp)
  then show ?thesis using GotAnt by (simp add: op_ids_def)
next
  case Collect
  then have c': "c' = collect_garbage X w c" "w' = w" using st by auto
  have "requests c' uid = Some h \<Longrightarrow> requests c uid = Some h" for uid h
    by (auto simp: c' collect_garbage_def split: option.splits if_splits)
  then show ?thesis using inv Collect unfolding table_inv_def op_ids_def c'(2) by auto
next
  case (Abandon h)
  then have c': "c' = c" "w' = rx_drop V h w" using st by simp_all
  show ?thesis using inv Abandon
    by (auto simp: table_inv_def op_ids_def c' chan_rx_drop split: if_splits)
qed

lemma commander_run_inv:
  "table_inv V ids c w \<Longrightarrow> commander_run X V ops (c, w) = (c', w') \<Longrightarrow>
    table_inv V (ids \<union> \<Union> (op_ids ` set ops)) c' w'"
proof (induction ops arbitrary: ids c w)
  case (Cons op ops)
  obtain c1 w1 where s: "commander_step X V op (c, w) = (c1, w1)"
    by (cases "commander_step X V op (c, w)")
  from Cons.IH [OF commander_step_inv [OF Cons.prems(1) s]] Cons.prems(2) s show ?case
    by (simp add: Un_assoc)
qed simp

lemma table_inv_default:
  "(\<And>h. chan V w h = Unused) \<Longrightarrow> table_inv V {} commander_default w"
  by (simp add: table_inv_def commander_default_def)

end

subsection \<open>Properties\<close>

text \<open>An answered request was asked.  However requests, acknowledgements, ant packets,
  garbage collections and abandoned callers follow one another, a channel to which a
  response was delivered has a response whose source names the id of a message that was
  requested before; no channel is registered under two ids.\<close>

theorem commander_answers_requests:
  assumes "oneshot_laws X V" and "\<And>h. chan V w0 h = Unused"
    and "commander_run X V ops (commander_default, w0) = (c, w)"
  shows "(\<forall>h r. chan V w h = Delivered r \<longrightarrow>
      (\<exists>msg. DoRequest msg \<in> set ops
        \<and> response_source r = Some (header_unique_id (message_header msg))))
    \<and> inj_on (requests c) (dom (requests c))"
proof -
  have inv: "table_inv V (\<Union> (op_ids ` set ops)) c w"
    using oneshot_laws.commander_run_inv [OF assms(1)
        oneshot_laws.table_inv_default [OF assms(1,2)] assms(3)] by simp
  have "\<exists>msg. DoRequest msg \<in> set ops \<and> response_source r = Some (header_unique_id (message_header msg))"
    if "chan V w h = Delivered r" for h r
    using table_invD(4) [OF inv that] by (auto simp: op_ids_iff)
  moreover have "inj_on (requests c) (dom (requests c))"
    using table_invD(2) [OF inv] by (auto simp: inj_on_def)
  ultimately show ?thesis by blast
qed

text \<open>A request, and the message that acknowledges it.\<close>

definition request_msg :: "u8 \<Rightarrow> message" where
  "request_msg n = message_command \<lparr> env_time = MissionEpoch 5, env_seq = n \<rparr> CentralStation CSPing"

definition ack_msg :: "u8 \<Rightarrow> message" where
  "ack_msg n = with_crc_new \<lparr> header = \<lparr>
     header = (message_header (request_msg n))
       \<lparr> ty := \<lparr> disposition = Ack, invalid = False, event = CSPing \<rparr> \<rparr>,
     payload = Info \<lparr> info_header = message_header (request_msg n), info_checksum = 0 \<rparr> \<rparr>,
     payload = [] \<rparr>"

lemmas request_defs = request_msg_def ack_msg_def message_command_def header_command_def
  header_unique_id_def

lemma ack_sample_run:
  "commander_run list_channels list_channels_view
     [DoRequest (request_msg 1), DoRequest (request_msg 2), GotAck (ack_msg 1)]
     (commander_default, [])
   = (\<lparr> requests = [header_unique_id (message_header (request_msg 2)) \<mapsto> 1], commander_once = False \<rparr>,
      [Delivered (ResponseMessage (ack_msg 1)), Open])"
  by (simp add: request_defs handle_request_def list_channels_def commander_default_def
      drop_sender_def handle_ack_message_def is_relay_ack_def take_and_send_def fun_eq_iff)

theorem commander_answers_requests_witness:
  "\<exists>msg. DoRequest msg \<in> set [DoRequest (request_msg 1), DoRequest (request_msg 2),
        GotAck (ack_msg 1) :: nat commander_op]
    \<and> response_source (ResponseMessage (ack_msg 1)) = Some (header_unique_id (message_header msg))"
proof -
  have fresh: "chan list_channels_view [] h = Unused" for h by (simp add: list_channels_view_def)
  have d: "chan list_channels_view [Delivered (ResponseMessage (ack_msg 1)), Open] 0
      = Delivered (ResponseMessage (ack_msg 1))"
    by (simp add: list_channels_view_def)
  from commander_answers_requests [OF list_chan.oneshot_laws_axioms fresh ack_sample_run] d
  show ?thesis by blast
qed

text \<open>An acknowledgement resolves exactly the request it names.  If the source of an
  acknowledgement (other than a relay message) is the id of a registered request whose caller
  still waits, the message is delivered to that caller, the id is free again, and every other
  registration and every other channel is as before.\<close>

theorem ack_resolves_request:
  assumes "oneshot_laws X V"
    and "\<not> is_relay_ack (ty (message_header msg))" and "message_source msg = Info info"
    and "requests c (header_unique_id (info_header info)) = Some h" and "chan V w h = Open"
    and "handle_ack_message X msg c w = (c', w')"
  shows "requests c' = (requests c)(header_unique_id (info_header info) := None)
    \<and> chan V w' = (chan V w)(h := Delivered (ResponseMessage msg))
    \<and> commander_once c' = commander_once c"
  using assms oneshot_laws.send_open [OF assms(1,5)]
  by (auto simp: handle_ack_message_def take_and_send_def)

theorem ack_resolves_request_witness:
  "chan list_channels_view [Delivered (ResponseMessage (ack_msg 1)), Open]
     = (chan list_channels_view [Open, Open])(0 := Delivered (ResponseMessage (ack_msg 1)))"
proof -
  let ?uid = "\<lambda>n. header_unique_id (message_header (request_msg n))"
  let ?info = "\<lparr> info_header = message_header (request_msg 1), info_checksum = 0 \<rparr>"
  let ?c = "\<lparr> requests = [?uid 1 \<mapsto> 0, ?uid 2 \<mapsto> 1], commander_once = True \<rparr>"
  have ne: "?uid 2 \<noteq> ?uid 1" by (simp add: request_defs)
  have "\<not> is_relay_ack (ty (message_header (ack_msg 1)))" "message_source (ack_msg 1) = Info ?info"
    by (simp_all add: ack_msg_def is_relay_ack_def)
  moreover have "requests ?c (header_unique_id (info_header ?info)) = Some 0" using ne by simp
  moreover have "chan list_channels_view [Open, Open] 0 = Open" by (simp add: list_channels_view_def)
  moreover have "handle_ack_message list_channels (ack_msg 1) ?c [Open, Open]
      = (\<lparr> requests = (requests ?c)(?uid 1 := None), commander_once = True \<rparr>,
         [Delivered (ResponseMessage (ack_msg 1)), Open])"
    using ne calculation(1,2) by (simp add: handle_ack_message_def take_and_send_def list_channels_def)
  ultimately show ?thesis
    using ack_resolves_request [OF list_chan.oneshot_laws_axioms] by blast
qed

text \<open>A request that reuses an id takes it over.  A new request always gets a fresh waiting
  channel registered under its id; if another caller was waiting under that id its sender is
  dropped, so that this caller gets the error \<open>RequestDropped\<close> and can no longer be
  answered, and nothing else changes.\<close>

theorem request_takes_over_id:
  assumes "oneshot_laws X V"
    and "handle_request X msg c w = (h, c', w', up)"
    and "requests c (header_unique_id (message_header msg)) = Some old" and "chan V w old = Open"
  shows "requests c' = (requests c)(header_unique_id (message_header msg) \<mapsto> h) \<and> up = msg
    \<and> h \<noteq> old \<and> chan V w h = Unused
    \<and> chan V w' = (chan V w)(h := Open, old := SenderDropped)
    \<and> send_result (Inr None) = Inl RequestDropped"
proof -
  define w1 where "w1 = snd (channel X w)"
  have h: "h = fst (channel X w)" and c': "requests c' = (requests c)(header_unique_id (message_header msg) \<mapsto> h)"
    and w': "w' = tx_drop X old w1" and up: "up = msg"
    using assms(2,3) by (auto simp: handle_request_def w1_def drop_sender_def Let_def split: prod.splits)
  have fresh: "chan V w h = Unused" and w1: "chan V w1 = (chan V w)(h := Open)"
    using oneshot_laws.channel_fresh [OF assms(1)] oneshot_laws.chan_channel [OF assms(1)]
    by (simp_all add: h w1_def)
  have ne: "h \<noteq> old" using fresh assms(4) by auto
  then show ?thesis
    using c' up fresh assms(4) oneshot_laws.chan_tx_drop [OF assms(1), of old w1]
    by (simp add: w' w1 send_result_def)
qed

theorem request_takes_over_id_witness:
  "chan list_channels_view [SenderDropped, Open]
     = (chan list_channels_view [Open])(1 := Open, 0 := SenderDropped)"
proof -
  let ?uid = "header_unique_id (message_header (request_msg 1))"
  let ?c = "\<lparr> requests = [?uid \<mapsto> 0], commander_once = True \<rparr>"
  have "handle_request list_channels (request_msg 1) ?c [Open]
      = (1, ?c\<lparr> requests := [?uid \<mapsto> 1] \<rparr>, [SenderDropped, Open], request_msg 1)"
    by (simp add: handle_request_def list_channels_def drop_sender_def)
  moreover have "requests ?c ?uid = Some 0" "chan list_channels_view [Open] 0 = Open"
    by (simp_all add: list_channels_view_def)
  ultimately show ?thesis
    using request_takes_over_id [OF list_chan.oneshot_laws_axioms, of "request_msg 1" ?c "[Open]"]
    by blast
qed

text \<open>The table does not leak.  After a garbage collection in any reachable state, exactly
  the registrations whose callers still wait are left; in particular one whose caller timed
  out is gone.\<close>

theorem garbage_exact:
  assumes "oneshot_laws X V" and "\<And>h. chan V w0 h = Unused"
    and "commander_run X V (ops @ [Collect]) (commander_default, w0) = (c', w)"
  shows "\<exists>c. commander_run X V ops (commander_default, w0) = (c, w)
    \<and> requests c' uid = (case requests c uid of
          Some h \<Rightarrow> if chan V w h = Open then Some h else None | None \<Rightarrow> None)"
proof -
  have app: "commander_run X V (ops @ [op]) cw
      = commander_step X V op (commander_run X V ops cw)" for op cw
    by (induction ops arbitrary: cw) auto
  obtain c w1 where run: "commander_run X V ops (commander_default, w0) = (c, w1)" by fastforce
  then have c': "c' = collect_garbage X w1 c" "w1 = w" using assms(3) app by auto
  have inv: "table_inv V (\<Union> (op_ids ` set ops)) c w"
    using oneshot_laws.commander_run_inv [OF assms(1)
        oneshot_laws.table_inv_default [OF assms(1,2)] run] c'(2) by simp
  show ?thesis
    using run c' table_invD(1) [OF inv, of uid] oneshot_laws.closed_iff [OF assms(1)]
    by (auto simp: collect_garbage_def split: option.splits)
qed

theorem garbage_exact_witness:
  "\<exists>c. commander_run list_channels list_channels_view [DoRequest (request_msg 1), Abandon 0]
        (commander_default, []) = (c, [ReceiverDropped])
    \<and> None = (case requests c (header_unique_id (message_header (request_msg 1))) of
          Some h \<Rightarrow> if chan list_channels_view [ReceiverDropped] h = Open then Some h else None
        | None \<Rightarrow> None)"
proof -
  let ?uid = "header_unique_id (message_header (request_msg 1))"
  have fresh: "chan list_channels_view [] h = Unused" for h by (simp add: list_channels_view_def)
  have run: "commander_run list_channels list_channels_view
      ([DoRequest (request_msg 1), Abandon 0] @ [Collect]) (commander_default, [])
      = (\<lparr> requests = Map.empty, commander_once = False \<rparr>, [ReceiverDropped])"
    by (simp add: handle_request_def list_channels_def list_channels_view_def drop_sender_def
        commander_default_def collect_garbage_def fun_eq_iff)
  from garbage_exact [OF list_chan.oneshot_laws_axioms fresh run, of ?uid]
  show ?thesis by simp
qed

text \<open>With the documented driver, retries are bounded, fresh and stop at the first success.  Retrying with a strategy
  of at most \<open>max_count\<close> delays sends at least one and at most \<open>max_count + 1\<close> messages,
  each made anew; all but the last failed; the result is an accepted response if and only if
  the last reply is one that is not marked invalid, and an error is returned only after
  \<open>max_count + 1\<close> sends.\<close>

lemma send_retry_bounded:
  assumes "retry_laws spawn"
    and "send_retry spawn message reply (retry_strategy backoff jitter max_count) = (result, sent)"
  shows "\<exists>n. sent = map message [0..<Suc n] \<and> n \<le> max_count
    \<and> result = send_result (reply n (message n))
    \<and> (\<forall>i < n. \<exists>e. send_result (reply i (message i)) = Inl e)
    \<and> (\<forall>resp. result = Inr resp \<longleftrightarrow>
        reply n (message n) = Inr (Some resp) \<and> \<not> invalid (ty (response_header resp)))
    \<and> ((\<exists>e. result = Inl e) \<longrightarrow> n = max_count)"
proof -
  let ?act = "\<lambda>i. send_result (reply i (message i))"
  obtain runs where sp: "spawn (retry_strategy backoff jitter max_count) ?act = (result, runs)"
    and sent: "sent = map message [0..<runs]"
    using assms(2) by (auto simp: send_retry_def Let_def split: prod.splits)
  have len: "length (retry_strategy backoff jitter max_count) = max_count"
    by (simp add: retry_strategy_def)
  note f = retry_laws.spawn_runs [OF assms(1) sp, unfolded len]
  obtain n where n: "runs = Suc n" using f by (cases runs) auto
  have res: "result = ?act n" and fails: "\<forall>i < n. \<exists>e. ?act i = Inl e" and le: "n \<le> max_count"
    and ok: "Suc n \<le> max_count \<longrightarrow> (\<exists>a. result = Inr a)"
    using f unfolding n diff_Suc_1 by auto
  have "result = Inr resp \<longleftrightarrow>
        reply n (message n) = Inr (Some resp) \<and> \<not> invalid (ty (response_header resp))" for resp
    by (auto simp: res send_result_def split: sum.splits option.splits)
  moreover have "n = max_count" if "result = Inl e" for e
    using ok le that by (cases "n = max_count") auto
  ultimately show ?thesis
    using res fails le sent unfolding n by (intro exI [of _ n] conjI) blast+
qed

end
