(* ===== verification/Framing.thy ===== *)
theory Framing
  imports Prelude "HOL-Library.Sublist"
begin

text \<open>
  Streams of bytes cut into items by a decoder.  The codecs of \<open>codec/src\<close> implement
  \<open>tokio_util::codec::Decoder\<close>: a decoder keeps its own state and is called on the buffer
  of received bytes, from which it removes the bytes of an item.  What the framework does
  with a decoder is any interleaving of received chunks and decode calls, a \<open>session\<close>;
  the locale \<open>stream_decoder\<close> names what a codec promises, and proves that every session
  yields the same items, however the bytes are cut into chunks.
\<close>

text \<open>The decode method: the item, if any, with the new state and the remaining buffer.\<close>

type_synonym ('s, 'e, 'i) decode_fun = "'s \<Rightarrow> bytes \<Rightarrow> 'e + ('i option \<times> 's \<times> bytes)"

datatype codec_op = Received bytes | DecodeCall

text \<open>Run a sequence of operations, collecting the items.\<close>

fun session ::
  "('s, 'e, 'i) decode_fun \<Rightarrow> codec_op list \<Rightarrow> 's \<Rightarrow> bytes \<Rightarrow> 'e + ('i list \<times> 's \<times> bytes)" where
  "session dec [] s buf = Inr ([], s, buf)"
| "session dec (Received bs # ops) s buf = session dec ops s (buf @ bs)"
| "session dec (DecodeCall # ops) s buf =
     (case dec s buf of
        Inl e \<Rightarrow> Inl e
      | Inr (item, s', buf') \<Rightarrow>
          (case session dec ops s' buf' of
             Inl e \<Rightarrow> Inl e
           | Inr (items, s'', buf'') \<Rightarrow>
               Inr ((case item of None \<Rightarrow> items | Some x \<Rightarrow> x # items), s'', buf'')))"

fun received :: "codec_op list \<Rightarrow> bytes" where
  "received [] = []"
| "received (Received bs # ops) = bs @ received ops"
| "received (DecodeCall # ops) = received ops"

text \<open>Cutting items off the front of a byte string, by a function that finds the first one.\<close>

inductive cuts :: "(bytes \<Rightarrow> ('i \<times> bytes) option) \<Rightarrow> bytes \<Rightarrow> 'i list \<Rightarrow> bytes \<Rightarrow> bool" for first where
  cuts_nil: "cuts first bs [] bs"
| cuts_step: "first bs = Some (x, bs') \<Longrightarrow> cuts first bs' xs r \<Longrightarrow> cuts first bs (x # xs) r"

inductive_cases cuts_NilE [elim!]: "cuts first bs [] r"
inductive_cases cuts_ConsE [elim!]: "cuts first bs (x # xs) r"

lemma cuts_Nil_iff [simp]: "cuts first bs [] r \<longleftrightarrow> r = bs"
  by (auto intro: cuts_nil)

lemma cuts_Cons_iff [simp]:
  "cuts first bs (x # xs) r \<longleftrightarrow> (\<exists>bs'. first bs = Some (x, bs') \<and> cuts first bs' xs r)"
  by (auto intro: cuts_step)

lemma cuts_append:
  "cuts first bs xs r \<Longrightarrow> cuts first r ys r' \<Longrightarrow> cuts first bs (xs @ ys) r'"
  by (induction rule: cuts.induct) auto

text \<open>Two ways to cut the same string: the shorter one is a prefix of the other.\<close>

lemma cuts_prefix:
  assumes "cuts first bs xs r" and "cuts first bs ys r'" and "first r' = None"
  shows "\<exists>zs. ys = xs @ zs \<and> cuts first r zs r'"
  using assms
proof (induction arbitrary: ys rule: cuts.induct)
  case (cuts_step bs x bs' xs r)
  then obtain ys' where ys: "ys = x # ys'" "cuts first bs' ys' r'"
    by (cases ys) auto
  then show ?case using cuts_step by auto
qed auto

lemma cuts_unique:
  assumes "cuts first bs xs r" and "cuts first bs ys r'" and "first r = None" and "first r' = None"
  shows "xs = ys \<and> r = r'"
  using cuts_prefix [OF assms(1,2,4)] assms(3) by (auto elim: cuts.cases)

lemma cuts_frames:
  assumes "\<And>x rest. x \<in> set xs \<Longrightarrow> first (frame x @ rest) = Some (x, rest)"
  shows "cuts first (concat (map frame xs) @ rest) xs rest"
  using assms by (induction xs) auto

text \<open>
  The contract of a decoder.  \<open>fit s buf fut\<close> relates the decoder's state to the buffer
  and to the bytes still to come; \<open>first\<close> finds the first item of a byte string.
\<close>

locale stream_decoder =
  fixes dec :: "('s, 'e, 'i) decode_fun"
    and first :: "bytes \<Rightarrow> ('i \<times> bytes) option"
    and fit :: "'s \<Rightarrow> bytes \<Rightarrow> bytes \<Rightarrow> bool"
  assumes dec_first: "fit s buf fut \<Longrightarrow>
      \<exists>s'. dec s buf = Inr (map_option fst (first buf), s',
             (case first buf of None \<Rightarrow> buf | Some (x, rest) \<Rightarrow> rest))
         \<and> fit s' (case first buf of None \<Rightarrow> buf | Some (x, rest) \<Rightarrow> rest) fut"
    and fit_receive: "fit s buf (bs @ fut) \<Longrightarrow> fit s (buf @ bs) fut"
    and first_append: "fit s buf (ext @ fut) \<Longrightarrow> first buf = Some (x, rest) \<Longrightarrow>
      first (buf @ ext) = Some (x, rest @ ext)"
    and first_shrinks: "first buf = Some (x, rest) \<Longrightarrow> length rest < length buf"
begin

lemma fit_rest:
  assumes "fit s buf fut" and "first buf = Some (x, rest)"
  shows "\<exists>s'. dec s buf = Inr (Some x, s', rest) \<and> fit s' rest fut"
  using dec_first [OF assms(1)] assms(2) by simp

lemma fit_none:
  assumes "fit s buf fut" and "first buf = None"
  shows "\<exists>s'. dec s buf = Inr (None, s', buf) \<and> fit s' buf fut"
  using dec_first [OF assms(1)] assms(2) by simp

text \<open>A session never fails, and what it yields are the first items of what was received.\<close>

lemma session_cuts:
  assumes "fit s buf (received ops @ fut)"
  shows "\<exists>items s' buf'. session dec ops s buf = Inr (items, s', buf')
    \<and> cuts first (buf @ received ops) items buf' \<and> fit s' buf' fut"
  using assms
proof (induction ops arbitrary: s buf)
  case (Cons op ops)
  show ?case
  proof (cases op)
    case (Received bs)
    then show ?thesis using Cons.IH [of s "buf @ bs"] Cons.prems fit_receive by simp
  next
    case DecodeCall
    then have fit: "fit s buf (received ops @ fut)" using Cons.prems by simp
    show ?thesis
    proof (cases "first buf")
      case None
      then obtain s1 where "dec s buf = Inr (None, s1, buf)" "fit s1 buf (received ops @ fut)"
        using fit_none [OF fit] by blast
      with Cons.IH [of s1 buf] DecodeCall show ?thesis by auto
    next
      case (Some p)
      obtain x rest where p: "p = (x, rest)" by (cases p)
      then obtain s1 where s1: "dec s buf = Inr (Some x, s1, rest)" "fit s1 rest (received ops @ fut)"
        using fit_rest [OF fit] Some by blast
      have "first (buf @ received ops) = Some (x, rest @ received ops)"
        using first_append [OF fit] Some p by blast
      with Cons.IH [OF s1(2)] s1(1) DecodeCall show ?thesis by auto
    qed
  qed
qed simp

text \<open>Enough decode calls empty the buffer of complete items.\<close>

lemma session_drain:
  assumes "fit s buf fut" and "cuts first buf items rest" and "first rest = None"
    and "length items \<le> n"
  shows "\<exists>s'. session dec (replicate n DecodeCall) s buf = Inr (items, s', rest) \<and> fit s' rest fut"
  using assms
proof (induction n arbitrary: s buf items)
  case (Suc n)
  show ?case
  proof (cases items)
    case Nil
    then have buf: "rest = buf" using Suc.prems(2) by simp
    then obtain s1 where "dec s buf = Inr (None, s1, buf)" "fit s1 buf fut"
      using fit_none [OF Suc.prems(1)] Suc.prems(3) by auto
    with Suc.IH [of s1 buf "[]"] Suc.prems(3) buf Nil show ?thesis by auto
  next
    case (Cons x xs)
    then obtain buf1 where b: "first buf = Some (x, buf1)" "cuts first buf1 xs rest"
      using Suc.prems(2) by auto
    then obtain s1 where "dec s buf = Inr (Some x, s1, buf1)" "fit s1 buf1 fut"
      using fit_rest [OF Suc.prems(1)] by blast
    with Suc.IH [of s1 buf1 xs] b Suc.prems(3,4) Cons show ?thesis by auto
  qed
qed simp

end

lemma session_append:
  "session dec (ops1 @ ops2) s buf =
     (case session dec ops1 s buf of
        Inl e \<Rightarrow> Inl e
      | Inr (items1, s1, buf1) \<Rightarrow>
          (case session dec ops2 s1 buf1 of
             Inl e \<Rightarrow> Inl e
           | Inr (items2, s2, buf2) \<Rightarrow> Inr (items1 @ items2, s2, buf2)))"
  by (induction dec ops1 s buf rule: session.induct) (auto split: sum.splits option.splits)

lemma received_append [simp]: "received (ops1 @ ops2) = received ops1 @ received ops2"
  by (induction ops1 rule: received.induct) auto

lemma received_calls [simp]: "received (replicate n DecodeCall) = []"
  by (induction n) auto

context stream_decoder
begin

text \<open>
  However a stream is cut into chunks and whenever the decoder is called in between, the
  items are the first ones of the stream; with enough calls at the end they are all of them.
\<close>

lemma session_items:
  assumes "fit s buf (received ops @ fut)" and "cuts first (buf @ received ops) items rest"
    and "first rest = None"
  shows "\<exists>items1 items2 s' buf'. session dec ops s buf = Inr (items1, s', buf')
    \<and> items = items1 @ items2 \<and> cuts first buf' items2 rest \<and> fit s' buf' fut"
proof -
  obtain items1 s' buf' where 1: "session dec ops s buf = Inr (items1, s', buf')"
    "cuts first (buf @ received ops) items1 buf'" "fit s' buf' fut"
    using session_cuts [OF assms(1)] by blast
  obtain items2 where "items = items1 @ items2" "cuts first buf' items2 rest"
    using cuts_prefix [OF 1(2) assms(2,3)] by blast
  with 1 show ?thesis by blast
qed

lemma session_all_items:
  assumes "fit s buf (received ops @ fut)" and "cuts first (buf @ received ops) items rest"
    and "first rest = None" and "length items \<le> n"
  shows "\<exists>s'. session dec (ops @ replicate n DecodeCall) s buf = Inr (items, s', rest)
    \<and> fit s' rest fut"
proof -
  obtain items1 items2 s1 buf1 where 1: "session dec ops s buf = Inr (items1, s1, buf1)"
    "items = items1 @ items2" "cuts first buf1 items2 rest" "fit s1 buf1 fut"
    using session_items [OF assms(1-3)] by blast
  obtain s2 where "session dec (replicate n DecodeCall) s1 buf1 = Inr (items2, s2, rest)"
    "fit s2 rest fut"
    using session_drain [OF 1(4,3) assms(3), of n] assms(4) 1(2) by auto
  then show ?thesis using 1 by (simp add: session_append)
qed

end

end
