(* ===== verification/Cobs_Codec.thy ===== *)
theory Cobs_Codec
  imports Framing
begin

text \<open>
  \<open>CobsCodec\<close> of \<open>codec/src/cobs.rs\<close>, the framing of the serial links: every message is
  COBS-encoded and ended by a zero byte.  The encoding itself (the crate \<open>cobs\<close>) is a
  parameter, the record \<open>cobs_lib\<close> of the three functions that the codec calls; the locale
  \<open>cobs_library\<close> names what they document, and a direct implementation of the encoding
  satisfies it.
\<close>

text \<open>
  \<open>cobs_encode src dest\<close> returns the number of bytes written and the new contents of the
  destination, or panics (\<open>None\<close>) when the destination is too small.  \<open>decode_report buf\<close>
  decodes in place up to the first zero; it returns the numbers of bytes read and written,
  or an error, and the new contents of the buffer in both cases.
\<close>

record cobs_lib =
  max_encoding_length :: "nat \<Rightarrow> nat"
  cobs_encode :: "bytes \<Rightarrow> bytes \<Rightarrow> (nat \<times> bytes) option"
  decode_report :: "bytes \<Rightarrow> (nat \<times> nat) option \<times> bytes"

datatype cobs_error = CobsProtocol

datatype cobs_panic = CobsPanic

text \<open>\<open>BytesMut::resize\<close>.\<close>

definition resize :: "nat \<Rightarrow> u8 \<Rightarrow> bytes \<Rightarrow> bytes" where
  "resize n v xs = take n xs @ replicate (n - length xs) v"

definition cobs_codec_encode :: "cobs_lib \<Rightarrow> bytes \<Rightarrow> bytes \<Rightarrow> cobs_panic + bytes" where
  "cobs_codec_encode L item dst =
     (let old_len = length dst;
          dst1 = resize (old_len + max_encoding_length L (length item)) 0 dst
      in case cobs_encode L item (drop old_len dst1) of
           None \<Rightarrow> Inl CobsPanic
         | Some (count, out) \<Rightarrow> Inr (resize (old_len + count + 1) 0 (take old_len dst1 @ out)))"

text \<open>\<open>src.iter().position(|x| x == 0)\<close>.\<close>

fun zero_position :: "bytes \<Rightarrow> nat option" where
  "zero_position [] = None"
| "zero_position (x # xs) = (if x = 0 then Some 0 else map_option Suc (zero_position xs))"

definition cobs_codec_decode :: "cobs_lib \<Rightarrow> (unit, cobs_panic, cobs_error + bytes) decode_fun" where
  "cobs_codec_decode L s src =
     (if src = [] \<or> 0 \<notin> set src then Inr (None, s, src)
      else case decode_report L src of
        (None, src') \<Rightarrow>
          Inr (Some (Inl CobsProtocol), s,
            case zero_position src' of Some pos \<Rightarrow> drop (pos + 1) src' | None \<Rightarrow> src')
      | (Some (src_used, dst_used), src') \<Rightarrow>
          if length src' < src_used then Inl CobsPanic
          else
            let next_zero = (if prefix [0] (drop src_used src') then 1 else 0);
                result = take (src_used + next_zero) src'
            in Inr (Some (Inr (take dst_used result)), s, drop (src_used + next_zero) src'))"

definition cobs_codec_decode_eof :: "cobs_lib \<Rightarrow> (unit, cobs_panic, cobs_error + bytes) decode_fun" where
  "cobs_codec_decode_eof L s buf =
     cobs_codec_decode L s
       (if buf \<noteq> [] \<and> last buf \<noteq> 0 then resize (length buf + 1) 0 buf else buf)"

subsection \<open>The library\<close>

text \<open>
  \<open>enc\<close> is the encoding of a message.  Encoding into a destination of the documented
  maximal length writes it to the front of the destination and nothing behind it; it has no
  zero.  Decoding in place stops at the first zero, which it does not count as read, never
  writes at or behind that zero, and inverts the encoding.  Only messages of at least one
  byte are assumed to be encodable.
\<close>

locale cobs_library =
  fixes L :: cobs_lib and enc :: "bytes \<Rightarrow> bytes"
  assumes encode_enc: "src \<noteq> [] \<Longrightarrow> max_encoding_length L (length src) \<le> length dest \<Longrightarrow>
      cobs_encode L src dest = Some (length (enc src), enc src @ drop (length (enc src)) dest)
      \<and> length (enc src) \<le> length dest"
    and enc_no_zero: "src \<noteq> [] \<Longrightarrow> 0 \<notin> set (enc src)"
    and decode_enc: "src \<noteq> [] \<Longrightarrow>
      \<exists>pad. decode_report L (enc src @ 0 # rest)
        = (Some (length (enc src), length src), src @ pad @ 0 # rest)
      \<and> length (src @ pad) = length (enc src)"
    and decode_frame: "0 \<notin> set f \<Longrightarrow>
      \<exists>r f'. decode_report L (f @ 0 # rest) = (r, f' @ 0 # rest) \<and> length f' = length f
        \<and> (case r of None \<Rightarrow> True | Some (s, d) \<Rightarrow> s = length f \<and> d \<le> length f)"

lemma zero_position_append:
  "zero_position (f @ 0 # rest) = Some n \<Longrightarrow>
    n \<le> length f \<and> drop (Suc n) (f @ 0 # rest) = drop (Suc n) (f @ [0]) @ rest"
  by (induction f arbitrary: n) (auto split: if_splits)

lemma zero_position_some: "\<exists>n. zero_position (f @ 0 # rest) = Some n"
  by (induction f) auto

lemma first_zero_split:
  fixes bs :: bytes
  assumes "0 \<in> set bs"
  shows "\<exists>f rest. bs = f @ 0 # rest \<and> 0 \<notin> set f"
  using assms by (metis split_list_first)

text \<open>What is left of a buffer: the bytes behind a zero, or something shorter than what was there.\<close>

definition closer :: "bytes \<Rightarrow> bytes \<Rightarrow> bytes \<Rightarrow> bool" where
  "closer rest g buf \<longleftrightarrow> buf = rest \<or> (\<exists>g'. buf = g' @ 0 # rest \<and> length g' < length g)"

context cobs_library
begin

lemma encode_frame:
  assumes "src \<noteq> []"
  shows "cobs_codec_encode L src dst = Inr (dst @ enc src @ [0])"
proof -
  let ?m = "max_encoding_length L (length src)"
  have e: "cobs_encode L src (replicate ?m 0)
      = Some (length (enc src), enc src @ replicate (?m - length (enc src)) 0)"
    and l: "length (enc src) \<le> ?m"
    using encode_enc [OF assms, of "replicate ?m 0"] by simp_all
  have "take (Suc (length (enc src))) (enc src @ replicate (?m - length (enc src)) 0)
      @ replicate (Suc (length (enc src)) - ?m) 0 = enc src @ [0]"
  proof (cases "length (enc src) = ?m")
    case False
    then obtain k where "?m - length (enc src) = Suc k" using l by (cases "?m - length (enc src)") auto
    then show ?thesis by simp
  qed simp
  then show ?thesis using e l by (simp add: cobs_codec_encode_def resize_def Let_def)
qed

lemma decode_encoded:
  assumes "src \<noteq> []"
  shows "cobs_codec_decode L s (enc src @ 0 # rest) = Inr (Some (Inr src), s, rest)"
proof -
  obtain pad where "decode_report L (enc src @ 0 # rest)
      = (Some (length (enc src), length src), src @ pad @ 0 # rest)"
    and len: "length (enc src) = length src + length pad"
    using decode_enc [OF assms, of rest] by auto
  then show ?thesis by (simp add: cobs_codec_decode_def len)
qed

text \<open>A call on a buffer with a zero yields something and leaves less before any given zero.\<close>

lemma decode_first_frame:
  assumes "0 \<notin> set f"
  shows "\<exists>item buf. cobs_codec_decode L s (f @ 0 # rest) = Inr (Some item, s, buf) \<and> closer rest f buf"
proof -
  obtain r f' where d: "decode_report L (f @ 0 # rest) = (r, f' @ 0 # rest)" "length f' = length f"
    and r: "case r of None \<Rightarrow> True | Some (s, d) \<Rightarrow> s = length f \<and> d \<le> length f"
    using decode_frame [OF assms] by blast
  show ?thesis
  proof (cases r)
    case None
    obtain n where n: "zero_position (f' @ 0 # rest) = Some n" using zero_position_some by blast
    have z: "n \<le> length f'" "drop (Suc n) (f' @ 0 # rest) = drop (Suc n) (f' @ [0]) @ rest"
      using zero_position_append [OF n] by auto
    have "closer rest f (drop (Suc n) (f' @ 0 # rest))"
    proof (cases "n = length f'")
      case False
      then have "drop (Suc n) (f' @ 0 # rest) = drop (Suc n) f' @ 0 # rest"
        and "length (drop (Suc n) f') < length f"
        using z(1) d(2) by simp_all
      then show ?thesis unfolding closer_def by blast
    qed (simp add: closer_def)
    then show ?thesis using d(1) None n by (simp add: cobs_codec_decode_def)
  next
    case (Some sd)
    then show ?thesis using d r by (auto simp: cobs_codec_decode_def closer_def split: prod.splits)
  qed
qed

lemma decode_closer:
  "\<exists>item buf. cobs_codec_decode L s (g @ 0 # rest) = Inr (Some item, s, buf) \<and> closer rest g buf"
proof (cases "0 \<in> set g")
  case False
  then show ?thesis by (rule decode_first_frame)
next
  case True
  then obtain f g1 where g: "g = f @ 0 # g1" "0 \<notin> set f" using first_zero_split by blast
  obtain item buf where d: "cobs_codec_decode L s (f @ 0 # (g1 @ 0 # rest)) = Inr (Some item, s, buf)"
    and c: "closer (g1 @ 0 # rest) f buf"
    using decode_first_frame [OF g(2)] by blast
  from c have "closer rest g buf" unfolding closer_def
  proof
    assume "\<exists>g'. buf = g' @ 0 # g1 @ 0 # rest \<and> length g' < length f"
    then obtain g' where "buf = (g' @ 0 # g1) @ 0 # rest" "length (g' @ 0 # g1) < length g"
      using g(1) by auto
    then show "buf = rest \<or> (\<exists>g'. buf = g' @ 0 # rest \<and> length g' < length g)" by blast
  qed (use g(1) in auto)
  then show ?thesis using d g(1) by auto
qed

lemma decode_total: "\<exists>item buf'. cobs_codec_decode L s buf = Inr (item, s, buf')"
proof (cases "0 \<in> set buf")
  case True
  then obtain f rest where "buf = f @ 0 # rest" using first_zero_split by blast
  then show ?thesis using decode_closer [of s f rest] by blast
qed (simp add: cobs_codec_decode_def)

lemma session_total: "\<exists>items buf'. session (cobs_codec_decode L) ops s buf = Inr (items, s, buf')"
proof (induction ops arbitrary: buf)
  case (Cons op ops)
  then show ?case
  proof (cases op)
    case DecodeCall
    obtain item buf1 where d: "cobs_codec_decode L s buf = Inr (item, s, buf1)"
      using decode_total by blast
    obtain items buf2 where "session (cobs_codec_decode L) ops s buf1 = Inr (items, s, buf2)"
      using Cons by blast
    then show ?thesis using d DecodeCall by simp
  qed simp
qed simp

lemma resync:
  "\<exists>k items. 0 < k \<and> k \<le> Suc (length g)
    \<and> session (cobs_codec_decode L) (replicate k DecodeCall) s (g @ 0 # rest) = Inr (items, s, rest)"
proof (induction "length g" arbitrary: g rule: less_induct)
  case less
  obtain item buf where d: "cobs_codec_decode L s (g @ 0 # rest) = Inr (Some item, s, buf)"
    and c: "closer rest g buf"
    using decode_closer by blast
  from c show ?case unfolding closer_def
  proof (elim disjE exE conjE)
    assume "buf = rest"
    then show ?thesis using d by (intro exI [of _ 1]) simp
  next
    fix g' assume g': "buf = g' @ 0 # rest" "length g' < length g"
    obtain k items where k: "0 < k" "k \<le> Suc (length g')"
      "session (cobs_codec_decode L) (replicate k DecodeCall) s (g' @ 0 # rest) = Inr (items, s, rest)"
      using less [OF g'(2)] by blast
    then show ?thesis using d g' by (intro exI [of _ "Suc k"]) simp
  qed
qed

end

subsection \<open>Streams of encoded messages\<close>

text \<open>The bytes that the encoder produces for a list of messages.\<close>

definition cobs_wire :: "(bytes \<Rightarrow> bytes) \<Rightarrow> bytes list \<Rightarrow> bytes" where
  "cobs_wire enc ds = concat (map (\<lambda>d. enc d @ [0]) ds)"

definition cobs_first :: "cobs_lib \<Rightarrow> bytes \<Rightarrow> ((cobs_error + bytes) \<times> bytes) option" where
  "cobs_first L buf =
     (case cobs_codec_decode L () buf of
        Inr (Some item, s, rest) \<Rightarrow> Some (item, rest)
      | _ \<Rightarrow> None)"

text \<open>The buffer and what is still to come are the wire form of some messages and a partial one.\<close>

definition cobs_fit :: "(bytes \<Rightarrow> bytes) \<Rightarrow> unit \<Rightarrow> bytes \<Rightarrow> bytes \<Rightarrow> bool" where
  "cobs_fit enc s buf fut \<longleftrightarrow>
     (\<exists>ds tail. buf @ fut = cobs_wire enc ds @ tail \<and> 0 \<notin> set tail \<and> [] \<notin> set ds)"

lemma takeWhile_frame: "0 \<notin> set f \<Longrightarrow> takeWhile (\<lambda>x. x \<noteq> 0) (f @ 0 # rest) = f" for f :: bytes
  by (induction f) auto

lemma zero_split_unique:
  fixes f :: bytes
  assumes "f @ 0 # r = f' @ 0 # r'" and "0 \<notin> set f" and "0 \<notin> set f'"
  shows "f = f' \<and> r = r'"
proof -
  have "f = f'"
    using arg_cong [OF assms(1), of "takeWhile (\<lambda>x. x \<noteq> 0)"] assms(2,3)
    by (metis takeWhile_frame)
  then show ?thesis using assms(1) by simp
qed

fun encode_messages :: "cobs_lib \<Rightarrow> bytes list \<Rightarrow> bytes \<Rightarrow> cobs_panic + bytes" where
  "encode_messages L [] dst = Inr dst"
| "encode_messages L (d # ds) dst =
     (case cobs_codec_encode L d dst of Inl e \<Rightarrow> Inl e | Inr dst' \<Rightarrow> encode_messages L ds dst')"

context cobs_library
begin

lemma first_encoded: "d \<noteq> [] \<Longrightarrow> cobs_first L (enc d @ 0 # rest) = Some (Inr d, rest)"
  by (simp add: cobs_first_def decode_encoded)

lemma first_no_zero: "0 \<notin> set buf \<Longrightarrow> cobs_first L buf = None"
  by (simp add: cobs_first_def cobs_codec_decode_def)

lemma fit_cases:
  assumes "cobs_fit enc s buf fut" and "0 \<in> set buf"
  obtains d rest where "d \<noteq> []" and "buf = enc d @ 0 # rest" and "cobs_fit enc s rest fut"
proof -
  obtain ds tail where w: "buf @ fut = cobs_wire enc ds @ tail" "0 \<notin> set tail" "[] \<notin> set ds"
    using assms(1) by (auto simp: cobs_fit_def)
  obtain f r where buf: "buf = f @ 0 # r" "0 \<notin> set f" using first_zero_split [OF assms(2)] by blast
  obtain d ds' where ds: "ds = d # ds'"
    using w(1,2) assms(2) by (cases ds) (auto simp: cobs_wire_def dest: arg_cong [of _ _ set])
  have d: "d \<noteq> []" using w(3) ds by auto
  have "f @ 0 # (r @ fut) = enc d @ 0 # (cobs_wire enc ds' @ tail)"
    using w(1) by (simp add: buf ds cobs_wire_def)
  then have "f = enc d \<and> r @ fut = cobs_wire enc ds' @ tail"
    using zero_split_unique buf(2) enc_no_zero [OF d] by blast
  moreover from this have "cobs_fit enc s r fut"
    unfolding cobs_fit_def using w(2,3) ds by (intro exI [of _ ds'] exI [of _ tail]) simp
  ultimately show thesis using that d buf(1) by blast
qed

lemma first_shrinks: "cobs_first L buf = Some (x, rest) \<Longrightarrow> length rest < length buf"
proof -
  assume first: "cobs_first L buf = Some (x, rest)"
  then have "0 \<in> set buf" using first_no_zero [of buf] by (cases "0 \<in> set buf") auto
  then obtain f r where buf: "buf = f @ 0 # r" "0 \<notin> set f" using first_zero_split by blast
  obtain item buf' where "cobs_codec_decode L () (f @ 0 # r) = Inr (Some item, (), buf')" "closer r f buf'"
    using decode_closer by blast
  then show ?thesis using first buf(1) by (auto simp: cobs_first_def closer_def)
qed

lemma encode_messages_wire:
  "[] \<notin> set ds \<Longrightarrow> encode_messages L ds dst = Inr (dst @ cobs_wire enc ds)"
  by (induction ds arbitrary: dst) (auto simp: encode_frame cobs_wire_def)

end

sublocale cobs_library \<subseteq> stream: stream_decoder "cobs_codec_decode L" "cobs_first L" "cobs_fit enc"
proof unfold_locales
  fix s buf fut
  assume fit: "cobs_fit enc s buf fut"
  show "\<exists>s'. cobs_codec_decode L s buf = Inr (map_option fst (cobs_first L buf), s',
            (case cobs_first L buf of None \<Rightarrow> buf | Some (x, rest) \<Rightarrow> rest))
      \<and> cobs_fit enc s' (case cobs_first L buf of None \<Rightarrow> buf | Some (x, rest) \<Rightarrow> rest) fut"
  proof (cases "0 \<in> set buf")
    case True
    then obtain d rest where "d \<noteq> []" "buf = enc d @ 0 # rest" "cobs_fit enc s rest fut"
      using fit_cases [OF fit] by blast
    then show ?thesis by (simp add: first_encoded decode_encoded)
  qed (use fit in \<open>simp add: first_no_zero cobs_codec_decode_def\<close>)
next
  fix s buf bs fut
  assume "cobs_fit enc s buf (bs @ fut)"
  then show "cobs_fit enc s (buf @ bs) fut" by (simp add: cobs_fit_def)
next
  fix s buf ext fut x rest
  assume fit: "cobs_fit enc s buf (ext @ fut)" and first: "cobs_first L buf = Some (x, rest)"
  then have "0 \<in> set buf" using first_no_zero [of buf] by (cases "0 \<in> set buf") auto
  then obtain d rest' where d: "d \<noteq> []" "buf = enc d @ 0 # rest'" using fit_cases [OF fit] by blast
  then show "cobs_first L (buf @ ext) = Some (x, rest @ ext)" using first by (simp add: first_encoded)
qed (rule first_shrinks)

context cobs_library
begin

lemma cobs_stream: "stream_decoder (cobs_codec_decode L) (cobs_first L) (cobs_fit enc)"
  by (rule stream.stream_decoder_axioms)

lemma enc_not_empty: "src \<noteq> [] \<Longrightarrow> enc src \<noteq> []"
  using decode_enc [of src "[]"] by fastforce

end

subsection \<open>A direct implementation of the encoding\<close>

fun cobs_blocks :: "bytes \<Rightarrow> bytes \<Rightarrow> bytes" where
  "cobs_blocks acc [] = of_nat (Suc (length acc)) # acc"
| "cobs_blocks acc (x # xs) =
     (if x = 0 then of_nat (Suc (length acc)) # acc @ cobs_blocks [] xs
      else if length acc = 253 then 255 # acc @ [x] @ (if xs = [] then [] else cobs_blocks [] xs)
      else cobs_blocks (acc @ [x]) xs)"

function cobs_unblock :: "bytes \<Rightarrow> bytes option" where
  "cobs_unblock [] = Some []"
| "cobs_unblock (c # xs) =
     (let n = unat c - 1 in
      if c = 0 \<or> length xs < n then None
      else map_option (\<lambda>ys. take n xs @ (if c \<noteq> 255 \<and> n < length xs then [0] else []) @ ys)
             (cobs_unblock (drop n xs)))"
  by pat_completeness auto

termination by (relation "measure length") auto

definition cobs_reference :: cobs_lib where
  "cobs_reference = \<lparr>
     max_encoding_length = (\<lambda>n. n + n div 254 + 1),
     cobs_encode = (\<lambda>src dest. let e = cobs_blocks [] src in
       if length dest < length e then None else Some (length e, e @ drop (length e) dest)),
     decode_report = (\<lambda>buf. let f = takeWhile (\<lambda>x. x \<noteq> 0) buf in
       case cobs_unblock f of
         None \<Rightarrow> (None, buf)
       | Some d \<Rightarrow> (Some (length f, length d), d @ drop (length d) buf)) \<rparr>"

lemma cobs_blocks_ne: "cobs_blocks acc xs \<noteq> []"
  by (induction acc xs rule: cobs_blocks.induct) auto

lemma code_byte:
  assumes "n \<le> 254"
  shows "unat (of_nat (Suc n) :: u8) = Suc n" and "(of_nat (Suc n) :: u8) \<noteq> 0"
    and "n \<le> 253 \<Longrightarrow> (of_nat (Suc n) :: u8) \<noteq> 255"
proof -
  show u: "unat (of_nat (Suc n) :: u8) = Suc n" using assms
    by (simp add: unat_of_nat del: of_nat_Suc)
  show "(of_nat (Suc n) :: u8) \<noteq> 0" using u by (metis nat.distinct(1) unat_0)
  assume "n \<le> 253"
  show "(of_nat (Suc n) :: u8) \<noteq> 255"
  proof
    assume "(of_nat (Suc n) :: u8) = 255"
    then have "Suc n = unat (255 :: u8)" using u by metis
    then show False using \<open>n \<le> 253\<close> by simp
  qed
qed

lemma cobs_unblock_blocks:
  assumes "length acc \<le> 253"
  shows "cobs_unblock (cobs_blocks acc xs) = Some (acc @ xs)"
  using assms
proof (induction acc xs rule: cobs_blocks.induct)
  case (1 acc)
  then show ?case using code_byte [of "length acc"] by (simp add: Let_def del: of_nat_Suc)
next
  case (2 acc x xs)
  then show ?case using code_byte [of "length acc"] cobs_blocks_ne [of "[]" xs]
    by (auto simp: Let_def simp del: of_nat_Suc)
qed

lemma cobs_blocks_no_zero:
  "0 \<notin> set acc \<Longrightarrow> length acc \<le> 253 \<Longrightarrow> 0 \<notin> set (cobs_blocks acc xs)"
proof (induction acc xs rule: cobs_blocks.induct)
  case (1 acc)
  then show ?case using code_byte(2) [of "length acc"] by (auto simp del: of_nat_Suc)
next
  case (2 acc x xs)
  then show ?case using code_byte(2) [of "length acc"] by (auto simp del: of_nat_Suc)
qed

lemma cobs_blocks_length:
  "length acc \<le> 253 \<Longrightarrow>
    length (cobs_blocks acc xs) \<le> length acc + length xs + (length acc + length xs) div 254 + 1"
proof (induction acc xs rule: cobs_blocks.induct)
  case (2 acc x xs)
  have mono: "length xs div 254 \<le> (Suc (length acc) + length xs) div 254" by (rule div_le_mono) simp
  show ?case
  proof (cases "x = 0")
    case True
    then show ?thesis using 2(1) mono by simp
  next
    case nz: False
    show ?thesis
    proof (cases "length acc = 253")
      case True
      have "(254 + length xs) div 254 = 1 + length xs div 254" by simp
      then show ?thesis using 2(2) nz True by auto
    next
      case False
      then show ?thesis using 2(3) nz 2(4) by simp
    qed
  qed
qed simp

lemma cobs_unblock_length: "cobs_unblock xs = Some ys \<Longrightarrow> length ys \<le> length xs"
proof (induction xs arbitrary: ys rule: cobs_unblock.induct)
  case (2 c xs)
  then show ?case by (fastforce simp: Let_def split: if_splits)
qed simp

interpretation cobs_ref: cobs_library cobs_reference "cobs_blocks []"
proof (unfold_locales, goal_cases)
  case (1 src dest)
  then show ?case using cobs_blocks_length [of "[]" src] by (simp add: cobs_reference_def Let_def)
next
  case (2 src)
  then show ?case using cobs_blocks_no_zero [of "[]" src] by simp
next
  case (3 src rest)
  let ?e = "cobs_blocks [] src"
  have u: "cobs_unblock ?e = Some src" using cobs_unblock_blocks [of "[]" src] by simp
  have l: "length src \<le> length ?e" using cobs_unblock_length [OF u] .
  have t: "takeWhile (\<lambda>x. x \<noteq> 0) (?e @ 0 # rest) = ?e"
    using takeWhile_frame cobs_blocks_no_zero [of "[]" src] by simp
  show ?case using u t l
    by (intro exI [of _ "drop (length src) ?e"]) (simp add: cobs_reference_def Let_def)
next
  case (4 f rest)
  have t: "takeWhile (\<lambda>x. x \<noteq> 0) (f @ 0 # rest) = f" using takeWhile_frame [OF 4] .
  show ?case
  proof (cases "cobs_unblock f")
    case None
    then show ?thesis using t by (simp add: cobs_reference_def Let_def)
  next
    case (Some d)
    then show ?thesis using t cobs_unblock_length [OF Some]
      by (intro exI [of _ "Some (length f, length d)"] exI [of _ "d @ drop (length d) f"])
        (simp add: cobs_reference_def Let_def)
  qed
qed

subsection \<open>Properties\<close>

lemma cobs_session_messages:
  assumes "cobs_library L enc" and "[] \<notin> set msgs" and "0 \<notin> set tail"
    and "encode_messages L msgs [] = Inr wire"
    and "received ops = wire @ tail" and "length msgs \<le> n"
  shows "session (cobs_codec_decode L) (ops @ replicate n DecodeCall) () []
    = Inr (map Inr msgs, (), tail)"
proof -
  have lib: "cobs_library L enc" by fact
  have wire: "wire = cobs_wire enc msgs"
    using cobs_library.encode_messages_wire [OF lib assms(2), of "[]"] assms(4) by simp
  have fit: "cobs_fit enc () [] (received ops @ [])"
    unfolding cobs_fit_def using assms(2,3,5) wire by auto
  have cuts_map: "cuts (cobs_first L) (cobs_wire enc ds @ tail) (map Inr ds) tail"
    if "[] \<notin> set ds" for ds
    using that
  proof (induction ds)
    case (Cons d ds)
    then have "d \<noteq> []" by auto
    then show ?case
      using Cons cobs_library.first_encoded [OF lib, of d "cobs_wire enc ds @ tail"]
      by (simp add: cobs_wire_def)
  qed (simp add: cobs_wire_def)
  have "cuts (cobs_first L) ([] @ received ops) (map Inr msgs) tail"
    using cuts_map [OF assms(2)] assms(5) wire by simp
  moreover have "cobs_first L tail = None" using cobs_library.first_no_zero [OF lib assms(3)] .
  ultimately show ?thesis
    using stream_decoder.session_all_items [OF cobs_library.cobs_stream [OF lib] fit, of "map Inr msgs" tail n]
      assms(6) by simp
qed

text \<open>C21: messages survive the serial line.  The encoder's output for a list of nonempty
  messages, cut into chunks in any way and decoded with calls in between, followed by a
  partial frame, yields exactly the messages in order, provided the decoder is called often
  enough at the end; the partial frame stays in the buffer.\<close>

theorem cobs_stream_roundtrip:
  assumes "cobs_library L enc" and "[] \<notin> set msgs" and "0 \<notin> set tail"
    and "encode_messages L msgs [] = Inr wire"
    and "received ops = wire @ tail" and "length msgs \<le> n"
  shows "session (cobs_codec_decode L) (ops @ replicate n DecodeCall) () []
    = Inr (map Inr msgs, (), tail)"
  using cobs_session_messages [OF assms] .

theorem cobs_stream_roundtrip_witness:
  "session (cobs_codec_decode cobs_reference)
     ([Received [1, 1], DecodeCall, Received [0, 3, 7], DecodeCall, Received [8, 0, 2]]
        @ replicate 2 DecodeCall) () [] = Inr ([Inr [0], Inr [7, 8]], (), [2])"
proof -
  have wire: "encode_messages cobs_reference [[0], [7, 8]] [] = Inr [1, 1, 0, 3, 7, 8, 0]"
    by (subst cobs_ref.encode_messages_wire) (simp_all add: cobs_wire_def)
  show ?thesis
    using cobs_stream_roundtrip [OF cobs_ref.cobs_library_axioms _ _ wire, of "[2]"
      "[Received [1, 1], DecodeCall, Received [0, 3, 7], DecodeCall, Received [8, 0, 2]]" 2]
    by simp
qed

text \<open>C22: the decoder resynchronises after garbage.  Whatever bytes precede a zero, and
  whatever the library leaves in the buffer when it rejects a frame, at most as many calls
  as there are bytes up to that zero bring the buffer to exactly the bytes behind it.\<close>

theorem cobs_resync:
  assumes "cobs_library L enc"
  shows "\<exists>k items. 0 < k \<and> k \<le> length (garbage @ [0])
    \<and> session (cobs_codec_decode L) (replicate k DecodeCall) () (garbage @ 0 # rest)
        = Inr (items, (), rest)"
  using cobs_library.resync [OF assms, of garbage "()" rest] by simp

theorem cobs_resync_witness:
  "\<exists>k items. 0 < k \<and> k \<le> length ([1, 5, 0 :: u8])
    \<and> session (cobs_codec_decode cobs_reference) (replicate k DecodeCall) () [1, 5, 0, 2, 9, 0]
        = Inr (items, (), [2, 9, 0])"
  using cobs_resync [OF cobs_ref.cobs_library_axioms, of "[1, 5]" "[2, 9, 0]"] by simp

text \<open>Decoding is total.  On any input, however cut, no decode call of a session panics;
  a rejected frame is an item of the stream, not an error that would end it.\<close>

theorem cobs_session_total:
  assumes "cobs_library L enc"
  shows "\<exists>items buf. session (cobs_codec_decode L) ops () [] = Inr (items, (), buf)"
  using cobs_library.session_total [OF assms] by blast

theorem cobs_session_total_witness:
  "\<exists>items buf. session (cobs_codec_decode cobs_reference) [Received [9, 0, 0, 1], DecodeCall] () []
     = Inr (items, (), buf)"
  by (rule cobs_session_total [OF cobs_ref.cobs_library_axioms])

text \<open>The end of the stream ends a frame.  At the end of the stream a complete encoded
  message whose zero has not arrived is decoded as if it had.\<close>

theorem cobs_eof_completes:
  assumes "cobs_library L enc" and "msg \<noteq> []"
  shows "cobs_codec_decode_eof L () (enc msg) = Inr (Some (Inr msg), (), [])"
proof -
  have ne: "enc msg \<noteq> []" using cobs_library.enc_not_empty [OF assms] .
  then have "last (enc msg) \<noteq> 0"
    using cobs_library.enc_no_zero [OF assms] last_in_set [OF ne] by metis
  then show ?thesis
    using cobs_library.decode_encoded [OF assms, of "()" "[]"] ne
    by (simp add: cobs_codec_decode_eof_def resize_def)
qed

theorem cobs_eof_completes_witness:
  "cobs_codec_decode_eof cobs_reference () [4, 1, 2, 3] = Inr (Some (Inr [1, 2, 3]), (), [])"
  using cobs_eof_completes [OF cobs_ref.cobs_library_axioms, of "[1, 2, 3]"] by simp

end
