(* ===== verification/Serial.thy ===== *)
theory Serial
  imports Commander Cobs_Codec Downlink_Data
begin

text \<open>
  The serial side of \<open>runtime/src/serial\<close>: \<open>Serial\<close> packs outgoing messages and parses
  incoming packets (\<open>mod.rs\<close>), \<open>AntDecode\<close> extracts the ant packet of a relay message
  (\<open>ant_decode.rs\<close>), and \<open>RawIO\<close> frames packets on the serial port (\<open>raw.rs\<close>).  A handler
  returns the broker messages that it issues, in order, or \<open>None\<close> when it panics.  The
  channel between \<open>RawIO\<close>'s handler and its writer (\<open>tokio::sync::mpsc\<close>) is a parameter.
\<close>

subsection \<open>Serial\<close>

definition try_issue_ack :: "message \<Rightarrow> broker_msg list" where
  "try_issue_ack msg =
     (case message_source msg of Info info \<Rightarrow> [AckMessageB msg] | Empty \<Rightarrow> [])"

definition serial_handle_up :: "(bytes \<Rightarrow> u8) \<Rightarrow> message \<Rightarrow> broker_msg list option" where
  "serial_handle_up crc8 msg =
     (case pack_to_vec (message_ops crc8) msg of
        Ok v \<Rightarrow> Some [RawUpPacket v]
      | Inl (Fail e) \<Rightarrow> Some []
      | Inl Panic \<Rightarrow> None)"

definition serial_handle_down :: "(bytes \<Rightarrow> u8) \<Rightarrow> bytes \<Rightarrow> broker_msg list option" where
  "serial_handle_down crc8 pkt =
     (case unpack_from_slice (message_ops crc8) pkt of
        Ok unpacked \<Rightarrow> Some (DownMessageB unpacked # try_issue_ack unpacked)
      | Inl (Fail e) \<Rightarrow> Some []
      | Inl Panic \<Rightarrow> None)"

text \<open>\<open>started\<close> of the two actors: the subscription happens in the first call only; the result
  is the flag and whether this call subscribed.\<close>

definition serial_started :: "bool \<Rightarrow> bool \<times> bool" where
  "serial_started subscribe_once = (True, \<not> subscribe_once)"

definition ant_decode_started :: "bool \<Rightarrow> bool \<times> bool" where
  "ant_decode_started subscribe_once = (True, \<not> subscribe_once)"

subsection \<open>AntDecode\<close>

definition ant_decode ::
  "cs_payload struct_ops \<Rightarrow> (bytes \<Rightarrow> u8) \<Rightarrow> message \<Rightarrow> broker_msg list option" where
  "ant_decode C crc8 msg =
     (if \<not> is_relay_ack (ty (message_header msg)) then Some []
      else case unpack_from_slice (cs_relay_ops C crc8) (message_payload msg) of
        Ok relay \<Rightarrow> Some [AntMessageB (payload relay)]
      | Inl (Fail e) \<Rightarrow> Some []
      | Inl Panic \<Rightarrow> None)"

subsection \<open>RawIO\<close>

record 'c mpsc_ops =
  mpsc_new :: 'c
  mpsc_send :: "bytes \<Rightarrow> 'c \<Rightarrow> bool \<times> 'c"

text \<open>What the receiving end of a channel still gets, and whether it exists.\<close>

locale mpsc_laws =
  fixes M :: "'c mpsc_ops" and queue :: "'c \<Rightarrow> bytes list" and alive :: "'c \<Rightarrow> bool"
  assumes new_queue: "queue (mpsc_new M) = [] \<and> alive (mpsc_new M)"
    and send_alive: "alive c \<Longrightarrow> fst (mpsc_send M b c) \<and> alive (snd (mpsc_send M b c))
      \<and> queue (snd (mpsc_send M b c)) = queue c @ [b]"
    and send_dead: "\<not> alive c \<Longrightarrow> \<not> fst (mpsc_send M b c)"

definition list_mpsc :: "bytes list mpsc_ops" where
  "list_mpsc = \<lparr> mpsc_new = [], mpsc_send = (\<lambda>b q. (True, q @ [b])) \<rparr>"

interpretation list_queue: mpsc_laws list_mpsc "\<lambda>q. q" "\<lambda>_. True"
  by unfold_locales (simp_all add: list_mpsc_def)

record 'c raw_io =
  raw_tx :: "'c option"
  raw_subscribed :: bool

definition raw_io_new :: "'c raw_io" where
  "raw_io_new = \<lparr> raw_tx = None, raw_subscribed = False \<rparr>"

text \<open>
  \<open>started\<close>, when the port could be opened: a new channel to a new writer, one subscription
  to packets in the actor's life.  Without a port the actor stops, and is restarted.
\<close>

definition raw_connected :: "'c mpsc_ops \<Rightarrow> bool \<Rightarrow> 'c raw_io \<Rightarrow> 'c raw_io option" where
  "raw_connected M opened a =
     (if \<not> opened then None
      else Some (a\<lparr> raw_tx := Some (mpsc_new M), raw_subscribed := True \<rparr>))"

definition raw_restarting :: "'c raw_io \<Rightarrow> 'c raw_io" where
  "raw_restarting a = a\<lparr> raw_tx := None \<rparr>"

definition raw_handle_up :: "'c mpsc_ops \<Rightarrow> bytes \<Rightarrow> 'c raw_io \<Rightarrow> 'c raw_io" where
  "raw_handle_up M pkt a =
     (case raw_tx a of
        Some tx \<Rightarrow> a\<lparr> raw_tx := Some (snd (mpsc_send M pkt tx)) \<rparr>
      | None \<Rightarrow> a)"

text \<open>
  The codec's error type has an input/output variant besides the protocol error.  The writer
  ends with the result of sending all packets, the reader gets items that are results inside
  the stream's own results, whose errors it unwraps.
\<close>

datatype raw_error = RawCobsProtocol | RawIo

datatype raw_reaction =
    StopActor
  | LogOnly
  | Issue broker_msg
  | ReaderPanic

definition raw_writer_ended :: "raw_error + unit \<Rightarrow> raw_reaction" where
  "raw_writer_ended result =
     (case result of Inl RawIo \<Rightarrow> StopActor | Inl RawCobsProtocol \<Rightarrow> LogOnly | Inr u \<Rightarrow> LogOnly)"

definition raw_reader_item :: "unit + (raw_error + bytes) \<Rightarrow> raw_reaction" where
  "raw_reader_item x =
     (case x of
        Inl io_error \<Rightarrow> ReaderPanic
      | Inr (Inr pkt) \<Rightarrow> Issue (RawDownPacket pkt)
      | Inr (Inl RawIo) \<Rightarrow> StopActor
      | Inr (Inl RawCobsProtocol) \<Rightarrow> LogOnly)"

text \<open>What the decoder yields, as an item of the stream.\<close>

definition stream_item :: "cobs_error + bytes \<Rightarrow> unit + (raw_error + bytes)" where
  "stream_item item =
     (case item of Inl CobsProtocol \<Rightarrow> Inr (Inl RawCobsProtocol) | Inr pkt \<Rightarrow> Inr (Inr pkt))"

text \<open>A read error of the serial port is not handled.  The reader's arm that stops the
  actor to reconnect is reached by no item that the decoder can yield, and an input/output
  error of the stream itself is unwrapped, so that the reader panics instead.\<close>

theorem raw_reader_never_reconnects:
  "raw_reader_item (stream_item item) \<noteq> StopActor
   \<and> raw_reader_item (stream_item item) \<noteq> ReaderPanic
   \<and> raw_reader_item (Inl io_error) = ReaderPanic"
  by (auto simp: raw_reader_item_def stream_item_def split: sum.splits cobs_error.splits)

subsection \<open>Properties of the handlers\<close>

lemma pack_fresh: "pack_to_vec (message_ops crc8) (with_crc_new v) = Ok (message_wire crc8 v)"
  using message.pack_to_vec_enc [OF message_coherent_new, of crc8 v] by (simp add: with_crc_new_def)

lemma serial_down_wire:
  "\<exists>m. val m = v \<and> message_coherent crc8 m
    \<and> serial_handle_down crc8 (message_wire crc8 v) = Some (DownMessageB m # try_issue_ack m)"
proof -
  obtain m where "unpack_from_slice (message_ops crc8) (message_wire crc8 v) = Ok m"
    "message_coherent crc8 m" "val m = v"
    using message.unpack_enc [of crc8 v] by blast
  then show ?thesis by (auto simp: serial_handle_down_def)
qed

text \<open>C26: every incoming packet is classified.  No packet makes the serial actor panic; a packet
  that is the wire form of a message is issued once as that message, and once more as an
  acknowledgement exactly if the message names a source; any other packet is dropped without
  a trace on the broker.\<close>

theorem serial_down_exact:
  "(\<exists>out. serial_handle_down crc8 pkt = Some out)
   \<and> (\<forall>m. serial_handle_down crc8 pkt = Some [DownMessageB m, AckMessageB m] \<longleftrightarrow>
        unpack_from_slice (message_ops crc8) pkt = Ok m \<and> message_source m \<noteq> Empty)
   \<and> (\<forall>m. serial_handle_down crc8 pkt = Some [DownMessageB m] \<longleftrightarrow>
        unpack_from_slice (message_ops crc8) pkt = Ok m \<and> message_source m = Empty)
   \<and> (serial_handle_down crc8 pkt = Some [] \<longleftrightarrow> pkt \<notin> range (message_wire crc8))"
proof -
  have np: "unpack_from_slice (message_ops crc8) pkt \<noteq> Panicked" by (rule message.unpack_no_panic)
  have acc: "pkt \<in> range (message_wire crc8) \<longleftrightarrow> (\<exists>m. unpack_from_slice (message_ops crc8) pkt = Ok m)"
    using message.accepted_iff by blast
  consider (ok) m where "unpack_from_slice (message_ops crc8) pkt = Ok m"
    | (err) e where "unpack_from_slice (message_ops crc8) pkt = Inl (Fail e)"
    using np by (metis failure.exhaust sum.exhaust)
  then show ?thesis
  proof cases
    case (ok m)
    then show ?thesis using acc
      by (cases "message_source m") (auto simp: serial_handle_down_def try_issue_ack_def)
  next
    case (err e)
    then show ?thesis using acc by (auto simp: serial_handle_down_def)
  qed
qed

text \<open>The ant's answer is taken out of a relay message.  \<open>AntDecode\<close> issues an ant packet
  for a message exactly if the message is an acknowledgement of the relay event whose payload
  is 20 bytes that the central station's parser accepts followed by that packet's wire form
  with a matching inner checksum; it then issues only that packet.\<close>

theorem ant_decode_exact:
  assumes "byte_array_len C = 20"
  shows "(\<exists>p. ant_decode C crc8 msg = Some [AntMessageB p] \<and> val p = v) \<longleftrightarrow>
    is_relay_ack (ty (message_header msg))
    \<and> (\<exists>cb cs. length cb = 20 \<and> unpack C cb = Ok cs \<and> message_payload msg = cb @ ant_packet_wire crc8 v)"
proof -
  let ?r = "unpack_from_slice (cs_relay_ops C crc8) (message_payload msg)"
  have "(\<exists>p. ant_decode C crc8 msg = Some [AntMessageB p] \<and> val p = v) \<longleftrightarrow>
      is_relay_ack (ty (message_header msg)) \<and> (\<exists>r. ?r = Ok r \<and> val (payload r) = v)"
    by (auto simp: ant_decode_def split: sum.splits failure.splits)
  also have "(\<exists>r. ?r = Ok r \<and> val (payload r) = v) \<longleftrightarrow>
      (\<exists>cs cb. length cb = 20 \<and> unpack C cb = Ok cs \<and> message_payload msg = cb @ ant_packet_wire crc8 v)"
    using relay_unpack_iff [OF assms, of crc8 "message_payload msg" _ v] by metis
  finally show ?thesis by blast
qed

text \<open>A relay message with a fresh ant packet inside, for concrete inputs.\<close>

definition relay_msg :: "(bytes \<Rightarrow> u8) \<Rightarrow> ant_packet_val \<Rightarrow> message" where
  "relay_msg crc8 v = with_crc_new \<lparr> header = \<lparr>
     header = (message_header (request_msg 9))
       \<lparr> ty := \<lparr> disposition = Ack, invalid = False, event = CSRelay \<rparr> \<rparr>,
     payload = Empty \<rparr>,
     payload = replicate 20 0 @ ant_packet_wire crc8 v \<rparr>"

theorem ant_decode_exact_witness:
  "\<forall>v. \<exists>p. ant_decode cs_bytewise (\<lambda>_. 7) (relay_msg (\<lambda>_. 7) v) = Some [AntMessageB p] \<and> val p = v"
proof
  fix v
  have len: "byte_array_len cs_bytewise = 20" by (simp add: cs_bytewise_def)
  have "is_relay_ack (ty (message_header (relay_msg (\<lambda>_. 7) v)))"
    by (simp add: relay_msg_def is_relay_ack_def)
  moreover have "\<exists>cs. unpack cs_bytewise (replicate 20 0) = Ok cs" by (simp add: cs_bytewise_def)
  moreover have "message_payload (relay_msg (\<lambda>_. 7) v) = replicate 20 0 @ ant_packet_wire (\<lambda>_. 7) v"
    by (simp add: relay_msg_def)
  moreover have "length (replicate 20 (0 :: u8)) = 20" by simp
  ultimately show "\<exists>p. ant_decode cs_bytewise (\<lambda>_. 7) (relay_msg (\<lambda>_. 7) v) = Some [AntMessageB p] \<and> val p = v"
    using ant_decode_exact [OF len] by blast
qed

subsection \<open>The serial line from end to end\<close>

text \<open>The packets that \<open>Serial\<close> issues for a list of messages go through \<open>RawIO\<close>'s handler
  into the channel; its writer encodes what the channel gives it.\<close>

definition raw_up_packets :: "broker_msg list \<Rightarrow> bytes list" where
  "raw_up_packets out = concat (map (\<lambda>b. case b of RawUpPacket p \<Rightarrow> [p] | _ \<Rightarrow> []) out)"

definition serial_send_all ::
  "(bytes \<Rightarrow> u8) \<Rightarrow> 'c mpsc_ops \<Rightarrow> message list \<Rightarrow> 'c raw_io \<Rightarrow> 'c raw_io option" where
  "serial_send_all crc8 M msgs a =
     (if \<exists>msg \<in> set msgs. serial_handle_up crc8 msg = None then None
      else Some (fold (raw_handle_up M)
        (raw_up_packets (concat (map (\<lambda>msg. the (serial_handle_up crc8 msg)) msgs))) a))"

text \<open>The other direction: what the decoder yields is issued by the reader and handled.\<close>

definition packets_in :: "(cobs_error + bytes) list \<Rightarrow> bytes list" where
  "packets_in items = concat (map (\<lambda>item.
     case raw_reader_item (stream_item item) of Issue (RawDownPacket p) \<Rightarrow> [p] | _ \<Rightarrow> []) items)"

definition serial_receive_all :: "(bytes \<Rightarrow> u8) \<Rightarrow> (cobs_error + bytes) list \<Rightarrow> broker_msg list option" where
  "serial_receive_all crc8 items =
     (let outs = map (serial_handle_down crc8) (packets_in items)
      in if None \<in> set outs then None else Some (concat (map the outs)))"

lemma packets_in_Inr [simp]: "packets_in (map Inr pkts) = pkts"
  by (induction pkts) (simp_all add: packets_in_def stream_item_def raw_reader_item_def)

lemma raw_handle_up_all:
  assumes "mpsc_laws M queue alive" and "raw_tx a = Some tx" and "alive tx"
  shows "\<exists>tx'. raw_tx (fold (raw_handle_up M) pkts a) = Some tx' \<and> alive tx'
    \<and> queue tx' = queue tx @ pkts"
  using assms(2,3)
proof (induction pkts arbitrary: a tx)
  case (Cons p pkts)
  have s: "alive (snd (mpsc_send M p tx))" "queue (snd (mpsc_send M p tx)) = queue tx @ [p]"
    using mpsc_laws.send_alive [OF assms(1) Cons.prems(2)] by simp_all
  have "raw_tx (raw_handle_up M p a) = Some (snd (mpsc_send M p tx))"
    using Cons.prems(1) by (simp add: raw_handle_up_def)
  from Cons.IH [OF this s(1)] s(2) show ?case by simp
qed simp

lemma serial_up_fresh: "serial_handle_up crc8 (with_crc_new v) = Some [RawUpPacket (message_wire crc8 v)]"
  by (simp add: serial_handle_up_def pack_fresh)

lemma serial_send_fresh:
  "serial_send_all crc8 M (map with_crc_new vs) a
     = Some (fold (raw_handle_up M) (map (message_wire crc8) vs) a)"
proof -
  have "raw_up_packets (concat (map (\<lambda>msg. the (serial_handle_up crc8 msg)) (map with_crc_new vs)))
      = map (message_wire crc8) vs"
    by (induction vs) (simp_all add: raw_up_packets_def serial_up_fresh)
  then show ?thesis by (auto simp: serial_send_all_def serial_up_fresh)
qed

text \<open>What the receiver issues for a value: the message, and its acknowledgement if it has a source.\<close>

definition received_as :: "(bytes \<Rightarrow> u8) \<Rightarrow> message_val \<Rightarrow> broker_msg list \<Rightarrow> bool" where
  "received_as crc8 v out \<longleftrightarrow>
     (\<exists>m. val m = v \<and> message_coherent crc8 m \<and> out = DownMessageB m # try_issue_ack m)"

lemma receive_wires:
  "\<exists>outs. serial_receive_all crc8 (map Inr (map (message_wire crc8) vs)) = Some (concat outs)
    \<and> list_all2 (received_as crc8) vs outs"
proof -
  have "\<exists>outs. map (serial_handle_down crc8) (map (message_wire crc8) vs) = map Some outs
      \<and> list_all2 (received_as crc8) vs outs"
  proof (induction vs)
    case (Cons v vs)
    then obtain outs where o: "map (serial_handle_down crc8) (map (message_wire crc8) vs) = map Some outs"
      "list_all2 (received_as crc8) vs outs"
      by blast
    obtain m where m: "val m = v" "message_coherent crc8 m"
      "serial_handle_down crc8 (message_wire crc8 v) = Some (DownMessageB m # try_issue_ack m)"
      using serial_down_wire by blast
    then have "received_as crc8 v (DownMessageB m # try_issue_ack m)"
      unfolding received_as_def by blast
    then show ?case using o m(3)
      by (intro exI [of _ "(DownMessageB m # try_issue_ack m) # outs"]) simp
  qed simp
  then obtain outs where "map (serial_handle_down crc8) (map (message_wire crc8) vs) = map Some outs"
    "list_all2 (received_as crc8) vs outs"
    by blast
  moreover have "map the (map Some outs) = outs" by (induction outs) simp_all
  ultimately show ?thesis
    unfolding serial_receive_all_def packets_in_Inr Let_def
    by (intro exI [of _ outs]) (auto simp del: map_map)
qed

lemma message_wire_not_empty [simp]: "message_wire crc8 v \<noteq> []" "[] \<noteq> message_wire crc8 v"
  by (simp_all add: message_wire_def)

text \<open>C23: messages cross the serial line unchanged.  Fresh messages handled by \<open>Serial\<close> and a
  connected \<open>RawIO\<close>, COBS-encoded by its writer, received by a peer of the same make in any
  chunks and decoded with calls at any time, are issued there one for one and in order as
  messages of the same values, each followed by an acknowledgement exactly if it names a
  source; nothing else is issued.  A partial frame may follow.\<close>

theorem serial_line_end_to_end:
  assumes "cobs_library L enc" and "mpsc_laws M queue alive"
    and "raw_tx a = Some tx" and "alive tx" and "queue tx = []"
    and "serial_send_all crc8 M (map with_crc_new vs) a = Some a'" and "raw_tx a' = Some tx'"
    and "encode_messages L (queue tx') [] = Inr wire"
    and "received ops = wire @ tail" and "0 \<notin> set tail" and "length vs \<le> n"
  shows "\<exists>items outs. session (cobs_codec_decode L) (ops @ replicate n DecodeCall) () []
        = Inr (items, (), tail)
    \<and> serial_receive_all crc8 items = Some (concat outs) \<and> list_all2 (received_as crc8) vs outs"
proof -
  have q: "queue tx' = map (message_wire crc8) vs"
    using raw_handle_up_all [OF assms(2-4), of "map (message_wire crc8) vs"] assms(5-7)
    by (auto simp: serial_send_fresh)
  have "[] \<notin> set (map (message_wire crc8) vs)" by auto
  from cobs_session_messages [OF assms(1) this assms(10) _ assms(9), of n] assms(8,11)
  have "session (cobs_codec_decode L) (ops @ replicate n DecodeCall) () []
      = Inr (map Inr (map (message_wire crc8) vs), (), tail)"
    by (simp add: q)
  then show ?thesis using receive_wires [of crc8 vs] by blast
qed

theorem serial_line_end_to_end_witness:
  "\<exists>outs. serial_receive_all (\<lambda>_. 7)
       (map Inr [message_wire (\<lambda>_. 7) (val (request_msg 1)), message_wire (\<lambda>_. 7) (val (ack_msg 1))])
     = Some (concat outs)
   \<and> list_all2 (received_as (\<lambda>_. 7)) [val (request_msg 1), val (ack_msg 1)] outs"
proof -
  let ?vs = "[val (request_msg 1), val (ack_msg 1)]"
  let ?q = "map (message_wire (\<lambda>_. 7)) ?vs"
  let ?a = "\<lparr> raw_tx = Some [], raw_subscribed = True \<rparr>"
  let ?a' = "\<lparr> raw_tx = Some ?q, raw_subscribed = True \<rparr>"
  have up: "serial_send_all (\<lambda>_. 7) list_mpsc (map with_crc_new ?vs) ?a = Some ?a'"
    unfolding serial_send_fresh by (simp add: raw_handle_up_def list_mpsc_def)
  have ne: "[] \<notin> set ?q" by auto
  have enc: "encode_messages cobs_reference ?q [] = Inr (cobs_wire (cobs_blocks []) ?q)"
    using cobs_ref.encode_messages_wire [OF ne, of "[]"] by simp
  have rec: "received [Received (cobs_wire (cobs_blocks []) ?q)] = cobs_wire (cobs_blocks []) ?q @ []"
    by simp
  have tx: "raw_tx ?a = Some []" "raw_tx ?a' = Some ?q" and z: "0 \<notin> set ([] :: bytes)"
    and len: "length ?vs \<le> 2"
    by simp_all
  obtain items outs where
    s: "session (cobs_codec_decode cobs_reference) ([Received (cobs_wire (cobs_blocks []) ?q)] @ replicate 2 DecodeCall) () []
        = Inr (items, (), [])"
    and r: "serial_receive_all (\<lambda>_. 7) items = Some (concat outs)" "list_all2 (received_as (\<lambda>_. 7)) ?vs outs"
    using serial_line_end_to_end [OF cobs_ref.cobs_library_axioms list_queue.mpsc_laws_axioms
        tx(1) TrueI refl up tx(2) enc rec z len] by blast
  have "items = map Inr ?q"
    using cobs_session_messages [OF cobs_ref.cobs_library_axioms ne z enc rec, of 2] s by simp
  then show ?thesis using r by auto
qed

end
