(* ===== verification/Ground.thy ===== *)
theory Ground
  imports Serial
begin

text \<open>
  The ground side: the datagram receivers of \<open>net/src\<close>, the \<open>Uplink\<close> and \<open>Downlink\<close> actors of
  \<open>runtime/src/ground\<close>, and the compression helpers of \<open>util/src/lib.rs\<close>.  Sockets, the
  serialiser (\<open>bincode\<close>) and the compressor (\<open>brotli\<close>) are parameters.
\<close>

datatype io_error = NotFound | ConnectionAborted | OtherIo

text \<open>
  \<open>recv\<close> fills the front of the packet buffer it is given and returns the number of bytes;
  \<open>None\<close> is a panic.
\<close>

type_synonym recv_fun = "bytes \<Rightarrow> (io_error + (nat \<times> bytes)) option"

subsection \<open>Receivers\<close>

text \<open>The receiver over a channel: \<open>msg\<close> is what the channel yields, nothing when it is closed.\<close>

definition channel_recv :: "bytes option \<Rightarrow> recv_fun" where
  "channel_recv msg packet =
     (case msg of
        None \<Rightarrow> Some (Inl ConnectionAborted)
      | Some result \<Rightarrow>
          if length packet \<noteq> length result then None else Some (Inr (length result, result)))"

text \<open>What a datagram socket does with a datagram: copy what fits, drop the rest.\<close>

definition socket_recv :: "bytes \<Rightarrow> recv_fun" where
  "socket_recv d packet =
     Some (Inr (min (length d) (length packet), take (length packet) d @ drop (length d) packet))"

subsection \<open>Uplink\<close>

datatype packet_result = PacketOk bytes | PacketErr io_error

datatype uplink_reaction =
    UplinkIssue "broker_msg list"
  | UplinkStop
  | UplinkPanic

text \<open>One turn of the receive loop: the packet and the buffer that is carried on.\<close>

definition UPLINK_BUF :: nat where
  "UPLINK_BUF = 8192"

definition uplink_turn :: "recv_fun \<Rightarrow> bytes \<Rightarrow> (io_error + (bytes \<times> bytes)) option" where
  "uplink_turn recv buf =
     (case recv (resize UPLINK_BUF 0 buf) of
        None \<Rightarrow> None
      | Some (Inl e) \<Rightarrow> Some (Inl e)
      | Some (Inr (count, buf')) \<Rightarrow>
          if length buf' < count then None else Some (Inr (take count buf', drop count buf')))"

text \<open>The stream of packets; it ends after the first error.\<close>

fun uplink_stream :: "recv_fun list \<Rightarrow> bytes \<Rightarrow> packet_result list option" where
  "uplink_stream [] buf = Some []"
| "uplink_stream (recv # recvs) buf =
     (case uplink_turn recv buf of
        None \<Rightarrow> None
      | Some (Inl e) \<Rightarrow> Some [PacketErr e]
      | Some (Inr (pkt, buf')) \<Rightarrow> map_option ((#) (PacketOk pkt)) (uplink_stream recvs buf'))"

definition uplink_handle :: "(bytes \<Rightarrow> u8) \<Rightarrow> packet_result \<Rightarrow> uplink_reaction" where
  "uplink_handle crc8 item =
     (case item of
        PacketErr e \<Rightarrow> UplinkStop
      | PacketOk pkt \<Rightarrow>
          (case unpack_from_slice (message_ops crc8) pkt of
             Ok msg \<Rightarrow> UplinkIssue [GroundUpPacket pkt, GroundUpCommand msg]
           | Inl (Fail e) \<Rightarrow> UplinkIssue [GroundUpPacket pkt]
           | Inl Panic \<Rightarrow> UplinkPanic))"

lemma uplink_wire:
  "\<exists>m. val m = v \<and> uplink_handle crc8 (PacketOk (message_wire crc8 v))
    = UplinkIssue [GroundUpPacket (message_wire crc8 v), GroundUpCommand m]"
proof -
  obtain m where "unpack_from_slice (message_ops crc8) (message_wire crc8 v) = Ok m" "val m = v"
    using message.unpack_enc [of crc8 v] by blast
  then show ?thesis by (auto simp: uplink_handle_def)
qed

lemma uplink_turn_socket:
  "uplink_turn (socket_recv d) buf
     = Some (Inr (take UPLINK_BUF d, drop (min (length d) UPLINK_BUF) (take UPLINK_BUF d @ drop (length d) (resize UPLINK_BUF 0 buf))))"
proof -
  have l: "length (resize UPLINK_BUF 0 buf) = UPLINK_BUF" by (simp add: resize_def)
  show ?thesis by (simp add: uplink_turn_def socket_recv_def l min_def)
qed

text \<open>The uplink issues every datagram and every command.  For any sequence of datagrams
  received on a socket, whatever their lengths, the loop yields each of them, cut to 8192
  bytes and unmixed with earlier ones, and never panics; each is issued as a packet, and as a
  command exactly if it is the wire form of a message, which is then that message.\<close>

theorem uplink_exact:
  "uplink_stream (map socket_recv ds) buf = Some (map (\<lambda>d. PacketOk (take 8192 d)) ds)
   \<and> (\<exists>cmds. uplink_handle crc8 (PacketOk pkt) = UplinkIssue (GroundUpPacket pkt # cmds)
        \<and> (\<forall>msg. cmds = [GroundUpCommand msg] \<longleftrightarrow> unpack_from_slice (message_ops crc8) pkt = Ok msg)
        \<and> (cmds = [] \<longleftrightarrow> pkt \<notin> range (message_wire crc8)))"
proof -
  have "uplink_stream (map socket_recv ds) buf = Some (map (\<lambda>d. PacketOk (take 8192 d)) ds)"
    by (induction ds arbitrary: buf) (simp_all add: uplink_turn_socket UPLINK_BUF_def)
  moreover have "\<exists>cmds. uplink_handle crc8 (PacketOk pkt) = UplinkIssue (GroundUpPacket pkt # cmds)
        \<and> (\<forall>msg. cmds = [GroundUpCommand msg] \<longleftrightarrow> unpack_from_slice (message_ops crc8) pkt = Ok msg)
        \<and> (cmds = [] \<longleftrightarrow> pkt \<notin> range (message_wire crc8))"
  proof -
    have np: "unpack_from_slice (message_ops crc8) pkt \<noteq> Panicked" by (rule message.unpack_no_panic)
    have acc: "pkt \<in> range (message_wire crc8) \<longleftrightarrow> (\<exists>m. unpack_from_slice (message_ops crc8) pkt = Ok m)"
      using message.accepted_iff by blast
    consider (ok) m where "unpack_from_slice (message_ops crc8) pkt = Ok m"
      | (err) e where "unpack_from_slice (message_ops crc8) pkt = Inl (Fail e)"
      using np by (metis failure.exhaust sum.exhaust)
    then show ?thesis using acc by cases (auto simp: uplink_handle_def)
  qed
  ultimately show ?thesis by blast
qed

text \<open>The channel receiver works for one length only.  The receiver over a channel copies
  the received bytes with \<open>copy_from_slice\<close>, so in the uplink's loop any message that does
  not have exactly the buffer's 8192 bytes makes it panic.\<close>

theorem channel_recv_panics:
  "uplink_turn (channel_recv (Some msg)) buf
     = (if length msg = 8192 then Some (Inr (msg, [])) else None)"
proof -
  have "length (resize UPLINK_BUF 0 buf) = 8192" by (simp add: resize_def UPLINK_BUF_def)
  then show ?thesis by (simp add: uplink_turn_def channel_recv_def)
qed

subsection \<open>Downlink\<close>

text \<open>\<open>brotli_compress\<close> and \<open>brotli_decompress\<close>: the library's result on the bytes.\<close>

definition brotli_compress :: "(bytes \<Rightarrow> bytes option) \<Rightarrow> bytes \<Rightarrow> bytes option" where
  "brotli_compress compress message = compress message"

definition brotli_decompress :: "(bytes \<Rightarrow> bytes option) \<Rightarrow> bytes \<Rightarrow> bytes option" where
  "brotli_decompress decompress v = decompress v"

text \<open>The actor: its socket, if connected, and whether it subscribed.\<close>

record 's downlink_actor =
  sender :: "'s option"
  downlink_subscribed :: bool

definition downlink_new :: "'s downlink_actor" where
  "downlink_new = \<lparr> sender = None, downlink_subscribed = False \<rparr>"

text \<open>\<open>started\<close>: with a socket, keep it and subscribe once; without one, stop (\<open>None\<close>).\<close>

definition downlink_connected :: "'s option \<Rightarrow> 's downlink_actor \<Rightarrow> 's downlink_actor option" where
  "downlink_connected result a =
     (case result of
        Some s \<Rightarrow> Some (a\<lparr> sender := Some s, downlink_subscribed := True \<rparr>)
      | None \<Rightarrow> None)"

text \<open>What the handlers extract from the messages they are subscribed to.\<close>

fun downlink_extract :: "broker_msg \<Rightarrow> downlink option" where
  "downlink_extract (RawDownPacket p) = Some (SerialDownlinkRaw p)"
| "downlink_extract (RawUpPacket p) = Some (SerialUplinkRaw p)"
| "downlink_extract (GroundUpPacket p) = Some (UplinkMirror p)"
| "downlink_extract (UpMessageB m) = Some (SerialUplink m)"
| "downlink_extract (DownMessageB m) = Some (SerialDownlink m)"
| "downlink_extract (GroundUpCommand m) = Some (UplinkInterpreted m)"
| "downlink_extract (GroundLog l) = Some (DownlinkLog l)"
| "downlink_extract (AckMessageB m) = None"
| "downlink_extract (AntMessageB p) = None"

datatype 's downlink_reaction =
    NotSubscribed
  | LoggedError
  | SendTo 's bytes
  | DownlinkPanic

definition gen_handle ::
  "(downlink \<Rightarrow> bytes option) \<Rightarrow> (bytes \<Rightarrow> bytes option) \<Rightarrow> 's downlink_actor \<Rightarrow> downlink
     \<Rightarrow> 's downlink_reaction" where
  "gen_handle serialize compress a d =
     (case Option.bind (serialize d) (brotli_compress compress) of
        None \<Rightarrow> LoggedError
      | Some result \<Rightarrow>
          (case sender a of Some s \<Rightarrow> SendTo s result | None \<Rightarrow> DownlinkPanic))"

definition downlink_handle ::
  "(downlink \<Rightarrow> bytes option) \<Rightarrow> (bytes \<Rightarrow> bytes option) \<Rightarrow> broker_msg \<Rightarrow> 's downlink_actor
     \<Rightarrow> 's downlink_reaction" where
  "downlink_handle serialize compress msg a =
     (if \<not> downlink_subscribed a then NotSubscribed
      else case downlink_extract msg of
        None \<Rightarrow> NotSubscribed
      | Some d \<Rightarrow> gen_handle serialize compress a d)"

text \<open>After a failed send the actor stops and is restarted with the socket it has, until a new
  connection replaces it.\<close>

fun downlink_life :: "'s option list \<Rightarrow> 's downlink_actor \<Rightarrow> 's downlink_actor" where
  "downlink_life [] a = a"
| "downlink_life (result # results) a =
     downlink_life results (case downlink_connected result a of Some a' \<Rightarrow> a' | None \<Rightarrow> a)"

lemma downlink_life_inv:
  "(downlink_subscribed a \<longrightarrow> sender a \<noteq> None) \<Longrightarrow>
    downlink_subscribed (downlink_life results a) \<longrightarrow> sender (downlink_life results a) \<noteq> None"
proof (induction results arbitrary: a)
  case (Cons result results)
  then show ?case
    by (cases result) (simp_all add: downlink_connected_def)
qed simp

text \<open>The downlink never unwraps a missing socket.  Whatever connection attempts succeed or
  fail over the actor's restarts, no message makes the handler panic: it is subscribed only
  after it got a socket.\<close>

theorem downlink_never_panics:
  "downlink_handle serialize compress msg (downlink_life results downlink_new) \<noteq> DownlinkPanic"
  using downlink_life_inv [of downlink_new results]
  by (auto simp: downlink_handle_def gen_handle_def downlink_new_def split: option.splits)

text \<open>The reader of the downlink: decompress, then deserialise.\<close>

definition downlink_read ::
  "(bytes \<Rightarrow> downlink option) \<Rightarrow> (bytes \<Rightarrow> bytes option) \<Rightarrow> bytes \<Rightarrow> downlink option" where
  "downlink_read deserialize decompress pkt =
     Option.bind (brotli_decompress decompress pkt) deserialize"

text \<open>Equality of downlink values, as \<open>PartialEq\<close> has it: messages are compared without caches.\<close>

fun downlink_same :: "downlink \<Rightarrow> downlink \<Rightarrow> bool" where
  "downlink_same (UplinkInterpreted m) (UplinkInterpreted m') = (val m = val m')"
| "downlink_same (SerialUplink m) (SerialUplink m') = (val m = val m')"
| "downlink_same (SerialDownlink m) (SerialDownlink m') = (val m = val m')"
| "downlink_same d d' = (d = d')"

text \<open>A value that was read back: its messages were built by \<open>Deserialize\<close>, with empty cells.\<close>

fun downlink_fresh :: "downlink \<Rightarrow> downlink" where
  "downlink_fresh (UplinkInterpreted m) = UplinkInterpreted (with_crc_new (val m))"
| "downlink_fresh (SerialUplink m) = SerialUplink (with_crc_new (val m))"
| "downlink_fresh (SerialDownlink m) = SerialDownlink (with_crc_new (val m))"
| "downlink_fresh d = d"

lemma downlink_fresh_same [simp]: "downlink_same d (downlink_fresh d)"
  by (cases d) simp_all

locale downlink_codec =
  fixes serialize :: "downlink \<Rightarrow> bytes option" and deserialize :: "bytes \<Rightarrow> downlink option"
    and compress :: "bytes \<Rightarrow> bytes option" and decompress :: "bytes \<Rightarrow> bytes option"
  assumes deserialize_serialize: "serialize d = Some bs \<Longrightarrow> deserialize bs = Some (downlink_fresh d)"
    and decompress_compress: "compress bs = Some cs \<Longrightarrow> decompress cs = Some bs"
begin

lemma sent_is_read:
  assumes "gen_handle serialize compress a d = SendTo s pkt"
  shows "downlink_read deserialize decompress pkt = Some (downlink_fresh d)"
proof -
  obtain bs where bs: "serialize d = Some bs" "compress bs = Some pkt"
    using assms by (auto simp: gen_handle_def brotli_compress_def split: option.splits bind_splits)
  then show ?thesis
    using deserialize_serialize [OF bs(1)] decompress_compress [OF bs(2)]
    by (auto simp: downlink_read_def brotli_decompress_def)
qed

end

text \<open>A serialiser by the wire forms, with a tag byte; it refuses logs.\<close>

fun wire_serialize :: "downlink \<Rightarrow> bytes option" where
  "wire_serialize (DownlinkLog l) = None"
| "wire_serialize (UplinkMirror b) = Some (1 # b)"
| "wire_serialize (UplinkInterpreted m) = Some (2 # with_crc_serialize message_val_enc m)"
| "wire_serialize (SerialUplink m) = Some (3 # with_crc_serialize message_val_enc m)"
| "wire_serialize (SerialDownlink m) = Some (4 # with_crc_serialize message_val_enc m)"
| "wire_serialize (SerialUplinkRaw b) = Some (5 # b)"
| "wire_serialize (SerialDownlinkRaw b) = Some (6 # b)"

definition message_val_read :: "bytes \<Rightarrow> message_val option" where
  "message_val_read bs = (case unpack_from_slice message_val_ops bs of Ok v \<Rightarrow> Some v | Inl e \<Rightarrow> None)"

definition wire_message :: "(message \<Rightarrow> downlink) \<Rightarrow> bytes \<Rightarrow> downlink option" where
  "wire_message f bs = map_option f (with_crc_deserialize message_val_read bs)"

fun wire_deserialize :: "bytes \<Rightarrow> downlink option" where
  "wire_deserialize [] = None"
| "wire_deserialize (t # bs) =
     (if t = 1 then Some (UplinkMirror bs)
      else if t = 2 then wire_message UplinkInterpreted bs
      else if t = 3 then wire_message SerialUplink bs
      else if t = 4 then wire_message SerialDownlink bs
      else if t = 5 then Some (SerialUplinkRaw bs)
      else if t = 6 then Some (SerialDownlinkRaw bs)
      else None)"

lemma wire_message_wire:
  "wire_message f (with_crc_serialize message_val_enc m) = Some (f (with_crc_new (val m)))"
proof -
  have "unpack_from_slice message_val_ops (message_val_enc (val m)) = Ok (val m)"
    using packed_slice.unpack_enc [OF message_val_slice] by force
  then show ?thesis
    by (simp add: wire_message_def message_val_read_def with_crc_serialize_def with_crc_deserialize_def)
qed

interpretation wire_codec: downlink_codec wire_serialize wire_deserialize Some Some
proof (unfold_locales, goal_cases)
  case (1 d bs)
  then show ?case by (cases d) (auto simp: wire_message_wire)
qed simp

lemma downlink_roundtrip_fresh:
  assumes "downlink_codec serialize deserialize compress decompress"
    and "downlink_handle serialize compress msg a = SendTo s pkt"
  shows "\<exists>d. downlink_extract msg = Some d
    \<and> downlink_read deserialize decompress pkt = Some (downlink_fresh d)"
proof -
  obtain d where d: "downlink_extract msg = Some d" "gen_handle serialize compress a d = SendTo s pkt"
    using assms(2) by (auto simp: downlink_handle_def split: if_splits option.splits)
  from downlink_codec.sent_is_read [OF assms(1) d(2)] d(1) show ?thesis by auto
qed

text \<open>The ground reads what the relay handled.  With a serialiser and a compressor that
  have inverses, every packet that the downlink actor sends for a broker message decompresses
  and deserialises to the value its handler extracts from that message.\<close>

theorem downlink_roundtrip:
  assumes "downlink_codec serialize deserialize compress decompress"
    and "downlink_handle serialize compress msg a = SendTo s pkt"
  shows "\<exists>d. downlink_extract msg = Some d
    \<and> downlink_read deserialize decompress pkt = Some (downlink_fresh d)
    \<and> downlink_same d (downlink_fresh d)"
  using downlink_roundtrip_fresh [OF assms] by simp

theorem downlink_roundtrip_witness:
  "downlink_read wire_deserialize Some [6, 1, 2] = Some (SerialDownlinkRaw [1, 2])"
proof -
  let ?a = "\<lparr> sender = Some (), downlink_subscribed = True \<rparr>"
  have "downlink_handle wire_serialize Some (RawDownPacket [1, 2]) ?a = SendTo () [6, 1, 2]"
    by (simp add: downlink_handle_def gen_handle_def brotli_compress_def)
  from downlink_roundtrip [OF wire_codec.downlink_codec_axioms this] show ?thesis by auto
qed

end
