(* ===== verification/Services.thy ===== *)
theory Services
  imports Message
begin

text \<open>
  The system services of \<open>runtime/src/system\<close>: the sequence counter, the clock, the
  registry that lets tests replace a service, and \<open>params\<close>, which stamps every command.
\<close>

subsection \<open>Sequence numbers\<close>

text \<open>\<open>fetch_add\<close> on an \<open>AtomicU8\<close> returns the old value and wraps.\<close>

definition seq_handle :: "u8 \<Rightarrow> u8 \<times> u8" where
  "seq_handle counter = (counter, counter + 1)"

text \<open>What the clock shows is an input; the reading is what \<open>MissionEpoch::now\<close> makes of it.\<close>

definition time_handle :: "datetime \<Rightarrow> mission_epoch" where
  "time_handle clock = epoch_now clock"

text \<open>\<open>params\<close> with the answers of both services.\<close>

definition params_query :: "datetime \<Rightarrow> u8 \<Rightarrow> params \<times> u8" where
  "params_query clock counter =
     (let (n, counter') = seq_handle counter
      in (\<lparr> env_time = time_handle clock, env_seq = n \<rparr>, counter'))"

lemma of_nat_u8_eq: "(of_nat i :: u8) = of_nat j \<longleftrightarrow> i mod 256 = j mod 256"
  by (simp only: word_unat_eq_iff unat_of_nat) simp

lemma mod_256_eq: "i \<le> j \<Longrightarrow> i mod 256 = j mod 256 \<longleftrightarrow> 256 dvd j - (i :: nat)"
  by (metis mod_eq_dvd_iff_nat)

subsection \<open>The override registry\<close>

text \<open>
  The registry maps the type id of a message to a recipient, stored as a value of any type
  with its own type; a query casts it back to a recipient of the queried message type.
\<close>

record 'r stored_any =
  any_type :: nat
  any_value :: 'r

type_synonym 'r override_registry = "nat \<Rightarrow> 'r stored_any option"

datatype 'r registry_op =
    SetOverride nat 'r
  | ResetOverride nat

definition registry_handle_set :: "nat \<Rightarrow> 'r stored_any \<Rightarrow> 'r override_registry \<Rightarrow> 'r override_registry" where
  "registry_handle_set type_id recip m = m(type_id \<mapsto> recip)"

definition registry_handle_reset :: "nat \<Rightarrow> 'r override_registry \<Rightarrow> 'r override_registry" where
  "registry_handle_reset type_id m = m(type_id := None)"

definition registry_handle_query :: "nat \<Rightarrow> 'r override_registry \<Rightarrow> 'r stored_any option" where
  "registry_handle_query type_id m = m type_id"

fun registry_apply :: "'r registry_op \<Rightarrow> 'r override_registry \<Rightarrow> 'r override_registry" where
  "registry_apply (SetOverride M r) m = registry_handle_set M \<lparr> any_type = M, any_value = r \<rparr> m"
| "registry_apply (ResetOverride M) m = registry_handle_reset M m"

definition downcast_recipient :: "nat \<Rightarrow> 'r stored_any \<Rightarrow> 'r option" where
  "downcast_recipient M a = (if any_type a = M then Some (any_value a) else None)"

definition registry_query :: "nat \<Rightarrow> 'r \<Rightarrow> 'r override_registry \<Rightarrow> 'r" where
  "registry_query M fallback m =
     (case Option.bind (registry_handle_query M m) (downcast_recipient M) of
        Some recip \<Rightarrow> recip
      | None \<Rightarrow> fallback)"

text \<open>The specification: the last operation on a message type decides.\<close>

definition override_step :: "nat \<Rightarrow> 'r registry_op \<Rightarrow> 'r option \<Rightarrow> 'r option" where
  "override_step M op cur =
     (case op of
        SetOverride N r \<Rightarrow> if N = M then Some r else cur
      | ResetOverride N \<Rightarrow> if N = M then None else cur)"

definition overridden_by :: "nat \<Rightarrow> 'r registry_op list \<Rightarrow> 'r option" where
  "overridden_by M ops = fold (override_step M) ops None"

lemma registry_apply_step:
  "m M = map_option (\<lambda>r. \<lparr> any_type = M, any_value = r \<rparr>) cur \<Longrightarrow>
    registry_apply op m M = map_option (\<lambda>r. \<lparr> any_type = M, any_value = r \<rparr>) (override_step M op cur)"
  by (cases op) (auto simp: override_step_def registry_handle_set_def registry_handle_reset_def)

lemma registry_fold:
  "m M = map_option (\<lambda>r. \<lparr> any_type = M, any_value = r \<rparr>) cur \<Longrightarrow>
    fold registry_apply ops m M
      = map_option (\<lambda>r. \<lparr> any_type = M, any_value = r \<rparr>) (fold (override_step M) ops cur)"
proof (induction ops arbitrary: m cur)
  case (Cons op ops)
  have "registry_apply op m M
      = map_option (\<lambda>r. \<lparr> any_type = M, any_value = r \<rparr>) (override_step M op cur)"
    by (rule registry_apply_step) (rule Cons.prems)
  from Cons.IH [of "registry_apply op m", OF this] show ?case by simp
qed simp

text \<open>A query finds the last override of its message type, and the service itself if
  there is none or it was reset.  The cast of the stored value never fails, because only
  recipients of a message type are stored under it.\<close>

theorem registry_query_exact:
  "registry_query M fallback (fold registry_apply ops Map.empty)
     = (case overridden_by M ops of Some r \<Rightarrow> r | None \<Rightarrow> fallback)"
  using registry_fold [of Map.empty M None ops]
  by (simp add: registry_query_def registry_handle_query_def overridden_by_def
      downcast_recipient_def split: option.splits)

end
