(* ===== verification/Actor.thy ===== *)
theory Actor
  imports Main
begin

text \<open>
  The part of the actor framework that the actors of \<open>runtime/src\<close> call.  The framework
  (the crates \<open>actix\<close> and \<open>actix-broker\<close>) is not part of the repository: its context
  operations are a dictionary \<open>ctx_ops\<close> that the handlers take as an argument, what can be
  observed of a context is a second dictionary \<open>ctx_view\<close>, and the locale
  \<open>actor_context\<close> names the documented behaviour that the handlers rely on.  A context
  that keeps its futures in a table satisfies it.
\<close>

text \<open>
  \<open>'h\<close> is the type of spawn handles, \<open>'c\<close> of contexts, \<open>'f\<close> of the futures an actor
  gives to its context, \<open>'e\<close> of the messages it sends to its own address.  Durations are in
  milliseconds.
\<close>

record ('h, 'c, 'f, 'e) ctx_ops =
  ctx_spawn :: "'f \<Rightarrow> 'c \<Rightarrow> 'h \<times> 'c"
  ctx_run_interval :: "nat \<Rightarrow> 'f \<Rightarrow> 'c \<Rightarrow> 'h \<times> 'c"
  ctx_run_later :: "nat \<Rightarrow> 'f \<Rightarrow> 'c \<Rightarrow> 'h \<times> 'c"
  ctx_wait :: "'f \<Rightarrow> 'c \<Rightarrow> 'c"
  ctx_cancel_future :: "'h \<Rightarrow> 'c \<Rightarrow> 'c"
  ctx_address_do_send :: "'e \<Rightarrow> 'c \<Rightarrow> 'c"

text \<open>
  What is observed of a context: the futures that are registered and neither finished nor
  cancelled, the handles ever given out, the futures the actor waits for, the messages it
  sent to itself that are still queued; and the framework's own steps, by which a future
  finishes and a queue is consumed.
\<close>

record ('h, 'c, 'f, 'e) ctx_view =
  live :: "'c \<Rightarrow> 'h \<Rightarrow> 'f option"
  issued :: "'c \<Rightarrow> 'h \<Rightarrow> bool"
  waiting :: "'c \<Rightarrow> 'f list"
  mailbox :: "'c \<Rightarrow> 'e list"
  finish :: "'h \<Rightarrow> 'c \<Rightarrow> 'c"
  wait_done :: "'c \<Rightarrow> 'c"
  mailbox_pop :: "'c \<Rightarrow> 'c"

text \<open>A registration gives out a new handle, under which the future is live.\<close>

definition registers ::
  "('h, 'c, 'f, 'e) ctx_view \<Rightarrow> 'f \<Rightarrow> 'c \<Rightarrow> 'h \<times> 'c \<Rightarrow> bool" where
  "registers R f c hc \<longleftrightarrow>
     \<not> issued R c (fst hc)
     \<and> live R (snd hc) = (live R c)(fst hc \<mapsto> f)
     \<and> issued R (snd hc) = (issued R c)(fst hc := True)
     \<and> waiting R (snd hc) = waiting R c
     \<and> mailbox R (snd hc) = mailbox R c"

locale actor_context =
  fixes X :: "('h, 'c, 'f, 'e) ctx_ops"
    and R :: "('h, 'c, 'f, 'e) ctx_view"
  assumes spawn_registers: "registers R f c (ctx_spawn X f c)"
    and interval_registers: "registers R f c (ctx_run_interval X d f c)"
    and later_registers: "registers R f c (ctx_run_later X d f c)"
    and live_issued: "live R c h = Some f \<Longrightarrow> issued R c h"
    and live_wait [simp]: "live R (ctx_wait X f c) = live R c"
    and issued_wait [simp]: "issued R (ctx_wait X f c) = issued R c"
    and waiting_wait [simp]: "waiting R (ctx_wait X f c) = waiting R c @ [f]"
    and mailbox_wait [simp]: "mailbox R (ctx_wait X f c) = mailbox R c"
    and live_cancel [simp]: "live R (ctx_cancel_future X h c) = (live R c)(h := None)"
    and issued_cancel [simp]: "issued R (ctx_cancel_future X h c) = issued R c"
    and waiting_cancel [simp]: "waiting R (ctx_cancel_future X h c) = waiting R c"
    and mailbox_cancel [simp]: "mailbox R (ctx_cancel_future X h c) = mailbox R c"
    and live_send [simp]: "live R (ctx_address_do_send X e c) = live R c"
    and issued_send [simp]: "issued R (ctx_address_do_send X e c) = issued R c"
    and waiting_send [simp]: "waiting R (ctx_address_do_send X e c) = waiting R c"
    and mailbox_send [simp]: "mailbox R (ctx_address_do_send X e c) = mailbox R c @ [e]"
    and live_finish [simp]: "live R (finish R h c) = (live R c)(h := None)"
    and issued_finish [simp]: "issued R (finish R h c) = issued R c"
    and waiting_finish [simp]: "waiting R (finish R h c) = waiting R c"
    and mailbox_finish [simp]: "mailbox R (finish R h c) = mailbox R c"
    and live_wait_done [simp]: "live R (wait_done R c) = live R c"
    and issued_wait_done [simp]: "issued R (wait_done R c) = issued R c"
    and waiting_wait_done [simp]: "waiting R (wait_done R c) = tl (waiting R c)"
    and mailbox_wait_done [simp]: "mailbox R (wait_done R c) = mailbox R c"
    and live_pop [simp]: "live R (mailbox_pop R c) = live R c"
    and issued_pop [simp]: "issued R (mailbox_pop R c) = issued R c"
    and waiting_pop [simp]: "waiting R (mailbox_pop R c) = waiting R c"
    and mailbox_pop_tl [simp]: "mailbox R (mailbox_pop R c) = tl (mailbox R c)"
begin

lemma registers_simps:
  assumes "registers R f c hc"
  shows "live R (snd hc) = (live R c)(fst hc \<mapsto> f)"
    and "issued R (snd hc) = (issued R c)(fst hc := True)"
    and "waiting R (snd hc) = waiting R c"
    and "mailbox R (snd hc) = mailbox R c"
    and "\<not> issued R c (fst hc)"
    and "live R c (fst hc) = None"
proof -
  show "live R c (fst hc) = None"
    using assms live_issued [of c "fst hc"] by (cases "live R c (fst hc)") (auto simp: registers_def)
qed (use assms in \<open>simp_all add: registers_def\<close>)

lemmas spawn_simps [simp] = registers_simps [OF spawn_registers]
lemmas interval_simps [simp] = registers_simps [OF interval_registers]
lemmas later_simps [simp] = registers_simps [OF later_registers]

end

subsection \<open>A context with a table of futures\<close>

record ('f, 'e) table_ctx =
  next_handle :: nat
  futures :: "nat \<Rightarrow> 'f option"
  waits :: "'f list"
  self_sent :: "'e list"

definition table_register :: "'f \<Rightarrow> ('f, 'e) table_ctx \<Rightarrow> nat \<times> ('f, 'e) table_ctx" where
  "table_register f c =
     (next_handle c,
      c\<lparr> next_handle := Suc (next_handle c), futures := (futures c)(next_handle c \<mapsto> f) \<rparr>)"

definition table_ops :: "(nat, ('f, 'e) table_ctx, 'f, 'e) ctx_ops" where
  "table_ops = \<lparr>
     ctx_spawn = table_register,
     ctx_run_interval = (\<lambda>_. table_register),
     ctx_run_later = (\<lambda>_. table_register),
     ctx_wait = (\<lambda>f c. c\<lparr> waits := waits c @ [f] \<rparr>),
     ctx_cancel_future = (\<lambda>h c. c\<lparr> futures := (futures c)(h := None) \<rparr>),
     ctx_address_do_send = (\<lambda>e c. c\<lparr> self_sent := self_sent c @ [e] \<rparr>) \<rparr>"

definition table_view :: "(nat, ('f, 'e) table_ctx, 'f, 'e) ctx_view" where
  "table_view = \<lparr>
     live = (\<lambda>c h. if h < next_handle c then futures c h else None),
     issued = (\<lambda>c h. h < next_handle c),
     waiting = waits,
     mailbox = self_sent,
     finish = (\<lambda>h c. c\<lparr> futures := (futures c)(h := None) \<rparr>),
     wait_done = (\<lambda>c. c\<lparr> waits := tl (waits c) \<rparr>),
     mailbox_pop = (\<lambda>c. c\<lparr> self_sent := tl (self_sent c) \<rparr>) \<rparr>"

definition empty_table :: "('f, 'e) table_ctx" where
  "empty_table = \<lparr> next_handle = 0, futures = Map.empty, waits = [], self_sent = [] \<rparr>"

lemma table_registers: "registers table_view f c (table_register f c)"
  by (auto simp: registers_def table_view_def table_register_def fun_eq_iff)

interpretation table: actor_context table_ops table_view
  by unfold_locales
    (auto simp: table_ops_def table_registers, auto simp: table_view_def fun_eq_iff
      split: if_splits)

end
