(* ===== verification/State_Machine.thy ===== *)
theory State_Machine
  imports Message Actor
begin

text \<open>
  The control state machine of \<open>runtime/src/state_machine.rs\<close>, the actor that turns rover
  and central station events into commands for the ant.  The actor's state is the record
  \<open>machine\<close>; \<open>sm_step\<close> is its \<open>step\<close>, with the handle of the running task taken at
  the start, restored by \<open>reset_handle\<close> in the arms that keep it and cancelled at the end
  otherwise; the closures given to the context are the callbacks \<open>on_*\<close>; the message
  handlers follow.  The relation \<open>sm_env\<close> lets the environment deliver messages and fire
  live futures in any order.
\<close>

datatype state =
    FlightIdle
  | PingCentralStation
  | GarageOpen
  | BLEConnected
  | AntReady
  | AntRun

text \<open>
  The futures the machine hands to its context: the 5 s ping interval and the ping each tick
  spawns, the retried garage open request, the 60 s wait after a BLE connection, the 10 s
  delay before the ant is started and the 30 s interval that starts it again, the retried
  ant stop request, the sends the actor waits for, and the forwarding of a ground message.
\<close>

datatype task =
    PingInterval
  | PingCs
  | GarageOpenRetry
  | BleSettle
  | StartDelay
  | StartInterval
  | AntStopRetry
  | SendAntStart
  | SendCsPing
  | SendAntPing
  | Forward message

record 'h machine =
  state :: state
  running_task :: "'h option"
  pending_evt :: "event option"
  subscribed :: bool

definition machine_default :: "'h machine" where
  "machine_default =
     \<lparr> state = FlightIdle, running_task = None, pending_evt = None, subscribed = False \<rparr>"

text \<open>The step either continues with a machine and a context or exits the process with a code.\<close>

datatype 'a process = Running 'a | Exited nat

type_synonym ('h, 'c) sm_ctx_ops = "('h, 'c, task, event) ctx_ops"

subsection \<open>The step function\<close>

text \<open>
  \<open>reset_handle\<close>: put the old handle back and forget the local copy, so that it is not
  cancelled.  Each arm returns the machine, the local \<open>old_handle\<close> and the context.
\<close>

definition reset_handle ::
  "'h machine \<Rightarrow> 'h option \<Rightarrow> 'c \<Rightarrow> ('h machine \<times> 'h option \<times> 'c) process" where
  "reset_handle m old c = Running (m\<lparr> running_task := old \<rparr>, None, c)"

abbreviation ignore_repeat ::
  "'h machine \<Rightarrow> 'h option \<Rightarrow> 'c \<Rightarrow> ('h machine \<times> 'h option \<times> 'c) process" where
  "ignore_repeat \<equiv> reset_handle"

definition sm_arms ::
  "('h, 'c) sm_ctx_ops \<Rightarrow> state \<Rightarrow> event \<Rightarrow> 'h machine \<Rightarrow> 'h option \<Rightarrow> 'c
     \<Rightarrow> ('h machine \<times> 'h option \<times> 'c) process" where
  "sm_arms X init_state evt m old c =
    (if init_state = PingCentralStation \<and> evt = FEPowerSupplied then ignore_repeat m old c
     else if evt = FEPowerSupplied then
       (let (h, c') = ctx_run_interval X 5000 PingInterval c
        in Running (m\<lparr> running_task := Some h, state := PingCentralStation \<rparr>, old, c'))
     else if init_state = GarageOpen \<and> evt = FEGarageOpen then ignore_repeat m old c
     else if evt = FEGarageOpen then
       (let (h, c') = ctx_spawn X GarageOpenRetry c
        in Running (m\<lparr> running_task := Some h \<rparr>, old, c'))
     else if evt = CSBLEDisconnect then Running (m\<lparr> state := GarageOpen \<rparr>, old, c)
     else if init_state = BLEConnected \<and> evt = CSBLEConnect then ignore_repeat m old c
     else if evt = CSBLEConnect then
       (let (h, c') = ctx_run_later X 60000 BleSettle c
        in Running (m\<lparr> state := BLEConnected, running_task := Some h \<rparr>, old, c'))
     else if init_state = AntRun \<and> evt = FERoverStop then ignore_repeat m old c
     else if init_state = AntReady \<and> evt = FERoverStop then
       (let (h, c') = ctx_run_later X 10000 StartDelay c
        in Running (m\<lparr> running_task := Some h, state := AntRun \<rparr>, old, c'))
     else if init_state = AntRun \<and> evt = FERoverMove then
       (let (h, c') = ctx_spawn X AntStopRetry c
        in Running (m\<lparr> running_task := Some h, state := AntReady \<rparr>, old, c'))
     else if evt = FERoverStop then reset_handle (m\<lparr> pending_evt := Some FERoverStop \<rparr>) old c
     else if evt = FERoverMove then reset_handle (m\<lparr> pending_evt := None \<rparr>) old c
     else if evt = FERestart then Exited 1
     else if evt = DebugCSPing then reset_handle m old (ctx_wait X SendCsPing c)
     else if evt = AntPing then reset_handle m old (ctx_wait X SendAntPing c)
     else reset_handle m old c)"

definition cancel_old :: "('h, 'c) sm_ctx_ops \<Rightarrow> 'h option \<Rightarrow> 'c \<Rightarrow> 'c" where
  "cancel_old X old c = (case old of None \<Rightarrow> c | Some h \<Rightarrow> ctx_cancel_future X h c)"

definition sm_step ::
  "('h, 'c) sm_ctx_ops \<Rightarrow> event \<Rightarrow> 'h machine \<Rightarrow> 'c \<Rightarrow> ('h machine \<times> 'c) process" where
  "sm_step X evt m c =
     (let old_handle = running_task m;
          init_state = state m
      in case sm_arms X init_state evt (m\<lparr> running_task := None \<rparr>) old_handle c of
           Exited code \<Rightarrow> Exited code
         | Running (m', old', c') \<Rightarrow>
             Running (m', cancel_old X old' c'))"

subsection \<open>Callbacks\<close>

text \<open>Each tick of the ping interval spawns a ping.\<close>

definition on_ping_tick :: "('h, 'c) sm_ctx_ops \<Rightarrow> 'c \<Rightarrow> 'c" where
  "on_ping_tick X c = snd (ctx_spawn X PingCs c)"

text \<open>The garage request finished: on an error nothing changes (not even the handle).\<close>

definition on_garage_result :: "bool \<Rightarrow> 'h machine \<Rightarrow> 'h machine" where
  "on_garage_result ok m =
     (if \<not> ok then m else m\<lparr> running_task := None, state := GarageOpen \<rparr>)"

text \<open>The settle time after a BLE connection is over.\<close>

definition on_ble_settle ::
  "('h, 'c) sm_ctx_ops \<Rightarrow> 'h machine \<Rightarrow> 'c \<Rightarrow> 'h machine \<times> 'c" where
  "on_ble_settle X m c =
     (let m' = m\<lparr> state := AntReady, pending_evt := None \<rparr>
      in case pending_evt m of
           None \<Rightarrow> (m', c)
         | Some evt \<Rightarrow> (m', ctx_address_do_send X evt c))"

text \<open>The delay before the start is over: start the ant and keep starting it.\<close>

definition on_start_delay ::
  "('h, 'c) sm_ctx_ops \<Rightarrow> 'h machine \<Rightarrow> 'c \<Rightarrow> 'h machine \<times> 'c" where
  "on_start_delay X m c =
     (let (h, c') = ctx_run_interval X 30000 StartInterval (ctx_wait X SendAntStart c)
      in (m\<lparr> running_task := Some h \<rparr>, c'))"

definition on_start_tick :: "('h, 'c) sm_ctx_ops \<Rightarrow> 'c \<Rightarrow> 'c" where
  "on_start_tick X c = ctx_wait X SendAntStart c"

text \<open>The message that a future sends to the serial side when it runs.\<close>

fun task_message :: "params \<Rightarrow> task \<Rightarrow> message option" where
  "task_message env PingCs = Some (message_command env CentralStation CSPing)"
| "task_message env SendCsPing = Some (message_command env CentralStation CSPing)"
| "task_message env GarageOpenRetry = Some (message_command env CentralStation CSGarageOpen)"
| "task_message env AntStopRetry = Some (message_command env Ant AntStop)"
| "task_message env SendAntStart = Some (message_command env Ant AntStart)"
| "task_message env SendAntPing = Some (message_command env Ant AntPing)"
| "task_message env (Forward msg) = Some msg"
| "task_message env PingInterval = None"
| "task_message env BleSettle = None"
| "task_message env StartDelay = None"
| "task_message env StartInterval = None"

subsection \<open>Message handlers\<close>

text \<open>\<open>started\<close>: subscribe to the two message types once in the actor's life; the result says
  whether this call subscribed.\<close>

definition sm_started :: "'h machine \<Rightarrow> 'h machine \<times> bool" where
  "sm_started m = (m\<lparr> subscribed := True \<rparr>, \<not> subscribed m)"

definition handle_up_command ::
  "('h, 'c) sm_ctx_ops \<Rightarrow> message \<Rightarrow> 'h machine \<Rightarrow> 'c \<Rightarrow> ('h machine \<times> 'c) process" where
  "handle_up_command X msg m c =
     (let mh = message_header msg
      in case sm_step X (event (ty mh)) m c of
           Exited code \<Rightarrow> Exited code
         | Running (m', c') \<Rightarrow>
             Running (m',
               if destination mh = Ant \<or> destination mh = CentralStation
               then snd (ctx_spawn X (Forward msg) c') else c'))"

definition handle_down_message ::
  "('h, 'c) sm_ctx_ops \<Rightarrow> message \<Rightarrow> 'h machine \<Rightarrow> 'c \<Rightarrow> ('h machine \<times> 'c) process" where
  "handle_down_message X msg m c =
     (let evt = event (ty (message_header msg))
      in if evt \<noteq> CSBLEConnect \<and> evt \<noteq> CSBLEDisconnect then Running (m, c)
         else sm_step X evt m c)"

definition handle_event_wrap ::
  "('h, 'c) sm_ctx_ops \<Rightarrow> event \<Rightarrow> 'h machine \<Rightarrow> 'c \<Rightarrow> ('h machine \<times> 'c) process" where
  "handle_event_wrap X evt m c = sm_step X evt m c"

subsection \<open>The machine in its environment\<close>

type_synonym ('h, 'c) sm_ctx_view = "('h, 'c, task, event) ctx_view"

text \<open>What happens in a step of the environment.\<close>

datatype 'h label =
    UpCommand message
  | DownMessage message
  | EventWrap event
  | Tick 'h
  | Done 'h bool
  | WaitDone task

text \<open>
  One rule per delivery and per way a future runs: ticks of the two intervals, the retried
  garage request with its result, the two timers, the futures whose completion changes
  nothing, and the end of a send the actor waits for.
\<close>

inductive sm_env ::
  "('h, 'c) sm_ctx_ops \<Rightarrow> ('h, 'c) sm_ctx_view \<Rightarrow> 'h machine \<times> 'c \<Rightarrow> 'h label
     \<Rightarrow> 'h machine \<times> 'c \<Rightarrow> bool"
  for X R where
  up: "handle_up_command X msg m c = Running mc' \<Longrightarrow> sm_env X R (m, c) (UpCommand msg) mc'"
| down: "handle_down_message X msg m c = Running mc' \<Longrightarrow> sm_env X R (m, c) (DownMessage msg) mc'"
| wrap: "mailbox R c = evt # rest \<Longrightarrow> handle_event_wrap X evt m (mailbox_pop R c) = Running mc'
    \<Longrightarrow> sm_env X R (m, c) (EventWrap evt) mc'"
| ping_tick: "live R c h = Some PingInterval \<Longrightarrow>
    sm_env X R (m, c) (Tick h) (m, on_ping_tick X c)"
| start_tick: "live R c h = Some StartInterval \<Longrightarrow>
    sm_env X R (m, c) (Tick h) (m, on_start_tick X c)"
| garage: "live R c h = Some GarageOpenRetry \<Longrightarrow>
    sm_env X R (m, c) (Done h ok) (on_garage_result ok m, finish R h c)"
| settle: "live R c h = Some BleSettle \<Longrightarrow>
    sm_env X R (m, c) (Done h ok) (on_ble_settle X m (finish R h c))"
| delay: "live R c h = Some StartDelay \<Longrightarrow>
    sm_env X R (m, c) (Done h ok) (on_start_delay X m (finish R h c))"
| other_done: "live R c h = Some t \<Longrightarrow> t = PingCs \<or> t = AntStopRetry \<or> t = Forward msg \<Longrightarrow>
    sm_env X R (m, c) (Done h ok) (m, finish R h c)"
| wait_end: "waiting R c = t # ts \<Longrightarrow> sm_env X R (m, c) (WaitDone t) (m, wait_done R c)"

text \<open>Runs of the environment from a freshly created actor.\<close>

inductive sm_run ::
  "('h, 'c) sm_ctx_ops \<Rightarrow> ('h, 'c) sm_ctx_view \<Rightarrow> 'h machine \<times> 'c \<Rightarrow> 'h label list
     \<Rightarrow> 'h machine \<times> 'c \<Rightarrow> bool"
  for X R where
  run_nil: "sm_run X R mc [] mc"
| run_snoc: "sm_run X R mc ls mc' \<Longrightarrow> sm_env X R mc' l mc'' \<Longrightarrow> sm_run X R mc (ls @ [l]) mc''"

text \<open>A context nothing has been given to yet.\<close>

definition fresh_context :: "('h, 'c) sm_ctx_view \<Rightarrow> 'c \<Rightarrow> bool" where
  "fresh_context R c \<longleftrightarrow>
     (\<forall>h. live R c h = None) \<and> waiting R c = [] \<and> mailbox R c = []"

subsection \<open>The invariant\<close>

text \<open>The futures that drive the machine; the others only send.\<close>

fun driver :: "task \<Rightarrow> bool" where
  "driver PingInterval = True"
| "driver GarageOpenRetry = True"
| "driver BleSettle = True"
| "driver StartDelay = True"
| "driver StartInterval = True"
| "driver AntStopRetry = True"
| "driver PingCs = False"
| "driver SendAntStart = False"
| "driver SendCsPing = False"
| "driver SendAntPing = False"
| "driver (Forward msg) = False"

text \<open>The states in which each driver may be live.\<close>

fun driver_state :: "task \<Rightarrow> state \<Rightarrow> bool" where
  "driver_state PingInterval s = (s = PingCentralStation)"
| "driver_state GarageOpenRetry s = (s \<noteq> GarageOpen)"
| "driver_state BleSettle s = (s = BLEConnected)"
| "driver_state StartDelay s = (s = AntRun)"
| "driver_state StartInterval s = (s = AntRun)"
| "driver_state AntStopRetry s = (s = AntReady)"
| "driver_state t s = True"

text \<open>
  Every live driver is the machine's running task and fits its state; the running task's
  handle was given out and is not that of a sending future; an event is deferred only
  before the ant is ready, and only a rover stop is.
\<close>

definition sm_inv :: "('h, 'c) sm_ctx_view \<Rightarrow> 'h machine \<Rightarrow> 'c \<Rightarrow> bool" where
  "sm_inv R m c \<longleftrightarrow>
     (\<forall>h t. live R c h = Some t \<longrightarrow> driver t \<longrightarrow>
        running_task m = Some h \<and> driver_state t (state m))
     \<and> (\<forall>h. running_task m = Some h \<longrightarrow> issued R c h)
     \<and> (\<forall>h t. running_task m = Some h \<longrightarrow> live R c h = Some t \<longrightarrow> driver t)
     \<and> (pending_evt m \<noteq> None \<longrightarrow>
          pending_evt m = Some FERoverStop \<and> state m \<noteq> AntReady \<and> state m \<noteq> AntRun)
     \<and> set (mailbox R c) \<subseteq> {FERoverStop}"

text \<open>The state after an event, without the tasks: the abstract machine.\<close>

fun next_state :: "state \<Rightarrow> event \<Rightarrow> state" where
  "next_state s FEPowerSupplied = PingCentralStation"
| "next_state s CSBLEDisconnect = GarageOpen"
| "next_state s CSBLEConnect = BLEConnected"
| "next_state s FERoverStop = (if s = AntReady then AntRun else s)"
| "next_state s FERoverMove = (if s = AntRun then AntReady else s)"
| "next_state s evt = s"

text \<open>The step on every arm, written out.\<close>

lemma cancel_old_None [simp]: "cancel_old X None c = c"
  by (simp add: cancel_old_def)

lemma sm_step_equations:
  "sm_step X FEPowerSupplied m c =
     (if state m = PingCentralStation then Running (m, c)
      else let (h, c') = ctx_run_interval X 5000 PingInterval c
           in Running (m\<lparr> running_task := Some h, state := PingCentralStation \<rparr>,
                cancel_old X (running_task m) c'))"
  "sm_step X FEGarageOpen m c =
     (if state m = GarageOpen then Running (m, c)
      else let (h, c') = ctx_spawn X GarageOpenRetry c
           in Running (m\<lparr> running_task := Some h \<rparr>, cancel_old X (running_task m) c'))"
  "sm_step X CSBLEDisconnect m c =
     Running (m\<lparr> running_task := None, state := GarageOpen \<rparr>, cancel_old X (running_task m) c)"
  "sm_step X CSBLEConnect m c =
     (if state m = BLEConnected then Running (m, c)
      else let (h, c') = ctx_run_later X 60000 BleSettle c
           in Running (m\<lparr> running_task := Some h, state := BLEConnected \<rparr>,
                cancel_old X (running_task m) c'))"
  "sm_step X FERoverStop m c =
     (if state m = AntRun then Running (m, c)
      else if state m = AntReady
        then let (h, c') = ctx_run_later X 10000 StartDelay c
             in Running (m\<lparr> running_task := Some h, state := AntRun \<rparr>,
                  cancel_old X (running_task m) c')
      else Running (m\<lparr> pending_evt := Some FERoverStop \<rparr>, c))"
  "sm_step X FERoverMove m c =
     (if state m = AntRun
        then let (h, c') = ctx_spawn X AntStopRetry c
             in Running (m\<lparr> running_task := Some h, state := AntReady \<rparr>,
                  cancel_old X (running_task m) c')
      else Running (m\<lparr> pending_evt := None \<rparr>, c))"
  "sm_step X FERestart m c = Exited 1"
  "sm_step X DebugCSPing m c = Running (m, ctx_wait X SendCsPing c)"
  "sm_step X AntPing m c = Running (m, ctx_wait X SendAntPing c)"
  by (cases m; simp add: sm_step_def sm_arms_def reset_handle_def case_prod_beta Let_def)+

text \<open>The events that the machine reacts to; on every other event it does nothing.\<close>

definition handled_events :: "event list" where
  "handled_events = [FEPowerSupplied, FEGarageOpen, CSBLEDisconnect, CSBLEConnect, FERoverStop,
     FERoverMove, FERestart, DebugCSPing, AntPing]"

lemma sm_step_unhandled: "evt \<notin> set handled_events \<Longrightarrow> sm_step X evt m c = Running (m, c)"
  by (cases m) (simp add: handled_events_def sm_step_def sm_arms_def reset_handle_def)

lemma sm_step_cases [case_names Power Garage Disconnect Connect Stop Move Restart Debug Ping Other]:
  assumes "evt = FEPowerSupplied \<Longrightarrow> P" and "evt = FEGarageOpen \<Longrightarrow> P"
    and "evt = CSBLEDisconnect \<Longrightarrow> P" and "evt = CSBLEConnect \<Longrightarrow> P"
    and "evt = FERoverStop \<Longrightarrow> P" and "evt = FERoverMove \<Longrightarrow> P" and "evt = FERestart \<Longrightarrow> P"
    and "evt = DebugCSPing \<Longrightarrow> P" and "evt = AntPing \<Longrightarrow> P"
    and "evt \<notin> set handled_events \<Longrightarrow> P"
  shows P
  using assms by (auto simp: handled_events_def)

lemma next_state_unhandled: "evt \<notin> set handled_events \<Longrightarrow> next_state s evt = s"
  by (cases evt) (auto simp: handled_events_def)

lemma sm_step_exit: "sm_step X evt m c = Exited code \<longleftrightarrow> evt = FERestart \<and> code = 1"
  by (cases evt rule: sm_step_cases)
    (auto simp: sm_step_equations sm_step_unhandled handled_events_def Let_def split: prod.splits)

lemma sm_step_state: "sm_step X evt m c = Running (m', c') \<Longrightarrow> state m' = next_state (state m) evt"
  by (cases evt rule: sm_step_cases)
    (auto simp: sm_step_equations sm_step_unhandled next_state_unhandled Let_def
      split: prod.splits if_splits)

text \<open>The live futures after the old task, if any, was cancelled.\<close>

definition without_task :: "('h \<Rightarrow> task option) \<Rightarrow> 'h option \<Rightarrow> ('h \<Rightarrow> task option)" where
  "without_task l old = (case old of None \<Rightarrow> l | Some h \<Rightarrow> l(h := None))"

lemma without_task_simps [simp]:
  "without_task l None = l" "without_task l (Some h) = l(h := None)"
  by (simp_all add: without_task_def)

lemma without_task_Some: "without_task l old h = Some t \<longleftrightarrow> l h = Some t \<and> old \<noteq> Some h"
  by (cases old) auto

text \<open>What a step may do to the running task.\<close>

definition task_kept ::
  "('h, 'c) sm_ctx_view \<Rightarrow> 'h machine \<Rightarrow> 'c \<Rightarrow> 'h machine \<Rightarrow> 'c \<Rightarrow> bool" where
  "task_kept R m c m' c' \<longleftrightarrow> running_task m' = running_task m \<and> state m' = state m
     \<and> live R c' = live R c \<and> issued R c' = issued R c"

definition task_cleared ::
  "('h, 'c) sm_ctx_view \<Rightarrow> 'h machine \<Rightarrow> 'c \<Rightarrow> 'h machine \<Rightarrow> 'c \<Rightarrow> bool" where
  "task_cleared R m c m' c' \<longleftrightarrow> running_task m' = None \<and> state m' = GarageOpen
     \<and> live R c' = without_task (live R c) (running_task m) \<and> issued R c' = issued R c"

definition task_replaced ::
  "('h, 'c) sm_ctx_view \<Rightarrow> 'h machine \<Rightarrow> 'c \<Rightarrow> 'h machine \<Rightarrow> 'c \<Rightarrow> bool" where
  "task_replaced R m c m' c' \<longleftrightarrow> (\<exists>h t. running_task m' = Some h \<and> \<not> issued R c h
     \<and> driver t \<and> driver_state t (state m')
     \<and> live R c' = without_task ((live R c)(h \<mapsto> t)) (running_task m)
     \<and> issued R c' = (issued R c)(h := True))"

text \<open>The part of the invariant about the tasks, and the part about deferred events.\<close>

definition tasks_inv :: "('h, 'c) sm_ctx_view \<Rightarrow> 'h machine \<Rightarrow> 'c \<Rightarrow> bool" where
  "tasks_inv R m c \<longleftrightarrow>
     (\<forall>h t. live R c h = Some t \<longrightarrow> driver t \<longrightarrow>
        running_task m = Some h \<and> driver_state t (state m))
     \<and> (\<forall>h. running_task m = Some h \<longrightarrow> issued R c h)
     \<and> (\<forall>h t. running_task m = Some h \<longrightarrow> live R c h = Some t \<longrightarrow> driver t)"

definition pending_inv :: "'h machine \<Rightarrow> bool" where
  "pending_inv m \<longleftrightarrow> (pending_evt m \<noteq> None \<longrightarrow>
     pending_evt m = Some FERoverStop \<and> state m \<noteq> AntReady \<and> state m \<noteq> AntRun)"

lemma sm_inv_parts:
  "sm_inv R m c \<longleftrightarrow> tasks_inv R m c \<and> pending_inv m \<and> set (mailbox R c) \<subseteq> {FERoverStop}"
  unfolding sm_inv_def tasks_inv_def pending_inv_def by blast

lemma tasks_invD:
  assumes "tasks_inv R m c"
  shows "live R c h = Some t \<Longrightarrow> driver t \<Longrightarrow> running_task m = Some h"
    and "live R c h = Some t \<Longrightarrow> driver t \<Longrightarrow> driver_state t (state m)"
    and "running_task m = Some h \<Longrightarrow> issued R c h"
    and "running_task m = Some h \<Longrightarrow> live R c h = Some t \<Longrightarrow> driver t"
  using assms unfolding tasks_inv_def by blast+

lemma tasks_inv_replaced:
  assumes inv: "tasks_inv R m c" and "task_replaced R m c m' c'"
  shows "tasks_inv R m' c'"
proof -
  obtain h t where h: "running_task m' = Some h" "\<not> issued R c h" "driver t"
    "driver_state t (state m')" "issued R c' = (issued R c)(h := True)"
    and l: "live R c' = without_task ((live R c)(h \<mapsto> t)) (running_task m)"
    using assms(2) unfolding task_replaced_def by blast
  have "running_task m \<noteq> Some h" using h(2) tasks_invD(3) [OF inv] by blast
  then have lh: "live R c' h = Some t" by (simp add: l without_task_Some)
  have other: "g = h \<and> u = t" if "live R c' g = Some u" and "driver u" for g u
  proof (cases "g = h")
    case True
    then show ?thesis using that lh by simp
  next
    case False
    then show ?thesis using that tasks_invD(1) [OF inv, of g u] by (simp add: l without_task_Some)
  qed
  show ?thesis unfolding tasks_inv_def
  proof (intro conjI allI impI, goal_cases)
    case (1 g u)
    then show ?case using other [of g u] h by simp
  next
    case (2 g u)
    then show ?case using other [of g u] h by simp
  next
    case (3 g)
    then show ?case using h by simp
  next
    case (4 g u)
    then show ?case using h lh by simp
  qed
qed

lemma tasks_inv_cleared:
  assumes inv: "tasks_inv R m c" and "task_cleared R m c m' c'"
  shows "tasks_inv R m' c'"
proof -
  have c': "running_task m' = None" "live R c' = without_task (live R c) (running_task m)"
    using assms(2) by (simp_all add: task_cleared_def)
  have "\<not> driver u" if "live R c' g = Some u" for g u
    using that tasks_invD(1) [OF inv, of g u] by (auto simp: c' without_task_Some)
  then show ?thesis unfolding tasks_inv_def using c'(1) by auto
qed

lemma tasks_inv_kept:
  assumes "tasks_inv R m c" and "task_kept R m c m' c'"
  shows "tasks_inv R m' c'"
proof -
  have k: "running_task m' = running_task m" "state m' = state m"
    "live R c' = live R c" "issued R c' = issued R c"
    using assms(2) by (simp_all only: task_kept_def)
  show ?thesis using assms(1) by (simp only: tasks_inv_def k)
qed

locale sm_context = actor_context X R
  for X :: "('h, 'c, task, event) ctx_ops" and R :: "('h, 'c, task, event) ctx_view"
begin

lemma live_cancel_old [simp]: "live R (cancel_old X old c) = without_task (live R c) old"
  and issued_cancel_old [simp]: "issued R (cancel_old X old c) = issued R c"
  and waiting_cancel_old [simp]: "waiting R (cancel_old X old c) = waiting R c"
  and mailbox_cancel_old [simp]: "mailbox R (cancel_old X old c) = mailbox R c"
  by (cases old; simp add: cancel_old_def)+

lemma task_replacedI:
  assumes "registers R t c hc" and "driver t" and "driver_state t (state m')"
    and "running_task m' = Some (fst hc)" and "c' = cancel_old X (running_task m) (snd hc)"
  shows "task_replaced R m c m' c'"
proof -
  note r = registers_simps [OF assms(1)]
  show ?thesis unfolding task_replaced_def
    using assms(2-4) r by (intro exI [of _ "fst hc"] exI [of _ t]) (simp add: assms(5))
qed

text \<open>What one step does to the running task: keep it, cancel it, or replace it.\<close>

lemma sm_step_tasks:
  assumes "sm_step X evt m c = Running (m', c')"
  shows "task_kept R m c m' c' \<or> task_cleared R m c m' c' \<or> task_replaced R m c m' c'"
proof (cases evt rule: sm_step_cases)
  case Power
  have "state m = PingCentralStation \<Longrightarrow> task_kept R m c m' c'"
    using Power assms by (auto simp: sm_step_equations task_kept_def split: if_splits)
  moreover have "state m \<noteq> PingCentralStation \<Longrightarrow> task_replaced R m c m' c'"
    using Power assms by (auto simp: sm_step_equations case_prod_beta intro!: task_replacedI [OF interval_registers])
  ultimately show ?thesis by blast
next
  case Garage
  have "state m = GarageOpen \<Longrightarrow> task_kept R m c m' c'"
    using Garage assms by (auto simp: sm_step_equations task_kept_def split: if_splits)
  moreover have "state m \<noteq> GarageOpen \<Longrightarrow> task_replaced R m c m' c'"
    using Garage assms by (auto simp: sm_step_equations case_prod_beta intro!: task_replacedI [OF spawn_registers])
  ultimately show ?thesis by blast
next
  case Connect
  have "state m = BLEConnected \<Longrightarrow> task_kept R m c m' c'"
    using Connect assms by (auto simp: sm_step_equations task_kept_def split: if_splits)
  moreover have "state m \<noteq> BLEConnected \<Longrightarrow> task_replaced R m c m' c'"
    using Connect assms by (auto simp: sm_step_equations case_prod_beta intro!: task_replacedI [OF later_registers])
  ultimately show ?thesis by blast
next
  case Stop
  have "state m = AntReady \<Longrightarrow> task_replaced R m c m' c'"
    using Stop assms by (auto simp: sm_step_equations case_prod_beta intro!: task_replacedI [OF later_registers])
  moreover have "state m \<noteq> AntReady \<Longrightarrow> task_kept R m c m' c'"
    using Stop assms by (auto simp: sm_step_equations task_kept_def split: if_splits)
  ultimately show ?thesis by blast
next
  case Move
  have "state m = AntRun \<Longrightarrow> task_replaced R m c m' c'"
    using Move assms by (auto simp: sm_step_equations case_prod_beta intro!: task_replacedI [OF spawn_registers])
  moreover have "state m \<noteq> AntRun \<Longrightarrow> task_kept R m c m' c'"
    using Move assms by (auto simp: sm_step_equations task_kept_def split: if_splits)
  ultimately show ?thesis by blast
qed (use assms in \<open>auto simp: sm_step_equations sm_step_unhandled task_kept_def task_cleared_def\<close>)

lemma sm_step_pending:
  assumes "sm_step X evt m c = Running (m', c')"
  shows "pending_evt m' =
      (if evt = FERoverStop \<and> state m \<noteq> AntReady \<and> state m \<noteq> AntRun then Some FERoverStop
       else if evt = FERoverMove \<and> state m \<noteq> AntRun then None
       else pending_evt m)"
  using assms
  by (cases evt rule: sm_step_cases)
    (auto simp: sm_step_equations sm_step_unhandled handled_events_def case_prod_beta split: if_splits)

lemma sm_step_queues:
  assumes "sm_step X evt m c = Running (m', c')"
  shows "mailbox R c' = mailbox R c \<and> waiting R c' = waiting R c @
      (if evt = DebugCSPing then [SendCsPing] else if evt = AntPing then [SendAntPing] else [])"
  using assms
  by (cases evt rule: sm_step_cases)
    (auto simp: sm_step_equations sm_step_unhandled handled_events_def case_prod_beta split: if_splits)

text \<open>A step keeps the invariant.\<close>

lemma sm_step_inv:
  assumes inv: "sm_inv R m c" and st: "sm_step X evt m c = Running (m', c')"
  shows "sm_inv R m' c'"
proof -
  have "tasks_inv R m' c'"
    using sm_step_tasks [OF st] inv tasks_inv_replaced tasks_inv_cleared tasks_inv_kept
    by (metis sm_inv_parts)
  moreover have "pending_inv m'"
    using inv sm_step_pending [OF st] sm_step_state [OF st]
    by (cases evt rule: sm_step_cases)
      (auto simp: sm_inv_parts pending_inv_def next_state_unhandled handled_events_def
        split: if_splits)
  ultimately show ?thesis using inv sm_step_queues [OF st] by (simp add: sm_inv_parts)
qed

lemma tasks_inv_register_other:
  assumes inv: "tasks_inv R m c" and r: "registers R t c hc" and t: "\<not> driver t"
  shows "tasks_inv R m (snd hc)"
proof -
  note r = registers_simps [OF r]
  have new: "running_task m \<noteq> Some (fst hc)" using r(5) tasks_invD(3) [OF inv] by blast
  show ?thesis unfolding tasks_inv_def
  proof (intro conjI allI impI, goal_cases)
    case (1 g u)
    then show ?case using t tasks_invD(1) [OF inv, of g u] by (simp add: r split: if_splits)
  next
    case (2 g u)
    then show ?case using t tasks_invD(2) [OF inv, of g u] by (simp add: r split: if_splits)
  next
    case (3 g)
    then show ?case using tasks_invD(3) [OF inv, of g] by (simp add: r)
  next
    case (4 g u)
    then show ?case using new tasks_invD(4) [OF inv, of g u] by (auto simp: r split: if_splits)
  qed
qed

lemma tasks_inv_finish:
  assumes inv: "tasks_inv R m c"
  shows "tasks_inv R m (finish R h c)"
  unfolding tasks_inv_def
proof (intro conjI allI impI, goal_cases)
  case (1 g u)
  then show ?case using tasks_invD(1) [OF inv, of g u] by (simp split: if_splits)
next
  case (2 g u)
  then show ?case using tasks_invD(2) [OF inv, of g u] by (simp split: if_splits)
next
  case (3 g)
  then show ?case using tasks_invD(3) [OF inv, of g] by simp
next
  case (4 g u)
  then show ?case using tasks_invD(4) [OF inv, of g u] by (simp split: if_splits)
qed

lemma tasks_inv_same:
  assumes "tasks_inv R m c" and "live R c' = live R c" and "issued R c' = issued R c"
    and "running_task m' = running_task m" and "state m' = state m"
  shows "tasks_inv R m' c'"
  using assms by (simp only: tasks_inv_def)

text \<open>When a driver finishes, no driver is live.\<close>

lemma driver_finished:
  assumes inv: "tasks_inv R m c" and h: "live R c h = Some t" "driver t"
    and g: "live R (finish R h c) g = Some u"
  shows "\<not> driver u"
proof
  assume "driver u"
  moreover from g have "g \<noteq> h" and "live R c g = Some u" by (simp_all split: if_splits)
  ultimately show False using h tasks_invD(1) [OF inv, of g u] tasks_invD(1) [OF inv, of h t] by simp
qed

lemma tasks_inv_no_driver:
  assumes "\<And>g u. live R c g = Some u \<Longrightarrow> \<not> driver u"
    and "\<And>g. running_task m = Some g \<Longrightarrow> issued R c g \<and> live R c g = None"
  shows "tasks_inv R m c"
  unfolding tasks_inv_def using assms by fastforce

text \<open>The handlers and callbacks keep the invariant.\<close>

lemma handle_up_command_inv:
  assumes "sm_inv R m c" and "handle_up_command X msg m c = Running (m', c')"
  shows "sm_inv R m' c'"
proof -
  obtain c1 where st: "sm_step X (event (ty (message_header msg))) m c = Running (m', c1)"
    and c': "c' = c1 \<or> c' = snd (ctx_spawn X (Forward msg) c1)"
    using assms(2) by (auto simp: handle_up_command_def Let_def split: process.splits if_splits)
  have "sm_inv R m' c1" using assms(1) st by (rule sm_step_inv)
  then show ?thesis using c' tasks_inv_register_other [OF _ spawn_registers]
    by (auto simp: sm_inv_parts)
qed

lemma handle_down_message_inv:
  assumes "sm_inv R m c" and "handle_down_message X msg m c = Running (m', c')"
  shows "sm_inv R m' c'"
  using assms sm_step_inv by (auto simp: handle_down_message_def Let_def split: if_splits)

lemma on_garage_result_inv:
  assumes inv: "sm_inv R m c" and h: "live R c h = Some GarageOpenRetry"
  shows "sm_inv R (on_garage_result ok m) (finish R h c)"
proof (cases ok)
  case True
  have "tasks_inv R (m\<lparr> running_task := None, state := GarageOpen \<rparr>) (finish R h c)"
    using inv driver_finished [OF _ h] by (intro tasks_inv_no_driver) (auto simp: sm_inv_parts)
  then show ?thesis using inv True
    by (auto simp: sm_inv_parts on_garage_result_def pending_inv_def)
next
  case False
  then show ?thesis using inv tasks_inv_finish by (simp add: sm_inv_parts on_garage_result_def)
qed

lemma on_ble_settle_inv:
  assumes inv: "sm_inv R m c" and h: "live R c h = Some BleSettle"
  shows "sm_inv R (fst (on_ble_settle X m (finish R h c))) (snd (on_ble_settle X m (finish R h c)))"
proof -
  have ti: "tasks_inv R m c" and pi: "pending_inv m" and mb: "set (mailbox R c) \<subseteq> {FERoverStop}"
    using inv by (simp_all add: sm_inv_parts)
  have run: "running_task m = Some h" using tasks_invD(1) [OF ti h] by simp
  have "tasks_inv R (m\<lparr> state := AntReady, pending_evt := None \<rparr>) (finish R h c)"
    using driver_finished [OF ti h] tasks_invD(3) [OF ti] run
    by (intro tasks_inv_no_driver) auto
  moreover from this have
    "tasks_inv R (m\<lparr> state := AntReady, pending_evt := None \<rparr>) (ctx_address_do_send X e (finish R h c))" for e
    by (rule tasks_inv_same) simp_all
  ultimately show ?thesis using pi mb
    by (auto simp: sm_inv_parts on_ble_settle_def pending_inv_def Let_def split: option.splits)
qed

lemma on_start_delay_inv:
  assumes inv: "sm_inv R m c" and h: "live R c h = Some StartDelay"
  shows "sm_inv R (fst (on_start_delay X m (finish R h c))) (snd (on_start_delay X m (finish R h c)))"
proof -
  let ?c = "ctx_wait X SendAntStart (finish R h c)"
  let ?hc = "ctx_run_interval X 30000 StartInterval ?c"
  let ?m = "m\<lparr> running_task := Some (fst ?hc) \<rparr>"
  have ti: "tasks_inv R m c" and rest: "pending_inv m" "set (mailbox R c) \<subseteq> {FERoverStop}"
    using inv by (simp_all add: sm_inv_parts)
  have run: "state m = AntRun" using tasks_invD(2) [OF ti h] by simp
  have nd: "live R ?c g = Some u \<Longrightarrow> \<not> driver u" for g u
    using driver_finished [OF ti h] by simp
  have "tasks_inv R ?m (snd ?hc)" unfolding tasks_inv_def
  proof (intro conjI allI impI, goal_cases)
    case (1 g u)
    then show ?case using nd [of g u] by (simp split: if_splits)
  next
    case (2 g u)
    then show ?case using nd [of g u] run by (auto split: if_splits)
  qed (auto split: if_splits)
  then show ?thesis using rest
    by (simp add: sm_inv_parts on_start_delay_def case_prod_beta pending_inv_def)
qed

lemma sm_env_inv:
  assumes "sm_env X R (m, c) l (m', c')" and "sm_inv R m c"
  shows "sm_inv R m' c'"
  using assms(1)
proof cases
  case (up msg)
  then show ?thesis using assms(2) handle_up_command_inv by blast
next
  case (down msg)
  then show ?thesis using assms(2) handle_down_message_inv by blast
next
  case (wrap evt rest)
  have "sm_inv R m (mailbox_pop R c)"
    using assms(2) wrap(2) by (auto simp: sm_inv_parts elim: tasks_inv_same)
  then show ?thesis using wrap(3) sm_step_inv by (simp add: handle_event_wrap_def)
next
  case (ping_tick h)
  then show ?thesis using assms(2) tasks_inv_register_other [OF _ spawn_registers]
    by (simp add: sm_inv_parts on_ping_tick_def)
next
  case (start_tick h)
  then show ?thesis using assms(2) by (auto simp: sm_inv_parts on_start_tick_def elim: tasks_inv_same)
next
  case (garage h ok)
  then show ?thesis using assms(2) on_garage_result_inv by blast
next
  case (settle h ok)
  then show ?thesis using on_ble_settle_inv [OF assms(2), of h]
    by (metis fst_conv snd_conv)
next
  case (delay h ok)
  then show ?thesis using on_start_delay_inv [OF assms(2), of h]
    by (metis fst_conv snd_conv)
next
  case (other_done h t msg ok)
  then show ?thesis using assms(2) tasks_inv_finish by (simp add: sm_inv_parts)
next
  case (wait_end t ts)
  then show ?thesis using assms(2) by (auto simp: sm_inv_parts elim: tasks_inv_same)
qed

lemma sm_inv_default:
  assumes "fresh_context R c"
  shows "sm_inv R machine_default c"
  using assms by (auto simp: sm_inv_def machine_default_def fresh_context_def)

lemma sm_run_inv:
  assumes "sm_run X R mc ls mc'" and "sm_inv R (fst mc) (snd mc)"
  shows "sm_inv R (fst mc') (snd mc')"
  using assms
proof (induction rule: sm_run.induct)
  case (run_snoc mc ls mc' l mc'')
  then show ?case using sm_env_inv [of "fst mc'" "snd mc'" l "fst mc''" "snd mc''"] by simp
qed

text \<open>Which steps of the environment make the actor wait for an ant start.\<close>

lemma sm_step_no_start:
  assumes "sm_step X evt m c = Running (m', c')"
  shows "\<exists>w. waiting R c' = waiting R c @ w \<and> SendAntStart \<notin> set w"
  using sm_step_queues [OF assms] by auto

lemma sm_env_waiting:
  assumes "sm_env X R (m, c) l (m', c')" and "sm_inv R m c"
    and "SendAntStart \<in> set (waiting R c')" and "SendAntStart \<notin> set (waiting R c)"
  shows "state m' = AntRun"
  using assms(1)
proof cases
  case (up msg)
  then obtain c1 where st: "sm_step X (event (ty (message_header msg))) m c = Running (m', c1)"
    and "c' = c1 \<or> c' = snd (ctx_spawn X (Forward msg) c1)"
    by (auto simp: handle_up_command_def Let_def split: process.splits if_splits)
  then have "waiting R c' = waiting R c1" by auto
  then show ?thesis using sm_step_no_start [OF st] assms(3,4) by auto
next
  case (down msg)
  then show ?thesis using assms(3,4)
    by (auto simp: handle_down_message_def Let_def split: if_splits dest!: sm_step_no_start)
next
  case (wrap evt rest)
  then show ?thesis using sm_step_no_start [of evt m "mailbox_pop R c" m' c'] assms(3,4)
    by (auto simp: handle_event_wrap_def)
next
  case (start_tick h)
  then show ?thesis using assms(2) tasks_invD(2) [of R m c h StartInterval] by (simp add: sm_inv_parts)
next
  case (settle h ok)
  then show ?thesis using assms(3,4) by (auto simp: on_ble_settle_def Let_def split: option.splits)
next
  case (delay h ok)
  then show ?thesis using assms(2) tasks_invD(2) [of R m c h StartDelay]
    by (auto simp: sm_inv_parts on_start_delay_def case_prod_beta)
next
  case (wait_end t ts)
  then show ?thesis using assms(3,4) by auto
qed (use assms(3,4) in \<open>auto simp: on_ping_tick_def\<close>)

end

interpretation sm_table: sm_context table_ops table_view
  by unfold_locales

subsection \<open>Properties of the step\<close>

text \<open>The step refines the abstract machine.  It exits the process (with code 1) on a
  restart and on nothing else; otherwise the new state is \<open>next_state\<close> of the old one,
  whatever task is running and whatever the context does.\<close>

theorem sm_step_refines:
  "case sm_step X evt m c of
     Exited code \<Rightarrow> evt = FERestart \<and> code = 1
   | Running mc' \<Rightarrow> evt \<noteq> FERestart \<and> state (fst mc') = next_state (state m) evt"
proof (cases "sm_step X evt m c")
  case (Running mc')
  then show ?thesis
    using sm_step_state [of X evt m c "fst mc'" "snd mc'"] sm_step_exit [of X evt m c 1] by auto
next
  case (Exited code)
  then show ?thesis using sm_step_exit [of X evt m c code] by simp
qed

text \<open>Repeated events are no operations.  A power, garage, BLE connection or rover stop
  event that finds the machine already in its target state changes neither the machine nor
  the context: no task is started, restarted or cancelled.\<close>

theorem sm_step_repeat_noop:
  "sm_step X FEPowerSupplied (m\<lparr> state := PingCentralStation \<rparr>) c
     = Running (m\<lparr> state := PingCentralStation \<rparr>, c)
   \<and> sm_step X FEGarageOpen (m\<lparr> state := GarageOpen \<rparr>) c = Running (m\<lparr> state := GarageOpen \<rparr>, c)
   \<and> sm_step X CSBLEConnect (m\<lparr> state := BLEConnected \<rparr>) c = Running (m\<lparr> state := BLEConnected \<rparr>, c)
   \<and> sm_step X FERoverStop (m\<lparr> state := AntRun \<rparr>) c = Running (m\<lparr> state := AntRun \<rparr>, c)"
  by (simp add: sm_step_equations)

lemma sm_contextI: "actor_context X R \<Longrightarrow> sm_context X R"
  by (rule sm_context.intro)

text \<open>A garage request that is not yet acknowledged is sent again.  A second garage event
  before the machine has reached the garage state cancels the request in flight and starts
  a new one.\<close>

theorem garage_resend_restarts:
  assumes "actor_context X R"
    and "state m \<noteq> GarageOpen" and "running_task m = Some h"
    and "live R c h = Some GarageOpenRetry"
    and "sm_step X FEGarageOpen m c = Running (m', c')"
  shows "live R c' h = None
    \<and> (\<exists>h'. h' \<noteq> h \<and> running_task m' = Some h' \<and> live R c' h' = Some GarageOpenRetry)"
proof -
  have ctx: "sm_context X R" using assms(1) by (rule sm_contextI)
  let ?hc = "ctx_spawn X GarageOpenRetry c"
  have m': "m' = m\<lparr> running_task := Some (fst ?hc) \<rparr>" "c' = cancel_old X (Some h) (snd ?hc)"
    using assms(2,3,5) by (simp_all add: sm_step_equations case_prod_beta)
  have r: "registers R GarageOpenRetry c ?hc"
    using assms(1) by (rule actor_context.spawn_registers)
  have "issued R c h" using assms(1,4) by (rule actor_context.live_issued)
  then have ne: "fst ?hc \<noteq> h" using r by (auto simp: registers_def)
  show ?thesis
    using r ne by (auto simp: m' sm_context.live_cancel_old [OF ctx] registers_def)
qed

text \<open>A context that already holds a garage request in flight.\<close>

definition garage_ctx :: "(task, event) table_ctx" where
  "garage_ctx = snd (table_register GarageOpenRetry empty_table)"

lemma table_spawn: "ctx_spawn table_ops = table_register"
  and table_interval: "ctx_run_interval table_ops d = table_register"
  and table_later: "ctx_run_later table_ops d = table_register"
  by (simp_all add: table_ops_def)

theorem garage_resend_restarts_witness:
  "\<exists>m' c'. sm_step table_ops FEGarageOpen (machine_default\<lparr> running_task := Some 0 \<rparr>) garage_ctx
        = Running (m', c')
      \<and> live table_view c' 0 = None
      \<and> (\<exists>h'. h' \<noteq> 0 \<and> running_task m' = Some h' \<and> live table_view c' h' = Some GarageOpenRetry)"
proof -
  obtain m' c' where st: "sm_step table_ops FEGarageOpen
      (machine_default\<lparr> running_task := Some 0 \<rparr>) garage_ctx = Running (m', c')"
    by (auto simp: sm_step_equations machine_default_def case_prod_beta)
  have "live table_view garage_ctx 0 = Some GarageOpenRetry"
    by (simp add: garage_ctx_def table_register_def table_view_def empty_table_def)
  with garage_resend_restarts [OF table.actor_context_axioms _ _ _ st, of 0] st
  show ?thesis by (simp add: machine_default_def)
qed

subsection \<open>Properties of every run\<close>

lemma sm_run_default_inv:
  assumes "actor_context X R" and "fresh_context R c0"
    and "sm_run X R (machine_default, c0) ls (m, c)"
  shows "sm_inv R m c"
  using sm_context.sm_run_inv [OF sm_contextI [OF assms(1)] assms(3)]
    sm_context.sm_inv_default [OF sm_contextI [OF assms(1)] assms(2)] by simp

text \<open>C5: at most one task drives the machine.  In every reachable state each live driver (ping
  interval, garage request, settle timer, start delay, start interval, stop request) is the
  recorded running task, so there is at most one, and it is one that belongs to the state.\<close>

theorem single_driver:
  assumes "actor_context X R" and "fresh_context R c0"
    and "sm_run X R (machine_default, c0) ls (m, c)"
    and "live R c h = Some t" and "driver t"
  shows "running_task m = Some h \<and> driver_state t (state m)
    \<and> (\<forall>h' t'. live R c h' = Some t' \<and> driver t' \<longrightarrow> h' = h)"
proof -
  have inv: "tasks_inv R m c" using sm_run_default_inv [OF assms(1-3)] by (simp add: sm_inv_parts)
  have run: "running_task m = Some h" using tasks_invD(1) [OF inv assms(4,5)] .
  moreover have "driver_state t (state m)" using tasks_invD(2) [OF inv assms(4,5)] .
  moreover have "h' = h" if "live R c h' = Some t'" and "driver t'" for h' t'
    using tasks_invD(1) [OF inv that] run by simp
  ultimately show ?thesis by blast
qed

text \<open>The run in which power is supplied to a fresh machine.\<close>

definition cmd_to :: "destination \<Rightarrow> event \<Rightarrow> message" where
  "cmd_to dest evt = message_command \<lparr> env_time = MissionEpoch 0, env_seq = 0 \<rparr> dest evt"

definition power_mc :: "nat machine \<times> (task, event) table_ctx" where
  "power_mc = (machine_default\<lparr> running_task := Some 0, state := PingCentralStation \<rparr>,
     snd (table_register PingInterval empty_table))"

lemma fresh_empty_table: "fresh_context table_view empty_table"
  by (simp add: fresh_context_def table_view_def empty_table_def)

lemma power_run:
  "sm_run table_ops table_view (machine_default, empty_table)
     [UpCommand (cmd_to Frontend FEPowerSupplied)] power_mc"
proof -
  have "handle_up_command table_ops (cmd_to Frontend FEPowerSupplied) machine_default empty_table
      = Running power_mc"
    by (simp add: handle_up_command_def cmd_to_def message_command_def header_command_def
        sm_step_equations machine_default_def power_mc_def table_interval table_register_def
        empty_table_def)
  then have "sm_env table_ops table_view (machine_default, empty_table)
      (UpCommand (cmd_to Frontend FEPowerSupplied)) power_mc"
    by (rule sm_env.up)
  from run_snoc [OF run_nil this] show ?thesis by simp
qed

theorem single_driver_witness:
  "running_task (fst power_mc) = Some 0 \<and> driver_state PingInterval (state (fst power_mc))
   \<and> \<not> (\<exists>h' t'. live table_view (snd power_mc) h' = Some t' \<and> driver t' \<and> h' \<noteq> 0)"
proof -
  have l: "live table_view (snd power_mc) 0 = Some PingInterval"
    by (simp add: power_mc_def table_view_def table_register_def empty_table_def)
  have run: "sm_run table_ops table_view (machine_default, empty_table)
      [UpCommand (cmd_to Frontend FEPowerSupplied)] (fst power_mc, snd power_mc)"
    using power_run by simp
  show ?thesis
    using single_driver [OF table.actor_context_axioms fresh_empty_table run l] by auto
qed

end
