(* ===== verification/Machine_Runs.thy ===== *)
theory Machine_Runs
  imports State_Machine
begin

text \<open>
  Properties of whole runs of the control state machine: the abstract machine with its
  triggers and the edges of \<open>state_machine.dot\<close>, what a rover move guarantees, how a rover
  stop is deferred, and what happens to the messages that the ground sends through.
\<close>

subsection \<open>The abstract machine with its triggers\<close>

text \<open>What changes the state: an event given to \<open>step\<close>, the end of the settle time, the
  acknowledged garage request.\<close>

datatype trigger = OnEvent event | Settled | GarageAcked | NoTrigger

fun abstract_step :: "state \<Rightarrow> trigger \<Rightarrow> state" where
  "abstract_step s (OnEvent evt) = next_state s evt"
| "abstract_step s Settled = AntReady"
| "abstract_step s GarageAcked = GarageOpen"
| "abstract_step s NoTrigger = s"

text \<open>The state in which each trigger can occur, by the invariant on the tasks.\<close>

fun trigger_enabled :: "state \<Rightarrow> trigger \<Rightarrow> bool" where
  "trigger_enabled s (OnEvent evt) = (evt \<noteq> FERestart)"
| "trigger_enabled s Settled = (s = BLEConnected)"
| "trigger_enabled s GarageAcked = (s \<noteq> GarageOpen)"
| "trigger_enabled s NoTrigger = True"

text \<open>The trigger of a step of the environment.\<close>

definition trigger_of :: "('h, 'c) sm_ctx_view \<Rightarrow> 'c \<Rightarrow> 'h label \<Rightarrow> trigger" where
  "trigger_of R c l =
     (case l of
        UpCommand msg \<Rightarrow> OnEvent (event (ty (message_header msg)))
      | DownMessage msg \<Rightarrow>
          (let evt = event (ty (message_header msg))
           in if evt = CSBLEConnect \<or> evt = CSBLEDisconnect then OnEvent evt else NoTrigger)
      | EventWrap evt \<Rightarrow> OnEvent evt
      | Tick h \<Rightarrow> NoTrigger
      | Done h ok \<Rightarrow>
          (if live R c h = Some BleSettle then Settled
           else if live R c h = Some GarageOpenRetry \<and> ok then GarageAcked else NoTrigger)
      | WaitDone t \<Rightarrow> NoTrigger)"

lemma sm_step_next:
  assumes "sm_step X evt m c = Running (m', c')"
  shows "state m' = next_state (state m) evt" and "evt \<noteq> FERestart"
  using assms sm_step_state sm_step_exit [of X evt m c 1] by fastforce+

lemma handle_up_commandE:
  assumes "handle_up_command X msg m c = Running (m', c')"
  obtains c1 where "sm_step X (event (ty (message_header msg))) m c = Running (m', c1)"
    and "c' = (if destination (message_header msg) \<in> {Ant, CentralStation}
          then snd (ctx_spawn X (Forward msg) c1) else c1)"
  using assms by (auto simp: handle_up_command_def Let_def split: process.splits if_splits)

lemma sm_env_trigger:
  assumes inv: "sm_inv R m c" and step: "sm_env X R (m, c) l (m', c')"
  shows "trigger_enabled (state m) (trigger_of R c l)
    \<and> state m' = abstract_step (state m) (trigger_of R c l)"
  using step
proof cases
  case (up msg)
  then show ?thesis by (auto simp: trigger_of_def sm_step_next elim: handle_up_commandE)
next
  case (down msg)
  then show ?thesis
    by (auto simp: trigger_of_def handle_down_message_def Let_def sm_step_next split: if_splits)
next
  case (wrap evt rest)
  then show ?thesis by (auto simp: trigger_of_def handle_event_wrap_def sm_step_next)
next
  case (garage h ok)
  then show ?thesis using inv tasks_invD(2) [of R m c h GarageOpenRetry]
    by (simp add: sm_inv_parts trigger_of_def on_garage_result_def)
next
  case (settle h ok)
  then show ?thesis using inv tasks_invD(2) [of R m c h BleSettle]
    by (auto simp: sm_inv_parts trigger_of_def on_ble_settle_def Let_def split: option.splits)
next
  case (delay h ok)
  then show ?thesis by (auto simp: trigger_of_def on_start_delay_def split: prod.splits)
next
  case (other_done h t msg ok)
  then show ?thesis by (auto simp: trigger_of_def)
qed (simp_all add: trigger_of_def)

text \<open>C4: simulation by the abstract machine.  Every step of the environment from a reachable
  state, whatever is delivered and whichever future runs, is a step of the six-state abstract
  machine under an enabled trigger: an event other than a restart, the end of the settle time
  (only in \<open>BLEConnected\<close>), or the acknowledged garage request (never in \<open>GarageOpen\<close>).\<close>

theorem machine_simulates_abstract:
  assumes "actor_context X R" and "fresh_context R c0"
    and "sm_run X R (machine_default, c0) ls (m, c)" and "sm_env X R (m, c) l (m', c')"
  shows "trigger_enabled (state m) (trigger_of R c l)
    \<and> state m' = abstract_step (state m) (trigger_of R c l)"
  using sm_env_trigger [OF sm_run_default_inv [OF assms(1-3)] assms(4)] .

definition settle_ctx :: "(task, event) table_ctx" where
  "settle_ctx = snd (table_register BleSettle empty_table)"

definition connected_mc :: "nat machine \<times> (task, event) table_ctx" where
  "connected_mc = (machine_default\<lparr> running_task := Some 0, state := BLEConnected \<rparr>, settle_ctx)"

definition ready_mc :: "nat machine \<times> (task, event) table_ctx" where
  "ready_mc = on_ble_settle table_ops (fst connected_mc) (finish table_view 0 settle_ctx)"

lemma connect_run:
  "sm_run table_ops table_view (machine_default, empty_table)
     [DownMessage (cmd_to Ground CSBLEConnect)] connected_mc"
proof -
  have "handle_down_message table_ops (cmd_to Ground CSBLEConnect) machine_default empty_table
      = Running connected_mc"
    by (simp add: handle_down_message_def cmd_to_def message_command_def header_command_def
        sm_step_equations machine_default_def connected_mc_def settle_ctx_def table_later
        table_register_def empty_table_def)
  then have "sm_env table_ops table_view (machine_default, empty_table)
      (DownMessage (cmd_to Ground CSBLEConnect)) connected_mc"
    by (rule sm_env.down)
  from run_snoc [OF run_nil this] show ?thesis by simp
qed

lemma settle_live: "live table_view (snd connected_mc) 0 = Some BleSettle"
  by (simp add: connected_mc_def settle_ctx_def table_view_def table_register_def empty_table_def)

lemma settle_step: "sm_env table_ops table_view connected_mc (Done 0 True) ready_mc"
  using sm_env.settle [OF settle_live, of table_ops "fst connected_mc" True]
  by (simp add: ready_mc_def connected_mc_def)

theorem machine_simulates_abstract_witness:
  "trigger_of table_view (snd connected_mc) (Done 0 True) = Settled
   \<and> state (fst ready_mc) = abstract_step (state (fst connected_mc)) Settled"
proof -
  have t: "trigger_of table_view (snd connected_mc) (Done 0 True) = Settled"
    using settle_live by (simp add: trigger_of_def)
  have run: "sm_run table_ops table_view (machine_default, empty_table)
     [DownMessage (cmd_to Ground CSBLEConnect)] (fst connected_mc, snd connected_mc)"
    using connect_run by simp
  have "sm_env table_ops table_view (fst connected_mc, snd connected_mc) (Done 0 True)
     (fst ready_mc, snd ready_mc)"
    using settle_step by simp
  from machine_simulates_abstract [OF table.actor_context_axioms fresh_empty_table run this]
  show ?thesis using t by simp
qed

subsection \<open>The diagram\<close>

text \<open>The edges of \<open>runtime/state_machine.dot\<close>, with its labels read as triggers.\<close>

definition diagram_edges :: "(state \<times> trigger \<times> state) list" where
  "diagram_edges =
     [(FlightIdle, OnEvent FEPowerSupplied, PingCentralStation),
      (PingCentralStation, GarageAcked, GarageOpen),
      (GarageOpen, OnEvent CSBLEConnect, BLEConnected),
      (BLEConnected, OnEvent CSBLEDisconnect, GarageOpen),
      (BLEConnected, Settled, AntReady),
      (AntReady, OnEvent FERoverStop, AntRun),
      (AntRun, OnEvent FERoverMove, AntReady)]"

definition all_states :: "state list" where
  "all_states = [FlightIdle, PingCentralStation, GarageOpen, BLEConnected, AntReady, AntRun]"

definition moving_triggers :: "trigger list" where
  "moving_triggers = map OnEvent handled_events @ [Settled, GarageAcked]"

text \<open>The edges between different states that the code has.\<close>

definition code_edges :: "(state \<times> trigger \<times> state) list" where
  "code_edges =
     [(s, t, abstract_step s t). s \<leftarrow> all_states, t \<leftarrow> moving_triggers,
        trigger_enabled s t \<and> abstract_step s t \<noteq> s]"

lemma code_edges_listed:
  "code_edges =
     [(FlightIdle, OnEvent FEPowerSupplied, PingCentralStation),
      (FlightIdle, OnEvent CSBLEDisconnect, GarageOpen),
      (FlightIdle, OnEvent CSBLEConnect, BLEConnected),
      (FlightIdle, GarageAcked, GarageOpen),
      (PingCentralStation, OnEvent CSBLEDisconnect, GarageOpen),
      (PingCentralStation, OnEvent CSBLEConnect, BLEConnected),
      (PingCentralStation, GarageAcked, GarageOpen),
      (GarageOpen, OnEvent FEPowerSupplied, PingCentralStation),
      (GarageOpen, OnEvent CSBLEConnect, BLEConnected),
      (BLEConnected, OnEvent FEPowerSupplied, PingCentralStation),
      (BLEConnected, OnEvent CSBLEDisconnect, GarageOpen),
      (BLEConnected, Settled, AntReady),
      (BLEConnected, GarageAcked, GarageOpen),
      (AntReady, OnEvent FEPowerSupplied, PingCentralStation),
      (AntReady, OnEvent CSBLEDisconnect, GarageOpen),
      (AntReady, OnEvent CSBLEConnect, BLEConnected),
      (AntReady, OnEvent FERoverStop, AntRun),
      (AntReady, GarageAcked, GarageOpen),
      (AntRun, OnEvent FEPowerSupplied, PingCentralStation),
      (AntRun, OnEvent CSBLEDisconnect, GarageOpen),
      (AntRun, OnEvent CSBLEConnect, BLEConnected),
      (AntRun, OnEvent FERoverMove, AntReady),
      (AntRun, GarageAcked, GarageOpen)]"
  by (simp add: code_edges_def all_states_def moving_triggers_def handled_events_def)

lemma diagram_proper:
  "(AntRun, OnEvent FEPowerSupplied, PingCentralStation) \<notin> set diagram_edges"
  by (simp add: diagram_edges_def)

lemma diagram_in_code: "set diagram_edges \<subseteq> set code_edges"
  unfolding code_edges_listed by (simp add: diagram_edges_def)

text \<open>The diagram of the state machine and the code.  All seven edges of the diagram are
  edges of the code, but the code has sixteen more: power, BLE connection, BLE
  disconnection and the acknowledged garage request lead to their target from every other
  state, for instance back from a running ant.\<close>

theorem diagram_incomplete:
  "set diagram_edges \<subset> set code_edges
   \<and> length diagram_edges = 7 \<and> length code_edges = 23 \<and> distinct code_edges
   \<and> (AntRun, OnEvent FEPowerSupplied, PingCentralStation) \<in> set code_edges
   \<and> (AntRun, OnEvent CSBLEDisconnect, GarageOpen) \<in> set code_edges
   \<and> (FlightIdle, OnEvent CSBLEConnect, BLEConnected) \<in> set code_edges"
proof -
  have more: "(AntRun, OnEvent FEPowerSupplied, PingCentralStation) \<in> set code_edges"
    by (simp add: code_edges_listed)
  then have "set diagram_edges \<subset> set code_edges"
    using diagram_in_code diagram_proper by blast
  moreover have "length diagram_edges = 7" by (simp add: diagram_edges_def)
  ultimately show ?thesis using more by (simp add: code_edges_listed)
qed

subsection \<open>Starting the ant\<close>

text \<open>C40: the machine begins to tell the ant to start only in \<open>AntRun\<close>.  Whenever a step of a reachable
  machine makes the actor wait for a send of the start command that it was not waiting for,
  the step ends in \<open>AntRun\<close>.  (Start commands of the ground are forwarded in any state.)\<close>

theorem start_only_in_run:
  assumes "actor_context X R" and "fresh_context R c0"
    and "sm_run X R (machine_default, c0) ls (m, c)" and "sm_env X R (m, c) l (m', c')"
    and "SendAntStart \<in> set (waiting R c')" and "SendAntStart \<notin> set (waiting R c)"
  shows "state m' = AntRun"
  using sm_context.sm_env_waiting [OF sm_contextI [OF assms(1)] assms(4)
      sm_run_default_inv [OF assms(1-3)] assms(5,6)] .

text \<open>The run in which the ant gets ready and the rover stops.\<close>

definition stopped_mc :: "nat machine \<times> (task, event) table_ctx" where
  "stopped_mc =
     ((fst ready_mc)\<lparr> running_task := Some 1, state := AntRun \<rparr>,
      cancel_old table_ops (Some 0) (snd (table_register StartDelay (snd ready_mc))))"

definition started_mc :: "nat machine \<times> (task, event) table_ctx" where
  "started_mc = on_start_delay table_ops (fst stopped_mc) (finish table_view 1 (snd stopped_mc))"

lemmas mc_defs = connected_mc_def settle_ctx_def ready_mc_def stopped_mc_def started_mc_def
  table_view_def table_ops_def table_register_def empty_table_def machine_default_def
  on_ble_settle_def on_start_delay_def cancel_old_def

lemma stop_step:
  "sm_env table_ops table_view ready_mc (UpCommand (cmd_to Frontend FERoverStop)) stopped_mc"
proof -
  have "handle_up_command table_ops (cmd_to Frontend FERoverStop) (fst ready_mc) (snd ready_mc)
      = Running stopped_mc"
    by (simp add: handle_up_command_def cmd_to_def message_command_def header_command_def
        sm_step_equations mc_defs)
  from sm_env.up [OF this] show ?thesis by simp
qed

lemma delay_step: "sm_env table_ops table_view stopped_mc (Done 1 True) started_mc"
proof -
  have "live table_view (snd stopped_mc) 1 = Some StartDelay" by (simp add: mc_defs)
  from sm_env.delay [OF this, of table_ops "fst stopped_mc" True] show ?thesis
    by (simp add: started_mc_def)
qed

definition stopped_labels :: "nat label list" where
  "stopped_labels = [DownMessage (cmd_to Ground CSBLEConnect), Done 0 True,
     UpCommand (cmd_to Frontend FERoverStop)]"

lemma stopped_run:
  "sm_run table_ops table_view (machine_default, empty_table) stopped_labels
     (fst stopped_mc, snd stopped_mc)"
  using run_snoc [OF run_snoc [OF connect_run settle_step] stop_step]
  by (simp add: stopped_labels_def)

theorem start_only_in_run_witness:
  "SendAntStart \<in> set (waiting table_view (snd started_mc))
   \<and> SendAntStart \<notin> set (waiting table_view (snd stopped_mc)) \<and> state (fst started_mc) = AntRun"
proof -
  have w: "SendAntStart \<in> set (waiting table_view (snd started_mc))"
    "SendAntStart \<notin> set (waiting table_view (snd stopped_mc))"
    by (simp_all add: mc_defs)
  have st: "sm_env table_ops table_view (fst stopped_mc, snd stopped_mc) (Done 1 True)
      (fst started_mc, snd started_mc)"
    using delay_step by simp
  show ?thesis
    using start_only_in_run [OF table.actor_context_axioms fresh_empty_table stopped_run st w] w
    by blast
qed

subsection \<open>Moving the rover\<close>

text \<open>No start of the ant is running, deferred or on its way.\<close>

definition quiet :: "('h, 'c) sm_ctx_view \<Rightarrow> 'h machine \<Rightarrow> 'c \<Rightarrow> bool" where
  "quiet R m c \<longleftrightarrow> sm_inv R m c \<and> state m \<noteq> AntRun \<and> pending_evt m = None \<and> mailbox R c = []"

lemma next_state_quiet:
  "s \<noteq> AntRun \<Longrightarrow> evt \<noteq> FERoverStop \<Longrightarrow> next_state s evt \<noteq> AntRun"
  by (cases evt) auto

context sm_context
begin

lemma sm_step_pending_other:
  assumes "sm_step X evt m c = Running (m', c')" and "evt \<noteq> FERoverStop" and "pending_evt m = None"
  shows "pending_evt m' = None"
  using assms by (cases evt rule: sm_step_cases)
    (auto simp: sm_step_equations sm_step_unhandled Let_def split: prod.splits if_splits)

lemma sm_step_mailbox:
  assumes "sm_step X evt m c = Running (m', c')"
  shows "mailbox R c' = mailbox R c"
  using sm_step_queues [OF assms] by auto

lemma sm_step_quiet:
  assumes "quiet R m c" and "sm_step X evt m c = Running (m', c')" and "evt \<noteq> FERoverStop"
  shows "quiet R m' c'"
  using assms sm_step_inv [OF _ assms(2)] sm_step_pending_other [OF assms(2)]
    sm_step_mailbox [OF assms(2)] sm_step_next(1) [OF assms(2)] next_state_quiet
  by (simp add: quiet_def)

lemma sm_env_quiet:
  assumes q: "quiet R m c" and step: "sm_env X R (m, c) l (m', c')"
    and l: "\<And>msg. l = UpCommand msg \<Longrightarrow> event (ty (message_header msg)) \<noteq> FERoverStop"
  shows "quiet R m' c'"
proof -
  have inv: "sm_inv R m c" using q by (simp add: quiet_def)
  have inv': "sm_inv R m' c'" using sm_env_inv [OF step inv] .
  from step show ?thesis
  proof cases
    case (up msg)
    obtain c1 where "sm_step X (event (ty (message_header msg))) m c = Running (m', c1)"
      and c': "c' = (if destination (message_header msg) \<in> {Ant, CentralStation}
            then snd (ctx_spawn X (Forward msg) c1) else c1)"
      by (rule handle_up_commandE [OF up(2)])
    then have "quiet R m' c1" using sm_step_quiet [OF q] l [OF up(1)] by simp
    then show ?thesis using inv' c' by (simp add: quiet_def)
  next
    case (down msg)
    let ?evt = "event (ty (message_header msg))"
    have "(m', c') = (m, c) \<or> ?evt \<noteq> FERoverStop \<and> sm_step X ?evt m c = Running (m', c')"
      using down(2) by (auto simp: handle_down_message_def Let_def split: if_splits)
    then show ?thesis using q sm_step_quiet [OF q, of ?evt] by auto
  next
    case (settle h ok)
    then show ?thesis using q inv' by (simp add: quiet_def on_ble_settle_def Let_def)
  next
    case (delay h ok)
    then show ?thesis using q inv' tasks_invD(2) [of R m c h StartDelay]
      by (simp add: quiet_def sm_inv_parts)
  next
    case (garage h ok)
    then show ?thesis using q inv' by (simp add: quiet_def on_garage_result_def)
  qed (use q inv' in \<open>simp_all add: quiet_def on_ping_tick_def on_start_tick_def\<close>)
qed

lemma sm_run_quiet:
  assumes "sm_run X R mc ls mc'" and "quiet R (fst mc) (snd mc)"
    and "\<And>msg. UpCommand msg \<in> set ls \<Longrightarrow> event (ty (message_header msg)) \<noteq> FERoverStop"
  shows "quiet R (fst mc') (snd mc') \<and>
    (SendAntStart \<in> set (waiting R (snd mc')) \<longrightarrow> SendAntStart \<in> set (waiting R (snd mc)))"
  using assms
proof (induction rule: sm_run.induct)
  case (run_snoc mc ls mc' l mc'')
  then have IH: "quiet R (fst mc') (snd mc')"
    "SendAntStart \<in> set (waiting R (snd mc')) \<longrightarrow> SendAntStart \<in> set (waiting R (snd mc))"
    by simp_all
  have st: "sm_env X R (fst mc', snd mc') l (fst mc'', snd mc'')" using run_snoc.hyps(2) by simp
  have q: "quiet R (fst mc'') (snd mc'')" using sm_env_quiet [OF IH(1) st] run_snoc.prems(2) by simp
  moreover have "SendAntStart \<in> set (waiting R (snd mc'')) \<longrightarrow> SendAntStart \<in> set (waiting R (snd mc'))"
    using sm_env_waiting [OF st] IH(1) q by (auto simp: quiet_def)
  ultimately show ?case using IH(2) by blast
qed simp

lemma move_quiet:
  assumes "sm_inv R m c" and "mailbox R c = []"
    and "event (ty (message_header move)) = FERoverMove"
    and "handle_up_command X move m c = Running (m1, c1)"
  shows "quiet R m1 c1"
proof -
  obtain c2 where st: "sm_step X FERoverMove m c = Running (m1, c2)"
    and c1: "c1 = (if destination (message_header move) \<in> {Ant, CentralStation}
          then snd (ctx_spawn X (Forward move) c2) else c2)"
    using handle_up_commandE [OF assms(4)] assms(3) by metis
  have "pending_inv m" using assms(1) by (simp add: sm_inv_parts)
  then have "pending_evt m1 = None"
    using st by (auto simp: sm_step_equations pending_inv_def case_prod_beta split: if_splits)
  moreover have "state m1 \<noteq> AntRun" using sm_step_next(1) [OF st] by (auto split: if_splits)
  moreover have "mailbox R c1 = []" using sm_step_mailbox [OF st] assms(2) c1 by simp
  moreover have "sm_inv R m1 c1" using handle_up_command_inv [OF assms(1,4)] .
  ultimately show ?thesis by (simp add: quiet_def)
qed

lemma quiet_tasks:
  assumes "quiet R m c"
  shows "live R c h \<noteq> Some StartDelay" and "live R c h \<noteq> Some StartInterval"
  using assms tasks_invD(2) [of R m c h StartDelay] tasks_invD(2) [of R m c h StartInterval]
  by (auto simp: quiet_def sm_inv_parts)

end

text \<open>C7: after the rover is reported to move, the machine begins no start of the ant until the
  rover is reported to stop, provided that nothing it has sent to itself is left.  If no
  deferred event is in the actor's own mailbox when a move command is handled, then along every
  run without a rover stop command from the ground the machine stays out of \<open>AntRun\<close>, no start
  task is live, and it waits for no start command but one that it was already sending.  Not
  covered are start commands that the ground itself addresses to the ant: they are forwarded
  like all its messages.\<close>

theorem rover_move_quiet:
  assumes "actor_context X R" and "fresh_context R c0"
    and "sm_run X R (machine_default, c0) ls (m, c)" and "mailbox R c = []"
    and "event (ty (message_header move)) = FERoverMove"
    and "handle_up_command X move m c = Running (m1, c1)"
    and "sm_run X R (m1, c1) ls1 (m2, c2)"
    and "\<And>msg. UpCommand msg \<in> set ls1 \<Longrightarrow> event (ty (message_header msg)) \<noteq> FERoverStop"
  shows "state m2 \<noteq> AntRun
    \<and> (\<forall>h. live R c2 h \<noteq> Some StartDelay \<and> live R c2 h \<noteq> Some StartInterval)
    \<and> (SendAntStart \<in> set (waiting R c2) \<longrightarrow> SendAntStart \<in> set (waiting R c1))"
proof -
  have X: "sm_context X R" using assms(1) by (rule sm_contextI)
  have q: "quiet R m1 c1"
    using sm_context.move_quiet [OF X sm_run_default_inv [OF assms(1-3)] assms(4-6)] .
  have "quiet R m2 c2 \<and> (SendAntStart \<in> set (waiting R c2) \<longrightarrow> SendAntStart \<in> set (waiting R c1))"
    using sm_context.sm_run_quiet [OF X assms(7)] q assms(8) by simp
  then show ?thesis using sm_context.quiet_tasks [OF X] by (auto simp: quiet_def)
qed

definition moved_mc :: "nat machine \<times> (task, event) table_ctx" where
  "moved_mc =
     ((fst stopped_mc)\<lparr> running_task := Some 2, state := AntReady \<rparr>,
      cancel_old table_ops (Some 1) (snd (table_register AntStopRetry (snd stopped_mc))))"

lemma move_handled:
  "handle_up_command table_ops (cmd_to Frontend FERoverMove) (fst stopped_mc) (snd stopped_mc)
     = Running moved_mc"
  by (simp add: handle_up_command_def cmd_to_def message_command_def header_command_def
      sm_step_equations moved_mc_def mc_defs)

theorem rover_move_quiet_witness:
  "state (fst moved_mc) \<noteq> AntRun
   \<and> (\<forall>h. live table_view (snd moved_mc) h \<noteq> Some StartDelay
        \<and> live table_view (snd moved_mc) h \<noteq> Some StartInterval)"
proof -
  have mb: "mailbox table_view (snd stopped_mc) = []" by (simp add: mc_defs)
  have ev: "event (ty (message_header (cmd_to Frontend FERoverMove))) = FERoverMove"
    by (simp add: cmd_to_def message_command_def header_command_def)
  have st: "handle_up_command table_ops (cmd_to Frontend FERoverMove) (fst stopped_mc) (snd stopped_mc)
      = Running (fst moved_mc, snd moved_mc)"
    using move_handled by simp
  have "sm_run table_ops table_view (fst moved_mc, snd moved_mc) [] (fst moved_mc, snd moved_mc)"
    by (rule run_nil)
  from rover_move_quiet [OF table.actor_context_axioms fresh_empty_table stopped_run mb ev st this]
  show ?thesis by simp
qed

subsection \<open>A deferred rover stop\<close>

text \<open>The three steps in which a rover stop is deferred, the settle time ends, and the stop that
  the machine sent to itself is handled.\<close>

definition deferred_labels :: "message \<Rightarrow> 'h \<Rightarrow> 'h label list" where
  "deferred_labels stop h = [UpCommand stop, Done h True, EventWrap FERoverStop]"

context sm_context
begin

lemma deferred_stop_delivered:
  assumes inv: "sm_inv R m c" and "live R c h = Some BleSettle" and "mailbox R c = []"
    and stop: "event (ty (message_header stop)) = FERoverStop"
  shows "\<exists>m' c' h'. sm_run X R (m, c) (deferred_labels stop h) (m', c')
    \<and> state m' = AntRun \<and> pending_evt m' = None \<and> mailbox R c' = []
    \<and> running_task m' = Some h' \<and> live R c' h' = Some StartDelay"
proof -
  let ?m1 = "m\<lparr> pending_evt := Some FERoverStop \<rparr>"
  define c1 where "c1 = (if destination (message_header stop) \<in> {Ant, CentralStation}
      then snd (ctx_spawn X (Forward stop) c) else c)"
  let ?m2 = "?m1\<lparr> state := AntReady, pending_evt := None \<rparr>"
  let ?c2 = "ctx_address_do_send X FERoverStop (finish R h c1)"
  let ?hc = "ctx_run_later X 10000 StartDelay (mailbox_pop R ?c2)"
  let ?m3 = "?m2\<lparr> running_task := Some (fst ?hc), state := AntRun \<rparr>"
  let ?c3 = "cancel_old X (running_task m) (snd ?hc)"
  have ti: "tasks_inv R m c" using inv by (simp add: sm_inv_parts)
  have m: "running_task m = Some h" "state m = BLEConnected" "issued R c h"
    using tasks_invD [OF ti, of h] assms(2) by auto
  have c1: "live R c1 h = Some BleSettle" "mailbox R c1 = []"
    using assms(2,3) spawn_simps(6) [of c "Forward stop"] by (auto simp: c1_def)
  have "handle_up_command X stop m c = Running (?m1, c1)"
    using m by (simp add: handle_up_command_def stop sm_step_equations c1_def Let_def)
  then have 1: "sm_env X R (m, c) (UpCommand stop) (?m1, c1)" by (rule sm_env.up)
  have 2: "sm_env X R (?m1, c1) (Done h True) (?m2, ?c2)"
    using sm_env.settle [OF c1(1), of X ?m1 True] by (simp add: on_ble_settle_def Let_def)
  have mb: "mailbox R ?c2 = FERoverStop # []" by (simp add: c1)
  have "handle_event_wrap X FERoverStop ?m2 (mailbox_pop R ?c2) = Running (?m3, ?c3)"
    by (simp add: handle_event_wrap_def sm_step_equations case_prod_beta)
  then have 3: "sm_env X R (?m2, ?c2) (EventWrap FERoverStop) (?m3, ?c3)"
    by (rule sm_env.wrap [OF mb])
  have "sm_run X R (m, c) (deferred_labels stop h) (?m3, ?c3)"
    using run_snoc [OF run_snoc [OF run_snoc [OF run_nil 1] 2] 3] by (simp add: deferred_labels_def)
  moreover have "mailbox R ?c3 = []" by (simp add: c1)
  moreover have "fst ?hc \<noteq> h"
  proof -
    have "issued R (mailbox_pop R ?c2) h" using m(3) by (simp add: c1_def)
    then show ?thesis using later_simps(5) [of "mailbox_pop R ?c2" 10000 StartDelay] by metis
  qed
  then have "live R ?c3 (fst ?hc) = Some StartDelay" by (simp add: m)
  ultimately show ?thesis by fastforce
qed

end

text \<open>C8: a rover stop that arrives too early is deferred, not lost.  In every reachable state
  in which the settle timer runs and no self-sent event is queued (the actor's own mailbox is
  empty), a rover stop command, the end of the settle time and the delivery of the event the
  machine sends to itself are possible one after the other and lead to \<open>AntRun\<close> with the start
  delay running, nothing deferred and nothing left in the queue.\<close>

theorem deferred_rover_stop:
  assumes "actor_context X R" and "fresh_context R c0"
    and "sm_run X R (machine_default, c0) ls (m, c)"
    and "live R c h = Some BleSettle" and "mailbox R c = []"
    and "event (ty (message_header stop)) = FERoverStop"
  shows "\<exists>m' c' h'. sm_run X R (m, c) (deferred_labels stop h) (m', c')
    \<and> state m' = AntRun \<and> pending_evt m' = None \<and> mailbox R c' = []
    \<and> running_task m' = Some h' \<and> live R c' h' = Some StartDelay"
  using sm_context.deferred_stop_delivered [OF sm_contextI [OF assms(1)]
      sm_run_default_inv [OF assms(1-3)] assms(4-6)] .

theorem deferred_rover_stop_witness:
  "\<exists>m' c'. sm_run table_ops table_view connected_mc
      (deferred_labels (cmd_to Frontend FERoverStop) 0) (m', c') \<and> state m' = AntRun"
proof -
  have run: "sm_run table_ops table_view (machine_default, empty_table)
     [DownMessage (cmd_to Ground CSBLEConnect)] (fst connected_mc, snd connected_mc)"
    using connect_run by simp
  have mb: "mailbox table_view (snd connected_mc) = []" by (simp add: mc_defs)
  have ev: "event (ty (message_header (cmd_to Frontend FERoverStop))) = FERoverStop"
    by (simp add: cmd_to_def message_command_def header_command_def)
  from deferred_rover_stop [OF table.actor_context_axioms fresh_empty_table run settle_live mb ev]
  show ?thesis by auto
qed

subsection \<open>Messages for the ant and the central station\<close>

text \<open>The ground messages being forwarded.\<close>

definition forwarding :: "('h, 'c) sm_ctx_view \<Rightarrow> 'c \<Rightarrow> 'h \<Rightarrow> message option" where
  "forwarding R c h = (case live R c h of Some (Forward msg) \<Rightarrow> Some msg | _ \<Rightarrow> None)"

lemma forwarding_Some: "forwarding R c h = Some msg \<longleftrightarrow> live R c h = Some (Forward msg)"
  by (auto simp: forwarding_def split: option.splits task.splits)

lemma forwarding_cong: "live R c' = live R c \<Longrightarrow> forwarding R c' = forwarding R c"
  by (simp add: forwarding_def fun_eq_iff)

lemma forwarding_eqI:
  assumes "\<And>h msg. live R c' h = Some (Forward msg) \<longleftrightarrow> live R c h = Some (Forward msg)"
  shows "forwarding R c' = forwarding R c"
proof
  fix h
  show "forwarding R c' h = forwarding R c h"
  proof (cases "forwarding R c h")
    case None
    then show ?thesis using assms forwarding_Some [of R c' h] forwarding_Some [of R c h]
      by (metis not_None_eq)
  next
    case (Some msg)
    then show ?thesis using assms forwarding_Some by metis
  qed
qed

context sm_context
begin

lemma sm_step_forwarding:
  assumes inv: "tasks_inv R m c" and st: "sm_step X evt m c = Running (m', c')"
  shows "forwarding R c' = forwarding R c"
proof -
  have nf: "live R c h \<noteq> Some (Forward msg)" if "running_task m = Some h" for h msg
    using tasks_invD(4) [OF inv that, of "Forward msg"] by auto
  from sm_step_tasks [OF st] show ?thesis
  proof (elim disjE)
    assume "task_kept R m c m' c'"
    then show ?thesis by (intro forwarding_cong) (simp add: task_kept_def)
  next
    assume "task_cleared R m c m' c'"
    then have l: "live R c' = without_task (live R c) (running_task m)"
      by (simp add: task_cleared_def)
    show ?thesis by (rule forwarding_eqI) (use nf in \<open>auto simp: l without_task_Some\<close>)
  next
    assume "task_replaced R m c m' c'"
    then obtain h t where h: "\<not> issued R c h" "driver t"
      and l: "live R c' = without_task ((live R c)(h \<mapsto> t)) (running_task m)"
      unfolding task_replaced_def by blast
    have "t \<noteq> Forward msg" for msg using h(2) by auto
    moreover have "live R c h \<noteq> Some u" for u using h(1) live_issued [of c h u] by blast
    ultimately show ?thesis
      by (intro forwarding_eqI) (use nf in \<open>auto simp: l without_task_Some\<close>)
  qed
qed

lemma forwarding_register:
  assumes "registers R t c hc"
  shows "forwarding R (snd hc) =
    (case t of Forward msg \<Rightarrow> (forwarding R c)(fst hc \<mapsto> msg) | _ \<Rightarrow> forwarding R c)"
    and "forwarding R c (fst hc) = None"
proof -
  note r = registers_simps [OF assms]
  show n: "forwarding R c (fst hc) = None" using r(6) by (simp add: forwarding_def)
  show "forwarding R (snd hc) =
    (case t of Forward msg \<Rightarrow> (forwarding R c)(fst hc \<mapsto> msg) | _ \<Rightarrow> forwarding R c)"
    using n by (cases t) (auto simp: r(1) forwarding_def fun_eq_iff)
qed

lemma handle_up_forwarding:
  assumes inv: "tasks_inv R m c" and st: "handle_up_command X msg m c = Running (m', c')"
  shows "if destination (message_header msg) \<in> {Ant, CentralStation}
    then \<exists>h. forwarding R c h = None \<and> forwarding R c' = (forwarding R c)(h \<mapsto> msg)
    else forwarding R c' = forwarding R c"
proof -
  obtain c1 where st1: "sm_step X (event (ty (message_header msg))) m c = Running (m', c1)"
    and c': "c' = (if destination (message_header msg) \<in> {Ant, CentralStation}
          then snd (ctx_spawn X (Forward msg) c1) else c1)"
    by (rule handle_up_commandE [OF st])
  have 1: "forwarding R c1 = forwarding R c" by (rule sm_step_forwarding [OF inv st1])
  note f = forwarding_register(1) [OF spawn_registers, of "Forward msg" c1]
    forwarding_register(2) [OF spawn_registers, of c1 "Forward msg"]
  show ?thesis using f by (auto simp: c' 1)
qed

lemma sm_env_forwarding:
  assumes inv: "sm_inv R m c" and st: "sm_env X R (m, c) l (m', c')"
  shows "case l of
      UpCommand msg \<Rightarrow>
        (if destination (message_header msg) \<in> {Ant, CentralStation}
         then \<exists>h. forwarding R c h = None \<and> forwarding R c' = (forwarding R c)(h \<mapsto> msg)
         else forwarding R c' = forwarding R c)
    | Done h ok \<Rightarrow> forwarding R c' = (forwarding R c)(h := None)
    | _ \<Rightarrow> forwarding R c' = forwarding R c"
proof -
  have ti: "tasks_inv R m c" using inv by (simp add: sm_inv_parts)
  have fin: "forwarding R (finish R h x) = (forwarding R x)(h := None)" for h x
    by (simp add: forwarding_def fun_eq_iff)
  from st show ?thesis
  proof cases
    case (up msg)
    then show ?thesis using handle_up_forwarding [OF ti up(2)] by simp
  next
    case (down msg)
    then show ?thesis using sm_step_forwarding [OF ti]
      by (auto simp: handle_down_message_def Let_def split: if_splits)
  next
    case (wrap evt rest)
    have "tasks_inv R m (mailbox_pop R c)" using ti by (rule tasks_inv_same) simp_all
    from sm_step_forwarding [OF this] wrap show ?thesis
      using forwarding_cong [OF live_pop] by (simp add: handle_event_wrap_def)
  next
    case (ping_tick h)
    then show ?thesis using forwarding_register(1) [OF spawn_registers, of PingCs c]
      by (simp add: on_ping_tick_def)
  next
    case (start_tick h)
    then show ?thesis using forwarding_cong [of R "on_start_tick X c" c] by (simp add: on_start_tick_def)
  next
    case (settle h ok)
    then show ?thesis using forwarding_cong [OF live_send] fin
      by (auto simp: on_ble_settle_def Let_def split: option.splits)
  next
    case (delay h ok)
    then show ?thesis
      using forwarding_register(1) [OF interval_registers, of 30000 StartInterval]
        forwarding_cong [OF live_wait] fin
      by (simp add: on_start_delay_def case_prod_beta)
  next
    case (wait_end t ts)
    then show ?thesis using forwarding_cong [OF live_wait_done] by simp
  qed (simp_all add: fin)
qed

end

text \<open>C6: a ground message is forwarded exactly if it is addressed to the ant or the central
  station, and a forwarding once begun is never cancelled.  In every step from a reachable
  state the forwarding futures change in two ways only: a command from the ground adds one
  for itself under an unused handle if its destination is the ant or the central station
  (whatever the state machine does with its event), and the end of a future removes that
  future.\<close>

theorem forwarding_exact:
  assumes "actor_context X R" and "fresh_context R c0"
    and "sm_run X R (machine_default, c0) ls (m, c)" and "sm_env X R (m, c) l (m', c')"
  shows "case l of
      UpCommand msg \<Rightarrow>
        (if destination (message_header msg) \<in> {Ant, CentralStation}
         then \<exists>h. forwarding R c h = None \<and> forwarding R c' = (forwarding R c)(h \<mapsto> msg)
         else forwarding R c' = forwarding R c)
    | Done h ok \<Rightarrow> forwarding R c' = (forwarding R c)(h := None)
    | _ \<Rightarrow> forwarding R c' = forwarding R c"
  using sm_context.sm_env_forwarding [OF sm_contextI [OF assms(1)]
      sm_run_default_inv [OF assms(1-3)] assms(4)] .

theorem forwarding_exact_witness:
  "\<exists>c'. handle_up_command table_ops (cmd_to Ant FEPing) (fst connected_mc) (snd connected_mc)
      = Running (fst connected_mc, c')
    \<and> (\<exists>h. forwarding table_view c' = (forwarding table_view (snd connected_mc))(h \<mapsto> cmd_to Ant FEPing))"
proof -
  let ?msg = "cmd_to Ant FEPing" and ?c = "snd connected_mc"
  let ?c' = "snd (ctx_spawn table_ops (Forward ?msg) ?c)"
  have hdr: "event (ty (message_header ?msg)) = FEPing" "destination (message_header ?msg) = Ant"
    by (simp_all add: cmd_to_def message_command_def header_command_def)
  have "FEPing \<notin> set handled_events" by (simp add: handled_events_def)
  then have up: "handle_up_command table_ops ?msg (fst connected_mc) ?c = Running (fst connected_mc, ?c')"
    by (simp add: handle_up_command_def Let_def hdr sm_step_unhandled case_prod_beta)
  have run: "sm_run table_ops table_view (machine_default, empty_table)
     [DownMessage (cmd_to Ground CSBLEConnect)] (fst connected_mc, ?c)"
    using connect_run by simp
  from forwarding_exact [OF table.actor_context_axioms fresh_empty_table run sm_env.up [OF up]]
  show ?thesis using up by (auto simp: hdr)
qed

end
