(* ===== verification/System.thy ===== *)
theory System
  imports Mail Ground Services Machine_Runs
begin

text \<open>
  The relay as one system: the actors that \<open>src/src/main.rs\<close> starts, connected by the broker.
  The state \<open>relay\<close> holds every actor's state, the state of the libraries they use and the
  mail; \<open>handle_mail\<close> dispatches a piece of mail to the actor's handler; the relation
  \<open>relay_env\<close> lets the environment deliver mail and bring in datagrams, serial packets, log
  events, timers and connections in any order.  A handler's panic and the exit of the process
  are reactions of their own.
\<close>

subsection \<open>State and libraries\<close>

datatype 'a reaction =
    Continues 'a
  | Exits nat
  | Panics

record ('h, 'c, 'k, 'w, 'q, 's, 'b) relay =
  rl_machine :: "'h machine"
  rl_ctx :: 'c
  rl_commander :: "'k commander"
  rl_channels :: 'w
  rl_raw :: "'q raw_io"
  rl_serial_once :: bool
  rl_ant_once :: bool
  rl_downlink :: "nat \<Rightarrow> 's downlink_actor"
  rl_sent :: "('s \<times> bytes) list"
  rl_seq :: u8
  rl_mail :: 'b

text \<open>The libraries' operations, and the number of downlink addresses.\<close>

record ('h, 'c, 'k, 'w, 'q, 'b) relay_deps =
  dep_ctx :: "('h, 'c) sm_ctx_ops"
  dep_oneshot :: "('k, 'w) oneshot_ops"
  dep_mpsc :: "'q mpsc_ops"
  dep_mail :: "'b mail_ops"
  dep_crc8 :: "bytes \<Rightarrow> u8"
  dep_cs :: "cs_payload struct_ops"
  dep_serialize :: "downlink \<Rightarrow> bytes option"
  dep_compress :: "bytes \<Rightarrow> bytes option"
  dep_addresses :: nat

record ('h, 'c, 'k, 'w, 'b) relay_views =
  view_ctx :: "('h, 'c) sm_ctx_view"
  view_oneshot :: "('k, 'w) oneshot_view"
  view_mail :: "'b mail_view"

subsection \<open>Handling mail\<close>

definition machine_result ::
  "('h machine \<times> 'c) process \<Rightarrow> ('h, 'c, 'k, 'w, 'q, 's, 'b) relay
     \<Rightarrow> ('h, 'c, 'k, 'w, 'q, 's, 'b) relay reaction" where
  "machine_result r st =
     (case r of
        Exited code \<Rightarrow> Exits code
      | Running (m, c) \<Rightarrow> Continues (st\<lparr> rl_machine := m, rl_ctx := c \<rparr>))"

definition issue_result ::
  "('h, 'c, 'k, 'w, 'q, 'b) relay_deps \<Rightarrow> broker_msg list option
     \<Rightarrow> ('h, 'c, 'k, 'w, 'q, 's, 'b) relay \<Rightarrow> ('h, 'c, 'k, 'w, 'q, 's, 'b) relay reaction" where
  "issue_result D r st =
     (case r of
        None \<Rightarrow> Panics
      | Some out \<Rightarrow> Continues (st\<lparr> rl_mail := issue_all (dep_mail D) out (rl_mail st) \<rparr>))"

definition machine_mail ::
  "('h, 'c, 'k, 'w, 'q, 'b) relay_deps \<Rightarrow> mail \<Rightarrow> ('h, 'c, 'k, 'w, 'q, 's, 'b) relay
     \<Rightarrow> ('h, 'c, 'k, 'w, 'q, 's, 'b) relay reaction" where
  "machine_mail D x st =
     (case x of
        BrokerMail (GroundUpCommand msg) \<Rightarrow>
          machine_result (handle_up_command (dep_ctx D) msg (rl_machine st) (rl_ctx st)) st
      | BrokerMail (DownMessageB msg) \<Rightarrow>
          machine_result (handle_down_message (dep_ctx D) msg (rl_machine st) (rl_ctx st)) st
      | _ \<Rightarrow> Continues st)"

definition ant_decode_mail ::
  "('h, 'c, 'k, 'w, 'q, 'b) relay_deps \<Rightarrow> mail \<Rightarrow> ('h, 'c, 'k, 'w, 'q, 's, 'b) relay
     \<Rightarrow> ('h, 'c, 'k, 'w, 'q, 's, 'b) relay reaction" where
  "ant_decode_mail D x st =
     (case x of
        BrokerMail (DownMessageB msg) \<Rightarrow>
          issue_result D (ant_decode (dep_cs D) (dep_crc8 D) msg) st
      | _ \<Rightarrow> Continues st)"

definition serial_mail ::
  "('h, 'c, 'k, 'w, 'q, 'b) relay_deps \<Rightarrow> mail \<Rightarrow> ('h, 'c, 'k, 'w, 'q, 's, 'b) relay
     \<Rightarrow> ('h, 'c, 'k, 'w, 'q, 's, 'b) relay reaction" where
  "serial_mail D x st =
     (case x of
        BrokerMail (UpMessageB msg) \<Rightarrow> issue_result D (serial_handle_up (dep_crc8 D) msg) st
      | BrokerMail (RawDownPacket pkt) \<Rightarrow> issue_result D (serial_handle_down (dep_crc8 D) pkt) st
      | _ \<Rightarrow> Continues st)"

definition raw_mail ::
  "('h, 'c, 'k, 'w, 'q, 'b) relay_deps \<Rightarrow> mail \<Rightarrow> ('h, 'c, 'k, 'w, 'q, 's, 'b) relay
     \<Rightarrow> ('h, 'c, 'k, 'w, 'q, 's, 'b) relay reaction" where
  "raw_mail D x st =
     (case x of
        BrokerMail (RawUpPacket pkt) \<Rightarrow>
          Continues (st\<lparr> rl_raw := raw_handle_up (dep_mpsc D) pkt (rl_raw st) \<rparr>)
      | _ \<Rightarrow> Continues st)"

definition commander_mail ::
  "('h, 'c, 'k, 'w, 'q, 'b) relay_deps \<Rightarrow> mail \<Rightarrow> ('h, 'c, 'k, 'w, 'q, 's, 'b) relay
     \<Rightarrow> ('h, 'c, 'k, 'w, 'q, 's, 'b) relay reaction" where
  "commander_mail D x st =
     (case x of
        RequestMail msg \<Rightarrow>
          (let (h, c, w, up) = handle_request (dep_oneshot D) msg (rl_commander st) (rl_channels st)
           in Continues (st\<lparr> rl_commander := c, rl_channels := w,
                rl_mail := broker_issue (dep_mail D) (UpMessageB up) (rl_mail st) \<rparr>))
      | BrokerMail (AckMessageB msg) \<Rightarrow>
          (let (c, w) = handle_ack_message (dep_oneshot D) msg (rl_commander st) (rl_channels st)
           in Continues (st\<lparr> rl_commander := c, rl_channels := w \<rparr>))
      | BrokerMail (AntMessageB pkt) \<Rightarrow>
          (let (c, w) = handle_ant_message (dep_oneshot D) pkt (rl_commander st) (rl_channels st)
           in Continues (st\<lparr> rl_commander := c, rl_channels := w \<rparr>))
      | _ \<Rightarrow> Continues st)"

definition downlink_mail ::
  "('h, 'c, 'k, 'w, 'q, 'b) relay_deps \<Rightarrow> nat \<Rightarrow> mail \<Rightarrow> ('h, 'c, 'k, 'w, 'q, 's, 'b) relay
     \<Rightarrow> ('h, 'c, 'k, 'w, 'q, 's, 'b) relay reaction" where
  "downlink_mail D i x st =
     (case x of
        BrokerMail msg \<Rightarrow>
          (case downlink_handle (dep_serialize D) (dep_compress D) msg (rl_downlink st i) of
             NotSubscribed \<Rightarrow> Continues st
           | LoggedError \<Rightarrow> Continues st
           | SendTo s pkt \<Rightarrow> Continues (st\<lparr> rl_sent := rl_sent st @ [(s, pkt)] \<rparr>)
           | DownlinkPanic \<Rightarrow> Panics)
      | RequestMail msg \<Rightarrow> Continues st)"

definition handle_mail ::
  "('h, 'c, 'k, 'w, 'q, 'b) relay_deps \<Rightarrow> actor_id \<Rightarrow> mail \<Rightarrow> ('h, 'c, 'k, 'w, 'q, 's, 'b) relay
     \<Rightarrow> ('h, 'c, 'k, 'w, 'q, 's, 'b) relay reaction" where
  "handle_mail D a x st =
     (case a of
        AStateMachine \<Rightarrow> machine_mail D x st
      | AAntDecode \<Rightarrow> ant_decode_mail D x st
      | ASerial \<Rightarrow> serial_mail D x st
      | ARawIO \<Rightarrow> raw_mail D x st
      | ACommander \<Rightarrow> commander_mail D x st
      | ADownlink i \<Rightarrow> downlink_mail D i x st)"

lemmas mail_defs = machine_mail_def ant_decode_mail_def serial_mail_def raw_mail_def
  commander_mail_def downlink_mail_def machine_result_def issue_result_def

subsection \<open>Sending requests\<close>

text \<open>
  \<open>send\<close> and \<open>do_send\<close> look the commander up, which starts it on its first use, and put the
  request into its mailbox.  The lookup goes through the override registry, which holds no
  override: nothing in the program sets one.
\<close>

definition send_request ::
  "('h, 'c, 'k, 'w, 'q, 'b) relay_deps \<Rightarrow> message \<Rightarrow> ('h, 'c, 'k, 'w, 'q, 's, 'b) relay
     \<Rightarrow> ('h, 'c, 'k, 'w, 'q, 's, 'b) relay" where
  "send_request D msg st =
     (let (c, subscribe) = commander_started (rl_commander st);
          b = (if subscribe
               then subscribe_all (dep_mail D) ACommander commander_subscriptions (rl_mail st)
               else rl_mail st)
      in st\<lparr> rl_commander := c, rl_mail := mail_send (dep_mail D) ACommander (RequestMail msg) b \<rparr>)"

text \<open>A future of the state machine sends: a ground message as it is, or a command stamped with
  the parameters of this moment.\<close>

definition send_task ::
  "('h, 'c, 'k, 'w, 'q, 'b) relay_deps \<Rightarrow> datetime \<Rightarrow> task
     \<Rightarrow> ('h, 'c, 'k, 'w, 'q, 's, 'b) relay \<Rightarrow> ('h, 'c, 'k, 'w, 'q, 's, 'b) relay" where
  "send_task D now t st =
     (case t of
        Forward msg \<Rightarrow> send_request D msg st
      | _ \<Rightarrow>
          (let (p, n) = params_query now (rl_seq st)
           in case task_message p t of
                None \<Rightarrow> st\<lparr> rl_seq := n \<rparr>
              | Some msg \<Rightarrow> send_request D msg (st\<lparr> rl_seq := n \<rparr>)))"

subsection \<open>The environment\<close>

datatype ('h, 'k, 's) relay_label =
    Deliver actor_id
  | UplinkDatagram bytes
  | SerialItem "cobs_error + bytes"
  | TraceLog log
  | OneShot 'h datetime
  | RetrySend 'h datetime
  | WaitSend datetime
  | MachineStep "'h label"
  | GarbageTick
  | CallerGone 'k
  | RawConnect bool
  | RawRestart
  | DownlinkConnect nat "'s option"

text \<open>The futures that send one message and end, those that send until they are answered, and
  the sends that the actor waits for.\<close>

fun sends_once :: "task \<Rightarrow> bool" where
  "sends_once PingCs = True"
| "sends_once (Forward msg) = True"
| "sends_once t = False"

fun sends_again :: "task \<Rightarrow> bool" where
  "sends_again GarageOpenRetry = True"
| "sends_again AntStopRetry = True"
| "sends_again t = False"

fun sends_waited :: "task \<Rightarrow> bool" where
  "sends_waited SendAntStart = True"
| "sends_waited SendCsPing = True"
| "sends_waited SendAntPing = True"
| "sends_waited t = False"

text \<open>The steps of the state machine that neither receive mail nor send.\<close>

definition machine_internal :: "('h, 'c) sm_ctx_view \<Rightarrow> 'c \<Rightarrow> 'h label \<Rightarrow> bool" where
  "machine_internal R c l =
     (case l of
        UpCommand msg \<Rightarrow> False
      | DownMessage msg \<Rightarrow> False
      | EventWrap evt \<Rightarrow> True
      | Tick h \<Rightarrow> True
      | Done h ok \<Rightarrow> (case live R c h of Some t \<Rightarrow> \<not> sends_once t | None \<Rightarrow> False)
      | WaitDone t \<Rightarrow> t = SendAntStart)"

inductive relay_env ::
  "('h, 'c, 'k, 'w, 'q, 'b) relay_deps \<Rightarrow> ('h, 'c, 'k, 'w, 'b) relay_views
     \<Rightarrow> ('h, 'c, 'k, 'w, 'q, 's, 'b) relay \<Rightarrow> ('h, 'k, 's) relay_label
     \<Rightarrow> ('h, 'c, 'k, 'w, 'q, 's, 'b) relay \<Rightarrow> bool"
  for D V where
  deliver: "inbox (view_mail V) (rl_mail st) a = x # xs \<Longrightarrow>
    handle_mail D a x (st\<lparr> rl_mail := inbox_pop (view_mail V) a (rl_mail st) \<rparr>) = Continues st' \<Longrightarrow>
    relay_env D V st (Deliver a) st'"
| datagram: "uplink_handle (dep_crc8 D) (PacketOk pkt) = UplinkIssue out \<Longrightarrow>
    relay_env D V st (UplinkDatagram pkt)
      (st\<lparr> rl_mail := issue_all (dep_mail D) out (rl_mail st) \<rparr>)"
| serial_item: "raw_reader_item (stream_item item) = Issue msg \<Longrightarrow>
    relay_env D V st (SerialItem item) (st\<lparr> rl_mail := broker_issue (dep_mail D) msg (rl_mail st) \<rparr>)"
| trace_log: "relay_env D V st (TraceLog l)
    (st\<lparr> rl_mail := broker_issue (dep_mail D) (GroundLog l) (rl_mail st) \<rparr>)"
| one_shot: "live (view_ctx V) (rl_ctx st) h = Some t \<Longrightarrow> sends_once t \<Longrightarrow>
    relay_env D V st (OneShot h now)
      (send_task D now t (st\<lparr> rl_ctx := finish (view_ctx V) h (rl_ctx st) \<rparr>))"
| retry_send: "live (view_ctx V) (rl_ctx st) h = Some t \<Longrightarrow> sends_again t \<Longrightarrow>
    relay_env D V st (RetrySend h now) (send_task D now t st)"
| wait_send: "waiting (view_ctx V) (rl_ctx st) = t # ts \<Longrightarrow> sends_waited t \<Longrightarrow>
    relay_env D V st (WaitSend now) (send_task D now t
      (if t = SendAntStart then st else st\<lparr> rl_ctx := wait_done (view_ctx V) (rl_ctx st) \<rparr>))"
| machine: "machine_internal (view_ctx V) (rl_ctx st) l \<Longrightarrow>
    sm_env (dep_ctx D) (view_ctx V) (rl_machine st, rl_ctx st) l (m, c) \<Longrightarrow>
    relay_env D V st (MachineStep l) (st\<lparr> rl_machine := m, rl_ctx := c \<rparr>)"
| garbage: "relay_env D V st GarbageTick
    (st\<lparr> rl_commander := collect_garbage (dep_oneshot D) (rl_channels st) (rl_commander st) \<rparr>)"
| caller_gone: "relay_env D V st (CallerGone k)
    (st\<lparr> rl_channels := rx_drop (view_oneshot V) k (rl_channels st) \<rparr>)"
| raw_connect: "raw_connected (dep_mpsc D) opened (rl_raw st) = Some a \<Longrightarrow>
    relay_env D V st (RawConnect opened) (st\<lparr> rl_raw := a, rl_mail :=
      (if raw_subscribed (rl_raw st) then rl_mail st
       else subscribe_all (dep_mail D) ARawIO raw_subscriptions (rl_mail st)) \<rparr>)"
| raw_restart: "relay_env D V st RawRestart (st\<lparr> rl_raw := raw_restarting (rl_raw st) \<rparr>)"
| downlink_connect: "i < dep_addresses D \<Longrightarrow>
    downlink_connected result (rl_downlink st i) = Some a \<Longrightarrow>
    relay_env D V st (DownlinkConnect i result)
      (st\<lparr> rl_downlink := (rl_downlink st)(i := a), rl_mail :=
        (if downlink_subscribed (rl_downlink st i) then rl_mail st
         else subscribe_all (dep_mail D) (ADownlink i) downlink_subscriptions (rl_mail st)) \<rparr>)"

inductive relay_run ::
  "('h, 'c, 'k, 'w, 'q, 'b) relay_deps \<Rightarrow> ('h, 'c, 'k, 'w, 'b) relay_views
     \<Rightarrow> ('h, 'c, 'k, 'w, 'q, 's, 'b) relay \<Rightarrow> ('h, 'k, 's) relay_label list
     \<Rightarrow> ('h, 'c, 'k, 'w, 'q, 's, 'b) relay \<Rightarrow> bool"
  for D V where
  relay_nil: "relay_run D V st [] st"
| relay_cons: "relay_env D V st l st' \<Longrightarrow> relay_run D V st' ls st'' \<Longrightarrow> relay_run D V st (l # ls) st''"

text \<open>The state after \<open>main\<close> has started its actors.\<close>

definition relay_boot ::
  "('h, 'c, 'k, 'w, 'q, 'b) relay_deps \<Rightarrow> 'c \<Rightarrow> 'w \<Rightarrow> 'b \<Rightarrow> ('h, 'c, 'k, 'w, 'q, 's, 'b) relay" where
  "relay_boot D c w b =
     (let B = dep_mail D;
          (ant_once, ant_sub) = ant_decode_started False;
          b1 = (if ant_sub then subscribe_all B AAntDecode ant_decode_subscriptions b else b);
          (m, machine_sub) = sm_started machine_default;
          b2 = (if machine_sub then subscribe_all B AStateMachine machine_subscriptions b1 else b1);
          (serial_once, serial_sub) = serial_started False;
          b3 = (if serial_sub then subscribe_all B ASerial serial_subscriptions b2 else b2)
      in \<lparr> rl_machine = m, rl_ctx = c, rl_commander = commander_default, rl_channels = w,
           rl_raw = raw_io_new, rl_serial_once = serial_once, rl_ant_once = ant_once,
           rl_downlink = (\<lambda>_. downlink_new), rl_sent = [], rl_seq = 0, rl_mail = b3 \<rparr>)"

end
