(* ===== verification/System_Inv.thy ===== *)
theory System_Inv
  imports System
begin

text \<open>
  The invariant of the relay as a system: what the mail holds, who is subscribed to what, and
  the invariants of the single actors.  The locale \<open>relay_laws\<close> collects the laws of the
  libraries that the actors use; it is interpreted on the table context, the lists of channels
  and mail, and the bytewise packing of the central station's payload.
\<close>

subsection \<open>The laws of the libraries\<close>

locale relay_laws =
  ctx: sm_context "dep_ctx D" "view_ctx V"
  + mail: mail_laws "dep_mail D" "view_mail V"
  + oneshot: oneshot_laws "dep_oneshot D" "view_oneshot V"
  + mpsc: mpsc_laws "dep_mpsc D" queue alive
  for D :: "('h, 'c, 'k, 'w, 'q, 'b) relay_deps"
    and V :: "('h, 'c, 'k, 'w, 'b) relay_views"
    and queue :: "'q \<Rightarrow> bytes list" and alive :: "'q \<Rightarrow> bool"
  + assumes cs_length: "byte_array_len (dep_cs D) = 20"
    and cs_total: "length bs = 20 \<Longrightarrow> unpack (dep_cs D) bs \<noteq> Panicked"

subsection \<open>What a handler issues\<close>

definition issued_list :: "broker_msg list option \<Rightarrow> broker_msg list" where
  "issued_list r = (case r of None \<Rightarrow> [] | Some out \<Rightarrow> out)"

lemma issued_list_simps [simp]: "issued_list None = []" "issued_list (Some out) = out"
  by (simp_all add: issued_list_def)

definition issues ::
  "('h, 'c, 'k, 'w, 'q, 'b) relay_deps \<Rightarrow> actor_id \<Rightarrow> mail \<Rightarrow> broker_msg list" where
  "issues D a x =
     (case x of
        RequestMail msg \<Rightarrow> (if a = ACommander then [UpMessageB msg] else [])
      | BrokerMail b \<Rightarrow>
          (case b of
             DownMessageB msg \<Rightarrow>
               if a = AAntDecode then issued_list (ant_decode (dep_cs D) (dep_crc8 D) msg) else []
           | UpMessageB msg \<Rightarrow>
               if a = ASerial then issued_list (serial_handle_up (dep_crc8 D) msg) else []
           | RawDownPacket pkt \<Rightarrow>
               if a = ASerial then issued_list (serial_handle_down (dep_crc8 D) pkt) else []
           | _ \<Rightarrow> []))"

lemma issue_all_Nil [simp]: "issue_all B [] b = b"
  by (simp add: issue_all_def)

lemma issue_all_single: "issue_all B [x] b = broker_issue B x b"
  by (simp add: issue_all_def)

lemma handle_mail_issues:
  assumes "handle_mail D a x st = Continues st'"
  shows "rl_mail st' = issue_all (dep_mail D) (issues D a x) (rl_mail st)"
proof (cases x)
  case (RequestMail msg)
  show ?thesis using assms
    by (cases a) (auto simp: RequestMail handle_mail_def mail_defs issues_def handle_request_def
        issue_all_single Let_def split: prod.splits)
next
  case (BrokerMail b)
  show ?thesis using assms
    by (cases a; cases b)
      (auto simp: BrokerMail handle_mail_def mail_defs issues_def
        split: prod.splits process.splits option.splits downlink_reaction.splits)
qed

text \<open>What a handler leaves alone.\<close>

lemma handle_mail_frame:
  assumes "handle_mail D a x st = Continues st'"
  shows "(a \<noteq> AStateMachine \<longrightarrow> rl_machine st' = rl_machine st \<and> rl_ctx st' = rl_ctx st)
    \<and> (a \<noteq> ACommander \<longrightarrow> rl_commander st' = rl_commander st \<and> rl_channels st' = rl_channels st)
    \<and> (a \<noteq> ARawIO \<longrightarrow> rl_raw st' = rl_raw st)
    \<and> rl_downlink st' = rl_downlink st \<and> rl_seq st' = rl_seq st"
proof (cases x)
  case (RequestMail msg)
  show ?thesis using assms
    by (cases a) (auto simp: RequestMail handle_mail_def mail_defs Let_def split: prod.splits)
next
  case (BrokerMail b)
  show ?thesis using assms
    by (cases a; cases b) (auto simp: BrokerMail handle_mail_def mail_defs
        split: prod.splits process.splits option.splits downlink_reaction.splits)
qed

subsection \<open>Coherence\<close>

text \<open>The caches of every message in the mail agree with its value.\<close>

fun broker_coherent :: "(bytes \<Rightarrow> u8) \<Rightarrow> broker_msg \<Rightarrow> bool" where
  "broker_coherent crc8 (UpMessageB m) = message_coherent crc8 m"
| "broker_coherent crc8 (DownMessageB m) = message_coherent crc8 m"
| "broker_coherent crc8 (AckMessageB m) = message_coherent crc8 m"
| "broker_coherent crc8 (GroundUpCommand m) = message_coherent crc8 m"
| "broker_coherent crc8 b = True"

fun mail_coherent :: "(bytes \<Rightarrow> u8) \<Rightarrow> mail \<Rightarrow> bool" where
  "mail_coherent crc8 (BrokerMail b) = broker_coherent crc8 b"
| "mail_coherent crc8 (RequestMail m) = message_coherent crc8 m"

lemma serial_up_coherent:
  assumes "message_coherent crc8 m"
  shows "serial_handle_up crc8 m = Some [RawUpPacket (message_wire crc8 (val m))]"
  using message.pack_to_vec_enc [OF assms] by (simp add: serial_handle_up_def)

lemma serial_down_cases:
  obtains (dropped) "serial_handle_down crc8 pkt = Some []" "pkt \<notin> range (message_wire crc8)"
  | (parsed) m where "message_coherent crc8 m" "pkt = message_wire crc8 (val m)"
      "serial_handle_down crc8 pkt = Some (DownMessageB m # try_issue_ack m)"
proof (cases "pkt \<in> range (message_wire crc8)")
  case True
  then obtain v where v: "pkt = message_wire crc8 v" by blast
  from serial_down_wire [of v crc8] show ?thesis using parsed v by blast
next
  case False
  have "unpack_from_slice (message_ops crc8) pkt \<noteq> Ok m" for m
    using False message.unpack_sound [of crc8 pkt m] by blast
  moreover have "unpack_from_slice (message_ops crc8) pkt \<noteq> Panicked" by (rule message.unpack_no_panic)
  ultimately have "serial_handle_down crc8 pkt = Some []"
    by (auto simp: serial_handle_down_def split: sum.splits failure.splits)
  then show ?thesis using dropped False by blast
qed

lemma uplink_cases:
  obtains (unknown) "uplink_handle crc8 (PacketOk pkt) = UplinkIssue [GroundUpPacket pkt]"
      "pkt \<notin> range (message_wire crc8)"
  | (command) m where "message_coherent crc8 m" "pkt = message_wire crc8 (val m)"
      "uplink_handle crc8 (PacketOk pkt) = UplinkIssue [GroundUpPacket pkt, GroundUpCommand m]"
proof (cases "\<exists>m. unpack_from_slice (message_ops crc8) pkt = Ok m")
  case True
  then obtain m where m: "unpack_from_slice (message_ops crc8) pkt = Ok m" by blast
  show ?thesis using message.unpack_sound [OF m] m
    by (intro command [of m]) (simp_all add: uplink_handle_def)
next
  case False
  have "unpack_from_slice (message_ops crc8) pkt \<noteq> Panicked" by (rule message.unpack_no_panic)
  then have "uplink_handle crc8 (PacketOk pkt) = UplinkIssue [GroundUpPacket pkt]"
    using False by (auto simp: uplink_handle_def split: sum.splits failure.splits)
  moreover have "pkt \<notin> range (message_wire crc8)" using False message.accepted_iff by blast
  ultimately show ?thesis using unknown by blast
qed

lemma try_issue_ack_coherent:
  "message_coherent crc8 m \<Longrightarrow> b \<in> set (try_issue_ack m) \<Longrightarrow> broker_coherent crc8 b"
  by (auto simp: try_issue_ack_def split: source_info.splits)

lemma ant_decode_issues:
  "ant_decode C crc8 msg = Some out \<Longrightarrow> out = [] \<or> (\<exists>p. out = [AntMessageB p])"
  by (auto simp: ant_decode_def split: if_splits sum.splits failure.splits)

lemma ant_decode_total:
  assumes "byte_array_len C = 20" and "\<And>bs. length bs = 20 \<Longrightarrow> unpack C bs \<noteq> Panicked"
  shows "ant_decode C crc8 msg \<noteq> None"
proof -
  have "unpack_from_slice (cs_relay_ops C crc8) bs \<noteq> Panicked" for bs
    using assms(2) [of "take 20 bs"] ant_packet.unpack_no_panic [of crc8 "drop 20 bs"]
    by (cases "unpack C (take 20 bs)"; cases "unpack_from_slice (ant_packet_ops crc8) (drop 20 bs)")
      (auto simp: unpack_cs_relay [OF assms(1)])
  then show ?thesis by (auto simp: ant_decode_def split: sum.splits failure.splits)
qed

text \<open>A handler issues coherent messages when it is given one.\<close>

lemma issues_coherent:
  assumes "mail_coherent (dep_crc8 D) x" and "b \<in> set (issues D a x)"
  shows "broker_coherent (dep_crc8 D) b"
proof (cases x)
  case (RequestMail msg)
  then show ?thesis using assms by (auto simp: issues_def split: if_splits)
next
  case (BrokerMail c)
  show ?thesis
  proof (cases c)
    case (RawDownPacket pkt)
    then show ?thesis using assms(2) try_issue_ack_coherent
      by (cases rule: serial_down_cases [of "dep_crc8 D" pkt])
        (auto simp: BrokerMail issues_def split: if_splits)
  next
    case (DownMessageB m)
    then show ?thesis using assms(2) ant_decode_issues
      by (cases "ant_decode (dep_cs D) (dep_crc8 D) m")
        (fastforce simp: BrokerMail issues_def split: if_splits)+
  next
    case (UpMessageB m)
    then show ?thesis using assms
      by (auto simp: BrokerMail issues_def serial_up_coherent split: if_splits)
  qed (use assms(2) BrokerMail in \<open>auto simp: issues_def\<close>)
qed

subsection \<open>The invariant\<close>

definition actors :: "nat \<Rightarrow> actor_id list" where
  "actors n = [AStateMachine, AAntDecode, ASerial, ARawIO, ACommander] @ map ADownlink [0..<n]"

text \<open>The mail that an actor can get.\<close>

fun addressed :: "actor_id \<Rightarrow> mail \<Rightarrow> bool" where
  "addressed a (RequestMail msg) = (a = ACommander)"
| "addressed a (BrokerMail b) = (kind_of b \<in> set (subscriptions a))"

definition mail_ok ::
  "(bytes \<Rightarrow> u8) \<Rightarrow> (actor_id \<Rightarrow> bool) \<Rightarrow> (actor_id \<Rightarrow> mail list) \<Rightarrow> bool" where
  "mail_ok crc8 started box \<longleftrightarrow>
     (\<forall>a. \<forall>x \<in> set (box a). mail_coherent crc8 x \<and> addressed a x \<and> started a)"

text \<open>Whether an actor has subscribed.\<close>

fun has_started :: "('h, 'c, 'k, 'w, 'q, 's, 'b) relay \<Rightarrow> actor_id \<Rightarrow> bool" where
  "has_started st ARawIO = raw_subscribed (rl_raw st)"
| "has_started st ACommander = commander_once (rl_commander st)"
| "has_started st (ADownlink i) = downlink_subscribed (rl_downlink st i)"
| "has_started st a = True"

definition subs_ok :: "nat \<Rightarrow> (actor_id \<Rightarrow> bool) \<Rightarrow> (broker_kind \<Rightarrow> actor_id \<Rightarrow> bool) \<Rightarrow> bool" where
  "subs_ok n started subs \<longleftrightarrow>
     (\<forall>k a. subs k a \<longleftrightarrow> started a \<and> k \<in> set (subscriptions a))
     \<and> (\<forall>a. started a \<longrightarrow> a \<in> set (actors n))"

definition machine_ok ::
  "(bytes \<Rightarrow> u8) \<Rightarrow> ('h, 'c) sm_ctx_view \<Rightarrow> 'h machine \<Rightarrow> 'c \<Rightarrow> bool" where
  "machine_ok crc8 R m c \<longleftrightarrow> sm_inv R m c \<and> (\<forall>msg \<in> ran (forwarding R c). message_coherent crc8 msg)"

definition ports_ok :: "('h, 'c, 'k, 'w, 'q, 's, 'b) relay \<Rightarrow> bool" where
  "ports_ok st \<longleftrightarrow>
     (\<forall>i. downlink_subscribed (rl_downlink st i) \<longrightarrow> sender (rl_downlink st i) \<noteq> None)
     \<and> (raw_tx (rl_raw st) \<noteq> None \<longrightarrow> raw_subscribed (rl_raw st))
     \<and> (requests (rl_commander st) \<noteq> Map.empty \<longrightarrow> commander_once (rl_commander st))"

definition relay_inv ::
  "('h, 'c, 'k, 'w, 'q, 'b) relay_deps \<Rightarrow> ('h, 'c, 'k, 'w, 'b) relay_views
     \<Rightarrow> ('h, 'c, 'k, 'w, 'q, 's, 'b) relay \<Rightarrow> bool" where
  "relay_inv D V st \<longleftrightarrow>
     machine_ok (dep_crc8 D) (view_ctx V) (rl_machine st) (rl_ctx st)
     \<and> mail_ok (dep_crc8 D) (has_started st) (inbox (view_mail V) (rl_mail st))
     \<and> subs_ok (dep_addresses D) (has_started st) (subscribed_to (view_mail V) (rl_mail st))
     \<and> ports_ok st"

lemma actors_simps [simp]:
  "AStateMachine \<in> set (actors n)" "AAntDecode \<in> set (actors n)" "ASerial \<in> set (actors n)"
  "ARawIO \<in> set (actors n)" "ACommander \<in> set (actors n)"
  "ADownlink i \<in> set (actors n) \<longleftrightarrow> i < n"
  by (auto simp: actors_def)

lemma subs_okD:
  assumes "subs_ok n started subs"
  shows "subs k a \<longleftrightarrow> started a \<and> k \<in> set (subscriptions a)"
    and "started a \<Longrightarrow> a \<in> set (actors n)"
  using assms unfolding subs_ok_def by blast+

lemma mail_okD:
  assumes "mail_ok crc8 started box" and "x \<in> set (box a)"
  shows "mail_coherent crc8 x" and "addressed a x" and "started a"
  using assms unfolding mail_ok_def by blast+

lemma mail_ok_mono:
  "mail_ok crc8 started box \<Longrightarrow> (\<And>a. started a \<Longrightarrow> started' a) \<Longrightarrow> mail_ok crc8 started' box"
  unfolding mail_ok_def by blast

lemma set_tl: "x \<in> set (tl xs) \<Longrightarrow> x \<in> set xs"
  by (cases xs) auto

context relay_laws
begin

lemma mail_ok_issue:
  assumes "mail_ok crc8 started (inbox (view_mail V) b)"
    and "subs_ok n started (subscribed_to (view_mail V) b)"
    and "\<And>x. x \<in> set out \<Longrightarrow> broker_coherent crc8 x"
  shows "mail_ok crc8 started (inbox (view_mail V) (issue_all (dep_mail D) out b))"
  unfolding mail_ok_def
  using mail_okD [OF assms(1)] subs_okD [OF assms(2)] assms(3) by auto

lemma mail_ok_pop:
  "mail_ok crc8 started (inbox (view_mail V) b) \<Longrightarrow>
    mail_ok crc8 started (inbox (view_mail V) (inbox_pop (view_mail V) a b))"
  unfolding mail_ok_def by (auto dest: set_tl)

lemma mail_ok_request:
  "mail_ok crc8 started (inbox (view_mail V) b) \<Longrightarrow> message_coherent crc8 msg \<Longrightarrow>
    started ACommander \<Longrightarrow>
    mail_ok crc8 started (inbox (view_mail V) (mail_send (dep_mail D) ACommander (RequestMail msg) b))"
  unfolding mail_ok_def by auto

text \<open>An actor that subscribes when it starts.\<close>

lemma subs_ok_start:
  assumes "subs_ok n started (subscribed_to (view_mail V) b)" and "a \<in> set (actors n)"
    and "started' = started(a := True)"
  shows "subs_ok n started' (subscribed_to (view_mail V)
    (if started a then b else subscribe_all (dep_mail D) a (subscriptions a) b))"
  using subs_okD [OF assms(1)] assms(2,3) by (auto simp: subs_ok_def)

text \<open>The state machine's part.\<close>

lemma machine_ok_env:
  assumes ok: "machine_ok crc8 (view_ctx V) m c"
    and st: "sm_env (dep_ctx D) (view_ctx V) (m, c) l (m', c')"
    and up: "\<And>msg. l = UpCommand msg \<Longrightarrow> message_coherent crc8 msg"
  shows "machine_ok crc8 (view_ctx V) m' c'"
proof -
  let ?f = "forwarding (view_ctx V)"
  have inv: "sm_inv (view_ctx V) m c" and co: "\<forall>msg \<in> ran (?f c). message_coherent crc8 msg"
    using ok by (simp_all add: machine_ok_def)
  have "ran (?f c') \<subseteq> ran (?f c) \<union> {msg. l = UpCommand msg}"
    using ctx.sm_env_forwarding [OF inv st]
    by (cases l) (auto simp: ran_def split: if_splits)
  moreover have "sm_inv (view_ctx V) m' c'" using ctx.sm_env_inv [OF st inv] .
  ultimately show ?thesis using co up by (auto simp: machine_ok_def)
qed

lemma machine_mail_ok:
  assumes "machine_mail D x st = Continues st'" and "mail_coherent crc8 x"
    and "machine_ok crc8 (view_ctx V) (rl_machine st) (rl_ctx st)"
  shows "machine_ok crc8 (view_ctx V) (rl_machine st') (rl_ctx st')"
proof -
  consider (same) "rl_machine st' = rl_machine st" "rl_ctx st' = rl_ctx st"
    | (up) msg m c where "x = BrokerMail (GroundUpCommand msg)"
        "handle_up_command (dep_ctx D) msg (rl_machine st) (rl_ctx st) = Running (m, c)"
        "rl_machine st' = m" "rl_ctx st' = c"
    | (down) msg m c where
        "handle_down_message (dep_ctx D) msg (rl_machine st) (rl_ctx st) = Running (m, c)"
        "rl_machine st' = m" "rl_ctx st' = c"
    using assms(1)
    by (cases x)
      (auto simp: machine_mail_def machine_result_def split: broker_msg.splits process.splits)
  then show ?thesis
  proof cases
    case same
    then show ?thesis using assms(3) by simp
  next
    case (up msg m c)
    have "message_coherent crc8 msg" using assms(2) up(1) by simp
    then show ?thesis using machine_ok_env [OF assms(3) sm_env.up [OF up(2)]] up(3,4) by simp
  next
    case (down msg m c)
    then show ?thesis using machine_ok_env [OF assms(3) sm_env.down [OF down(1)]] by simp
  qed
qed

lemma commander_mail_once:
  "commander_mail D x st = Continues st' \<Longrightarrow>
    commander_once (rl_commander st') = commander_once (rl_commander st)"
  by (cases x)
    (auto simp: commander_mail_def handle_request_def handle_ack_message_def handle_ant_message_def
      take_and_send_def Let_def split: broker_msg.splits prod.splits if_splits source_info.splits
      option.splits)

lemma raw_mail_frame:
  "raw_mail D x st = Continues st' \<Longrightarrow>
    raw_subscribed (rl_raw st') = raw_subscribed (rl_raw st)
    \<and> (raw_tx (rl_raw st') = None \<longleftrightarrow> raw_tx (rl_raw st) = None)"
  by (cases x)
    (auto simp: raw_mail_def raw_handle_up_def split: broker_msg.splits option.splits)

lemma handle_mail_started:
  assumes "handle_mail D a x st = Continues st'"
  shows "has_started st' = has_started st"
proof -
  have "raw_subscribed (rl_raw st') = raw_subscribed (rl_raw st)"
    using handle_mail_frame [OF assms] raw_mail_frame [of x st st'] assms
    by (cases "a = ARawIO") (simp_all add: handle_mail_def)
  moreover have "commander_once (rl_commander st') = commander_once (rl_commander st)"
    using handle_mail_frame [OF assms] commander_mail_once [of x st st'] assms
    by (cases "a = ACommander") (simp_all add: handle_mail_def)
  moreover have "rl_downlink st' = rl_downlink st" using handle_mail_frame [OF assms] by simp
  ultimately have "has_started st' b = has_started st b" for b by (cases b) simp_all
  then show ?thesis by blast
qed

lemma relay_invD:
  assumes "relay_inv D V st"
  shows "machine_ok (dep_crc8 D) (view_ctx V) (rl_machine st) (rl_ctx st)"
    and "mail_ok (dep_crc8 D) (has_started st) (inbox (view_mail V) (rl_mail st))"
    and "subs_ok (dep_addresses D) (has_started st) (subscribed_to (view_mail V) (rl_mail st))"
    and "ports_ok st"
  using assms by (simp_all add: relay_inv_def)

text \<open>A delivery keeps the invariant.\<close>

lemma deliver_inv:
  assumes inv: "relay_inv D V st" and box: "inbox (view_mail V) (rl_mail st) a = x # xs"
    and h: "handle_mail D a x (st\<lparr> rl_mail := inbox_pop (view_mail V) a (rl_mail st) \<rparr>) = Continues st'"
      (is "handle_mail D a x ?st0 = _")
  shows "relay_inv D V st'"
proof -
  note parts = relay_invD [OF inv]
  have x: "mail_coherent (dep_crc8 D) x" "has_started st a"
    using mail_okD [OF parts(2), of x a] box by simp_all
  note frame = handle_mail_frame [OF h] and issued = handle_mail_issues [OF h]
  have "has_started ?st0 b = has_started st b" for b by (cases b) simp_all
  then have started: "has_started st' = has_started st" using handle_mail_started [OF h] by auto
  have "machine_ok (dep_crc8 D) (view_ctx V) (rl_machine st') (rl_ctx st')"
    using machine_mail_ok [of x ?st0 st' "dep_crc8 D"] x(1) parts(1) h frame
    by (cases "a = AStateMachine") (simp_all add: handle_mail_def)
  moreover have "mail_ok (dep_crc8 D) (has_started st') (inbox (view_mail V) (rl_mail st'))"
    unfolding issued started relay.select_convs
    by (rule mail_ok_issue) (use parts(2,3) mail_ok_pop issues_coherent x(1) in \<open>auto simp: issued\<close>)
  moreover have "subs_ok (dep_addresses D) (has_started st') (subscribed_to (view_mail V) (rl_mail st'))"
    using parts(3) by (simp add: issued started)
  moreover have "ports_ok st'"
  proof -
    have "raw_tx (rl_raw st') = None \<longleftrightarrow> raw_tx (rl_raw st) = None"
      using frame raw_mail_frame [of x ?st0 st'] h
      by (cases "a = ARawIO") (simp_all add: handle_mail_def)
    moreover have "has_started st' ARawIO = has_started st ARawIO" by (simp only: started)
    moreover have "commander_once (rl_commander st')" if "requests (rl_commander st') \<noteq> Map.empty"
    proof -
      have "has_started st ACommander"
      proof (cases "a = ACommander")
        case True
        then show ?thesis using x(2) by simp
      next
        case False
        then show ?thesis using that frame parts(4) by (simp add: ports_ok_def)
      qed
      then have "has_started st' ACommander" by (simp only: started)
      then show ?thesis by simp
    qed
    ultimately show ?thesis using parts(4) frame by (simp add: ports_ok_def)
  qed
  ultimately show ?thesis by (simp add: relay_inv_def)
qed

lemma send_request_inv:
  assumes inv: "relay_inv D V st" and msg: "message_coherent (dep_crc8 D) msg"
  shows "relay_inv D V (send_request D msg st)"
proof -
  note parts = relay_invD [OF inv]
  let ?c = "rl_commander st"
  let ?b = "if has_started st ACommander then rl_mail st
    else subscribe_all (dep_mail D) ACommander (subscriptions ACommander) (rl_mail st)"
  have st': "send_request D msg st = st\<lparr> rl_commander := ?c\<lparr> commander_once := True \<rparr>,
      rl_mail := mail_send (dep_mail D) ACommander (RequestMail msg) ?b \<rparr>"
    by (simp add: send_request_def commander_started_def)
  have started: "has_started (send_request D msg st) = (has_started st)(ACommander := True)"
  proof
    show "has_started (send_request D msg st) a = ((has_started st)(ACommander := True)) a" for a
      by (cases a) (simp_all add: st')
  qed
  have "subs_ok (dep_addresses D) (has_started (send_request D msg st)) (subscribed_to (view_mail V) ?b)"
    by (rule subs_ok_start [OF parts(3) _ started]) simp
  moreover have "mail_ok (dep_crc8 D) (has_started (send_request D msg st)) (inbox (view_mail V) ?b)"
    using parts(2) by (auto simp: started intro: mail_ok_mono)
  ultimately have "subs_ok (dep_addresses D) (has_started (send_request D msg st))
      (subscribed_to (view_mail V) (rl_mail (send_request D msg st)))"
    "mail_ok (dep_crc8 D) (has_started (send_request D msg st))
      (inbox (view_mail V) (rl_mail (send_request D msg st)))"
    using mail_ok_request [OF _ msg] by (simp_all add: st' started)
  moreover have "ports_ok (send_request D msg st)" using parts(4) by (simp add: ports_ok_def st')
  moreover have "machine_ok (dep_crc8 D) (view_ctx V) (rl_machine (send_request D msg st))
      (rl_ctx (send_request D msg st))"
    using parts(1) by (simp add: st')
  ultimately show ?thesis by (simp add: relay_inv_def)
qed

lemma task_message_coherent:
  "task_message p t = Some msg \<Longrightarrow> (\<And>m. t \<noteq> Forward m) \<Longrightarrow> message_coherent crc8 msg"
  by (cases t) (auto simp: message_command_def)

lemma relay_inv_cong:
  assumes "relay_inv D V st" and "rl_machine st' = rl_machine st" and "rl_ctx st' = rl_ctx st"
    and "rl_mail st' = rl_mail st" and "rl_raw st' = rl_raw st"
    and "rl_downlink st' = rl_downlink st" and "rl_commander st' = rl_commander st"
  shows "relay_inv D V st'"
proof -
  have "has_started st' a = has_started st a" for a using assms by (cases a) simp_all
  then have "has_started st' = has_started st" by blast
  then show ?thesis using assms by (simp add: relay_inv_def ports_ok_def)
qed

lemma send_task_inv:
  assumes inv: "relay_inv D V st" and fwd: "\<And>msg. t = Forward msg \<Longrightarrow> message_coherent (dep_crc8 D) msg"
  shows "relay_inv D V (send_task D now t st)"
proof (cases "\<exists>msg. t = Forward msg")
  case True
  then show ?thesis using send_request_inv [OF inv] fwd by (auto simp: send_task_def)
next
  case False
  obtain p n where p: "params_query now (rl_seq st) = (p, n)" by fastforce
  have inv': "relay_inv D V (st\<lparr> rl_seq := n \<rparr>)" by (rule relay_inv_cong [OF inv]) simp_all
  have eq: "send_task D now t st = (case task_message p t of None \<Rightarrow> st\<lparr> rl_seq := n \<rparr>
      | Some msg \<Rightarrow> send_request D msg (st\<lparr> rl_seq := n \<rparr>))"
    using False by (cases t) (auto simp: send_task_def p)
  show ?thesis
  proof (cases "task_message p t")
    case None
    then show ?thesis using inv' by (simp add: eq)
  next
    case (Some msg)
    have "message_coherent (dep_crc8 D) msg" by (rule task_message_coherent [OF Some]) (use False in blast)
    from send_request_inv [OF inv' this] show ?thesis by (simp add: eq Some)
  qed
qed

lemma relay_inv_ctx:
  assumes inv: "relay_inv D V st" and "machine_ok (dep_crc8 D) (view_ctx V) m c"
  shows "relay_inv D V (st\<lparr> rl_machine := m, rl_ctx := c \<rparr>)"
proof -
  let ?st' = "st\<lparr> rl_machine := m, rl_ctx := c \<rparr>"
  have "has_started ?st' a = has_started st a" for a by (cases a) simp_all
  then have "has_started ?st' = has_started st" by blast
  then show ?thesis using assms by (simp add: relay_inv_def ports_ok_def)
qed

text \<open>Issuing coherent messages, and subscribing when an actor starts.\<close>

lemma relay_inv_issue:
  assumes inv: "relay_inv D V st" and "\<And>x. x \<in> set out \<Longrightarrow> broker_coherent (dep_crc8 D) x"
  shows "relay_inv D V (st\<lparr> rl_mail := issue_all (dep_mail D) out (rl_mail st) \<rparr>)"
proof -
  let ?st' = "st\<lparr> rl_mail := issue_all (dep_mail D) out (rl_mail st) \<rparr>"
  note parts = relay_invD [OF inv]
  have "has_started ?st' a = has_started st a" for a by (cases a) simp_all
  then have "has_started ?st' = has_started st" by blast
  then show ?thesis using parts mail_ok_issue [OF parts(2,3) assms(2)]
    by (simp add: relay_inv_def ports_ok_def)
qed

lemma relay_inv_start:
  assumes inv: "relay_inv D V st" and a: "a \<in> set (actors (dep_addresses D))"
    and started: "has_started st' = (has_started st)(a := True)"
    and mail: "rl_mail st' =
      (if has_started st a then rl_mail st else subscribe_all (dep_mail D) a (subscriptions a) (rl_mail st))"
    and ports: "ports_ok st'"
    and rest: "rl_machine st' = rl_machine st" "rl_ctx st' = rl_ctx st"
  shows "relay_inv D V st'"
proof -
  note parts = relay_invD [OF inv]
  have "mail_ok (dep_crc8 D) (has_started st') (inbox (view_mail V) (rl_mail st'))"
    using parts(2) by (auto simp: started mail intro: mail_ok_mono)
  moreover have "subs_ok (dep_addresses D) (has_started st') (subscribed_to (view_mail V) (rl_mail st'))"
    unfolding mail by (rule subs_ok_start [OF parts(3) a started])
  ultimately show ?thesis using parts(1) ports rest by (simp add: relay_inv_def)
qed

lemma raw_connect_inv:
  assumes inv: "relay_inv D V st" and a: "raw_connected (dep_mpsc D) opened (rl_raw st) = Some r"
  shows "relay_inv D V (st\<lparr> rl_raw := r, rl_mail :=
    (if raw_subscribed (rl_raw st) then rl_mail st
     else subscribe_all (dep_mail D) ARawIO raw_subscriptions (rl_mail st)) \<rparr>)" (is "relay_inv D V ?st'")
proof (rule relay_inv_start [OF inv, of ARawIO])
  have r: "raw_subscribed r" using a by (auto simp: raw_connected_def split: if_splits)
  show "has_started ?st' = (has_started st)(ARawIO := True)"
  proof
    show "has_started ?st' b = ((has_started st)(ARawIO := True)) b" for b
      using r by (cases b) simp_all
  qed
  show "ports_ok ?st'" using relay_invD(4) [OF inv] r by (simp add: ports_ok_def)
qed simp_all

lemma downlink_connect_inv:
  assumes inv: "relay_inv D V st" and i: "i < dep_addresses D"
    and a: "downlink_connected result (rl_downlink st i) = Some r"
  shows "relay_inv D V (st\<lparr> rl_downlink := (rl_downlink st)(i := r), rl_mail :=
    (if downlink_subscribed (rl_downlink st i) then rl_mail st
     else subscribe_all (dep_mail D) (ADownlink i) downlink_subscriptions (rl_mail st)) \<rparr>)"
    (is "relay_inv D V ?st'")
proof (rule relay_inv_start [OF inv, of "ADownlink i"])
  have r: "downlink_subscribed r" "sender r \<noteq> None"
    using a by (auto simp: downlink_connected_def split: option.splits)
  show "has_started ?st' = (has_started st)(ADownlink i := True)"
  proof
    show "has_started ?st' b = ((has_started st)(ADownlink i := True)) b" for b
      using r by (cases b) simp_all
  qed
  show "ports_ok ?st'" using relay_invD(4) [OF inv] r by (auto simp: ports_ok_def)
qed (use i in simp_all)

text \<open>A future of the state machine sends, or the actor waits for a send.\<close>

lemma machine_ok_ctx:
  assumes inv: "relay_inv D V st"
    and st: "sm_env (dep_ctx D) (view_ctx V) (rl_machine st, rl_ctx st) l (rl_machine st, c)"
    and up: "\<And>msg. l \<noteq> UpCommand msg"
  shows "relay_inv D V (st\<lparr> rl_ctx := c \<rparr>)"
proof -
  have "machine_ok (dep_crc8 D) (view_ctx V) (rl_machine st) c"
    by (rule machine_ok_env [OF relay_invD(1) [OF inv] st]) (use up in blast)
  from relay_inv_ctx [OF inv this] show ?thesis by simp
qed

lemma one_shot_inv:
  assumes inv: "relay_inv D V st" and live: "live (view_ctx V) (rl_ctx st) h = Some t" and once: "sends_once t"
  shows "relay_inv D V (send_task D now t (st\<lparr> rl_ctx := finish (view_ctx V) h (rl_ctx st) \<rparr>))"
proof (rule send_task_inv)
  obtain fwd where "t = PingCs \<or> t = AntStopRetry \<or> t = Forward fwd" using once by (cases t) auto
  from machine_ok_ctx [OF inv sm_env.other_done [OF live this]]
  show "relay_inv D V (st\<lparr> rl_ctx := finish (view_ctx V) h (rl_ctx st) \<rparr>)" by blast
  show "message_coherent (dep_crc8 D) msg" if "t = Forward msg" for msg
  proof -
    have "msg \<in> ran (forwarding (view_ctx V) (rl_ctx st))"
      using live that forwarding_Some ranI by metis
    then show ?thesis using relay_invD(1) [OF inv] by (simp add: machine_ok_def)
  qed
qed

lemma wait_send_inv:
  assumes inv: "relay_inv D V st" and w: "waiting (view_ctx V) (rl_ctx st) = t # ts" and t: "sends_waited t"
  shows "relay_inv D V (send_task D now t
    (if t = SendAntStart then st else st\<lparr> rl_ctx := wait_done (view_ctx V) (rl_ctx st) \<rparr>))"
proof -
  from machine_ok_ctx [OF inv sm_env.wait_end [OF w]]
  have "relay_inv D V (st\<lparr> rl_ctx := wait_done (view_ctx V) (rl_ctx st) \<rparr>)" by blast
  then show ?thesis using inv t by (intro send_task_inv) auto
qed

lemma garbage_inv:
  assumes inv: "relay_inv D V st"
    and st': "st' = st\<lparr> rl_commander := collect_garbage (dep_oneshot D) (rl_channels st) (rl_commander st) \<rparr>"
  shows "relay_inv D V st'"
proof -
  have "has_started st' a = has_started st a" for a by (cases a) (simp_all add: st' collect_garbage_def)
  then have "has_started st' = has_started st" by blast
  moreover have "ports_ok st'"
    using relay_invD(4) [OF inv] by (auto simp: st' ports_ok_def collect_garbage_def fun_eq_iff
        split: option.splits)
  ultimately show ?thesis using inv by (simp add: relay_inv_def st')
qed

lemma raw_restart_inv:
  assumes inv: "relay_inv D V st" and st': "st' = st\<lparr> rl_raw := raw_restarting (rl_raw st) \<rparr>"
  shows "relay_inv D V st'"
proof -
  have "has_started st' a = has_started st a" for a by (cases a) (simp_all add: st' raw_restarting_def)
  then have "has_started st' = has_started st" by blast
  then show ?thesis using inv by (simp add: relay_inv_def st' ports_ok_def raw_restarting_def)
qed

lemma relay_env_inv:
  assumes "relay_env D V st l st'" and inv: "relay_inv D V st"
  shows "relay_inv D V st'"
  using assms(1)
proof cases
  case (deliver a x xs)
  then show ?thesis using deliver_inv [OF inv] by blast
next
  case (datagram pkt out)
  have "broker_coherent (dep_crc8 D) x" if "x \<in> set out" for x
    using datagram(3) that by (cases rule: uplink_cases [of "dep_crc8 D" pkt]) auto
  then show ?thesis unfolding datagram(2) by (rule relay_inv_issue [OF inv])
next
  case (serial_item item msg)
  have "broker_coherent (dep_crc8 D) msg"
    using serial_item(3) by (auto simp: raw_reader_item_def split: sum.splits raw_error.splits)
  then show ?thesis using relay_inv_issue [OF inv, of "[msg]"] by (simp add: serial_item(2) issue_all_single)
next
  case (trace_log l)
  then show ?thesis using relay_inv_issue [OF inv, of "[GroundLog l]"] by (simp add: issue_all_single)
next
  case (one_shot h t now)
  then show ?thesis using one_shot_inv [OF inv] by simp
next
  case (retry_send h t now)
  then show ?thesis by (auto intro!: send_task_inv [OF inv])
next
  case (wait_send t ts now)
  then show ?thesis using wait_send_inv [OF inv] by simp
next
  case (machine l m c)
  have "machine_ok (dep_crc8 D) (view_ctx V) m c"
    by (rule machine_ok_env [OF relay_invD(1) [OF inv] machine(4)])
      (use machine(3) in \<open>auto simp: machine_internal_def\<close>)
  then show ?thesis unfolding machine(2) by (rule relay_inv_ctx [OF inv])
next
  case garbage
  then show ?thesis using garbage_inv [OF inv] by simp
next
  case (caller_gone k)
  show ?thesis unfolding caller_gone(2) by (rule relay_inv_cong [OF inv]) simp_all
next
  case (raw_connect opened r)
  then show ?thesis using raw_connect_inv [OF inv] by simp
next
  case raw_restart
  then show ?thesis using raw_restart_inv [OF inv] by simp
next
  case (downlink_connect i result r)
  then show ?thesis using downlink_connect_inv [OF inv] by simp
qed

lemma relay_run_inv: "relay_run D V st ls st' \<Longrightarrow> relay_inv D V st \<Longrightarrow> relay_inv D V st'"
  by (induction rule: relay_run.induct) (auto intro: relay_env_inv)

text \<open>The invariant holds at the start: with nothing registered in the context and no mail.\<close>

lemma relay_boot_simps:
  "rl_machine (relay_boot D c w b) = machine_default\<lparr> subscribed := True \<rparr>"
  "rl_ctx (relay_boot D c w b) = c" "rl_channels (relay_boot D c w b) = w"
  "rl_commander (relay_boot D c w b) = commander_default"
  "rl_raw (relay_boot D c w b) = raw_io_new"
  "rl_downlink (relay_boot D c w b) = (\<lambda>_. downlink_new)"
  "rl_mail (relay_boot D c w b) =
    subscribe_all (dep_mail D) ASerial serial_subscriptions
      (subscribe_all (dep_mail D) AStateMachine machine_subscriptions
        (subscribe_all (dep_mail D) AAntDecode ant_decode_subscriptions b))"
  by (simp_all add: relay_boot_def ant_decode_started_def serial_started_def sm_started_def
      machine_default_def Let_def)

lemma relay_boot_started:
  "has_started (relay_boot D c w b) a \<longleftrightarrow> a = AStateMachine \<or> a = AAntDecode \<or> a = ASerial"
  by (cases a) (simp_all add: relay_boot_simps raw_io_new_def commander_default_def downlink_new_def)

lemma relay_boot_inv:
  assumes "fresh_context (view_ctx V) c" and "\<And>a. inbox (view_mail V) b a = []"
    and "\<And>k a. \<not> subscribed_to (view_mail V) b k a"
  shows "relay_inv D V (relay_boot D c w b)"
proof -
  let ?st = "relay_boot D c w b"
  have "sm_inv (view_ctx V) (machine_default\<lparr> subscribed := True \<rparr>) c"
    using assms(1) by (auto simp: sm_inv_def machine_default_def fresh_context_def)
  moreover have "forwarding (view_ctx V) c h = None" for h
    using assms(1) by (simp add: fresh_context_def forwarding_def)
  ultimately have "machine_ok (dep_crc8 D) (view_ctx V) (rl_machine ?st) (rl_ctx ?st)"
    by (simp add: machine_ok_def relay_boot_simps ran_def)
  moreover have "mail_ok (dep_crc8 D) (has_started ?st) (inbox (view_mail V) (rl_mail ?st))"
    using assms(2) by (simp add: mail_ok_def relay_boot_simps)
  moreover have "subscribed_to (view_mail V) (rl_mail ?st) k a \<longleftrightarrow>
      has_started ?st a \<and> k \<in> set (subscriptions a)" for k a
    unfolding relay_boot_started relay_boot_simps using assms(3) by (cases a) simp_all
  then have "subs_ok (dep_addresses D) (has_started ?st) (subscribed_to (view_mail V) (rl_mail ?st))"
    unfolding subs_ok_def by (auto simp: relay_boot_started)
  moreover have "ports_ok ?st"
    by (simp add: ports_ok_def relay_boot_simps raw_io_new_def commander_default_def downlink_new_def)
  ultimately show ?thesis by (simp add: relay_inv_def)
qed

end

subsection \<open>An instance\<close>

definition sample_deps ::
  "(nat, (task, event) table_ctx, nat, channel_state list, bytes list, list_mail) relay_deps" where
  "sample_deps = \<lparr> dep_ctx = table_ops, dep_oneshot = list_channels, dep_mpsc = list_mpsc,
     dep_mail = list_mail_ops, dep_crc8 = (\<lambda>_. 7), dep_cs = cs_bytewise,
     dep_serialize = wire_serialize, dep_compress = Some, dep_addresses = 2 \<rparr>"

definition sample_views ::
  "(nat, (task, event) table_ctx, nat, channel_state list, list_mail) relay_views" where
  "sample_views = \<lparr> view_ctx = table_view, view_oneshot = list_channels_view,
     view_mail = list_mail_view \<rparr>"

interpretation sample_relay: relay_laws sample_deps sample_views "\<lambda>q. q" "\<lambda>_. True"
proof (intro relay_laws.intro relay_laws_axioms.intro)
  show "sm_context (dep_ctx sample_deps) (view_ctx sample_views)"
    using sm_table.sm_context_axioms by (simp add: sample_deps_def sample_views_def)
  show "mail_laws (dep_mail sample_deps) (view_mail sample_views)"
    using mail_list.mail_laws_axioms by (simp add: sample_deps_def sample_views_def)
  show "oneshot_laws (dep_oneshot sample_deps) (view_oneshot sample_views)"
    using list_chan.oneshot_laws_axioms by (simp add: sample_deps_def sample_views_def)
  show "mpsc_laws (dep_mpsc sample_deps) (\<lambda>q. q) (\<lambda>_. True)"
    using list_queue.mpsc_laws_axioms by (simp add: sample_deps_def)
  show "byte_array_len (dep_cs sample_deps) = 20" by (simp add: sample_deps_def cs_bytewise_def)
  show "unpack (dep_cs sample_deps) bs \<noteq> Panicked" for bs
    by (simp add: sample_deps_def cs_bytewise_def)
qed

end
