(* ===== verification/System_Exec.thy ===== *)
theory System_Exec
  imports System_Inv
begin

text \<open>
  The steps of the relay as a function.  A piece of mail, a datagram, a serial packet, a timer
  or a connection has at most one outcome, which \<open>relay_exec\<close> computes; only the state machine's
  own steps are left to the relation.  The function drives the sample runs.
\<close>

subsection \<open>Executing a step\<close>

fun relay_exec ::
  "('h, 'c, 'k, 'w, 'q, 'b) relay_deps \<Rightarrow> ('h, 'c, 'k, 'w, 'b) relay_views
     \<Rightarrow> ('h, 'k, 's) relay_label \<Rightarrow> ('h, 'c, 'k, 'w, 'q, 's, 'b) relay
     \<Rightarrow> ('h, 'c, 'k, 'w, 'q, 's, 'b) relay option" where
  "relay_exec D V (Deliver a) st =
     (case inbox (view_mail V) (rl_mail st) a of
        [] \<Rightarrow> None
      | x # xs \<Rightarrow>
          (case handle_mail D a x (st\<lparr> rl_mail := inbox_pop (view_mail V) a (rl_mail st) \<rparr>) of
             Continues st' \<Rightarrow> Some st'
           | _ \<Rightarrow> None))"
| "relay_exec D V (UplinkDatagram pkt) st =
     (case uplink_handle (dep_crc8 D) (PacketOk pkt) of
        UplinkIssue out \<Rightarrow> Some (st\<lparr> rl_mail := issue_all (dep_mail D) out (rl_mail st) \<rparr>)
      | _ \<Rightarrow> None)"
| "relay_exec D V (SerialItem item) st =
     (case raw_reader_item (stream_item item) of
        Issue msg \<Rightarrow> Some (st\<lparr> rl_mail := broker_issue (dep_mail D) msg (rl_mail st) \<rparr>)
      | _ \<Rightarrow> None)"
| "relay_exec D V (TraceLog l) st =
     Some (st\<lparr> rl_mail := broker_issue (dep_mail D) (GroundLog l) (rl_mail st) \<rparr>)"
| "relay_exec D V (OneShot h now) st =
     (case live (view_ctx V) (rl_ctx st) h of
        Some t \<Rightarrow>
          if sends_once t
          then Some (send_task D now t (st\<lparr> rl_ctx := finish (view_ctx V) h (rl_ctx st) \<rparr>))
          else None
      | None \<Rightarrow> None)"
| "relay_exec D V (RetrySend h now) st =
     (case live (view_ctx V) (rl_ctx st) h of
        Some t \<Rightarrow> if sends_again t then Some (send_task D now t st) else None
      | None \<Rightarrow> None)"
| "relay_exec D V (WaitSend now) st =
     (case waiting (view_ctx V) (rl_ctx st) of
        [] \<Rightarrow> None
      | t # ts \<Rightarrow>
          if sends_waited t
          then Some (send_task D now t
            (if t = SendAntStart then st
             else st\<lparr> rl_ctx := wait_done (view_ctx V) (rl_ctx st) \<rparr>))
          else None)"
| "relay_exec D V (MachineStep l) st = None"
| "relay_exec D V GarbageTick st =
     Some (st\<lparr> rl_commander := collect_garbage (dep_oneshot D) (rl_channels st) (rl_commander st) \<rparr>)"
| "relay_exec D V (CallerGone k) st =
     Some (st\<lparr> rl_channels := rx_drop (view_oneshot V) k (rl_channels st) \<rparr>)"
| "relay_exec D V (RawConnect opened) st =
     map_option (\<lambda>a. st\<lparr> rl_raw := a, rl_mail :=
         (if raw_subscribed (rl_raw st) then rl_mail st
          else subscribe_all (dep_mail D) ARawIO raw_subscriptions (rl_mail st)) \<rparr>)
       (raw_connected (dep_mpsc D) opened (rl_raw st))"
| "relay_exec D V RawRestart st = Some (st\<lparr> rl_raw := raw_restarting (rl_raw st) \<rparr>)"
| "relay_exec D V (DownlinkConnect i result) st =
     (if i < dep_addresses D
      then map_option (\<lambda>a. st\<lparr> rl_downlink := (rl_downlink st)(i := a), rl_mail :=
          (if downlink_subscribed (rl_downlink st i) then rl_mail st
           else subscribe_all (dep_mail D) (ADownlink i) downlink_subscriptions (rl_mail st)) \<rparr>)
        (downlink_connected result (rl_downlink st i))
      else None)"

fun relay_execs ::
  "('h, 'c, 'k, 'w, 'q, 'b) relay_deps \<Rightarrow> ('h, 'c, 'k, 'w, 'b) relay_views
     \<Rightarrow> ('h, 'k, 's) relay_label list \<Rightarrow> ('h, 'c, 'k, 'w, 'q, 's, 'b) relay
     \<Rightarrow> ('h, 'c, 'k, 'w, 'q, 's, 'b) relay option" where
  "relay_execs D V [] st = Some st"
| "relay_execs D V (l # ls) st =
     (case relay_exec D V l st of Some st' \<Rightarrow> relay_execs D V ls st' | None \<Rightarrow> None)"

lemma relay_exec_complete:
  assumes "relay_env D V st l st'" and "\<nexists>k. l = MachineStep k"
  shows "relay_exec D V l st = Some st'"
  using assms by cases auto

lemma relay_exec_sound:
  assumes "relay_exec D V l st = Some st'"
  shows "relay_env D V st l st'"
proof (cases l)
  case (WaitSend now)
  then show ?thesis using assms relay_env.wait_send [of V st _ _ D now]
    by (auto split: list.splits if_splits)
next
  case (RawConnect opened)
  then show ?thesis using assms relay_env.raw_connect [of D opened st _ V] by auto
next
  case (DownlinkConnect i result)
  then show ?thesis using assms relay_env.downlink_connect [of i D result st _ V] by (auto split: if_splits)
qed (use assms in \<open>auto intro!: relay_env.intros split: list.splits reaction.splits
    uplink_reaction.splits raw_reaction.splits option.splits if_splits\<close>)

lemma relay_execs_run: "relay_execs D V ls st = Some st' \<Longrightarrow> relay_run D V st ls st'"
  by (induction ls arbitrary: st)
    (auto intro: relay_run.intros relay_exec_sound split: option.splits)

lemma relay_execs_append:
  "relay_execs D V (ls @ ks) st =
     (case relay_execs D V ls st of Some st' \<Rightarrow> relay_execs D V ks st' | None \<Rightarrow> None)"
  by (induction ls arbitrary: st) (simp_all split: option.splits)

subsection \<open>Sample runs\<close>

type_synonym sample_relay_state =
  "(nat, (task, event) table_ctx, nat, channel_state list, bytes list, nat, list_mail) relay"

definition sample_boot :: sample_relay_state where
  "sample_boot = relay_boot sample_deps empty_table [] no_mail"

abbreviation sample_execs ::
  "(nat, nat, nat) relay_label list \<Rightarrow> sample_relay_state \<Rightarrow> sample_relay_state option" where
  "sample_execs \<equiv> relay_execs sample_deps sample_views"

text \<open>A request of the ground, as a datagram, and the id of its message.\<close>

definition sample_datagram :: bytes where
  "sample_datagram = message_wire (\<lambda>_. 7) (val (request_msg 1))"

abbreviation sample_uid :: unique_id where
  "sample_uid \<equiv> header_unique_id (message_header (request_msg 1))"

end
