(* ===== verification/System_Runs.thy ===== *)
theory System_Runs
  imports System_Exec
begin

text \<open>
  Properties of the relay as a system, over every order in which the actors take their mail:
  the commander's table keeps its invariant, no handler panics, and mail is used up.  How much work
  a piece of mail can cause is counted with what its handlers log (used in \<open>Log_Rest\<close>) or
  without it.
\<close>

definition reachable_relay ::
  "('h, 'c, 'k, 'w, 'q, 'b) relay_deps \<Rightarrow> ('h, 'c, 'k, 'w, 'b) relay_views
     \<Rightarrow> ('h, 'c, 'k, 'w, 'q, 's, 'b) relay \<Rightarrow> bool" where
  "reachable_relay D V st \<longleftrightarrow>
     (\<exists>c w b ls. fresh_context (view_ctx V) c \<and> (\<forall>h. chan (view_oneshot V) w h = Unused)
        \<and> (\<forall>a. inbox (view_mail V) b a = [])
        \<and> (\<forall>k a. \<not> subscribed_to (view_mail V) b k a)
        \<and> relay_run D V (relay_boot D c w b) ls st)"

lemma reachable_relay_inv:
  assumes "relay_laws D V queue alive" and "reachable_relay D V st"
  shows "relay_inv D V st"
  using assms(2) relay_laws.relay_run_inv [OF assms(1)] relay_laws.relay_boot_inv [OF assms(1)]
  unfolding reachable_relay_def by blast

text \<open>The commander's table keeps its invariant whatever the system does.\<close>

definition table_ok ::
  "('h, 'c, 'k, 'w, 'b) relay_views \<Rightarrow> ('h, 'c, 'k, 'w, 'q, 's, 'b) relay \<Rightarrow> bool" where
  "table_ok V st \<longleftrightarrow> (\<exists>ids. table_inv (view_oneshot V) ids (rl_commander st) (rl_channels st))"

lemma send_request_table: "table_ok V (send_request D msg st) = table_ok V st"
  by (simp add: table_ok_def table_inv_def send_request_def commander_started_def)

lemma send_task_table: "table_ok V (send_task D now t st) = table_ok V st"
proof -
  have "table_ok V (st\<lparr> rl_seq := n \<rparr>) = table_ok V st" for n by (simp add: table_ok_def)
  then show ?thesis
    by (simp add: send_task_def send_request_table case_prod_beta split: task.splits option.splits)
qed

context relay_laws
begin

lemma table_step:
  assumes "table_ok V st"
    and "commander_step (dep_oneshot D) (view_oneshot V) op (rl_commander st, rl_channels st)
      = (rl_commander st', rl_channels st')"
  shows "table_ok V st'"
  using assms oneshot.commander_step_inv unfolding table_ok_def by blast

lemma commander_mail_table:
  assumes st: "commander_mail D x st = Continues st'" and ok: "table_ok V st"
  shows "table_ok V st'"
proof -
  consider (same) "st' = st"
    | (op) op where "commander_step (dep_oneshot D) (view_oneshot V) op (rl_commander st, rl_channels st)
      = (rl_commander st', rl_channels st')"
  proof (cases x)
    case (RequestMail msg)
    then show ?thesis using st op [of "DoRequest msg"]
      by (auto simp: commander_mail_def split: prod.splits)
  next
    case (BrokerMail b)
    then show ?thesis
      using st same op [of "GotAck _"] op [of "GotAnt _"]
      by (cases b) (auto simp: commander_mail_def split: prod.splits)
  qed
  then show ?thesis using table_step [OF ok] ok by cases auto
qed

lemma relay_env_table:
  assumes "relay_env D V st l st'" and ok: "table_ok V st"
  shows "table_ok V st'"
  using assms(1)
proof cases
  case (deliver a x xs)
  show ?thesis
  proof (cases "a = ACommander")
    case True
    then show ?thesis using commander_mail_table [of x _ st'] deliver(3) ok
      by (simp add: handle_mail_def table_ok_def)
  next
    case False
    then show ?thesis using handle_mail_frame [OF deliver(3)] ok by (simp add: table_ok_def)
  qed
next
  case garbage
  show ?thesis by (rule table_step [OF ok, of Collect]) (simp add: garbage)
next
  case (caller_gone k)
  show ?thesis by (rule table_step [OF ok, of "Abandon k"]) (simp add: caller_gone)
qed (use ok in \<open>simp_all add: send_task_table, simp_all add: table_ok_def\<close>)

lemma relay_run_table: "relay_run D V st ls st' \<Longrightarrow> table_ok V st \<Longrightarrow> table_ok V st'"
  by (induction rule: relay_run.induct) (auto intro: relay_env_table)

lemma relay_boot_table:
  "(\<And>h. chan (view_oneshot V) w h = Unused) \<Longrightarrow> table_ok V (relay_boot D c w b)"
  using oneshot.table_inv_default by (auto simp: table_ok_def relay_boot_simps)

text \<open>A request is registered under a channel on which its caller waits.\<close>

lemma commander_registers:
  assumes "commander_mail D (RequestMail m) st = Continues st'" and "table_ok V st"
  shows "\<exists>k. requests (rl_commander st') (header_unique_id (message_header m)) = Some k
    \<and> chan (view_oneshot V) (rl_channels st') k = Open"
proof -
  let ?uid = "header_unique_id (message_header m)"
  obtain k w1 where ch: "channel (dep_oneshot D) (rl_channels st) = (k, w1)" by fastforce
  then have k: "chan (view_oneshot V) (rl_channels st) k = Unused"
    "chan (view_oneshot V) w1 = (chan (view_oneshot V) (rl_channels st))(k := Open)"
    using oneshot.channel_fresh [of "rl_channels st"] oneshot.chan_channel [of "rl_channels st"] by simp_all
  have ne: "requests (rl_commander st) ?uid \<noteq> Some k"
    using assms(2) table_invD(1) k(1) unfolding table_ok_def by fastforce
  have "requests (rl_commander st') ?uid = Some k"
    "rl_channels st' = drop_sender (dep_oneshot D) (requests (rl_commander st) ?uid) w1"
    using assms(1) ch by (auto simp: commander_mail_def handle_request_def Let_def)
  moreover have "chan (view_oneshot V) (rl_channels st') k = Open"
    using calculation(2) ne k(2) oneshot.chan_tx_drop
    by (cases "requests (rl_commander st) ?uid") (auto simp: drop_sender_def)
  ultimately show ?thesis by blast
qed

end

lemma reachable_relay_table:
  assumes "relay_laws D V queue alive" and "reachable_relay D V st"
  shows "table_ok V st"
  using assms(2) relay_laws.relay_run_table [OF assms(1)] relay_laws.relay_boot_table [OF assms(1)]
  unfolding reachable_relay_def by blast

text \<open>The sample runs are runs of the relay from its start.\<close>

lemma case_option_some: "(case r of None \<Rightarrow> False | Some x \<Rightarrow> P x) \<longleftrightarrow> (\<exists>x. r = Some x \<and> P x)"
  by (cases r) simp_all

definition single :: "('a \<Rightarrow> bool) \<Rightarrow> 'a list \<Rightarrow> bool" where
  "single P xs = (case xs of [x] \<Rightarrow> P x | _ \<Rightarrow> False)"

lemma single_iff: "single P xs \<longleftrightarrow> (\<exists>x. xs = [x] \<and> P x)"
  by (auto simp: single_def split: list.splits)

lemma sample_reachable:
  assumes "sample_execs ls sample_boot = Some st"
  shows "reachable_relay sample_deps sample_views st"
proof -
  have "fresh_context (view_ctx sample_views) empty_table"
    by (simp add: sample_views_def fresh_empty_table)
  moreover have "chan (view_oneshot sample_views) [] h = Unused" for h
    by (simp add: sample_views_def list_channels_view_def)
  moreover have "inbox (view_mail sample_views) no_mail a = []"
    "\<not> subscribed_to (view_mail sample_views) no_mail k a" for k a
    by (simp_all add: sample_views_def list_mail_view_def no_mail_def)
  ultimately show ?thesis
    using relay_execs_run [OF assms] unfolding reachable_relay_def sample_boot_def by blast
qed

lemmas sample_laws = sample_relay.relay_laws_axioms

subsection \<open>No handler panics\<close>

abbreviation taken ::
  "('h, 'c, 'k, 'w, 'b) relay_views \<Rightarrow> actor_id \<Rightarrow> ('h, 'c, 'k, 'w, 'q, 's, 'b) relay
     \<Rightarrow> ('h, 'c, 'k, 'w, 'q, 's, 'b) relay" where
  "taken V a st \<equiv> st\<lparr> rl_mail := inbox_pop (view_mail V) a (rl_mail st) \<rparr>"

lemma handle_down_no_exit: "handle_down_message X msg m c \<noteq> Exited code"
proof -
  have "sm_step X evt m c \<noteq> Exited code" if "evt = CSBLEConnect \<or> evt = CSBLEDisconnect" for evt
    using that sm_step_exit [of X evt m c code] by auto
  then show ?thesis by (auto simp: handle_down_message_def Let_def)
qed

lemma handle_up_exit:
  "handle_up_command X msg m c = Exited code \<Longrightarrow>
    event (ty (message_header msg)) = FERestart \<and> code = 1"
  by (auto simp: handle_up_command_def Let_def sm_step_exit split: process.splits)

definition restart_mail :: "mail \<Rightarrow> bool" where
  "restart_mail x =
     (case x of
        BrokerMail (GroundUpCommand msg) \<Rightarrow> event (ty (message_header msg)) = FERestart
      | _ \<Rightarrow> False)"

lemma restart_mail_iff:
  "restart_mail x \<longleftrightarrow>
     (\<exists>msg. x = BrokerMail (GroundUpCommand msg) \<and> event (ty (message_header msg)) = FERestart)"
  by (simp add: restart_mail_def split: mail.splits broker_msg.splits)

lemma machine_mail_reaction:
  "machine_mail D x st \<noteq> Panics \<and> (machine_mail D x st = Exits code \<longrightarrow> code = 1 \<and> restart_mail x)"
  by (cases x)
    (auto simp: machine_mail_def machine_result_def handle_down_no_exit restart_mail_iff
      dest: handle_up_exit split: broker_msg.splits process.splits)

context relay_laws
begin

lemma serial_mail_continues:
  assumes "mail_coherent (dep_crc8 D) x"
  shows "\<exists>st'. serial_mail D x st = Continues st'"
proof (cases x)
  case (BrokerMail b)
  show ?thesis
  proof (cases b)
    case (RawDownPacket pkt)
    then show ?thesis
      by (cases rule: serial_down_cases [of "dep_crc8 D" pkt])
        (simp_all add: BrokerMail serial_mail_def issue_result_def)
  next
    case (UpMessageB m)
    then show ?thesis using assms serial_up_coherent [of "dep_crc8 D" m]
      by (simp add: BrokerMail serial_mail_def issue_result_def)
  qed (simp_all add: BrokerMail serial_mail_def)
qed (simp add: serial_mail_def)

lemma ant_decode_mail_continues: "\<exists>st'. ant_decode_mail D x st = Continues st'"
proof -
  have "\<exists>st'. issue_result D (ant_decode (dep_cs D) (dep_crc8 D) msg) st = Continues st'" for msg
    using ant_decode_total [OF cs_length cs_total, of "dep_crc8 D" msg]
    by (auto simp: issue_result_def)
  then show ?thesis
    by (cases x) (auto simp: ant_decode_mail_def split: broker_msg.splits)
qed

lemma downlink_mail_continues:
  assumes "sender (rl_downlink st i) \<noteq> None"
  shows "\<exists>st'. downlink_mail D i x st = Continues st'"
  using assms
  by (cases x)
    (auto simp: downlink_mail_def downlink_handle_def gen_handle_def
      split: option.splits downlink_reaction.splits if_splits)

lemma handle_mail_reaction:
  assumes inv: "relay_inv D V st" and box: "inbox (view_mail V) (rl_mail st) a = x # xs"
  shows "(\<exists>st'. handle_mail D a x (taken V a st) = Continues st' \<and> relay_env D V st (Deliver a) st')
    \<or> handle_mail D a x (taken V a st) = Exits 1 \<and> a = AStateMachine \<and> restart_mail x"
proof -
  have x: "mail_coherent (dep_crc8 D) x" "has_started st a"
    using mail_okD [OF relay_invD(2) [OF inv], of x a] box by simp_all
  have "(\<exists>st'. handle_mail D a x (taken V a st) = Continues st')
    \<or> handle_mail D a x (taken V a st) = Exits 1 \<and> a = AStateMachine \<and> restart_mail x"
  proof (cases a)
    case AStateMachine
    then show ?thesis using machine_mail_reaction [of D x "taken V a st"]
      by (cases "machine_mail D x (taken V a st)") (auto simp: handle_mail_def)
  next
    case (ADownlink i)
    then have "sender (rl_downlink (taken V a st) i) \<noteq> None"
      using x(2) relay_invD(4) [OF inv] by (simp add: ports_ok_def)
    from downlink_mail_continues [OF this] show ?thesis by (simp add: handle_mail_def ADownlink)
  next
    case ARawIO
    show ?thesis by (cases x) (simp_all add: ARawIO handle_mail_def raw_mail_def split: broker_msg.splits)
  next
    case ACommander
    show ?thesis
      by (cases x) (simp_all add: ACommander handle_mail_def commander_mail_def case_prod_beta
          split: broker_msg.splits)
  qed (use serial_mail_continues [OF x(1)] ant_decode_mail_continues in \<open>simp_all add: handle_mail_def\<close>)
  then show ?thesis using relay_env.deliver [OF box] by blast
qed

end

text \<open>C9: no mail makes an actor panic.  In every reachable state of the relay, whatever arrived
  from the ground, from the serial line and from the log, the next piece of mail of every
  actor is handled without a panic; the process exits on a restart command from the ground
  and on nothing else.\<close>

theorem relay_never_panics:
  assumes "relay_laws D V queue alive" and "reachable_relay D V st"
    and "inbox (view_mail V) (rl_mail st) a = x # xs"
  shows "case handle_mail D a x (st\<lparr> rl_mail := inbox_pop (view_mail V) a (rl_mail st) \<rparr>) of
      Panics \<Rightarrow> False
    | Exits code \<Rightarrow> code = 1 \<and> a = AStateMachine \<and> restart_mail x
    | Continues st' \<Rightarrow> relay_env D V st (Deliver a) st'"
  using relay_laws.handle_mail_reaction [OF assms(1) reachable_relay_inv [OF assms(1,2)] assms(3)]
  by (auto split: reaction.splits)

theorem relay_never_panics_witness:
  "\<exists>(st :: sample_relay_state) x. reachable_relay sample_deps sample_views st
    \<and> inbox (view_mail sample_views) (rl_mail st) ASerial = [x] \<and> \<not> restart_mail x
    \<and> (\<exists>st'. handle_mail sample_deps ASerial x
          (st\<lparr> rl_mail := inbox_pop (view_mail sample_views) ASerial (rl_mail st) \<rparr>) = Continues st'
        \<and> relay_env sample_deps sample_views st (Deliver ASerial) st')"
proof -
  have "case sample_execs [SerialItem (Inr [1, 2])] sample_boot of None \<Rightarrow> False
      | Some st \<Rightarrow> single (\<lambda>x. \<not> restart_mail x) (inbox (view_mail sample_views) (rl_mail st) ASerial)"
    by code_simp
  then obtain st x where st: "sample_execs [SerialItem (Inr [1, 2])] sample_boot = Some st"
    "inbox (view_mail sample_views) (rl_mail st) ASerial = [x]" "\<not> restart_mail x"
    by (auto simp only: case_option_some single_iff)
  from relay_never_panics [OF sample_laws sample_reachable [OF st(1)] st(2)] st(2,3)
    sample_reachable [OF st(1)]
  show ?thesis by (auto split: reaction.splits)
qed

subsection \<open>Mail is used up\<close>

text \<open>The work that a piece of mail can still cause, itself included, with \<open>n\<close> downlinks; and that a
  broker message causes over all its subscribers.  Each handled message other than at a downlink
  comes with \<open>q\<close> more, the work of what its handler logs.\<close>

definition log_cost :: "nat \<Rightarrow> actor_id \<Rightarrow> nat" where
  "log_cost q a = (case a of ADownlink i \<Rightarrow> 0 | _ \<Rightarrow> q)"

fun box_weight :: "nat \<Rightarrow> nat \<Rightarrow> actor_id \<Rightarrow> broker_kind \<Rightarrow> nat" where
  "box_weight n q ASerial KUpMessage = n + 2 + 2 * q"
| "box_weight n q ASerial KRawDownPacket = n + 5 + 5 * q"
| "box_weight n q AAntDecode KDownMessage = 2 + 2 * q"
| "box_weight n q a k = 1 + log_cost q a"

fun mail_weight :: "nat \<Rightarrow> nat \<Rightarrow> actor_id \<Rightarrow> mail \<Rightarrow> nat" where
  "mail_weight n q a (RequestMail msg) = 2 * n + 3 + 3 * q"
| "mail_weight n q a (BrokerMail b) = box_weight n q a (kind_of b)"

definition kind_weight :: "nat \<Rightarrow> nat \<Rightarrow> broker_kind \<Rightarrow> nat" where
  "kind_weight n q k = (\<Sum>a \<leftarrow> actors n. if k \<in> set (subscriptions a) then box_weight n q a k else 0)"

definition mail_total :: "nat \<Rightarrow> nat \<Rightarrow> (actor_id \<Rightarrow> mail list) \<Rightarrow> nat" where
  "mail_total n q box = (\<Sum>a \<leftarrow> actors n. \<Sum>x \<leftarrow> box a. mail_weight n q a x)"

lemma log_cost_simps [simp]:
  "log_cost q AStateMachine = q" "log_cost q AAntDecode = q" "log_cost q ASerial = q" "log_cost q ARawIO = q"
  "log_cost q ACommander = q" "log_cost q (ADownlink i) = 0" "log_cost 0 a = 0"
  by (simp_all add: log_cost_def split: actor_id.split)

lemma kind_weight_simps [simp]:
  "kind_weight n q KRawUpPacket = n + 1 + q" "kind_weight n q KRawDownPacket = 2 * n + 5 + 5 * q"
  "kind_weight n q KUpMessage = 2 * n + 2 + 2 * q" "kind_weight n q KDownMessage = n + 3 + 3 * q"
  "kind_weight n q KAckMessage = 1 + q" "kind_weight n q KAntMessage = 1 + q"
  "kind_weight n q KGroundUpPacket = n" "kind_weight n q KGroundUpCommand = n + 1 + q"
  "kind_weight n q KGroundLog = n"
  by (simp_all add: kind_weight_def actors_def subscription_defs o_def sum_list_triv)

lemma box_weight_pos: "log_cost q a < box_weight n q a k"
  by (cases a; cases k) simp_all

lemma issues_weight:
  "(\<Sum>b \<leftarrow> issues D a x. kind_weight n q (kind_of b)) + log_cost q a < mail_weight n q a x"
proof (cases x)
  case (RequestMail msg)
  then show ?thesis by (cases a) (simp_all add: issues_def)
next
  case (BrokerMail b)
  note pos = box_weight_pos [of q a n]
  show ?thesis
  proof (cases b)
    case (RawDownPacket pkt)
    then show ?thesis using pos
      by (cases rule: serial_down_cases [of "dep_crc8 D" pkt])
        (auto simp: BrokerMail issues_def try_issue_ack_def split: source_info.splits)
  next
    case (DownMessageB m)
    then show ?thesis using pos ant_decode_issues [of "dep_cs D" "dep_crc8 D" m]
      by (cases "ant_decode (dep_cs D) (dep_crc8 D) m") (auto simp: BrokerMail issues_def)
  next
    case (UpMessageB m)
    then show ?thesis using pos
      by (auto simp: BrokerMail issues_def serial_handle_up_def split: sum.splits failure.splits)
  qed (use pos in \<open>simp_all add: BrokerMail issues_def\<close>)
qed

context relay_laws
begin

lemma mail_total_issue:
  assumes "subs_ok n started (subscribed_to (view_mail V) b)"
  shows "mail_total n q (inbox (view_mail V) (issue_all (dep_mail D) out b))
    \<le> mail_total n q (inbox (view_mail V) b) + (\<Sum>x \<leftarrow> out. kind_weight n q (kind_of x))"
  using assms
proof (induction out arbitrary: b)
  case (Cons x out)
  let ?b = "broker_issue (dep_mail D) x b" and ?k = "kind_of x"
  let ?extra = "\<lambda>a. if subscribed_to (view_mail V) b ?k a then box_weight n q a ?k else 0"
  have "mail_total n q (inbox (view_mail V) ?b)
      = (\<Sum>a \<leftarrow> actors n. (\<Sum>y \<leftarrow> inbox (view_mail V) b a. mail_weight n q a y) + ?extra a)"
    unfolding mail_total_def by (intro arg_cong [of _ _ sum_list] map_cong refl) simp
  also have "\<dots> = mail_total n q (inbox (view_mail V) b) + (\<Sum>a \<leftarrow> actors n. ?extra a)"
    by (simp add: mail_total_def sum_list_addf)
  also have "(\<Sum>a \<leftarrow> actors n. ?extra a) \<le> kind_weight n q ?k"
    unfolding kind_weight_def using subs_okD(1) [OF Cons.prems] by (intro sum_list_mono) simp
  finally show ?case using Cons.IH [of ?b] Cons.prems by (simp add: issue_all_def)
qed simp

lemma mail_total_pop:
  assumes "a \<in> set (actors n)" and "inbox (view_mail V) b a = x # xs"
  shows "mail_total n q (inbox (view_mail V) b)
    = mail_total n q (inbox (view_mail V) (inbox_pop (view_mail V) a b)) + mail_weight n q a x"
proof -
  obtain us vs where split: "actors n = us @ a # vs" using assms(1) by (meson split_list)
  have "distinct (actors n)" by (auto simp: actors_def distinct_map inj_on_def)
  then have other: "a \<notin> set us" "a \<notin> set vs" by (auto simp: split)
  define old new where "old = (\<lambda>c. \<Sum>y \<leftarrow> inbox (view_mail V) b c. mail_weight n q c y)"
    and "new = (\<lambda>c. \<Sum>y \<leftarrow> inbox (view_mail V) (inbox_pop (view_mail V) a b) c. mail_weight n q c y)"
  have same: "new c = old c" if "c \<noteq> a" for c using that by (simp add: old_def new_def)
  have "sum_list (map new us) = sum_list (map old us)" "sum_list (map new vs) = sum_list (map old vs)"
    using other by (intro arg_cong [of _ _ sum_list] map_cong refl same; blast)+
  moreover have "old a = new a + mail_weight n q a x" using assms(2) by (simp add: old_def new_def)
  moreover have "mail_total n q (inbox (view_mail V) b) = sum_list (map old (us @ a # vs))"
    "mail_total n q (inbox (view_mail V) (inbox_pop (view_mail V) a b)) = sum_list (map new (us @ a # vs))"
    by (simp_all only: mail_total_def split old_def new_def)
  ultimately show ?thesis by simp
qed

lemma deliver_weight:
  assumes inv: "relay_inv D V st" and "relay_env D V st (Deliver a) st'"
  shows "mail_total (dep_addresses D) q (inbox (view_mail V) (rl_mail st')) + log_cost q a
    < mail_total (dep_addresses D) q (inbox (view_mail V) (rl_mail st))"
  using assms(2)
proof cases
  case (deliver x xs)
  let ?n = "dep_addresses D"
  note parts = relay_invD [OF inv]
  have "has_started st a" using mail_okD(3) [OF parts(2), of x a] deliver(1) by simp
  then have a: "a \<in> set (actors ?n)" using subs_okD(2) [OF parts(3)] by blast
  have "subs_ok ?n (has_started st) (subscribed_to (view_mail V) (rl_mail (taken V a st)))"
    using parts(3) by simp
  from mail_total_issue [OF this, where out = "issues D a x" and q = q] issues_weight [where D = D and a = a and x = x and n = ?n and q = q]
    mail_total_pop [OF a deliver(1), where q = q]
  show ?thesis using handle_mail_issues [OF deliver(2)] by simp
qed

lemma deliveries_bounded:
  "relay_run D V st ls st' \<Longrightarrow> relay_inv D V st \<Longrightarrow> ls = map Deliver as \<Longrightarrow>
    length as + mail_total (dep_addresses D) 0 (inbox (view_mail V) (rl_mail st'))
      \<le> mail_total (dep_addresses D) 0 (inbox (view_mail V) (rl_mail st))"
proof (induction arbitrary: as rule: relay_run.induct)
  case (relay_cons st l st' ls st'')
  then obtain a as' where as: "as = a # as'" "l = Deliver a" "ls = map Deliver as'" by auto
  have step: "relay_env D V st (Deliver a) st'" using relay_cons.hyps(1) as(2) by simp
  from relay_cons.IH [OF relay_env_inv [OF step relay_cons.prems(1)] as(3)]
    deliver_weight [OF relay_cons.prems(1) step, of 0]
  show ?case by (simp add: as(1))
qed simp

end

text \<open>Only the uplink issues commands, so deliveries bring no restart.\<close>

context relay_laws
begin

lemma deliver_no_restart:
  assumes inv: "relay_inv D V st" and step: "relay_env D V st (Deliver a) st'"
    and no: "\<forall>x \<in> set (inbox (view_mail V) (rl_mail st) AStateMachine). \<not> restart_mail x"
  shows "\<forall>x \<in> set (inbox (view_mail V) (rl_mail st') AStateMachine). \<not> restart_mail x"
  using step
proof cases
  case (deliver x xs)
  have "\<not> restart_mail (BrokerMail b)" if issued: "b \<in> set (issues D a x)" for b
  proof
    assume "restart_mail (BrokerMail b)"
    then obtain msg where b: "GroundUpCommand msg \<in> set (issues D a x)"
      using issued unfolding restart_mail_iff by blast
    show False
    proof (cases x)
      case (BrokerMail y)
      have "GroundUpCommand msg \<notin> set (issued_list (serial_handle_down (dep_crc8 D) pkt))" for pkt
        by (cases rule: serial_down_cases [of "dep_crc8 D" pkt])
          (auto simp: try_issue_ack_def split: source_info.splits)
      moreover have "GroundUpCommand msg \<notin> set (issued_list (serial_handle_up (dep_crc8 D) m))" for m
        by (auto simp: serial_handle_up_def split: sum.splits failure.splits)
      moreover have "GroundUpCommand msg \<notin> set (issued_list (ant_decode (dep_cs D) (dep_crc8 D) m))" for m
        using ant_decode_issues [of "dep_cs D" "dep_crc8 D" m]
        by (cases "ant_decode (dep_cs D) (dep_crc8 D) m") auto
      ultimately show False using b
        by (auto simp: BrokerMail issues_def split: broker_msg.splits if_splits)
    qed (use b in \<open>auto simp: issues_def split: if_splits\<close>)
  qed
  then show ?thesis using no
    by (auto simp: handle_mail_issues [OF deliver(2)] dest: set_tl)
qed

lemma drains:
  assumes "relay_inv D V st"
    and "\<forall>x \<in> set (inbox (view_mail V) (rl_mail st) AStateMachine). \<not> restart_mail x"
  shows "\<exists>as st'. relay_run D V st (map Deliver as) st' \<and> (\<forall>a. inbox (view_mail V) (rl_mail st') a = [])"
  using assms
proof (induction "mail_total (dep_addresses D) 0 (inbox (view_mail V) (rl_mail st))" arbitrary: st
    rule: less_induct)
  case less
  show ?case
  proof (cases "\<forall>a. inbox (view_mail V) (rl_mail st) a = []")
    case True
    then show ?thesis using relay_nil [of D V st] by (intro exI [of _ "[]"]) auto
  next
    case False
    then obtain a x xs where x: "inbox (view_mail V) (rl_mail st) a = x # xs"
      by (auto simp: neq_Nil_conv)
    obtain st1 where step: "relay_env D V st (Deliver a) st1"
      using handle_mail_reaction [OF less.prems(1) x] less.prems(2) x by fastforce
    have "\<exists>as st'. relay_run D V st1 (map Deliver as) st' \<and> (\<forall>a. inbox (view_mail V) (rl_mail st') a = [])"
      by (rule less.hyps [OF deliver_weight [OF less.prems(1) step, of 0, simplified] relay_env_inv [OF step less.prems(1)]
            deliver_no_restart [OF less.prems(1) step less.prems(2)]])
    then obtain as st' where run: "relay_run D V st1 (map Deliver as) st'"
      "\<forall>a. inbox (view_mail V) (rl_mail st') a = []" by blast
    have "relay_run D V st (map Deliver (a # as)) st'"
      using relay_cons [OF step run(1)] by simp
    then show ?thesis using run(2) by blast
  qed
qed

end

text \<open>No mail is stuck.  From every reachable state in which no restart command waits for the
  state machine there are deliveries, no more of them than the weight of the mail, after
  which every mailbox is empty.\<close>

theorem relay_drains:
  assumes "relay_laws D V queue alive" and "reachable_relay D V st"
    and "\<forall>x \<in> set (inbox (view_mail V) (rl_mail st) AStateMachine). \<not> restart_mail x"
  shows "\<exists>as st'. relay_run D V st (map Deliver as) st' \<and> (\<forall>a. inbox (view_mail V) (rl_mail st') a = [])
    \<and> length as \<le> mail_total (dep_addresses D) 0 (inbox (view_mail V) (rl_mail st))"
proof -
  note inv = reachable_relay_inv [OF assms(1,2)]
  from relay_laws.drains [OF assms(1) inv assms(3)] relay_laws.deliveries_bounded [OF assms(1) _ inv refl]
  show ?thesis by (meson add_leD1)
qed

theorem relay_drains_witness:
  "\<exists>(st :: sample_relay_state) as st'. reachable_relay sample_deps sample_views st
    \<and> inbox (view_mail sample_views) (rl_mail st) AStateMachine \<noteq> []
    \<and> relay_run sample_deps sample_views st (map Deliver as) st'
    \<and> (\<forall>a. inbox (view_mail sample_views) (rl_mail st') a = [])"
proof -
  have "case sample_execs [UplinkDatagram sample_datagram] sample_boot of None \<Rightarrow> False
      | Some st \<Rightarrow> single (\<lambda>x. \<not> restart_mail x) (inbox (view_mail sample_views) (rl_mail st) AStateMachine)"
    by code_simp
  then obtain st x where st: "sample_execs [UplinkDatagram sample_datagram] sample_boot = Some st"
    "inbox (view_mail sample_views) (rl_mail st) AStateMachine = [x]" "\<not> restart_mail x"
    by (auto simp only: case_option_some single_iff)
  have "\<forall>x \<in> set (inbox (view_mail sample_views) (rl_mail st) AStateMachine). \<not> restart_mail x"
    using st(2,3) by simp
  from relay_drains [OF sample_laws sample_reachable [OF st(1)] this] sample_reachable [OF st(1)] st(2)
  show ?thesis by (metis list.distinct(1))
qed

end
