(* ===== verification/System_Paths.thy ===== *)
theory System_Paths
  imports System_Runs
begin

text \<open>
  The ways of a message through the relay, over every order in which the actors take their
  mail: an acknowledgement or a relayed ant packet on the serial line resolves the request it
  answers, and a command from the ground reaches the serial port byte for byte.  Each way is a
  predicate that lists where the message can be; every delivery keeps it.
\<close>

subsection \<open>An answer from the serial line\<close>

abbreviation box ::
  "('h, 'c, 'k, 'w, 'b) relay_views \<Rightarrow> ('h, 'c, 'k, 'w, 'q, 's, 'b) relay \<Rightarrow> actor_id \<Rightarrow> mail list" where
  "box V st a \<equiv> inbox (view_mail V) (rl_mail st) a"

text \<open>A caller waits on the channel \<open>k\<close> for an answer to the id \<open>uid\<close>; it got the response \<open>r\<close>.\<close>

definition awaits ::
  "('h, 'c, 'k, 'w, 'b) relay_views \<Rightarrow> unique_id \<Rightarrow> 'k \<Rightarrow> ('h, 'c, 'k, 'w, 'q, 's, 'b) relay \<Rightarrow> bool" where
  "awaits V uid k st \<longleftrightarrow> requests (rl_commander st) uid = Some k
     \<and> chan (view_oneshot V) (rl_channels st) k = Open"

definition answered ::
  "('h, 'c, 'k, 'w, 'b) relay_views \<Rightarrow> unique_id \<Rightarrow> 'k \<Rightarrow> response \<Rightarrow> ('h, 'c, 'k, 'w, 'q, 's, 'b) relay
     \<Rightarrow> bool" where
  "answered V uid k r st \<longleftrightarrow> requests (rl_commander st) uid = None
     \<and> chan (view_oneshot V) (rl_channels st) k = Delivered r"

text \<open>The way of an acknowledgement: at the serial actor, at the commander, delivered.\<close>

definition ack_on_its_way ::
  "('h, 'c, 'k, 'w, 'q, 'b) relay_deps \<Rightarrow> ('h, 'c, 'k, 'w, 'b) relay_views \<Rightarrow> message_val
     \<Rightarrow> unique_id \<Rightarrow> 'k \<Rightarrow> ('h, 'c, 'k, 'w, 'q, 's, 'b) relay \<Rightarrow> bool" where
  "ack_on_its_way D V v uid k st \<longleftrightarrow>
     (\<forall>x \<in> set (box V st AAntDecode). \<exists>m. x = BrokerMail (DownMessageB m)
        \<and> \<not> is_relay_ack (ty (message_header m)))
     \<and> (box V st ASerial = [BrokerMail (RawDownPacket (message_wire (dep_crc8 D) v))]
          \<and> box V st ACommander = [] \<and> awaits V uid k st
        \<or> (\<exists>m. val m = v \<and> box V st ASerial = []
          \<and> box V st ACommander = [BrokerMail (AckMessageB m)] \<and> awaits V uid k st)
        \<or> (\<exists>m. val m = v \<and> box V st ASerial = [] \<and> box V st ACommander = []
          \<and> answered V uid k (ResponseMessage m) st))"

context relay_laws
begin

lemma deliver_boxes:
  assumes inv: "relay_inv D V st" and "relay_env D V st (Deliver a) st'"
  obtains x xs where "box V st a = x # xs" and "handle_mail D a x (taken V a st) = Continues st'"
    and "\<And>c. box V st' c = (if c = a then xs else box V st c)
      @ map BrokerMail (filter (\<lambda>b. has_started st c \<and> kind_of b \<in> set (subscriptions c)) (issues D a x))"
  using assms(2)
proof cases
  case (deliver x xs)
  have "box V st' c = (if c = a then xs else box V st c)
      @ map BrokerMail (filter (\<lambda>b. has_started st c \<and> kind_of b \<in> set (subscriptions c)) (issues D a x))" for c
    using deliver(1) subs_okD(1) [OF relay_invD(3) [OF inv]]
    by (simp add: handle_mail_issues [OF deliver(2)])
  then show ?thesis using that deliver by blast
qed

text \<open>Actors that issue nothing do not touch the way.\<close>

lemma deliver_other:
  assumes inv: "relay_inv D V st" and step: "relay_env D V st (Deliver a) st'"
    and a: "a \<noteq> ASerial" "a \<noteq> AAntDecode" "a \<noteq> ACommander"
  shows "box V st' ASerial = box V st ASerial" and "box V st' AAntDecode = box V st AAntDecode"
    and "box V st' ACommander = box V st ACommander"
    and "rl_commander st' = rl_commander st" and "rl_channels st' = rl_channels st"
proof -
  obtain x xs where h: "handle_mail D a x (taken V a st) = Continues st'"
    and b: "\<And>c. box V st' c = (if c = a then xs else box V st c)
      @ map BrokerMail (filter (\<lambda>b. has_started st c \<and> kind_of b \<in> set (subscriptions c)) (issues D a x))"
    by (rule deliver_boxes [OF inv step]) blast
  have "issues D a x = []" using a by (auto simp: issues_def split: mail.splits broker_msg.splits)
  then show "box V st' ASerial = box V st ASerial" "box V st' AAntDecode = box V st AAntDecode"
    "box V st' ACommander = box V st ACommander"
    using b a by simp_all
  show "rl_commander st' = rl_commander st" "rl_channels st' = rl_channels st"
    using handle_mail_frame [OF h] a by simp_all
qed

lemma commander_takes_ack:
  assumes "commander_mail D (BrokerMail (AckMessageB m)) st = Continues st'"
    and "\<not> is_relay_ack (ty (message_header m))" and "message_source m = Info info"
    and "awaits V (header_unique_id (info_header info)) k st"
  shows "answered V (header_unique_id (info_header info)) k (ResponseMessage m) st'"
  using assms oneshot.send_open [of "rl_channels st" k "ResponseMessage m"]
  by (auto simp: commander_mail_def handle_ack_message_def take_and_send_def awaits_def answered_def)

lemma serial_issues_ack:
  assumes "payload (header v) = Info info"
  shows "\<exists>m. val m = v \<and> issues D ASerial (BrokerMail (RawDownPacket (message_wire (dep_crc8 D) v)))
    = [DownMessageB m, AckMessageB m]"
proof -
  obtain m where m: "val m = v" "serial_handle_down (dep_crc8 D) (message_wire (dep_crc8 D) v)
      = Some (DownMessageB m # try_issue_ack m)"
    using serial_down_wire by blast
  then show ?thesis using assms by (intro exI [of _ m]) (simp add: issues_def try_issue_ack_def)
qed

lemma ack_step:
  assumes inv: "relay_inv D V st" and step: "relay_env D V st (Deliver a) st'"
    and way: "ack_on_its_way D V v (header_unique_id (info_header info)) k st"
    and started: "has_started st ACommander"
    and v: "payload (header v) = Info info" "\<not> is_relay_ack (ty (header (header v)))"
  shows "ack_on_its_way D V v (header_unique_id (info_header info)) k st'"
proof -
  let ?uid = "header_unique_id (info_header info)"
  obtain x xs where x: "box V st a = x # xs" and h: "handle_mail D a x (taken V a st) = Continues st'"
    and b: "\<And>c. box V st' c = (if c = a then xs else box V st c)
      @ map BrokerMail (filter (\<lambda>b. has_started st c \<and> kind_of b \<in> set (subscriptions c)) (issues D a x))"
    by (rule deliver_boxes [OF inv step]) blast
  note frame = handle_mail_frame [OF h]
  consider (serial) "a = ASerial" | (decode) "a = AAntDecode" | (commander) "a = ACommander"
    | (other) "a \<noteq> ASerial" "a \<noteq> AAntDecode" "a \<noteq> ACommander"
    by blast
  then show ?thesis
  proof cases
    case serial
    then have s: "box V st ASerial = [BrokerMail (RawDownPacket (message_wire (dep_crc8 D) v))]"
      "box V st ACommander = []" "awaits V ?uid k st" "xs = []"
      and xeq: "x = BrokerMail (RawDownPacket (message_wire (dep_crc8 D) v))"
      using way x by (auto simp: ack_on_its_way_def)
    obtain m where m: "val m = v" "issues D ASerial x = [DownMessageB m, AckMessageB m]"
      unfolding xeq using serial_issues_ack [OF v(1)] by blast
    have "box V st' ASerial = []" "box V st' ACommander = [BrokerMail (AckMessageB m)]"
      "box V st' AAntDecode = box V st AAntDecode @ [BrokerMail (DownMessageB m)]"
      using b serial s(2,4) started by (simp_all add: m(2) subscription_defs)
    moreover have "awaits V ?uid k st'" using s(3) frame serial by (simp add: awaits_def)
    moreover have "\<not> is_relay_ack (ty (message_header m))" using v(2) m(1) by simp
    ultimately show ?thesis using way m(1) by (auto simp: ack_on_its_way_def)
  next
    case decode
    then obtain m where m: "x = BrokerMail (DownMessageB m)" "\<not> is_relay_ack (ty (message_header m))"
      using way x by (auto simp: ack_on_its_way_def)
    have "issues D AAntDecode x = []" using m by (simp add: issues_def ant_decode_def)
    then show ?thesis using b x way frame decode
      by (auto simp: ack_on_its_way_def awaits_def answered_def)
  next
    case commander
    then obtain m where m: "val m = v" "x = BrokerMail (AckMessageB m)" "xs = []"
      "box V st ASerial = []" "awaits V ?uid k st"
      using way x by (auto simp: ack_on_its_way_def)
    have "issues D ACommander x = []" using m by (simp add: issues_def)
    moreover have "answered V ?uid k (ResponseMessage m) st'"
      using commander_takes_ack [of m "taken V a st" st' info k] h commander m v
      by (simp add: handle_mail_def awaits_def)
    ultimately show ?thesis using b commander way m
      by (auto simp: ack_on_its_way_def)
  next
    case other
    then show ?thesis using way deliver_other [OF inv step other]
      by (simp add: ack_on_its_way_def awaits_def answered_def)
  qed
qed

lemma ack_run:
  "relay_run D V st ls st' \<Longrightarrow> relay_inv D V st \<Longrightarrow> ls = map Deliver as \<Longrightarrow>
    has_started st ACommander \<Longrightarrow>
    ack_on_its_way D V v (header_unique_id (info_header info)) k st \<Longrightarrow>
    payload (header v) = Info info \<Longrightarrow> \<not> is_relay_ack (ty (header (header v))) \<Longrightarrow>
    ack_on_its_way D V v (header_unique_id (info_header info)) k st'"
proof (induction arbitrary: as rule: relay_run.induct)
  case (relay_cons st l st' ls st'')
  then obtain a as' where as: "l = Deliver a" "ls = map Deliver as'" by auto
  have step: "relay_env D V st (Deliver a) st'" using relay_cons.hyps(1) as by simp
  have inv: "relay_inv D V st'" by (rule relay_env_inv [OF step relay_cons.prems(1)])
  have "has_started st' ACommander"
    using step relay_cons.prems(3) handle_mail_started by cases fastforce
  with relay_cons.IH [OF inv as(2)] ack_step [OF relay_cons.prems(1) step relay_cons.prems(4,3,5,6)]
    relay_cons.prems(5,6)
  show ?case by blast
qed simp

lemma serial_item_packet:
  assumes inv: "relay_inv D V st" and step: "relay_env D V st (SerialItem (Inr pkt)) st'"
  shows "box V st' a = box V st a
      @ (if has_started st a \<and> KRawDownPacket \<in> set (subscriptions a)
         then [BrokerMail (RawDownPacket pkt)] else [])"
    and "rl_commander st' = rl_commander st" and "rl_channels st' = rl_channels st"
    and "rl_raw st' = rl_raw st"
proof -
  have "st' = st\<lparr> rl_mail := broker_issue (dep_mail D) (RawDownPacket pkt) (rl_mail st) \<rparr>"
    using step by cases (simp add: raw_reader_item_def stream_item_def)
  then show "box V st' a = box V st a
      @ (if has_started st a \<and> KRawDownPacket \<in> set (subscriptions a)
         then [BrokerMail (RawDownPacket pkt)] else [])"
    "rl_commander st' = rl_commander st" "rl_channels st' = rl_channels st" "rl_raw st' = rl_raw st"
    using subs_okD(1) [OF relay_invD(3) [OF inv]] by simp_all
qed

lemma awaits_started: "relay_inv D V st \<Longrightarrow> awaits V uid k st \<Longrightarrow> has_started st ACommander"
  using relay_invD(4) by (fastforce simp: ports_ok_def awaits_def)

lemma ack_resolves:
  assumes inv: "relay_inv D V st"
    and rest: "box V st ASerial = []" "box V st AAntDecode = []" "box V st ACommander = []"
    and v: "payload (header v) = Info info" "\<not> is_relay_ack (ty (header (header v)))"
    and "awaits V (header_unique_id (info_header info)) k st"
    and step: "relay_env D V st (SerialItem (Inr (message_wire (dep_crc8 D) v))) st1"
    and run: "relay_run D V st1 (map Deliver as) st2"
    and "box V st2 ASerial = []" and "box V st2 ACommander = []"
  shows "\<exists>m. val m = v \<and> answered V (header_unique_id (info_header info)) k (ResponseMessage m) st2"
proof -
  note item = serial_item_packet [OF inv step]
  have inv1: "relay_inv D V st1" by (rule relay_env_inv [OF step inv])
  have aw: "awaits V (header_unique_id (info_header info)) k st1"
    using assms(7) item(2,3) by (simp add: awaits_def)
  have "ack_on_its_way D V v (header_unique_id (info_header info)) k st1"
    using rest aw item(1) by (simp add: ack_on_its_way_def subscription_defs)
  from ack_run [OF run inv1 refl awaits_started [OF inv1 aw] this v]
  show ?thesis using assms(10,11) by (auto simp: ack_on_its_way_def)
qed

end

text \<open>C11: an acknowledgement on the serial line resolves its request, in whatever order the actors
  take their mail.  Let the serial actor, the ant decoder and the commander of a reachable relay
  have no mail when the packet of an acknowledgement arrives that names a registered, still
  waiting request.  Then after any deliveries, and nothing but deliveries, at whose end the
  serial actor and the commander have handled their mail, the caller has this acknowledgement
  and the id is free.\<close>

theorem ack_resolves_across_actors:
  assumes "relay_laws D V queue alive" and "reachable_relay D V st"
    and "box V st ASerial = []" and "box V st AAntDecode = []" and "box V st ACommander = []"
    and "payload (header v) = Info info" and "\<not> is_relay_ack (ty (header (header v)))"
    and "awaits V (header_unique_id (info_header info)) k st"
    and "relay_env D V st (SerialItem (Inr (message_wire (dep_crc8 D) v))) st1"
    and "relay_run D V st1 (map Deliver as) st2"
    and "box V st2 ASerial = []" and "box V st2 ACommander = []"
  shows "\<exists>m. val m = v \<and> answered V (header_unique_id (info_header info)) k (ResponseMessage m) st2"
  using relay_laws.ack_resolves [OF assms(1) reachable_relay_inv [OF assms(1,2)] assms(3-12)] .

subsection \<open>An ant packet inside a relay message\<close>

text \<open>The way of a relayed ant packet: at the serial actor, at the ant decoder, at the commander
  (behind the relay message itself, if that names a source too), delivered.\<close>

definition ignored_acks :: "message_val \<Rightarrow> mail list \<Rightarrow> bool" where
  "ignored_acks v xs \<longleftrightarrow> (\<forall>x \<in> set xs. \<exists>m. x = BrokerMail (AckMessageB m) \<and> val m = v)"

definition relay_on_its_way ::
  "('h, 'c, 'k, 'w, 'q, 'b) relay_deps \<Rightarrow> ('h, 'c, 'k, 'w, 'b) relay_views \<Rightarrow> message_val
     \<Rightarrow> ant_packet_val \<Rightarrow> unique_id \<Rightarrow> 'k \<Rightarrow> ('h, 'c, 'k, 'w, 'q, 's, 'b) relay \<Rightarrow> bool" where
  "relay_on_its_way D V v pv uid k st \<longleftrightarrow>
     (box V st ASerial = [BrokerMail (RawDownPacket (message_wire (dep_crc8 D) v))]
        \<and> box V st AAntDecode = [] \<and> box V st ACommander = [] \<and> awaits V uid k st)
     \<or> (\<exists>m. val m = v \<and> box V st ASerial = [] \<and> box V st AAntDecode = [BrokerMail (DownMessageB m)]
        \<and> ignored_acks v (box V st ACommander) \<and> awaits V uid k st)
     \<or> (\<exists>p xs. val p = pv \<and> box V st ASerial = [] \<and> box V st AAntDecode = []
        \<and> box V st ACommander = xs @ [BrokerMail (AntMessageB p)] \<and> ignored_acks v xs
        \<and> awaits V uid k st)
     \<or> (\<exists>p. val p = pv \<and> box V st ASerial = [] \<and> box V st AAntDecode = []
        \<and> box V st ACommander = [] \<and> answered V uid k (ResponseAnt p) st)"

context relay_laws
begin

lemma commander_ignores_relay:
  assumes "commander_mail D (BrokerMail (AckMessageB m)) st = Continues st'"
    and "is_relay_ack (ty (message_header m))"
  shows "st' = st"
  using assms by (auto simp: commander_mail_def handle_ack_message_def)

lemma commander_takes_ant:
  assumes "commander_mail D (BrokerMail (AntMessageB p)) st = Continues st'"
    and "ant_packet_source p = Info info"
    and "awaits V (header_unique_id (info_header info)) k st"
  shows "answered V (header_unique_id (info_header info)) k (ResponseAnt p) st'"
  using assms oneshot.send_open [of "rl_channels st" k "ResponseAnt p"]
  by (auto simp: commander_mail_def handle_ant_message_def take_and_send_def awaits_def answered_def)

lemma relay_step_serial:
  assumes inv: "relay_inv D V st" and step: "relay_env D V st (Deliver ASerial) st'"
    and way: "relay_on_its_way D V v pv uid k st" and started: "has_started st ACommander"
  shows "relay_on_its_way D V v pv uid k st'"
proof -
  obtain x xs where x: "box V st ASerial = x # xs"
    and h: "handle_mail D ASerial x (taken V ASerial st) = Continues st'"
    and b: "\<And>c. box V st' c = (if c = ASerial then xs else box V st c) @ map BrokerMail
      (filter (\<lambda>b. has_started st c \<and> kind_of b \<in> set (subscriptions c)) (issues D ASerial x))"
    by (rule deliver_boxes [OF inv step]) blast
  have s: "xs = []" "box V st AAntDecode = []" "box V st ACommander = []" "awaits V uid k st"
    and xeq: "x = BrokerMail (RawDownPacket (message_wire (dep_crc8 D) v))"
    using way x by (auto simp: relay_on_its_way_def)
  obtain m where m: "val m = v" "serial_handle_down (dep_crc8 D) (message_wire (dep_crc8 D) v)
      = Some (DownMessageB m # try_issue_ack m)"
    using serial_down_wire by blast
  have i: "issues D ASerial x = DownMessageB m # try_issue_ack m" using m by (simp add: xeq issues_def)
  have acks: "try_issue_ack m = [] \<or> try_issue_ack m = [AckMessageB m]"
    by (auto simp: try_issue_ack_def split: source_info.splits)
  have "box V st' ASerial = []" "box V st' AAntDecode = [BrokerMail (DownMessageB m)]"
    "box V st' ACommander = map BrokerMail (try_issue_ack m)"
    using b s(1-3) started acks by (auto simp: i subscription_defs)
  moreover have "awaits V uid k st'" using s(4) handle_mail_frame [OF h] by (simp add: awaits_def)
  moreover have "ignored_acks v (map BrokerMail (try_issue_ack m))"
    using acks m(1) by (auto simp: ignored_acks_def)
  ultimately show ?thesis using m(1) by (auto simp: relay_on_its_way_def)
qed

lemma relay_step_decode:
  assumes inv: "relay_inv D V st" and step: "relay_env D V st (Deliver AAntDecode) st'"
    and way: "relay_on_its_way D V v pv uid k st" and started: "has_started st ACommander"
    and v: "is_relay_ack (ty (header (header v)))"
      "payload v = cb @ ant_packet_wire (dep_crc8 D) pv" "length cb = 20" "unpack (dep_cs D) cb = Ok cs"
  shows "relay_on_its_way D V v pv uid k st'"
proof -
  obtain x xs where x: "box V st AAntDecode = x # xs"
    and h: "handle_mail D AAntDecode x (taken V AAntDecode st) = Continues st'"
    and b: "\<And>c. box V st' c = (if c = AAntDecode then xs else box V st c) @ map BrokerMail
      (filter (\<lambda>b. has_started st c \<and> kind_of b \<in> set (subscriptions c)) (issues D AAntDecode x))"
    by (rule deliver_boxes [OF inv step]) blast
  obtain m where m: "val m = v" "x = BrokerMail (DownMessageB m)" and s: "xs = []" "box V st ASerial = []"
    "ignored_acks v (box V st ACommander)" "awaits V uid k st"
    using way x by (auto simp: relay_on_its_way_def)
  have "\<exists>r. unpack_from_slice (cs_relay_ops (dep_cs D) (dep_crc8 D)) (message_payload m) = Ok r
      \<and> header r = cs \<and> val (payload r) = pv"
    unfolding relay_unpack_iff [OF cs_length] using m(1) v(2-4) by auto
  then obtain p where p: "val p = pv" "ant_decode (dep_cs D) (dep_crc8 D) m = Some [AntMessageB p]"
    using m(1) v(1) by (auto simp: ant_decode_def)
  then have "issues D AAntDecode x = [AntMessageB p]" using m(2) by (simp add: issues_def)
  then have "box V st' ASerial = []" "box V st' AAntDecode = []"
    "box V st' ACommander = box V st ACommander @ [BrokerMail (AntMessageB p)]"
    using b s(1,2) started by (simp_all add: subscription_defs)
  moreover have "awaits V uid k st'" using s(4) handle_mail_frame [OF h] by (simp add: awaits_def)
  ultimately show ?thesis using s(3) p(1) unfolding relay_on_its_way_def by blast
qed

lemma relay_step_commander:
  assumes inv: "relay_inv D V st" and step: "relay_env D V st (Deliver ACommander) st'"
    and way: "relay_on_its_way D V v pv (header_unique_id (info_header info)) k st"
    and v: "is_relay_ack (ty (header (header v)))" and pv: "payload (header pv) = Info info"
  shows "relay_on_its_way D V v pv (header_unique_id (info_header info)) k st'"
proof -
  let ?uid = "header_unique_id (info_header info)"
  obtain x xs where x: "box V st ACommander = x # xs"
    and h: "handle_mail D ACommander x (taken V ACommander st) = Continues st'"
    and b: "\<And>c. box V st' c = (if c = ACommander then xs else box V st c) @ map BrokerMail
      (filter (\<lambda>b. has_started st c \<and> kind_of b \<in> set (subscriptions c)) (issues D ACommander x))"
    by (rule deliver_boxes [OF inv step]) blast
  have hc: "commander_mail D x (taken V ACommander st) = Continues st'"
    using h by (simp add: handle_mail_def)
  have ignore: "relay_on_its_way D V v pv ?uid k st'" if "x = BrokerMail (AckMessageB m)" "val m = v" for m
  proof -
    have "st' = taken V ACommander st" using commander_ignores_relay [of m] hc that v by simp
    moreover have "issues D ACommander x = []" using that by (simp add: issues_def)
    ultimately have "awaits V ?uid k st' = awaits V ?uid k st" "box V st' ACommander = xs"
      "box V st' ASerial = box V st ASerial" "box V st' AAntDecode = box V st AAntDecode"
      using x by (simp_all add: awaits_def)
    then show ?thesis using way x that
      by (auto simp: relay_on_its_way_def ignored_acks_def Cons_eq_append_conv)
  qed
  show ?thesis
  proof (cases "\<exists>m. x = BrokerMail (AckMessageB m) \<and> val m = v")
    case True
    then show ?thesis using ignore by blast
  next
    case False
    then obtain p where p: "val p = pv" "x = BrokerMail (AntMessageB p)" "xs = []"
      "box V st ASerial = []" "box V st AAntDecode = []" "awaits V ?uid k st"
      using way x by (auto simp: relay_on_its_way_def ignored_acks_def Cons_eq_append_conv)
    have "issues D ACommander x = []" using p(2) by (simp add: issues_def)
    moreover have "answered V ?uid k (ResponseAnt p) st'"
      using commander_takes_ant [of p "taken V ACommander st" st' info k] hc p pv
      by (simp add: awaits_def)
    ultimately show ?thesis using b p by (auto simp: relay_on_its_way_def)
  qed
qed

lemma relay_run_way:
  assumes v: "is_relay_ack (ty (header (header v)))" "payload v = cb @ ant_packet_wire (dep_crc8 D) pv"
      "length cb = 20" "unpack (dep_cs D) cb = Ok cs" "payload (header pv) = Info info"
  shows "relay_run D V st ls st' \<Longrightarrow> relay_inv D V st \<Longrightarrow> ls = map Deliver as \<Longrightarrow>
    has_started st ACommander \<Longrightarrow>
    relay_on_its_way D V v pv (header_unique_id (info_header info)) k st \<Longrightarrow>
    relay_on_its_way D V v pv (header_unique_id (info_header info)) k st'"
proof (induction arbitrary: as rule: relay_run.induct)
  case (relay_cons st l st' ls st'')
  let ?way = "relay_on_its_way D V v pv (header_unique_id (info_header info)) k"
  obtain a as' where as: "l = Deliver a" "ls = map Deliver as'" using relay_cons.prems(2) by auto
  have step: "relay_env D V st (Deliver a) st'" using relay_cons.hyps(1) as by simp
  note inv = relay_cons.prems(1) and started = relay_cons.prems(3) and way = relay_cons.prems(4)
  consider (serial) "a = ASerial" | (decode) "a = AAntDecode" | (commander) "a = ACommander"
    | (other) "a \<noteq> ASerial" "a \<noteq> AAntDecode" "a \<noteq> ACommander"
    by blast
  then have "?way st'"
  proof cases
    case serial
    then show ?thesis using relay_step_serial [OF inv _ way started] step by simp
  next
    case decode
    then show ?thesis using relay_step_decode [OF inv _ way started v(1-4)] step by simp
  next
    case commander
    then show ?thesis using relay_step_commander [OF inv _ way v(1,5)] step by simp
  next
    case other
    then show ?thesis using way deliver_other [OF inv step other]
      by (simp add: relay_on_its_way_def awaits_def answered_def)
  qed
  moreover have "has_started st' ACommander"
    using step started handle_mail_started by cases fastforce
  ultimately show ?case using relay_cons.IH [OF relay_env_inv [OF step inv] as(2)] by blast
qed simp

end

text \<open>C12: an ant packet inside a relay message resolves its request, in whatever order the actors
  take their mail.  Let the serial actor, the ant decoder and the commander of a reachable relay
  have no mail when the packet of a relay acknowledgement arrives whose payload is a central
  station payload followed by an ant packet that names a registered, still waiting request.  Then
  after any deliveries, and nothing but deliveries, at whose end these three have handled their
  mail, the caller has the ant packet and the id is free; a source that the relay message itself
  names is ignored.\<close>

theorem ant_answer_across_actors:
  assumes "relay_laws D V queue alive" and "reachable_relay D V st"
    and "box V st ASerial = []" and "box V st AAntDecode = []" and "box V st ACommander = []"
    and "is_relay_ack (ty (header (header v)))"
    and "payload v = cb @ ant_packet_wire (dep_crc8 D) pv" and "length cb = 20"
    and "unpack (dep_cs D) cb = Ok cs" and "payload (header pv) = Info info"
    and "awaits V (header_unique_id (info_header info)) k st"
    and "relay_env D V st (SerialItem (Inr (message_wire (dep_crc8 D) v))) st1"
    and "relay_run D V st1 (map Deliver as) st2"
    and "box V st2 ASerial = []" and "box V st2 AAntDecode = []" and "box V st2 ACommander = []"
  shows "\<exists>p. val p = pv \<and> answered V (header_unique_id (info_header info)) k (ResponseAnt p) st2"
proof -
  let ?uid = "header_unique_id (info_header info)"
  note inv = reachable_relay_inv [OF assms(1,2)]
  note item = relay_laws.serial_item_packet [OF assms(1) inv assms(12)]
  have inv1: "relay_inv D V st1" by (rule relay_laws.relay_env_inv [OF assms(1,12) inv])
  have aw: "awaits V ?uid k st1" using assms(11) item(2,3) by (simp add: awaits_def)
  have "relay_on_its_way D V v pv ?uid k st1"
    using assms(3-5) aw item(1) by (simp add: relay_on_its_way_def subscription_defs)
  from relay_laws.relay_run_way [OF assms(1,6-10) assms(13) inv1 refl
      relay_laws.awaits_started [OF assms(1) inv1 aw] this]
  show ?thesis using assms(14-16) by (auto simp: relay_on_its_way_def)
qed

subsection \<open>A command from the ground\<close>

text \<open>The serial port's channel holds the packets \<open>q\<close>, and its writer is there.\<close>

definition port_holds ::
  "('q \<Rightarrow> bytes list) \<Rightarrow> ('q \<Rightarrow> bool) \<Rightarrow> bytes list \<Rightarrow> ('h, 'c, 'k, 'w, 'q, 's, 'b) relay \<Rightarrow> bool" where
  "port_holds queue alive q st \<longleftrightarrow>
     (\<exists>tx. raw_tx (rl_raw st) = Some tx \<and> alive tx \<and> queue tx = q)"

text \<open>The way of a request: at the commander, at the serial actor, at the port, in its channel.\<close>

definition request_on_its_way ::
  "('h, 'c, 'k, 'w, 'q, 'b) relay_deps \<Rightarrow> ('h, 'c, 'k, 'w, 'b) relay_views \<Rightarrow> ('q \<Rightarrow> bytes list)
     \<Rightarrow> ('q \<Rightarrow> bool) \<Rightarrow> message \<Rightarrow> bytes list \<Rightarrow> ('h, 'c, 'k, 'w, 'q, 's, 'b) relay \<Rightarrow> bool" where
  "request_on_its_way D V queue alive m q st \<longleftrightarrow>
     box V st AAntDecode = []
     \<and> (let wire = message_wire (dep_crc8 D) (val m);
            registered = (\<exists>k. awaits V (header_unique_id (message_header m)) k st)
        in box V st ACommander = [RequestMail m] \<and> box V st ASerial = [] \<and> box V st ARawIO = []
             \<and> port_holds queue alive q st
           \<or> registered \<and> box V st ACommander = [] \<and> box V st ASerial = [BrokerMail (UpMessageB m)]
             \<and> box V st ARawIO = [] \<and> port_holds queue alive q st
           \<or> registered \<and> box V st ACommander = [] \<and> box V st ASerial = []
             \<and> box V st ARawIO = [BrokerMail (RawUpPacket wire)] \<and> port_holds queue alive q st
           \<or> registered \<and> box V st ACommander = [] \<and> box V st ASerial = [] \<and> box V st ARawIO = []
             \<and> port_holds queue alive (q @ [wire]) st)"

text \<open>The way of a ground command: at the state machine, forwarded by a new future.\<close>

definition command_on_its_way ::
  "('h, 'c, 'k, 'w, 'b) relay_views \<Rightarrow> ('q \<Rightarrow> bytes list) \<Rightarrow> ('q \<Rightarrow> bool) \<Rightarrow> message_val
     \<Rightarrow> ('h \<Rightarrow> message option) \<Rightarrow> bytes list \<Rightarrow> ('h, 'c, 'k, 'w, 'q, 's, 'b) relay \<Rightarrow> bool" where
  "command_on_its_way V queue alive v f q st \<longleftrightarrow>
     (\<forall>c \<in> {ASerial, AAntDecode, ACommander, ARawIO}. box V st c = [])
     \<and> port_holds queue alive q st
     \<and> (\<exists>m. val m = v
          \<and> (box V st AStateMachine = [BrokerMail (GroundUpCommand m)]
               \<and> forwarding (view_ctx V) (rl_ctx st) = f
             \<or> box V st AStateMachine = []
               \<and> (\<exists>h. f h = None \<and> forwarding (view_ctx V) (rl_ctx st) = f(h \<mapsto> m))))"

context relay_laws
begin

lemma port_takes:
  assumes "raw_mail D (BrokerMail (RawUpPacket pkt)) st = Continues st'" and "port_holds queue alive q st"
  shows "port_holds queue alive (q @ [pkt]) st'"
  using assms mpsc.send_alive
  by (auto simp: raw_mail_def raw_handle_up_def port_holds_def)

lemma request_step_commander:
  assumes inv: "relay_inv D V st" and step: "relay_env D V st (Deliver ACommander) st'"
    and way: "request_on_its_way D V queue alive m q st" and table: "table_ok V st"
  shows "request_on_its_way D V queue alive m q st'"
proof -
  obtain x xs where x: "box V st ACommander = x # xs" and h: "handle_mail D ACommander x (taken V ACommander st) = Continues st'"
    and b: "\<And>c. box V st' c = (if c = ACommander then xs else box V st c)
      @ map BrokerMail (filter (\<lambda>b. has_started st c \<and> kind_of b \<in> set (subscriptions c)) (issues D ACommander x))"
    by (rule deliver_boxes [OF inv step]) blast
  note frame = handle_mail_frame [OF h]
  have s: "x = RequestMail m" "xs = []" "box V st ASerial = []" "box V st ARawIO = []"
    "box V st AAntDecode = []" "port_holds queue alive q st"
    using way x by (auto simp: request_on_its_way_def Let_def)
  have "issues D ACommander x = [UpMessageB m]" using s(1) by (simp add: issues_def)
  then have "box V st' ACommander = []" "box V st' ASerial = [BrokerMail (UpMessageB m)]"
    "box V st' ARawIO = []" "box V st' AAntDecode = []"
    using b s by (simp_all add: subscription_defs)
  moreover have "\<exists>k. awaits V (header_unique_id (message_header m)) k st'"
    using commander_registers [of m "taken V ACommander st" st'] h s(1) table
    by (simp add: handle_mail_def awaits_def table_ok_def)
  moreover have "port_holds queue alive q st'" using s(6) frame by (simp add: port_holds_def)
  ultimately show ?thesis by (simp add: request_on_its_way_def)
qed

lemma request_step_serial:
  assumes inv: "relay_inv D V st" and step: "relay_env D V st (Deliver ASerial) st'"
    and way: "request_on_its_way D V queue alive m q st" and m: "message_coherent (dep_crc8 D) m"
    and started: "has_started st ARawIO"
  shows "request_on_its_way D V queue alive m q st'"
proof -
  let ?wire = "message_wire (dep_crc8 D) (val m)"
  obtain x xs where x: "box V st ASerial = x # xs" and h: "handle_mail D ASerial x (taken V ASerial st) = Continues st'"
    and b: "\<And>c. box V st' c = (if c = ASerial then xs else box V st c)
      @ map BrokerMail (filter (\<lambda>b. has_started st c \<and> kind_of b \<in> set (subscriptions c)) (issues D ASerial x))"
    by (rule deliver_boxes [OF inv step]) blast
  note frame = handle_mail_frame [OF h]
  have s: "x = BrokerMail (UpMessageB m)" "xs = []" "box V st ACommander = []" "box V st ARawIO = []"
    "box V st AAntDecode = []" "port_holds queue alive q st"
    "\<exists>k. awaits V (header_unique_id (message_header m)) k st"
    using way x by (auto simp: request_on_its_way_def Let_def)
  have "issues D ASerial x = [RawUpPacket ?wire]"
    using s(1) serial_up_coherent [OF m] by (simp add: issues_def)
  then have "box V st' ACommander = []" "box V st' ASerial = []"
    "box V st' ARawIO = [BrokerMail (RawUpPacket ?wire)]" "box V st' AAntDecode = []"
    using b s started by (simp_all add: subscription_defs)
  moreover have "port_holds queue alive q st'"
    "\<exists>k. awaits V (header_unique_id (message_header m)) k st'"
    using s(6,7) frame by (simp_all add: port_holds_def awaits_def)
  ultimately show ?thesis by (simp add: request_on_its_way_def)
qed

lemma request_step_raw:
  assumes inv: "relay_inv D V st" and step: "relay_env D V st (Deliver ARawIO) st'"
    and way: "request_on_its_way D V queue alive m q st"
  shows "request_on_its_way D V queue alive m q st'"
proof -
  let ?wire = "message_wire (dep_crc8 D) (val m)"
  obtain x xs where x: "box V st ARawIO = x # xs" and h: "handle_mail D ARawIO x (taken V ARawIO st) = Continues st'"
    and b: "\<And>c. box V st' c = (if c = ARawIO then xs else box V st c)
      @ map BrokerMail (filter (\<lambda>b. has_started st c \<and> kind_of b \<in> set (subscriptions c)) (issues D ARawIO x))"
    by (rule deliver_boxes [OF inv step]) blast
  note frame = handle_mail_frame [OF h]
  have s: "x = BrokerMail (RawUpPacket ?wire)" "xs = []" "box V st ACommander = []"
    "box V st ASerial = []" "box V st AAntDecode = []" "port_holds queue alive q st"
    "\<exists>k. awaits V (header_unique_id (message_header m)) k st"
    using way x by (auto simp: request_on_its_way_def Let_def)
  have "port_holds queue alive (q @ [?wire]) st'"
    using port_takes [of ?wire "taken V ARawIO st" st' q] h s
    by (simp add: handle_mail_def port_holds_def)
  moreover have "issues D ARawIO x = []" using s(1) by (simp add: issues_def)
  moreover have "\<exists>k. awaits V (header_unique_id (message_header m)) k st'"
    using s(7) frame by (simp add: awaits_def)
  ultimately show ?thesis using b s by (simp add: request_on_its_way_def)
qed

lemma request_step:
  assumes inv: "relay_inv D V st" and step: "relay_env D V st (Deliver a) st'"
    and way: "request_on_its_way D V queue alive m q st" and m: "message_coherent (dep_crc8 D) m"
    and started: "has_started st ARawIO" and table: "table_ok V st"
  shows "request_on_its_way D V queue alive m q st'"
proof -
  consider (commander) "a = ACommander" | (serial) "a = ASerial" | (raw) "a = ARawIO"
    | (other) "a \<noteq> ACommander" "a \<noteq> ASerial" "a \<noteq> ARawIO"
    by blast
  then show ?thesis
  proof cases
    case commander
    then show ?thesis using request_step_commander [OF inv _ way table] step by simp
  next
    case serial
    then show ?thesis using request_step_serial [OF inv _ way m started] step by simp
  next
    case raw
    then show ?thesis using request_step_raw [OF inv _ way] step by simp
  next
    case other
    obtain x xs where x: "box V st a = x # xs" and h: "handle_mail D a x (taken V a st) = Continues st'"
      and b: "\<And>c. box V st' c = (if c = a then xs else box V st c)
        @ map BrokerMail (filter (\<lambda>b. has_started st c \<and> kind_of b \<in> set (subscriptions c)) (issues D a x))"
      by (rule deliver_boxes [OF inv step]) blast
    have ad: "box V st AAntDecode = []" using way by (simp add: request_on_its_way_def)
    then have "a \<noteq> AAntDecode" using x by auto
    moreover have "port_holds queue alive r st' = port_holds queue alive r st"
      "awaits V uid k st' = awaits V uid k st" for r uid k
      using handle_mail_frame [OF h] other by (simp_all add: port_holds_def awaits_def)
    ultimately show ?thesis using way deliver_other [OF inv step other(2) _ other(1)] b other x ad
      by (simp add: request_on_its_way_def Let_def issues_def split: mail.splits broker_msg.splits)
  qed
qed

lemma request_run:
  "relay_run D V st ls st' \<Longrightarrow> relay_inv D V st \<Longrightarrow> ls = map Deliver as \<Longrightarrow>
    has_started st ARawIO \<Longrightarrow> message_coherent (dep_crc8 D) m \<Longrightarrow> table_ok V st \<Longrightarrow>
    request_on_its_way D V queue alive m q st \<Longrightarrow>
    request_on_its_way D V queue alive m q st'"
proof (induction arbitrary: as rule: relay_run.induct)
  case (relay_cons st l st' ls st'')
  then obtain a as' where as: "l = Deliver a" "ls = map Deliver as'" by auto
  have step: "relay_env D V st (Deliver a) st'" using relay_cons.hyps(1) as by simp
  have inv: "relay_inv D V st'" by (rule relay_env_inv [OF step relay_cons.prems(1)])
  have "has_started st' ARawIO"
    using step relay_cons.prems(3) handle_mail_started by cases fastforce
  with relay_cons.IH [OF inv as(2)] request_step [OF relay_cons.prems(1) step relay_cons.prems(6,4,3,5)]
    relay_cons.prems(4) relay_env_table [OF step relay_cons.prems(5)]
  show ?case by blast
qed simp

text \<open>The way of a command: at the state machine, then in a future that forwards it.\<close>

lemma command_step:
  assumes inv: "relay_inv D V st" and step: "relay_env D V st (Deliver a) st'"
    and way: "command_on_its_way V queue alive v f q st"
    and v: "destination (header (header v)) \<in> {Ant, CentralStation}"
  shows "command_on_its_way V queue alive v f q st'"
proof -
  obtain x xs where x: "box V st a = x # xs" and h: "handle_mail D a x (taken V a st) = Continues st'"
    and b: "\<And>c. box V st' c = (if c = a then xs else box V st c)
      @ map BrokerMail (filter (\<lambda>b. has_started st c \<and> kind_of b \<in> set (subscriptions c)) (issues D a x))"
    by (rule deliver_boxes [OF inv step]) blast
  have quiet: "\<forall>c \<in> {ASerial, AAntDecode, ACommander, ARawIO}. box V st c = []"
    and port: "port_holds queue alive q st"
    using way by (simp_all add: command_on_its_way_def)
  have a: "a \<notin> {ASerial, AAntDecode, ACommander, ARawIO}" using quiet x by auto
  then have i: "issues D a x = []" by (auto simp: issues_def split: mail.splits broker_msg.splits)
  have same: "\<forall>c \<in> {ASerial, AAntDecode, ACommander, ARawIO}. box V st' c = []"
    "port_holds queue alive q st'"
    using b i a quiet port handle_mail_frame [OF h] by (auto simp: port_holds_def)
  show ?thesis
  proof (cases "a = AStateMachine")
    case True
    then obtain m where m: "val m = v" "x = BrokerMail (GroundUpCommand m)" "xs = []"
      "forwarding (view_ctx V) (rl_ctx st) = f"
      using way x by (auto simp: command_on_its_way_def)
    obtain mc c where up: "handle_up_command (dep_ctx D) m (rl_machine st) (rl_ctx st) = Running (mc, c)"
      and c: "rl_ctx st' = c"
      using h True m(2)
      by (auto simp: handle_mail_def machine_mail_def machine_result_def split: process.splits)
    have "tasks_inv (view_ctx V) (rl_machine st) (rl_ctx st)"
      using relay_invD(1) [OF inv] by (simp add: machine_ok_def sm_inv_parts)
    from ctx.handle_up_forwarding [OF this up] v m(1,4)
    obtain k where "f k = None" "forwarding (view_ctx V) c = f(k \<mapsto> m)" by auto
    moreover have "box V st' AStateMachine = []" using b i m(3) True by simp
    ultimately show ?thesis using same m(1) c unfolding command_on_its_way_def by blast
  next
    case False
    then have "rl_ctx st' = rl_ctx st" using handle_mail_frame [OF h] by simp
    moreover have "box V st' AStateMachine = box V st AStateMachine" using b i False by simp
    ultimately show ?thesis using way same by (auto simp: command_on_its_way_def)
  qed
qed

lemma command_run:
  "relay_run D V st ls st' \<Longrightarrow> relay_inv D V st \<Longrightarrow> ls = map Deliver as \<Longrightarrow>
    destination (header (header v)) \<in> {Ant, CentralStation} \<Longrightarrow>
    command_on_its_way V queue alive v f q st \<Longrightarrow> command_on_its_way V queue alive v f q st'"
proof (induction arbitrary: as rule: relay_run.induct)
  case (relay_cons st l st' ls st'')
  then obtain a as' where as: "l = Deliver a" "ls = map Deliver as'" by auto
  have step: "relay_env D V st (Deliver a) st'" using relay_cons.hyps(1) as by simp
  show ?case
    using relay_cons.IH [OF relay_env_inv [OF step relay_cons.prems(1)] as(2)]
      command_step [OF relay_cons.prems(1) step relay_cons.prems(4,3)] relay_cons.prems(3) by blast
qed simp

lemma datagram_way:
  assumes inv: "relay_inv D V st" and step: "relay_env D V st (UplinkDatagram (message_wire (dep_crc8 D) v)) st'"
    and quiet: "\<forall>c \<in> {AStateMachine, ASerial, AAntDecode, ACommander, ARawIO}. box V st c = []"
    and port: "port_holds queue alive q st"
  shows "command_on_its_way V queue alive v (forwarding (view_ctx V) (rl_ctx st)) q st'"
proof -
  let ?pkt = "message_wire (dep_crc8 D) v"
  obtain m where m: "val m = v"
    "uplink_handle (dep_crc8 D) (PacketOk ?pkt) = UplinkIssue [GroundUpPacket ?pkt, GroundUpCommand m]"
    by (cases rule: uplink_cases [of "dep_crc8 D" ?pkt]) (auto simp: message.enc_inject)
  have st': "st' = st\<lparr> rl_mail := issue_all (dep_mail D) [GroundUpPacket ?pkt, GroundUpCommand m] (rl_mail st) \<rparr>"
    using step m(2) by cases simp
  have b: "box V st' c = box V st c @ map BrokerMail (filter (\<lambda>b. has_started st c
      \<and> kind_of b \<in> set (subscriptions c)) [GroundUpPacket ?pkt, GroundUpCommand m])" for c
    using subs_okD(1) [OF relay_invD(3) [OF inv]] by (simp add: st')
  then have "box V st' AStateMachine = [BrokerMail (GroundUpCommand m)]"
    "\<forall>c \<in> {ASerial, AAntDecode, ACommander, ARawIO}. box V st' c = []"
    using quiet by (simp_all add: subscription_defs)
  moreover have "forwarding (view_ctx V) (rl_ctx st') = forwarding (view_ctx V) (rl_ctx st)"
    "port_holds queue alive q st'"
    using port by (simp_all add: st' port_holds_def)
  ultimately show ?thesis using m(1) unfolding command_on_its_way_def by blast
qed

lemma forward_way:
  assumes inv: "relay_inv D V st" and step: "relay_env D V st (OneShot h now) st'"
    and fwd: "forwarding (view_ctx V) (rl_ctx st) h = Some m"
    and quiet: "\<forall>c \<in> {ASerial, AAntDecode, ACommander, ARawIO}. box V st c = []"
    and port: "port_holds queue alive q st"
  shows "request_on_its_way D V queue alive m q st'" and "message_coherent (dep_crc8 D) m"
    and "has_started st' ARawIO"
proof -
  have live: "live (view_ctx V) (rl_ctx st) h = Some (Forward m)"
    using fwd by (simp add: forwarding_Some)
  have st': "st' = send_request D m (st\<lparr> rl_ctx := finish (view_ctx V) h (rl_ctx st) \<rparr>)"
    using step live by cases (simp add: send_task_def)
  then show "request_on_its_way D V queue alive m q st'"
    using quiet port
    by (simp add: send_request_def request_on_its_way_def port_holds_def Let_def case_prod_beta)
  have "m \<in> ran (forwarding (view_ctx V) (rl_ctx st))" using fwd by (rule ranI)
  then show "message_coherent (dep_crc8 D) m"
    using relay_invD(1) [OF inv] by (simp add: machine_ok_def)
  have "has_started st ARawIO" using port relay_invD(4) [OF inv] by (auto simp: ports_ok_def port_holds_def)
  then show "has_started st' ARawIO" by (simp add: st' send_request_def case_prod_beta)
qed

lemma ground_command:
  assumes inv: "relay_inv D V st" and table: "table_ok V st"
    and quiet: "\<forall>c \<in> {AStateMachine, ASerial, AAntDecode, ACommander, ARawIO}. box V st c = []"
    and port: "port_holds queue alive q st" and v: "destination (header (header v)) \<in> {Ant, CentralStation}"
    and up: "relay_env D V st (UplinkDatagram (message_wire (dep_crc8 D) v)) st1"
    and run1: "relay_run D V st1 (map Deliver as) st2" and handled: "box V st2 AStateMachine = []"
  shows "\<exists>h m. forwarding (view_ctx V) (rl_ctx st) h = None \<and> val m = v
      \<and> forwarding (view_ctx V) (rl_ctx st2) = (forwarding (view_ctx V) (rl_ctx st))(h \<mapsto> m)
      \<and> (\<forall>now bs st3 st4. relay_env D V st2 (OneShot h now) st3 \<longrightarrow>
          relay_run D V st3 (map Deliver bs) st4 \<longrightarrow>
          (\<forall>c \<in> {ASerial, ACommander, ARawIO}. box V st4 c = []) \<longrightarrow>
          port_holds queue alive (q @ [message_wire (dep_crc8 D) v]) st4
          \<and> (\<exists>k. awaits V (header_unique_id (header (header v))) k st4))"
proof -
  have inv1: "relay_inv D V st1" by (rule relay_env_inv [OF up inv])
  have inv2: "relay_inv D V st2" by (rule relay_run_inv [OF run1 inv1])
  have "command_on_its_way V queue alive v (forwarding (view_ctx V) (rl_ctx st)) q st2"
    by (rule command_run [OF run1 inv1 refl v datagram_way [OF inv up quiet port]])
  then obtain h m where hm: "val m = v" "forwarding (view_ctx V) (rl_ctx st) h = None"
      "forwarding (view_ctx V) (rl_ctx st2) = (forwarding (view_ctx V) (rl_ctx st))(h \<mapsto> m)"
    and quiet2: "\<forall>c \<in> {ASerial, AAntDecode, ACommander, ARawIO}. box V st2 c = []"
      "port_holds queue alive q st2"
    using handled by (auto simp: command_on_its_way_def)
  have "port_holds queue alive (q @ [message_wire (dep_crc8 D) v]) st4
      \<and> (\<exists>k. awaits V (header_unique_id (header (header v))) k st4)"
    if step: "relay_env D V st2 (OneShot h now) st3" and run: "relay_run D V st3 (map Deliver bs) st4"
      and empty: "\<forall>c \<in> {ASerial, ACommander, ARawIO}. box V st4 c = []" for now bs st3 st4
  proof -
    have "forwarding (view_ctx V) (rl_ctx st2) h = Some m" by (simp add: hm(3))
    note f = forward_way [OF inv2 step this quiet2]
    have "relay_inv D V st3" by (rule relay_env_inv [OF step inv2])
    moreover have "table_ok V st3" using relay_env_table relay_run_table table up run1 step by blast
    ultimately have "request_on_its_way D V queue alive m q st4"
      by (rule request_run [OF run _ refl f(3,2) _ f(1)])
    then show ?thesis using empty by (simp add: request_on_its_way_def hm(1))
  qed
  then show ?thesis using hm by blast
qed

end

text \<open>C10: with the serial port connected and its way free, a command from the ground reaches the port
  byte for byte.  Let the relay be reachable, let the port's actor hold a writer whose other
  end is alive, and let there be no mail at the state machine, the serial actor, the ant
  decoder, the commander and the port.  It receives the datagram of a message for the ant or
  the central station, and then only deliveries happen until the state machine has handled its
  mail without ending the process.  Then a new future \<open>h\<close> forwards the message; when this future
  has sent and, with only deliveries in between, these actors have handled their mail, the
  port's channel holds exactly this datagram after what it held before, and the commander has
  registered the message's id for a caller that waits.\<close>

theorem ground_command_reaches_port:
  assumes "relay_laws D V queue alive" and "reachable_relay D V st"
    and "\<forall>c \<in> {AStateMachine, ASerial, AAntDecode, ACommander, ARawIO}. box V st c = []"
    and "port_holds queue alive q st"
    and "destination (header (header v)) \<in> {Ant, CentralStation}"
    and "relay_env D V st (UplinkDatagram (message_wire (dep_crc8 D) v)) st1"
    and "relay_run D V st1 (map Deliver as) st2" and "box V st2 AStateMachine = []"
  shows "\<exists>h m. forwarding (view_ctx V) (rl_ctx st) h = None \<and> val m = v
      \<and> forwarding (view_ctx V) (rl_ctx st2) = (forwarding (view_ctx V) (rl_ctx st))(h \<mapsto> m)
      \<and> (\<forall>now bs st3 st4. relay_env D V st2 (OneShot h now) st3 \<longrightarrow>
          relay_run D V st3 (map Deliver bs) st4 \<longrightarrow>
          (\<forall>c \<in> {ASerial, ACommander, ARawIO}. box V st4 c = []) \<longrightarrow>
          port_holds queue alive (q @ [message_wire (dep_crc8 D) v]) st4
          \<and> (\<exists>k. awaits V (header_unique_id (header (header v))) k st4))"
  using relay_laws.ground_command [OF assms(1) reachable_relay_inv [OF assms(1,2)]
      reachable_relay_table [OF assms(1,2)] assms(3-8)] .

subsection \<open>Runs that exist\<close>

lemma relay_run_append:
  "relay_run D V st ls st1 \<Longrightarrow> relay_run D V st1 ks st2 \<Longrightarrow> relay_run D V st (ls @ ks) st2"
  by (induction rule: relay_run.induct) (auto intro: relay_run.intros)

lemma reachable_relay_step: "reachable_relay D V st \<Longrightarrow> relay_env D V st l st' \<Longrightarrow> reachable_relay D V st'"
  unfolding reachable_relay_def by (meson relay_run_append relay_run.intros)

lemma reachable_relay_run: "reachable_relay D V st \<Longrightarrow> relay_run D V st ls st' \<Longrightarrow> reachable_relay D V st'"
  unfolding reachable_relay_def by (meson relay_run_append)

context relay_laws
begin

text \<open>From a relay at rest: a packet, a datagram or a forwarding future, and deliveries after
  which it is at rest again.\<close>

lemma packet_drains:
  assumes inv: "relay_inv D V st" and rest: "\<And>a. box V st a = []"
  shows "\<exists>st1 as st2. relay_env D V st (SerialItem (Inr pkt)) st1
    \<and> relay_run D V st1 (map Deliver as) st2 \<and> (\<forall>a. box V st2 a = [])"
proof -
  have "raw_reader_item (stream_item (Inr pkt)) = Issue (RawDownPacket pkt)"
    by (simp add: raw_reader_item_def stream_item_def)
  then obtain st1 where step: "relay_env D V st (SerialItem (Inr pkt)) st1"
    using relay_env.serial_item by blast
  have "box V st1 AStateMachine = []"
    using serial_item_packet(1) [OF inv step, of AStateMachine] rest by (simp add: subscription_defs)
  then show ?thesis using drains [OF relay_env_inv [OF step inv]] step by auto
qed

lemma datagram_drains:
  assumes inv: "relay_inv D V st" and rest: "\<And>a. box V st a = []"
    and port: "port_holds queue alive q st" and v: "event (ty (header (header v))) \<noteq> FERestart"
  shows "\<exists>st1 as st2. relay_env D V st (UplinkDatagram (message_wire (dep_crc8 D) v)) st1
    \<and> relay_run D V st1 (map Deliver as) st2 \<and> (\<forall>a. box V st2 a = [])"
proof -
  obtain out where "uplink_handle (dep_crc8 D) (PacketOk (message_wire (dep_crc8 D) v)) = UplinkIssue out"
    by (rule uplink_cases [of "dep_crc8 D" "message_wire (dep_crc8 D) v"])
  then obtain st1 where step: "relay_env D V st (UplinkDatagram (message_wire (dep_crc8 D) v)) st1"
    using relay_env.datagram by blast
  have "command_on_its_way V queue alive v (forwarding (view_ctx V) (rl_ctx st)) q st1"
    by (rule datagram_way [OF inv step _ port]) (simp add: rest)
  then have "\<forall>x \<in> set (box V st1 AStateMachine). \<not> restart_mail x"
    using v by (auto simp: command_on_its_way_def restart_mail_iff)
  then show ?thesis using drains [OF relay_env_inv [OF step inv]] step by auto
qed

lemma forward_drains:
  assumes inv: "relay_inv D V st" and rest: "\<And>a. box V st a = []"
    and h: "forwarding (view_ctx V) (rl_ctx st) h = Some m"
  shows "\<exists>st1 as st2. relay_env D V st (OneShot h now) st1
    \<and> relay_run D V st1 (map Deliver as) st2 \<and> (\<forall>a. box V st2 a = [])"
proof -
  have live: "live (view_ctx V) (rl_ctx st) h = Some (Forward m)" using h by (simp add: forwarding_Some)
  let ?st1 = "send_task D now (Forward m) (st\<lparr> rl_ctx := finish (view_ctx V) h (rl_ctx st) \<rparr>)"
  have step: "relay_env D V st (OneShot h now) ?st1" by (rule relay_env.one_shot [OF live]) simp
  have "box V ?st1 AStateMachine = []" using rest by (simp add: send_task_def send_request_def case_prod_beta)
  then show ?thesis using drains [OF relay_env_inv [OF step inv]] step by auto
qed

end

subsection \<open>Sample runs\<close>

abbreviation sample_rest :: "sample_relay_state \<Rightarrow> bool" where
  "sample_rest st \<equiv> reachable_relay sample_deps sample_views st \<and> (\<forall>a. box sample_views st a = [])"

abbreviation sample_port :: "bytes list \<Rightarrow> sample_relay_state \<Rightarrow> bool" where
  "sample_port q st \<equiv> port_holds (\<lambda>q. q) (\<lambda>_. True) q st"

lemma sample_inv:
  "reachable_relay sample_deps sample_views st \<Longrightarrow> relay_inv sample_deps sample_views st"
  by (rule reachable_relay_inv [OF sample_laws])

lemma sample_connected: "\<exists>st. sample_rest st \<and> sample_port [] st"
proof -
  let ?st = "sample_boot\<lparr> rl_raw := \<lparr> raw_tx = Some [], raw_subscribed = True \<rparr>,
    rl_mail := subscribe_all (dep_mail sample_deps) ARawIO raw_subscriptions (rl_mail sample_boot) \<rparr>"
  have "dep_mpsc sample_deps = list_mpsc" by (simp add: sample_deps_def)
  then have "sample_execs [RawConnect True] sample_boot = Some ?st"
    by (simp add: raw_connected_def list_mpsc_def sample_boot_def relay_boot_def raw_io_new_def
        ant_decode_started_def serial_started_def sm_started_def Let_def)
  moreover have "box sample_views ?st a = []" for a
  proof -
    have "inbox (view_mail sample_views) no_mail a = []"
      by (simp add: sample_views_def list_mail_view_def no_mail_def)
    then show ?thesis by (simp add: sample_boot_def sample_relay.relay_boot_simps)
  qed
  moreover have "sample_port [] ?st" by (simp add: port_holds_def)
  ultimately show ?thesis using sample_reachable by blast
qed

lemma sample_request_val:
  "destination (header (header (val (request_msg 1)))) \<in> {Ant, CentralStation}"
  "event (ty (header (header (val (request_msg 1))))) \<noteq> FERestart"
  "message_wire (dep_crc8 sample_deps) (val (request_msg 1)) = sample_datagram"
  by (simp_all add: request_defs sample_datagram_def sample_deps_def)

lemma sample_datagram_run:
  assumes "sample_rest st" and "sample_port q st"
  shows "\<exists>st1 as st2. relay_env sample_deps sample_views st (UplinkDatagram sample_datagram) st1
    \<and> relay_run sample_deps sample_views st1 (map Deliver as) st2 \<and> sample_rest st2"
proof -
  from assms sample_relay.datagram_drains [OF sample_inv _ _ sample_request_val(2)]
  obtain st1 as st2 where "relay_env sample_deps sample_views st (UplinkDatagram sample_datagram) st1"
    "relay_run sample_deps sample_views st1 (map Deliver as) st2" "\<forall>a. box sample_views st2 a = []"
    unfolding sample_request_val(3) by blast
  then show ?thesis using assms(1) reachable_relay_step reachable_relay_run by blast
qed

lemma sample_forward_run:
  assumes "sample_rest st" and "forwarding (view_ctx sample_views) (rl_ctx st) h = Some m"
  shows "\<exists>st1 as st2. relay_env sample_deps sample_views st (OneShot h now) st1
    \<and> relay_run sample_deps sample_views st1 (map Deliver as) st2 \<and> sample_rest st2"
proof -
  from assms sample_relay.forward_drains [OF sample_inv _ assms(2), of now]
  obtain st1 as st2 where "relay_env sample_deps sample_views st (OneShot h now) st1"
    "relay_run sample_deps sample_views st1 (map Deliver as) st2" "\<forall>a. box sample_views st2 a = []"
    by blast
  then show ?thesis using assms(1) reachable_relay_step reachable_relay_run by blast
qed

lemma sample_command:
  obtains st st1 as st2 where "sample_rest st" and "sample_port [] st"
    and "\<forall>c \<in> {AStateMachine, ASerial, AAntDecode, ACommander, ARawIO}. box sample_views st c = []"
    and "relay_env sample_deps sample_views st
      (UplinkDatagram (message_wire (dep_crc8 sample_deps) (val (request_msg 1)))) st1"
    and "relay_run sample_deps sample_views st1 (map Deliver as) st2" and "sample_rest st2"
proof -
  obtain st where st: "sample_rest st" "sample_port [] st" using sample_connected by blast
  show thesis using sample_datagram_run [OF st] st that unfolding sample_request_val(3) by force
qed

text \<open>The command's message is forwarded, and registered when the relay is at rest.\<close>

lemma sample_forwarded:
  assumes "\<exists>h m. forwarding (view_ctx sample_views) (rl_ctx st) h = None \<and> val m = val (request_msg 1)
      \<and> forwarding (view_ctx sample_views) (rl_ctx st2)
        = (forwarding (view_ctx sample_views) (rl_ctx st))(h \<mapsto> m)
      \<and> (\<forall>now bs st3 st4. relay_env sample_deps sample_views st2 (OneShot h now) st3 \<longrightarrow>
          relay_run sample_deps sample_views st3 (map Deliver bs) st4 \<longrightarrow>
          (\<forall>c \<in> {ASerial, ACommander, ARawIO}. box sample_views st4 c = []) \<longrightarrow>
          sample_port ([] @ [message_wire (dep_crc8 sample_deps) (val (request_msg 1))]) st4
          \<and> (\<exists>k. awaits sample_views (header_unique_id (header (header (val (request_msg 1))))) k st4))"
    and rest: "sample_rest st2"
  shows "\<exists>(st :: sample_relay_state) k. sample_rest st \<and> sample_port [sample_datagram] st
    \<and> awaits sample_views sample_uid k st"
proof -
  obtain h m where h: "forwarding (view_ctx sample_views) (rl_ctx st2) h = Some m"
    and reach: "\<And>now bs st3 st4. relay_env sample_deps sample_views st2 (OneShot h now) st3 \<Longrightarrow>
      relay_run sample_deps sample_views st3 (map Deliver bs) st4 \<Longrightarrow>
      \<forall>c \<in> {ASerial, ACommander, ARawIO}. box sample_views st4 c = [] \<Longrightarrow>
      sample_port [sample_datagram] st4 \<and> (\<exists>k. awaits sample_views sample_uid k st4)"
    using assms(1) unfolding sample_request_val(3) append_Nil by (metis fun_upd_same)
  obtain st3 bs st4 where r: "relay_env sample_deps sample_views st2 (OneShot h EPOCH) st3"
    "relay_run sample_deps sample_views st3 (map Deliver bs) st4" "sample_rest st4"
    using sample_forward_run [OF rest h] by blast
  from reach [OF r(1,2)] r(3) show ?thesis by auto
qed

theorem ground_command_reaches_port_witness:
  "\<exists>(st :: sample_relay_state) k. sample_rest st \<and> sample_port [sample_datagram] st
    \<and> awaits sample_views sample_uid k st"
proof -
  obtain st st1 as st2 where s: "sample_rest st" "sample_port [] st"
    "\<forall>c \<in> {AStateMachine, ASerial, AAntDecode, ACommander, ARawIO}. box sample_views st c = []"
    "relay_env sample_deps sample_views st
      (UplinkDatagram (message_wire (dep_crc8 sample_deps) (val (request_msg 1)))) st1"
    "relay_run sample_deps sample_views st1 (map Deliver as) st2" "sample_rest st2"
    by (rule sample_command)
  have "box sample_views st2 AStateMachine = []" using s(6) by simp
  from sample_forwarded [OF ground_command_reaches_port [OF sample_laws conjunct1 [OF s(1)] s(3,2)
      sample_request_val(1) s(4,5) this] s(6)]
  show ?thesis .
qed

lemma sample_spoken:
  "\<exists>(st :: sample_relay_state) k. sample_rest st \<and> sample_port [sample_datagram] st
    \<and> awaits sample_views sample_uid k st"
proof -
  obtain st st1 as st2 where s: "sample_rest st" "sample_port [] st"
    "\<forall>c \<in> {AStateMachine, ASerial, AAntDecode, ACommander, ARawIO}. box sample_views st c = []"
    "relay_env sample_deps sample_views st
      (UplinkDatagram (message_wire (dep_crc8 sample_deps) (val (request_msg 1)))) st1"
    "relay_run sample_deps sample_views st1 (map Deliver as) st2" "sample_rest st2"
    by (rule sample_command)
  have "relay_inv sample_deps sample_views st" "table_ok sample_views st"
    "box sample_views st2 AStateMachine = []"
    using s(1,6) sample_inv reachable_relay_table [OF sample_laws] by blast+
  from sample_forwarded [OF sample_relay.ground_command [OF this(1,2) s(3,2) sample_request_val(1) s(4,5)
      this(3)] s(6)]
  show ?thesis .
qed

lemma sample_awaits:
  "\<exists>(st :: sample_relay_state) k. sample_rest st \<and> awaits sample_views sample_uid k st"
  using sample_spoken by blast

text \<open>A packet arrives at a relay at rest, which comes to rest again.\<close>

lemma sample_packet_run:
  assumes "sample_rest st"
  shows "\<exists>st1 as st2. relay_env sample_deps sample_views st (SerialItem (Inr pkt)) st1
    \<and> relay_run sample_deps sample_views st1 (map Deliver as) st2 \<and> sample_rest st2"
proof -
  from assms sample_relay.packet_drains [OF sample_inv, of st pkt]
  obtain st1 as st2 where "relay_env sample_deps sample_views st (SerialItem (Inr pkt)) st1"
    "relay_run sample_deps sample_views st1 (map Deliver as) st2" "\<forall>a. box sample_views st2 a = []"
    by blast
  then show ?thesis using assms reachable_relay_step reachable_relay_run by blast
qed

abbreviation sample_info :: info where
  "sample_info \<equiv> \<lparr> info_header = message_header (request_msg 1), info_checksum = 0 \<rparr>"

text \<open>A request waits at rest, its acknowledgement arrives, and the relay comes to rest.\<close>

lemma sample_acknowledged:
  obtains st k st1 as st2 where "sample_rest st" and "\<forall>a. box sample_views st a = []"
    and "payload (header (val (ack_msg 1))) = Info sample_info"
    and "\<not> is_relay_ack (ty (header (header (val (ack_msg 1)))))"
    and "awaits sample_views (header_unique_id (info_header sample_info)) k st"
    and "relay_env sample_deps sample_views st
      (SerialItem (Inr (message_wire (dep_crc8 sample_deps) (val (ack_msg 1))))) st1"
    and "relay_run sample_deps sample_views st1 (map Deliver as) st2"
    and "\<forall>a. box sample_views st2 a = []" and "sample_rest st2"
proof -
  obtain st k where st: "sample_rest st" "awaits sample_views (header_unique_id (info_header sample_info)) k st"
    using sample_awaits by auto
  have v: "payload (header (val (ack_msg 1))) = Info sample_info"
    "\<not> is_relay_ack (ty (header (header (val (ack_msg 1)))))"
    by (simp_all add: ack_msg_def is_relay_ack_def)
  obtain st1 as st2 where r: "relay_env sample_deps sample_views st
      (SerialItem (Inr (message_wire (dep_crc8 sample_deps) (val (ack_msg 1))))) st1"
    "relay_run sample_deps sample_views st1 (map Deliver as) st2" "sample_rest st2"
    using sample_packet_run [OF st(1)] by blast
  have e: "box sample_views st a = []" "box sample_views st2 a = []" for a
    using st(1) r(3) by simp_all
  show thesis by (rule that [OF st(1) allI [OF e(1)] v st(2) r(1,2) allI [OF e(2)] r(3)])
qed

theorem ack_resolves_across_actors_witness:
  "\<exists>(st :: sample_relay_state) k m. sample_rest st
    \<and> val m = val (ack_msg 1) \<and> answered sample_views sample_uid k (ResponseMessage m) st"
proof -
  obtain st k st1 as st2 where s: "sample_rest st" "\<forall>a. box sample_views st a = []"
    "payload (header (val (ack_msg 1))) = Info sample_info"
    "\<not> is_relay_ack (ty (header (header (val (ack_msg 1)))))"
    "awaits sample_views (header_unique_id (info_header sample_info)) k st"
    "relay_env sample_deps sample_views st
      (SerialItem (Inr (message_wire (dep_crc8 sample_deps) (val (ack_msg 1))))) st1"
    "relay_run sample_deps sample_views st1 (map Deliver as) st2"
    "\<forall>a. box sample_views st2 a = []" "sample_rest st2"
    by (rule sample_acknowledged)
  from ack_resolves_across_actors [OF sample_laws conjunct1 [OF s(1)] spec [OF s(2)] spec [OF s(2)] spec [OF s(2)]
      s(3-7) spec [OF s(8)] spec [OF s(8)]]
  show ?thesis using s(9) by auto
qed

text \<open>The ant's packet answers the same request from inside a relay message.\<close>

definition sample_ant :: ant_packet_val where
  "sample_ant = \<lparr> header = header (val (ack_msg 1)),
     payload = \<lparr> pcb_temp = 0, battery_temp = 0, battery_voltage = 0, fram_usage = 0,
       gyro = vec3_unpack [], accelerometer = vec3_unpack [], calipile_object = 0,
       calipile_ambient = 0, orientation = 0, steer = 0, ant_r0 = 0, ant_r1 = 0 \<rparr> \<rparr>"

theorem ant_answer_across_actors_witness:
  "\<exists>(st :: sample_relay_state) k p. sample_rest st
    \<and> val p = sample_ant \<and> answered sample_views sample_uid k (ResponseAnt p) st"
proof -
  let ?info = "\<lparr> info_header = message_header (request_msg 1), info_checksum = 0 \<rparr>"
    and ?v = "val (relay_msg (dep_crc8 sample_deps) sample_ant)"
  obtain st k where st: "sample_rest st" "awaits sample_views (header_unique_id (info_header ?info)) k st"
    using sample_awaits by auto
  obtain st1 as st2 where r: "relay_env sample_deps sample_views st
      (SerialItem (Inr (message_wire (dep_crc8 sample_deps) ?v))) st1"
    "relay_run sample_deps sample_views st1 (map Deliver as) st2" "sample_rest st2"
    using sample_packet_run [OF st(1)] by blast
  have v: "is_relay_ack (ty (header (header ?v)))"
    "payload ?v = replicate 20 0 @ ant_packet_wire (dep_crc8 sample_deps) sample_ant"
    "length (replicate 20 (0 :: u8)) = 20" "payload (header sample_ant) = Info ?info"
    by (simp_all add: relay_msg_def is_relay_ack_def sample_ant_def ack_msg_def)
  obtain cs where cs: "unpack (dep_cs sample_deps) (replicate 20 0) = Ok cs"
    by (simp add: sample_deps_def cs_bytewise_def)
  have e: "box sample_views st a = []" "box sample_views st2 a = []" for a
    using st(1) r(3) by simp_all
  from ant_answer_across_actors [OF sample_laws conjunct1 [OF st(1)] e(1,1,1) v(1-3) cs v(4) st(2)
      r(1,2) e(2,2,2)]
  show ?thesis using r(3) by auto
qed

end
