(* ===== verification/System_Origin.thy ===== *)
theory System_Origin
  imports System_Paths "HOL-Library.Sublist"
begin

text \<open>
  Where everything that the relay says comes from.  A run is extended by the list of the
  requests that its steps send to the commander; everything in the mail, on the serial port,
  on the downlink and in the callers' channels is traced back to these requests and to what
  the environment brought in during the run.
\<close>

subsection \<open>The requests of a run\<close>

definition task_requests ::
  "('h, 'c, 'k, 'w, 'q, 's, 'b) relay \<Rightarrow> datetime \<Rightarrow> task \<Rightarrow> message list" where
  "task_requests st now t =
     (case task_message (fst (params_query now (rl_seq st))) t of None \<Rightarrow> [] | Some msg \<Rightarrow> [msg])"

fun step_requests ::
  "('h, 'c, 'k, 'w, 'b) relay_views \<Rightarrow> ('h, 'c, 'k, 'w, 'q, 's, 'b) relay \<Rightarrow> ('h, 'k, 's) relay_label
     \<Rightarrow> message list" where
  "step_requests V st (OneShot h now) =
     (case live (view_ctx V) (rl_ctx st) h of None \<Rightarrow> [] | Some t \<Rightarrow> task_requests st now t)"
| "step_requests V st (RetrySend h now) =
     (case live (view_ctx V) (rl_ctx st) h of None \<Rightarrow> [] | Some t \<Rightarrow> task_requests st now t)"
| "step_requests V st (WaitSend now) =
     (case waiting (view_ctx V) (rl_ctx st) of [] \<Rightarrow> [] | t # ts \<Rightarrow> task_requests st now t)"
| "step_requests V st l = []"

inductive request_run ::
  "('h, 'c, 'k, 'w, 'q, 'b) relay_deps \<Rightarrow> ('h, 'c, 'k, 'w, 'b) relay_views
     \<Rightarrow> ('h, 'c, 'k, 'w, 'q, 's, 'b) relay \<Rightarrow> ('h, 'k, 's) relay_label list \<Rightarrow> message list
     \<Rightarrow> ('h, 'c, 'k, 'w, 'q, 's, 'b) relay \<Rightarrow> bool"
  for D V where
  request_nil: "request_run D V st [] [] st"
| request_cons: "relay_env D V st l st' \<Longrightarrow> request_run D V st' ls ms st'' \<Longrightarrow>
    request_run D V st (l # ls) (step_requests V st l @ ms) st''"

inductive_cases request_nilE: "request_run D V st [] ms st'"
inductive_cases request_consE: "request_run D V st (l # ls) ms st'"

lemma request_run_relay_run: "request_run D V st ls ms st' \<Longrightarrow> relay_run D V st ls st'"
  by (induction rule: request_run.induct) (auto intro: relay_run.intros)

lemma relay_run_request_run: "relay_run D V st ls st' \<Longrightarrow> \<exists>ms. request_run D V st ls ms st'"
  by (induction rule: relay_run.induct) (auto intro: request_run.intros)

lemma request_run_append:
  "request_run D V st ls ms st' \<Longrightarrow> request_run D V st' ls' ms' st'' \<Longrightarrow>
    request_run D V st (ls @ ls') (ms @ ms') st''"
  by (induction rule: request_run.induct) (auto intro: request_run.intros)

text \<open>A future's send as one call of \<open>send_request\<close>; a forwarded message takes no parameters.\<close>

lemma send_task_requests:
  "\<exists>n. send_task D now t st
    = (case task_requests st now t of [] \<Rightarrow> st\<lparr> rl_seq := n \<rparr>
       | msg # msgs \<Rightarrow> send_request D msg (st\<lparr> rl_seq := n \<rparr>))"
proof -
  obtain p n where p: "params_query now (rl_seq st) = (p, n)" by fastforce
  show ?thesis
  proof (cases "\<exists>msg. t = Forward msg")
    case True
    then show ?thesis
      by (intro exI [of _ "rl_seq st"]) (auto simp: send_task_def task_requests_def)
  next
    case False
    then show ?thesis
      by (intro exI [of _ n]) (cases t; auto simp: send_task_def task_requests_def p split: option.splits)
  qed
qed

subsection \<open>What a step puts into the mail\<close>

text \<open>What the environment's steps and the handlers issue.\<close>

fun step_issues ::
  "('h, 'c, 'k, 'w, 'q, 'b) relay_deps \<Rightarrow> ('h, 'c, 'k, 'w, 'b) relay_views
     \<Rightarrow> ('h, 'c, 'k, 'w, 'q, 's, 'b) relay \<Rightarrow> ('h, 'k, 's) relay_label \<Rightarrow> broker_msg list" where
  "step_issues D V st (Deliver a) = (case box V st a of [] \<Rightarrow> [] | x # xs \<Rightarrow> issues D a x)"
| "step_issues D V st (UplinkDatagram pkt) =
     (case uplink_handle (dep_crc8 D) (PacketOk pkt) of UplinkIssue out \<Rightarrow> out | _ \<Rightarrow> [])"
| "step_issues D V st (SerialItem item) =
     (case raw_reader_item (stream_item item) of Issue msg \<Rightarrow> [msg] | _ \<Rightarrow> [])"
| "step_issues D V st (TraceLog l) = [GroundLog l]"
| "step_issues D V st l = []"

definition popped :: "('h, 'k, 's) relay_label \<Rightarrow> actor_id \<Rightarrow> mail list \<Rightarrow> mail list" where
  "popped l a xs = (if l = Deliver a then tl xs else xs)"

lemma in_popped: "x \<in> set (popped l a xs) \<Longrightarrow> x \<in> set xs"
  by (auto simp: popped_def dest: set_tl split: if_splits)

context relay_laws
begin

lemma send_request_box:
  "box V (send_request D msg st) a =
    box V st a @ (if a = ACommander then [RequestMail msg] else [])"
  by (simp add: send_request_def commander_started_def Let_def)

lemma send_task_box:
  "box V (send_task D now t st) a =
    box V st a @ (if a = ACommander then map RequestMail (task_requests st now t) else [])"
proof -
  have "task_requests st now t = [] \<or> (\<exists>msg. task_requests st now t = [msg])"
    by (simp add: task_requests_def split: option.splits)
  then show ?thesis
    using send_task_requests [of D now t st] by (elim disjE exE) (auto simp: send_request_box)
qed

text \<open>Every step pops at most one piece of mail and appends what it issues and requests.\<close>

lemma step_boxes:
  assumes inv: "relay_inv D V st" and "relay_env D V st l st'"
  shows "box V st' a = popped l a (box V st a)
      @ map BrokerMail (filter (\<lambda>b. has_started st a \<and> kind_of b \<in> set (subscriptions a))
          (step_issues D V st l))
      @ (if a = ACommander then map RequestMail (step_requests V st l) else [])"
proof -
  note subs = subs_okD(1) [OF relay_invD(3) [OF inv]]
  have issue: "map BrokerMail (filter (\<lambda>b. subscribed_to (view_mail V) (rl_mail st) (kind_of b) a) out)
      = map BrokerMail (filter (\<lambda>b. has_started st a \<and> kind_of b \<in> set (subscriptions a)) out)" for out
    by (simp add: subs)
  show ?thesis using assms(2)
  proof cases
    case (deliver c x xs)
    then show ?thesis
      by (auto simp: handle_mail_issues [OF deliver(3)] popped_def subs)
  next
    case (datagram pkt out)
    then show ?thesis by (simp add: popped_def subs)
  next
    case (serial_item item msg)
    then show ?thesis by (simp add: popped_def subs)
  next
    case (trace_log lg)
    then show ?thesis by (simp add: popped_def subs)
  next
    case (one_shot h t now)
    then show ?thesis by (simp add: popped_def send_task_box task_requests_def)
  next
    case (retry_send h t now)
    then show ?thesis by (simp add: popped_def send_task_box)
  next
    case (wait_send t ts now)
    then show ?thesis by (simp add: popped_def send_task_box task_requests_def)
  qed (simp_all add: popped_def)
qed

end

subsection \<open>What was observed\<close>

text \<open>A message's value arrived from the ground, or on the serial line, during a run.\<close>

definition ground_said ::
  "('h, 'c, 'k, 'w, 'q, 'b) relay_deps \<Rightarrow> ('h, 'k, 's) relay_label list \<Rightarrow> message_val \<Rightarrow> bool" where
  "ground_said D ls v \<longleftrightarrow> UplinkDatagram (message_wire (dep_crc8 D) v) \<in> set ls"

definition serial_said ::
  "('h, 'c, 'k, 'w, 'q, 'b) relay_deps \<Rightarrow> ('h, 'k, 's) relay_label list \<Rightarrow> message_val \<Rightarrow> bool" where
  "serial_said D ls v \<longleftrightarrow> SerialItem (Inr (message_wire (dep_crc8 D) v)) \<in> set ls"

text \<open>A relay message of the central station carries an ant packet.\<close>

definition relays_packet ::
  "('h, 'c, 'k, 'w, 'q, 'b) relay_deps \<Rightarrow> message_val \<Rightarrow> ant_packet_val \<Rightarrow> bool" where
  "relays_packet D v w \<longleftrightarrow> is_relay_ack (ty (header (header v)))
     \<and> (\<exists>cb cs. length cb = 20 \<and> unpack (dep_cs D) cb = Ok cs
          \<and> payload v = cb @ ant_packet_wire (dep_crc8 D) w)"

text \<open>What makes a broker message true: its content came in during the run \<open>ls\<close>, or is one of
  the requests \<open>ms\<close> that the run has sent.\<close>

fun truthful ::
  "('h, 'c, 'k, 'w, 'q, 'b) relay_deps \<Rightarrow> ('h, 'k, 's) relay_label list \<Rightarrow> message list
     \<Rightarrow> broker_msg \<Rightarrow> bool" where
  "truthful D ls ms (RawUpPacket p) = (p \<in> set (map (\<lambda>m. message_wire (dep_crc8 D) (val m)) ms))"
| "truthful D ls ms (RawDownPacket p) = (SerialItem (Inr p) \<in> set ls)"
| "truthful D ls ms (UpMessageB m) = (m \<in> set ms)"
| "truthful D ls ms (DownMessageB m) = serial_said D ls (val m)"
| "truthful D ls ms (AckMessageB m) = serial_said D ls (val m)"
| "truthful D ls ms (AntMessageB p) = (\<exists>v. serial_said D ls v \<and> relays_packet D v (val p))"
| "truthful D ls ms (GroundUpPacket p) = (UplinkDatagram p \<in> set ls)"
| "truthful D ls ms (GroundUpCommand m) = ground_said D ls (val m)"
| "truthful D ls ms (GroundLog l) = (TraceLog l \<in> set ls)"

fun truthful_mail ::
  "('h, 'c, 'k, 'w, 'q, 'b) relay_deps \<Rightarrow> ('h, 'k, 's) relay_label list \<Rightarrow> message list
     \<Rightarrow> mail \<Rightarrow> bool" where
  "truthful_mail D ls ms (BrokerMail b) = truthful D ls ms b"
| "truthful_mail D ls ms (RequestMail m) = (m \<in> set ms)"

fun truthful_response ::
  "('h, 'c, 'k, 'w, 'q, 'b) relay_deps \<Rightarrow> ('h, 'k, 's) relay_label list \<Rightarrow> response \<Rightarrow> bool" where
  "truthful_response D ls (ResponseMessage m) = serial_said D ls (val m)"
| "truthful_response D ls (ResponseAnt p) = (\<exists>v. serial_said D ls v \<and> relays_packet D v (val p))"

lemma said_mono:
  "ground_said D ls v \<Longrightarrow> ground_said D (ls @ ls') v"
  "serial_said D ls v \<Longrightarrow> serial_said D (ls @ ls') v"
  by (simp_all add: ground_said_def serial_said_def)

lemma truthful_mono: "truthful D ls ms b \<Longrightarrow> truthful D (ls @ ls') (ms @ ms') b"
  by (cases b) (auto simp: said_mono, use said_mono in blast)

lemma truthful_mail_mono: "truthful_mail D ls ms x \<Longrightarrow> truthful_mail D (ls @ ls') (ms @ ms') x"
  by (cases x) (simp_all add: truthful_mono)

lemma truthful_response_mono: "truthful_response D ls r \<Longrightarrow> truthful_response D (ls @ ls') r"
  by (cases r) (auto simp: said_mono, use said_mono in blast)

text \<open>A handler given true mail issues true messages.\<close>

lemma ant_decode_relays:
  assumes "byte_array_len (dep_cs D) = 20"
    and "ant_decode (dep_cs D) (dep_crc8 D) m = Some out" and "AntMessageB p \<in> set out"
  shows "relays_packet D (val m) (val p)"
proof -
  obtain r where r: "is_relay_ack (ty (message_header m))" "payload r = p"
    "unpack_from_slice (cs_relay_ops (dep_cs D) (dep_crc8 D)) (message_payload m) = Ok r"
    using assms(2,3) by (auto simp: ant_decode_def split: if_splits sum.splits failure.splits)
  then show ?thesis
    using relay_unpack_iff [OF assms(1), of "dep_crc8 D" "message_payload m" "header r" "val p"]
    unfolding relays_packet_def by (cases r) auto
qed


lemma issues_truthful:
  assumes len: "byte_array_len (dep_cs D) = 20"
    and x: "truthful_mail D ls ms x" and co: "mail_coherent (dep_crc8 D) x"
    and b: "b \<in> set (issues D a x)"
  shows "truthful D ls ms b"
proof (cases x)
  case (RequestMail msg)
  then show ?thesis using x b by (auto simp: issues_def split: if_splits)
next
  case (BrokerMail c)
  show ?thesis
  proof (cases c)
    case (RawDownPacket pkt)
    then have p: "SerialItem (Inr pkt) \<in> set ls" using x BrokerMail by simp
    show ?thesis
      by (cases rule: serial_down_cases [of "dep_crc8 D" pkt])
        (use b p in \<open>auto simp: BrokerMail RawDownPacket issues_def try_issue_ack_def serial_said_def
          split: if_splits source_info.splits\<close>)
  next
    case (DownMessageB m)
    then have out: "ant_decode (dep_cs D) (dep_crc8 D) m = Some [b]" "\<exists>p. b = AntMessageB p"
      using b ant_decode_issues [of "dep_cs D" "dep_crc8 D" m]
      by (cases "ant_decode (dep_cs D) (dep_crc8 D) m";
          fastforce simp: BrokerMail issues_def split: if_splits)+
    then show ?thesis using ant_decode_relays [OF len out(1)] x BrokerMail DownMessageB by auto
  next
    case (UpMessageB m)
    then show ?thesis using x b co
      by (auto simp: BrokerMail issues_def serial_up_coherent split: if_splits)
  qed (use b BrokerMail in \<open>auto simp: issues_def\<close>)
qed

lemma uplink_truthful:
  assumes "uplink_handle (dep_crc8 D) (PacketOk pkt) = UplinkIssue out" and "b \<in> set out"
  shows "truthful D (ls @ [UplinkDatagram pkt]) ms b"
  by (cases rule: uplink_cases [of "dep_crc8 D" pkt])
    (use assms in \<open>auto simp: ground_said_def\<close>)

subsection \<open>The invariant\<close>

text \<open>A packet sent to the ground is a serialised and compressed true value.\<close>

definition truthful_sent ::
  "('h, 'c, 'k, 'w, 'q, 'b) relay_deps \<Rightarrow> ('h, 'k, 's) relay_label list \<Rightarrow> message list
     \<Rightarrow> bytes \<Rightarrow> bool" where
  "truthful_sent D ls ms pkt \<longleftrightarrow>
     (\<exists>b d. truthful D ls ms b \<and> downlink_extract b = Some d
        \<and> Option.bind (dep_serialize D d) (brotli_compress (dep_compress D)) = Some pkt)"

text \<open>A forwarding future holds a command of the ground for the central station or the ant.\<close>

definition ground_request ::
  "('h, 'c, 'k, 'w, 'q, 'b) relay_deps \<Rightarrow> ('h, 'k, 's) relay_label list \<Rightarrow> message \<Rightarrow> bool" where
  "ground_request D ls m \<longleftrightarrow> ground_said D ls (val m)
     \<and> destination (message_header m) \<in> {Ant, CentralStation}"

definition message_uid :: "message \<Rightarrow> unique_id" where
  "message_uid m = header_unique_id (message_header m)"

definition origin_inv ::
  "('h, 'c, 'k, 'w, 'q, 'b) relay_deps \<Rightarrow> ('h, 'c, 'k, 'w, 'b) relay_views
     \<Rightarrow> ('h, 'k, 's) relay_label list \<Rightarrow> message list \<Rightarrow> ('h, 'c, 'k, 'w, 'q, 's, 'b) relay
     \<Rightarrow> bool" where
  "origin_inv D V ls ms st \<longleftrightarrow>
     (\<forall>a. \<forall>x \<in> set (box V st a). truthful_mail D ls ms x)
     \<and> (\<forall>m \<in> ran (forwarding (view_ctx V) (rl_ctx st)). ground_request D ls m)
     \<and> (\<forall>(s, pkt) \<in> set (rl_sent st). truthful_sent D ls ms pkt)
     \<and> (\<forall>k r. chan (view_oneshot V) (rl_channels st) k = Delivered r \<longrightarrow> truthful_response D ls r)
     \<and> table_inv (view_oneshot V) (message_uid ` set ms) (rl_commander st) (rl_channels st)"

lemma origin_invD:
  assumes "origin_inv D V ls ms st"
  shows "x \<in> set (box V st a) \<Longrightarrow> truthful_mail D ls ms x"
    and "m \<in> ran (forwarding (view_ctx V) (rl_ctx st)) \<Longrightarrow> ground_request D ls m"
    and "(s, pkt) \<in> set (rl_sent st) \<Longrightarrow> truthful_sent D ls ms pkt"
    and "chan (view_oneshot V) (rl_channels st) k = Delivered r \<Longrightarrow> truthful_response D ls r"
    and "table_inv (view_oneshot V) (message_uid ` set ms) (rl_commander st) (rl_channels st)"
  using assms unfolding origin_inv_def by blast+

lemma ground_request_mono: "ground_request D ls m \<Longrightarrow> ground_request D (ls @ ls') m"
  by (simp add: ground_request_def said_mono)

lemma truthful_sent_mono: "truthful_sent D ls ms pkt \<Longrightarrow> truthful_sent D (ls @ ls') (ms @ ms') pkt"
  unfolding truthful_sent_def using truthful_mono by blast

lemma table_inv_mono: "table_inv V ids c w \<Longrightarrow> ids \<subseteq> ids' \<Longrightarrow> table_inv V ids' c w"
  unfolding table_inv_def by blast


subsection \<open>Every step keeps it\<close>

lemma send_request_frame:
  "rl_machine (send_request D msg st) = rl_machine st" "rl_ctx (send_request D msg st) = rl_ctx st"
  "rl_channels (send_request D msg st) = rl_channels st" "rl_raw (send_request D msg st) = rl_raw st"
  "rl_sent (send_request D msg st) = rl_sent st"
  "requests (rl_commander (send_request D msg st)) = requests (rl_commander st)"
  by (simp_all add: send_request_def commander_started_def)

lemma send_task_frame:
  "rl_machine (send_task D now t st) = rl_machine st" "rl_ctx (send_task D now t st) = rl_ctx st"
  "rl_channels (send_task D now t st) = rl_channels st" "rl_raw (send_task D now t st) = rl_raw st"
  "rl_sent (send_task D now t st) = rl_sent st"
  "requests (rl_commander (send_task D now t st)) = requests (rl_commander st)"
  using send_task_requests [of D now t st]
  by (cases "task_requests st now t"; auto simp: send_request_frame)+

text \<open>The responses that mail brings to the commander.\<close>

fun brought_response :: "mail \<Rightarrow> response option" where
  "brought_response (BrokerMail (AckMessageB m)) = Some (ResponseMessage m)"
| "brought_response (BrokerMail (AntMessageB p)) = Some (ResponseAnt p)"
| "brought_response x = None"

fun requested_ids :: "mail \<Rightarrow> unique_id set" where
  "requested_ids (RequestMail m) = {message_uid m}"
| "requested_ids x = {}"

context relay_laws
begin

lemma step_issues_truthful:
  assumes inv: "relay_inv D V st" and o: "origin_inv D V ls ms st"
    and "relay_env D V st l st'" and b: "b \<in> set (step_issues D V st l)"
  shows "truthful D (ls @ [l]) (ms @ ms') b"
  using assms(3)
proof cases
  case (deliver a x xs)
  then have x: "x \<in> set (box V st a)" by simp
  have "truthful D ls ms b"
    by (rule issues_truthful [OF cs_length origin_invD(1) [OF o x] mail_okD(1) [OF relay_invD(2) [OF inv] x]])
      (use deliver(1,2) b in simp)
  then show ?thesis by (rule truthful_mono)
next
  case (datagram pkt out)
  then show ?thesis using uplink_truthful [of D pkt out b] b by simp
next
  case (serial_item item msg)
  then show ?thesis using b
    by (auto simp: raw_reader_item_def stream_item_def split: sum.splits cobs_error.splits)
qed (use b in auto)

lemma step_mail_truthful:
  assumes inv: "relay_inv D V st" and o: "origin_inv D V ls ms st" and st: "relay_env D V st l st'"
    and x: "x \<in> set (box V st' a)"
  shows "truthful_mail D (ls @ [l]) (ms @ step_requests V st l) x"
proof -
  consider (old) "x \<in> set (box V st a)"
    | (issued) b where "x = BrokerMail b" "b \<in> set (step_issues D V st l)"
    | (requested) m where "x = RequestMail m" "m \<in> set (step_requests V st l)"
    using x unfolding step_boxes [OF inv st] by (auto dest: in_popped split: if_splits)
  then show ?thesis
  proof cases
    case old
    then show ?thesis using origin_invD(1) [OF o] truthful_mail_mono by blast
  next
    case issued
    then show ?thesis using step_issues_truthful [OF inv o st] by simp
  qed simp
qed

text \<open>The futures that forward.\<close>

lemma machine_forwarding:
  assumes "machine_ok (dep_crc8 D) (view_ctx V) m c"
    and "sm_env (dep_ctx D) (view_ctx V) (m, c) l (m', c')" and "\<And>msg. l \<noteq> UpCommand msg"
  shows "ran (forwarding (view_ctx V) c') \<subseteq> ran (forwarding (view_ctx V) c)"
proof -
  have "sm_inv (view_ctx V) m c" using assms(1) by (simp add: machine_ok_def)
  from ctx.sm_env_forwarding [OF this assms(2)] assms(3)
  show ?thesis by (cases l) (auto simp: ran_def split: if_splits)
qed

lemma machine_mail_forwarding:
  assumes ok: "machine_ok (dep_crc8 D) (view_ctx V) (rl_machine st) (rl_ctx st)"
    and "machine_mail D x st = Continues st'" and m: "m \<in> ran (forwarding (view_ctx V) (rl_ctx st'))"
  shows "m \<in> ran (forwarding (view_ctx V) (rl_ctx st))
    \<or> x = BrokerMail (GroundUpCommand m) \<and> destination (message_header m) \<in> {Ant, CentralStation}"
proof -
  have inv: "sm_inv (view_ctx V) (rl_machine st) (rl_ctx st)" using ok by (simp add: machine_ok_def)
  consider (same) "rl_ctx st' = rl_ctx st"
    | (up) msg mc where "x = BrokerMail (GroundUpCommand msg)"
        "handle_up_command (dep_ctx D) msg (rl_machine st) (rl_ctx st) = Running (mc, rl_ctx st')"
    | (down) msg mc where
        "handle_down_message (dep_ctx D) msg (rl_machine st) (rl_ctx st) = Running (mc, rl_ctx st')"
    using assms(2)
    by (cases x)
      (auto simp: machine_mail_def machine_result_def split: broker_msg.splits process.splits)
  then show ?thesis
  proof cases
    case same
    then show ?thesis using m by simp
  next
    case (up msg mc)
    then show ?thesis using ctx.sm_env_forwarding [OF inv sm_env.up [OF up(2)]] m
      by (auto simp: ran_def split: if_splits)
  next
    case (down msg mc)
    then show ?thesis using ctx.sm_env_forwarding [OF inv sm_env.down [OF down]] m by simp
  qed
qed

lemma step_forwarding:
  assumes inv: "relay_inv D V st" and o: "origin_inv D V ls ms st" and "relay_env D V st l st'"
    and m: "m \<in> ran (forwarding (view_ctx V) (rl_ctx st'))"
  shows "ground_request D ls m"
proof -
  note old = origin_invD(2) [OF o] and ok = relay_invD(1) [OF inv]
  have fin: "ran (forwarding (view_ctx V) (finish (view_ctx V) h (rl_ctx st)))
      \<subseteq> ran (forwarding (view_ctx V) (rl_ctx st))" 
    if lv: "live (view_ctx V) (rl_ctx st) h = Some t" and once: "sends_once t" for h t
  proof -
    obtain fwd where "t = PingCs \<or> t = AntStopRetry \<or> t = Forward fwd" using once by (cases t) auto
    from machine_forwarding [OF ok sm_env.other_done [OF lv this]] show ?thesis by blast
  qed
  show ?thesis using assms(3)
  proof cases
    case (deliver a x xs)
    show ?thesis
    proof (cases "a = AStateMachine")
      case True
      then have h: "machine_mail D x (taken V a st) = Continues st'"
        using deliver(3) by (simp add: handle_mail_def)
      have "machine_ok (dep_crc8 D) (view_ctx V) (rl_machine (taken V a st)) (rl_ctx (taken V a st))"
        using ok by simp
      from machine_mail_forwarding [OF this h m] show ?thesis
        using old origin_invD(1) [OF o, of x a] deliver(2) by (auto simp: ground_request_def)
    next
      case False
      then show ?thesis using handle_mail_frame [OF deliver(3)] m old by simp
    qed
  next
    case (one_shot h t now)
    then show ?thesis using fin m old by (auto simp: send_task_frame)
  next
    case (wait_send t ts now)
    have "ran (forwarding (view_ctx V) (wait_done (view_ctx V) (rl_ctx st)))
        \<subseteq> ran (forwarding (view_ctx V) (rl_ctx st))"
      using machine_forwarding [OF ok sm_env.wait_end [OF wait_send(3)]] by simp
    then show ?thesis using wait_send(2) m old by (auto simp: send_task_frame split: if_splits)
  next
    case (machine k mc c)
    have "ran (forwarding (view_ctx V) c) \<subseteq> ran (forwarding (view_ctx V) (rl_ctx st))"
      by (rule machine_forwarding [OF ok machine(4)]) (use machine(3) in \<open>auto simp: machine_internal_def\<close>)
    then show ?thesis using machine(2) m old by auto
  qed (use m old in \<open>auto simp: send_task_frame\<close>)
qed


text \<open>What the downlink sends.\<close>

lemma downlink_mail_sent:
  assumes "downlink_mail D i x st = Continues st'"
  shows "rl_sent st' = rl_sent st
    \<or> (\<exists>b d s pkt. x = BrokerMail b \<and> downlink_extract b = Some d
        \<and> Option.bind (dep_serialize D d) (brotli_compress (dep_compress D)) = Some pkt
        \<and> rl_sent st' = rl_sent st @ [(s, pkt)])"
  using assms
  by (cases x)
    (auto simp: downlink_mail_def downlink_handle_def gen_handle_def
      split: option.splits downlink_reaction.splits if_splits)

lemma step_sent:
  assumes inv: "relay_inv D V st" and o: "origin_inv D V ls ms st" and "relay_env D V st l st'"
    and s: "(s, pkt) \<in> set (rl_sent st')"
  shows "truthful_sent D ls ms pkt"
  using assms(3)
proof cases
  case (deliver a x xs)
  then have "x \<in> set (box V st a)" by simp
  then have x: "truthful_mail D ls ms x" by (rule origin_invD(1) [OF o])
  show ?thesis
  proof (cases "\<exists>i. a = ADownlink i")
    case True
    then obtain i where "downlink_mail D i x (taken V a st) = Continues st'"
      using deliver(3) by (auto simp: handle_mail_def)
    from downlink_mail_sent [OF this] show ?thesis
      using s x origin_invD(3) [OF o] unfolding truthful_sent_def by fastforce
  next
    case False
    then have "rl_sent st' = rl_sent st"
      using deliver(3)
      by (cases a; cases x) (auto simp: handle_mail_def mail_defs Let_def
          split: broker_msg.splits prod.splits process.splits option.splits)
    then show ?thesis using s origin_invD(3) [OF o] by simp
  qed
qed (use s origin_invD(3) [OF o] in \<open>auto simp: send_task_frame split: if_splits\<close>)

text \<open>What the callers get.\<close>

lemma take_and_send_delivers:
  assumes "table_inv (view_oneshot V) ids c w"
    and "take_and_send (dep_oneshot D) uid r c w = (c', w')"
    and "chan (view_oneshot V) w' k = Delivered r'"
  shows "chan (view_oneshot V) w k = Delivered r' \<or> r' = r"
proof (cases "requests c uid")
  case None
  then show ?thesis using assms by (simp add: take_and_send_def)
next
  case (Some tx)
  then have w': "w' = snd (tx_send (dep_oneshot D) tx r w)"
    using assms(2) by (auto simp: take_and_send_def)
  show ?thesis
    using table_invD(1) [OF assms(1) Some] oneshot.send_open [of w tx r] oneshot.send_gone [of w tx r]
      assms(3) by (auto simp: w' split: if_splits)
qed

lemma commander_mail_delivers:
  assumes t: "table_inv (view_oneshot V) ids (rl_commander st) (rl_channels st)"
    and h: "commander_mail D x st = Continues st'"
    and d: "chan (view_oneshot V) (rl_channels st') k = Delivered r"
  shows "chan (view_oneshot V) (rl_channels st) k = Delivered r \<or> brought_response x = Some r"
proof (cases x)
  case (RequestMail msg)
  obtain j w where ch: "channel (dep_oneshot D) (rl_channels st) = (j, w)" by fastforce
  then have "chan (view_oneshot V) w = (chan (view_oneshot V) (rl_channels st))(j := Open)"
    using oneshot.chan_channel [of "rl_channels st"] by simp
  moreover have "rl_channels st'
      = drop_sender (dep_oneshot D) (requests (rl_commander st) (header_unique_id (message_header msg))) w"
    using h by (auto simp: RequestMail commander_mail_def handle_request_def ch Let_def)
  ultimately show ?thesis using d
    by (auto simp: drop_sender_def oneshot.chan_tx_drop split: option.splits if_splits)
next
  case (BrokerMail b)
  show ?thesis using h d
    by (cases b) (auto simp: BrokerMail commander_mail_def handle_ack_message_def
        handle_ant_message_def split: prod.splits if_splits source_info.splits
        dest: take_and_send_delivers [OF t])
qed

lemma commander_mail_ids:
  assumes t: "table_inv (view_oneshot V) ids (rl_commander st) (rl_channels st)"
    and h: "commander_mail D x st = Continues st'"
  shows "table_inv (view_oneshot V) (ids \<union> requested_ids x) (rl_commander st') (rl_channels st')"
proof -
  note step = oneshot.commander_step_inv [OF t]
  show ?thesis
  proof (cases x)
    case (RequestMail msg)
    then show ?thesis using h step [of "DoRequest msg"]
      by (auto simp: commander_mail_def op_ids_def message_uid_def split: prod.splits)
  next
    case (BrokerMail b)
    then show ?thesis using h t step [of "GotAck _"] step [of "GotAnt _"]
      by (cases b) (auto simp: commander_mail_def op_ids_def split: prod.splits)
  qed
qed


lemma step_commander:
  assumes inv: "relay_inv D V st" and o: "origin_inv D V ls ms st" and "relay_env D V st l st'"
  shows "(\<forall>k r. chan (view_oneshot V) (rl_channels st') k = Delivered r \<longrightarrow> truthful_response D ls r)
    \<and> table_inv (view_oneshot V) (message_uid ` set ms) (rl_commander st') (rl_channels st')"
proof -
  note old = origin_invD(4,5) [OF o]
  have same: ?thesis if "requests (rl_commander st') = requests (rl_commander st)"
    "rl_channels st' = rl_channels st"
    using old that unfolding table_inv_def by simp
  show ?thesis using assms(3)
  proof cases
    case (deliver a x xs)
    show ?thesis
    proof (cases "a = ACommander")
      case True
      let ?st0 = "taken V a st"
      have h: "commander_mail D x ?st0 = Continues st'" using deliver(3) True by (simp add: handle_mail_def)
      have t: "table_inv (view_oneshot V) (message_uid ` set ms) (rl_commander ?st0) (rl_channels ?st0)"
        using old(2) by simp
      have "x \<in> set (box V st a)" using deliver(2) by simp
      then have x: "truthful_mail D ls ms x" by (rule origin_invD(1) [OF o])
      then have "requested_ids x \<subseteq> message_uid ` set ms" by (cases x) auto
      moreover have "truthful_response D ls r" if "brought_response x = Some r" for r
        using x that by (cases x rule: brought_response.cases) auto
      ultimately show ?thesis
        using commander_mail_ids [OF t h] commander_mail_delivers [OF t h] old(1)
        by (simp add: Un_absorb2) blast
    next
      case False
      then show ?thesis using handle_mail_frame [OF deliver(3)] same by simp
    qed
  next
    case garbage
    then show ?thesis using old(1) oneshot.commander_step_inv [OF old(2), of Collect]
      by (simp add: op_ids_def)
  next
    case (caller_gone k)
    then show ?thesis using old(1) oneshot.commander_step_inv [OF old(2), of "Abandon k"]
      by (auto simp: op_ids_def oneshot.chan_rx_drop split: if_splits)
  qed (use same in \<open>simp_all add: send_task_frame split: if_splits\<close>)
qed

lemma step_origin:
  assumes inv: "relay_inv D V st" and o: "origin_inv D V ls ms st" and st: "relay_env D V st l st'"
  shows "origin_inv D V (ls @ [l]) (ms @ step_requests V st l) st'"
proof -
  have "table_inv (view_oneshot V) (message_uid ` set (ms @ step_requests V st l))
      (rl_commander st') (rl_channels st')"
    using step_commander [OF inv o st] by (auto intro: table_inv_mono)
  moreover have "\<forall>a. \<forall>x \<in> set (box V st' a). truthful_mail D (ls @ [l]) (ms @ step_requests V st l) x"
    using step_mail_truthful [OF inv o st] by blast
  moreover have "\<forall>m \<in> ran (forwarding (view_ctx V) (rl_ctx st')). ground_request D (ls @ [l]) m"
    using step_forwarding [OF inv o st] ground_request_mono by blast
  moreover have "\<forall>(s, pkt) \<in> set (rl_sent st'). truthful_sent D (ls @ [l]) (ms @ step_requests V st l) pkt"
    using step_sent [OF inv o st] truthful_sent_mono by blast
  ultimately show ?thesis
    using step_commander [OF inv o st] truthful_response_mono unfolding origin_inv_def by blast
qed

lemma run_origin:
  "request_run D V st ls' ms' st' \<Longrightarrow> relay_inv D V st \<Longrightarrow> origin_inv D V ls ms st \<Longrightarrow>
    origin_inv D V (ls @ ls') (ms @ ms') st'"
proof (induction arbitrary: ls ms rule: request_run.induct)
  case (request_cons st l st' ls' ms' st'')
  have "relay_inv D V st'" by (rule relay_env_inv [OF request_cons.hyps(1) request_cons.prems(1)])
  from request_cons.IH [OF this step_origin [OF request_cons.prems request_cons.hyps(1)]]
  show ?case by simp
qed simp

end

subsection \<open>The way to the port as a queue\<close>

text \<open>The packets that the mail of the commander, the serial actor and the port still becomes,
  and with them what the port's writer holds: the oldest first.\<close>

fun in_pipe :: "(bytes \<Rightarrow> u8) \<Rightarrow> actor_id \<Rightarrow> mail \<Rightarrow> bytes list" where
  "in_pipe crc8 ARawIO (BrokerMail (RawUpPacket p)) = [p]"
| "in_pipe crc8 ASerial (BrokerMail (UpMessageB m)) = [message_wire crc8 (val m)]"
| "in_pipe crc8 ACommander (RequestMail m) = [message_wire crc8 (val m)]"
| "in_pipe crc8 a x = []"

definition piped :: "(bytes \<Rightarrow> u8) \<Rightarrow> actor_id \<Rightarrow> mail list \<Rightarrow> bytes list" where
  "piped crc8 a xs = concat (map (in_pipe crc8 a) xs)"

definition port_queue :: "('q \<Rightarrow> bytes list) \<Rightarrow> ('h, 'c, 'k, 'w, 'q, 's, 'b) relay \<Rightarrow> bytes list" where
  "port_queue queue st = (case raw_tx (rl_raw st) of None \<Rightarrow> [] | Some tx \<Rightarrow> queue tx)"

definition pipeline ::
  "('h, 'c, 'k, 'w, 'q, 'b) relay_deps \<Rightarrow> ('h, 'c, 'k, 'w, 'b) relay_views \<Rightarrow> ('q \<Rightarrow> bytes list)
     \<Rightarrow> ('h, 'c, 'k, 'w, 'q, 's, 'b) relay \<Rightarrow> bytes list" where
  "pipeline D V queue st = port_queue queue st
     @ piped (dep_crc8 D) ARawIO (box V st ARawIO)
     @ piped (dep_crc8 D) ASerial (box V st ASerial)
     @ piped (dep_crc8 D) ACommander (box V st ACommander)"

definition port_alive :: "('q \<Rightarrow> bool) \<Rightarrow> ('h, 'c, 'k, 'w, 'q, 's, 'b) relay \<Rightarrow> bool" where
  "port_alive alive st \<longleftrightarrow> (\<forall>tx. raw_tx (rl_raw st) = Some tx \<longrightarrow> alive tx)"

lemma piped_simps [simp]:
  "piped crc8 a [] = []" "piped crc8 a (x # xs) = in_pipe crc8 a x @ piped crc8 a xs"
  "piped crc8 a (xs @ ys) = piped crc8 a xs @ piped crc8 a ys"
  by (simp_all add: piped_def)

lemma piped_requests [simp]:
  "piped crc8 ACommander (map RequestMail ms) = map (\<lambda>m. message_wire crc8 (val m)) ms"
  by (induction ms) simp_all

text \<open>What the handlers and the environment issue reaches the way to the port only as the
  commander's messages and the serial actor's packets.\<close>

definition off_pipe :: "broker_msg \<Rightarrow> bool" where
  "off_pipe b \<longleftrightarrow> kind_of b \<notin> {KUpMessage, KRawUpPacket}"

lemma piped_off:
  "(\<And>b. b \<in> set out \<Longrightarrow> off_pipe b) \<Longrightarrow> piped crc8 a (map BrokerMail (filter P out)) = []"
proof (induction out)
  case (Cons b out)
  have "in_pipe crc8 a (BrokerMail b) = []"
    using Cons.prems [of b] by (cases a; cases b) (simp_all add: off_pipe_def)
  then show ?case using Cons by simp
qed simp

lemma issues_off:
  assumes "a \<notin> {ACommander, ASerial}" and "b \<in> set (issues D a x)"
  shows "off_pipe b"
proof (cases x)
  case (BrokerMail c)
  show ?thesis
  proof (cases c)
    case (DownMessageB m)
    then show ?thesis using assms ant_decode_issues [of "dep_cs D" "dep_crc8 D" m]
      by (cases "ant_decode (dep_cs D) (dep_crc8 D) m")
        (fastforce simp: BrokerMail issues_def off_pipe_def split: if_splits)+
  qed (use assms in \<open>auto simp: BrokerMail issues_def\<close>)
qed (use assms in \<open>auto simp: issues_def\<close>)

lemma serial_down_off: "b \<in> set (issued_list (serial_handle_down crc8 pkt)) \<Longrightarrow> off_pipe b"
  by (cases rule: serial_down_cases [of crc8 pkt])
    (auto simp: off_pipe_def try_issue_ack_def split: source_info.splits)

lemma in_pipe_serial [simp]: "\<nexists>m. x = BrokerMail (UpMessageB m) \<Longrightarrow> in_pipe crc8 ASerial x = []"
  by (cases "(crc8, ASerial, x)" rule: in_pipe.cases) auto

lemma env_issues_off:
  assumes "\<And>a. l \<noteq> Deliver a" and "b \<in> set (step_issues D V st l)"
  shows "off_pipe b"
proof (cases l)
  case (UplinkDatagram pkt)
  then show ?thesis
    by (cases rule: uplink_cases [of "dep_crc8 D" pkt]) (use assms(2) in \<open>auto simp: off_pipe_def\<close>)
qed (use assms in \<open>auto simp: off_pipe_def raw_reader_item_def stream_item_def
  split: sum.splits cobs_error.splits\<close>)

context relay_laws
begin

lemma raw_mail_queue:
  assumes "raw_mail D x st = Continues st'" and "port_alive alive st"
  shows "subseq (port_queue queue st') (port_queue queue st @ in_pipe (dep_crc8 D) ARawIO x)"
    and "port_alive alive st'"
proof -
  have send: "alive tx \<Longrightarrow> alive (snd (mpsc_send (dep_mpsc D) p tx))
      \<and> queue (snd (mpsc_send (dep_mpsc D) p tx)) = queue tx @ [p]" for tx p
    using mpsc.send_alive by blast
  show "subseq (port_queue queue st') (port_queue queue st @ in_pipe (dep_crc8 D) ARawIO x)"
    "port_alive alive st'"
    using assms send
    by (cases x; auto simp: raw_mail_def raw_handle_up_def port_queue_def port_alive_def
        split: broker_msg.splits option.splits)+
qed

text \<open>The serial actor turns a message into its packet, which is lost while no port is there.\<close>

lemma serial_issues_piped:
  assumes co: "mail_coherent (dep_crc8 D) x"
  shows "subseq (piped (dep_crc8 D) ARawIO (map BrokerMail (filter P (issues D ASerial x))))
      (in_pipe (dep_crc8 D) ASerial x)
    \<and> (a \<noteq> ARawIO \<longrightarrow> piped (dep_crc8 D) a (map BrokerMail (filter P (issues D ASerial x))) = [])"
proof (cases "\<exists>m. x = BrokerMail (UpMessageB m)")
  case True
  then obtain m where "x = BrokerMail (UpMessageB m)" by blast
  moreover have "issues D ASerial (BrokerMail (UpMessageB m)) = [RawUpPacket (message_wire (dep_crc8 D) (val m))]"
    using co calculation serial_up_coherent by (simp add: issues_def)
  ultimately show ?thesis by (cases a) simp_all
next
  case False
  then have "off_pipe d" if "d \<in> set (issues D ASerial x)" for d
    using that serial_down_off by (auto simp: issues_def split: mail.splits broker_msg.splits)
  from piped_off [OF this] show ?thesis using False by simp
qed

text \<open>A delivery moves a packet along the way, or loses it; it never adds or reorders one.\<close>

lemma deliver_pipeline:
  assumes inv: "relay_inv D V st" and st: "relay_env D V st (Deliver a) st'"
    and al: "port_alive alive st"
  shows "subseq (pipeline D V queue st') (pipeline D V queue st) \<and> port_alive alive st'"
proof -
  obtain x xs where x: "box V st a = x # xs" and h: "handle_mail D a x (taken V a st) = Continues st'"
    and b: "\<And>c. box V st' c = (if c = a then xs else box V st c)
      @ map BrokerMail (filter (\<lambda>b. has_started st c \<and> kind_of b \<in> set (subscriptions c)) (issues D a x))"
    by (rule deliver_boxes [OF inv st]) blast
  have co: "mail_coherent (dep_crc8 D) x" using mail_okD(1) [OF relay_invD(2) [OF inv], of x a] x by simp
  have raw: "port_queue queue st' = port_queue queue st \<and> port_alive alive st'" if "a \<noteq> ARawIO"
    using handle_mail_frame [OF h] that al by (simp add: port_queue_def port_alive_def)
  consider (commander) "a = ACommander" | (serial) "a = ASerial" | (raw) "a = ARawIO"
    | (other) "a \<notin> {ACommander, ASerial, ARawIO}"
    by blast
  then show ?thesis
  proof cases
    case commander
    have "issues D ACommander x = (case x of RequestMail m \<Rightarrow> [UpMessageB m] | _ \<Rightarrow> [])"
      by (auto simp: issues_def split: mail.splits broker_msg.splits)
    then show ?thesis using raw b x commander
      by (cases x) (simp_all add: pipeline_def subscription_defs)
  next
    case serial
    then show ?thesis using raw b x serial_issues_piped [OF co]
      by (simp add: pipeline_def subseq_append' flip: append_assoc)
  next
    case raw
    have h': "raw_mail D x (taken V a st) = Continues st'" using h raw by (simp add: handle_mail_def)
    have "port_alive alive (taken V a st)" "port_queue queue (taken V a st) = port_queue queue st"
      using al by (simp_all add: port_alive_def port_queue_def)
    moreover have "issues D ARawIO x = []" by (auto simp: issues_def split: mail.splits broker_msg.splits)
    ultimately show ?thesis using raw_mail_queue [OF h'] b x raw
      by (simp add: pipeline_def flip: append_assoc)
  next
    case other
    then have "off_pipe d" if "d \<in> set (issues D a x)" for d using issues_off that by blast
    moreover have "ACommander \<noteq> a" "ASerial \<noteq> a" "ARawIO \<noteq> a" using other by auto
    ultimately show ?thesis using raw b by (simp add: pipeline_def piped_off)
  qed
qed

lemma step_pipeline:
  assumes inv: "relay_inv D V st" and st: "relay_env D V st l st'" and al: "port_alive alive st"
  shows "subseq (pipeline D V queue st')
      (pipeline D V queue st @ map (\<lambda>m. message_wire (dep_crc8 D) (val m)) (step_requests V st l))
    \<and> port_alive alive st'"
proof (cases "\<exists>a. l = Deliver a")
  case True
  then show ?thesis using deliver_pipeline [OF inv _ al] st by auto
next
  case False
  then have off: "off_pipe b" if "b \<in> set (step_issues D V st l)" for b
    using env_issues_off that by blast
  have p: "piped (dep_crc8 D) a (box V st' a) = piped (dep_crc8 D) a (box V st a)
      @ (if a = ACommander then map (\<lambda>m. message_wire (dep_crc8 D) (val m)) (step_requests V st l) else [])" for a
    using False piped_off [OF off] by (simp add: step_boxes [OF inv st] popped_def)
  have "rl_raw st' = rl_raw st \<or> port_queue queue st' = [] \<and> port_alive alive st'"
    using st
  proof cases
    case (raw_connect opened r)
    then show ?thesis using mpsc.new_queue
      by (auto simp: raw_connected_def port_queue_def port_alive_def split: if_splits)
  next
    case raw_restart
    then show ?thesis by (simp add: raw_restarting_def port_queue_def port_alive_def)
  qed (use False in \<open>simp_all add: send_task_frame\<close>)
  then show ?thesis using al
    by (elim disjE conjE) (auto simp: pipeline_def p port_queue_def port_alive_def)
qed

lemma run_pipeline:
  "request_run D V st ls ms st' \<Longrightarrow> relay_inv D V st \<Longrightarrow> port_alive alive st \<Longrightarrow>
    subseq (pipeline D V queue st')
      (pipeline D V queue st @ map (\<lambda>m. message_wire (dep_crc8 D) (val m)) ms)"
proof (induction rule: request_run.induct)
  case (request_cons st l st' ls ms st'')
  let ?w = "map (\<lambda>m. message_wire (dep_crc8 D) (val m))"
  note s = step_pipeline [OF request_cons.prems(1) request_cons.hyps(1) request_cons.prems(2)]
  have "relay_inv D V st'" by (rule relay_env_inv [OF request_cons.hyps(1) request_cons.prems(1)])
  then have "subseq (pipeline D V queue st'') (pipeline D V queue st' @ ?w ms)"
    using request_cons.IH s by blast
  moreover have "subseq (pipeline D V queue st' @ ?w ms)
      ((pipeline D V queue st @ ?w (step_requests V st l)) @ ?w ms)"
    using s by (intro list_emb_append_mono) auto
  ultimately show ?case using subseq_order.order_trans by fastforce
qed simp

end

subsection \<open>Runs from the start\<close>

definition relay_started ::
  "('h, 'c, 'k, 'w, 'q, 'b) relay_deps \<Rightarrow> ('h, 'c, 'k, 'w, 'b) relay_views
     \<Rightarrow> ('h, 'c, 'k, 'w, 'q, 's, 'b) relay \<Rightarrow> bool" where
  "relay_started D V st \<longleftrightarrow>
     (\<exists>c w b. fresh_context (view_ctx V) c \<and> (\<forall>h. chan (view_oneshot V) w h = Unused)
        \<and> (\<forall>a. inbox (view_mail V) b a = [])
        \<and> (\<forall>k a. \<not> subscribed_to (view_mail V) b k a) \<and> st = relay_boot D c w b)"

lemma reachable_started:
  "reachable_relay D V st \<longleftrightarrow> (\<exists>st0 ls. relay_started D V st0 \<and> relay_run D V st0 ls st)"
  unfolding reachable_relay_def relay_started_def by blast

lemma reachable_requests:
  "reachable_relay D V st \<Longrightarrow> \<exists>st0 ls ms. relay_started D V st0 \<and> request_run D V st0 ls ms st"
  using relay_run_request_run unfolding reachable_started by blast

text \<open>The commands that the relay makes itself, by the step that sends them; the moment of the
  step is part of the message.\<close>

fun commanded_at :: "('h, 'k, 's) relay_label \<Rightarrow> message \<Rightarrow> bool" where
  "commanded_at (OneShot h now) m = (\<exists>n. m = message_command \<lparr> env_time = epoch_now now, env_seq = n \<rparr> CentralStation CSPing)"
| "commanded_at (RetrySend h now) m = (\<exists>n. m = message_command \<lparr> env_time = epoch_now now, env_seq = n \<rparr> CentralStation CSGarageOpen
     \<or> m = message_command \<lparr> env_time = epoch_now now, env_seq = n \<rparr> Ant AntStop)"
| "commanded_at (WaitSend now) m = (\<exists>n. m = message_command \<lparr> env_time = epoch_now now, env_seq = n \<rparr> Ant AntStart
     \<or> m = message_command \<lparr> env_time = epoch_now now, env_seq = n \<rparr> CentralStation CSPing
     \<or> m = message_command \<lparr> env_time = epoch_now now, env_seq = n \<rparr> Ant AntPing)"
| "commanded_at l m = False"

definition genuine_request ::
  "('h, 'c, 'k, 'w, 'q, 'b) relay_deps \<Rightarrow> ('h, 'k, 's) relay_label list \<Rightarrow> message \<Rightarrow> bool" where
  "genuine_request D ls m \<longleftrightarrow> ground_request D ls m \<or> (\<exists>l \<in> set ls. commanded_at l m)"

lemma genuine_mono: "genuine_request D ls m \<Longrightarrow> genuine_request D (ls @ ls') m"
  by (auto simp: genuine_request_def ground_request_mono)

lemma params_env: "fst (params_query now k) = \<lparr> env_time = epoch_now now, env_seq = k \<rparr>"
  by (simp add: params_query_def seq_handle_def time_handle_def)

context relay_laws
begin

lemma started_parts:
  assumes "relay_started D V st"
  shows "relay_inv D V st" and "origin_inv D V [] [] st" and "port_alive alive st"
    and "pipeline D V queue st = []"
proof -
  obtain c w b where fr: "fresh_context (view_ctx V) c" "\<And>h. chan (view_oneshot V) w h = Unused"
    "\<And>a. inbox (view_mail V) b a = []" "\<And>k a. \<not> subscribed_to (view_mail V) b k a"
    and st: "st = relay_boot D c w b"
    using assms unfolding relay_started_def by blast
  show "relay_inv D V st" unfolding st by (rule relay_boot_inv [OF fr(1,3,4)])
  have "forwarding (view_ctx V) c h = None" for h
    using fr(1) by (simp add: fresh_context_def forwarding_def)
  moreover have "table_inv (view_oneshot V) {} commander_default w"
    using fr(2) by (simp add: table_inv_def commander_default_def)
  moreover have "rl_sent st = []" by (simp add: st relay_boot_def Let_def case_prod_beta)
  ultimately show "origin_inv D V [] [] st"
    using fr(2,3) by (simp add: st origin_inv_def relay_boot_simps ran_def)
  show "port_alive alive st" "pipeline D V queue st = []"
    using fr(3) by (simp_all add: st port_alive_def pipeline_def port_queue_def relay_boot_simps raw_io_new_def)
qed

lemma step_genuine:
  assumes o: "origin_inv D V ls ms st" and "relay_env D V st l st'"
    and m: "m \<in> set (step_requests V st l)"
  shows "genuine_request D (ls @ [l]) m"
proof -
  have fwd: "ground_request D (ls @ [l]) msg" if "live (view_ctx V) (rl_ctx st) h = Some (Forward msg)" for h msg
    using origin_invD(2) [OF o] that ground_request_mono by (meson forwarding_Some ranI)
  have task: "task_message \<lparr> env_time = epoch_now now, env_seq = rl_seq st \<rparr> t = Some m"
    if "m \<in> set (task_requests st now t)" for now t
    using that by (simp add: task_requests_def params_env split: option.splits)
  show ?thesis using assms(2)
  proof cases
    case (one_shot h t now)
    have "task_message \<lparr> env_time = epoch_now now, env_seq = rl_seq st \<rparr> t = Some m"
      by (rule task) (use m one_shot in simp)
    then show ?thesis using one_shot fwd by (cases t) (auto simp: genuine_request_def)
  next
    case (retry_send h t now)
    have "task_message \<lparr> env_time = epoch_now now, env_seq = rl_seq st \<rparr> t = Some m"
      by (rule task) (use m retry_send in simp)
    then show ?thesis using retry_send by (cases t) (auto simp: genuine_request_def)
  next
    case (wait_send t ts now)
    have "task_message \<lparr> env_time = epoch_now now, env_seq = rl_seq st \<rparr> t = Some m"
      by (rule task) (use m wait_send in simp)
    then show ?thesis using wait_send by (cases t) (auto simp: genuine_request_def)
  qed (use m in simp_all)
qed

lemma run_genuine:
  "request_run D V st ls' ms' st' \<Longrightarrow> relay_inv D V st \<Longrightarrow> origin_inv D V ls ms st \<Longrightarrow>
    m \<in> set ms' \<Longrightarrow> genuine_request D (ls @ ls') m"
proof (induction arbitrary: ls ms rule: request_run.induct)
  case (request_cons st l st' ls' ms' st'')
  have inv: "relay_inv D V st'" by (rule relay_env_inv [OF request_cons.hyps(1) request_cons.prems(1)])
  note next_origin = step_origin [OF request_cons.prems(1,2) request_cons.hyps(1)]
  show ?case
  proof (cases "m \<in> set (step_requests V st l)")
    case True
    from genuine_mono [OF step_genuine [OF request_cons.prems(2) request_cons.hyps(1) this]]
    show ?thesis by simp
  next
    case False
    then have "m \<in> set ms'" using request_cons.prems(3) by simp
    from request_cons.IH [OF inv next_origin this] show ?thesis by simp
  qed
qed simp

end

lemma sample_started: "relay_started sample_deps sample_views sample_boot"
proof -
  have "fresh_context (view_ctx sample_views) empty_table"
    by (simp add: sample_views_def fresh_empty_table)
  moreover have "chan (view_oneshot sample_views) [] h = Unused" for h
    by (simp add: sample_views_def list_channels_view_def)
  moreover have "inbox (view_mail sample_views) no_mail a = []"
    "\<not> subscribed_to (view_mail sample_views) no_mail k a" for k a
    by (simp_all add: sample_views_def list_mail_view_def no_mail_def)
  ultimately show ?thesis unfolding relay_started_def sample_boot_def by blast
qed

subsection \<open>The port speaks requests, in order\<close>

lemma port_queue_requested:
  assumes "relay_laws D V queue alive" and "relay_started D V st0"
    and "request_run D V st0 ls ms st" and "raw_tx (rl_raw st) = Some tx"
  shows "subseq (queue tx) (map (\<lambda>m. message_wire (dep_crc8 D) (val m)) ms)
    \<and> (\<forall>m \<in> set ms. genuine_request D ls m)"
proof -
  note start = relay_laws.started_parts [OF assms(1,2)]
  have "subseq (pipeline D V queue st) (map (\<lambda>m. message_wire (dep_crc8 D) (val m)) ms)"
    using relay_laws.run_pipeline [OF assms(1,3) start(1,3)] start(4) by simp
  moreover have "subseq (queue tx) (pipeline D V queue st)"
    by (simp add: pipeline_def port_queue_def assms(4) list_emb_prefix)
  ultimately have "subseq (queue tx) (map (\<lambda>m. message_wire (dep_crc8 D) (val m)) ms)"
    using subseq_order.order_trans by blast
  moreover have "genuine_request D ls m" if "m \<in> set ms" for m
    using relay_laws.run_genuine [OF assms(1,3) start(1,2) that] by simp
  ultimately show ?thesis by blast
qed

text \<open>C13: the relay says on the serial line what was requested, once and in order.  In every run
  from the start, whatever the environment does and in whatever order the actors take their
  mail, the packets handed to the port's writer since it was opened are the wire forms of a
  subsequence of the messages that the run requested; each of these is a command that arrived
  from the ground for the ant or the central station, or a command that the relay made itself,
  stamped with the moment of the step that sent it.\<close>

theorem port_speaks_requests:
  assumes "relay_laws D V queue alive" and "relay_started D V st0"
    and "request_run D V st0 ls ms st" and "raw_tx (rl_raw st) = Some tx"
  shows "subseq (queue tx) (map (\<lambda>m. message_wire (dep_crc8 D) (val m)) ms)
    \<and> (\<forall>m \<in> set ms. genuine_request D ls m)"
  by (rule port_queue_requested [OF assms])

theorem port_speaks_requests_witness:
  "\<exists>(st :: sample_relay_state) st0 ls ms. relay_started sample_deps sample_views st0
    \<and> request_run sample_deps sample_views st0 ls ms st \<and> sample_port [sample_datagram] st
    \<and> (\<exists>m. m \<in> set ms \<and> sample_datagram = message_wire (dep_crc8 sample_deps) (val m)
         \<and> genuine_request sample_deps ls m)"
proof -
  obtain st :: sample_relay_state where st: "sample_rest st" "sample_port [sample_datagram] st"
    using sample_spoken by blast
  obtain st0 ls ms where r: "relay_started sample_deps sample_views st0"
    "request_run sample_deps sample_views st0 ls ms st"
    using st(1) reachable_requests by blast
  obtain tx where tx: "raw_tx (rl_raw st) = Some tx" "tx = [sample_datagram]"
    using st(2) by (auto simp: port_holds_def)
  from port_speaks_requests [OF sample_laws r tx(1)] have
    "sample_datagram \<in> set (map (\<lambda>m. message_wire (dep_crc8 sample_deps) (val m)) ms)"
    "\<forall>m \<in> set ms. genuine_request sample_deps ls m"
    by (auto simp: tx(2) subseq_singleton_left)
  then obtain m where "m \<in> set ms" "sample_datagram = message_wire (dep_crc8 sample_deps) (val m)"
    "genuine_request sample_deps ls m"
    by auto
  then show ?thesis using r st(2) by blast
qed

subsection \<open>The downlink tells the truth\<close>

fun truthful_downlink ::
  "('h, 'c, 'k, 'w, 'q, 'b) relay_deps \<Rightarrow> ('h, 'k, 's) relay_label list \<Rightarrow> message list
     \<Rightarrow> downlink \<Rightarrow> bool" where
  "truthful_downlink D ls ms (SerialDownlinkRaw p) = (SerialItem (Inr p) \<in> set ls)"
| "truthful_downlink D ls ms (SerialDownlink m) = serial_said D ls (val m)"
| "truthful_downlink D ls ms (SerialUplinkRaw p) =
     (p \<in> set (map (\<lambda>m. message_wire (dep_crc8 D) (val m)) ms))"
| "truthful_downlink D ls ms (SerialUplink m) = (m \<in> set ms)"
| "truthful_downlink D ls ms (UplinkMirror p) = (UplinkDatagram p \<in> set ls)"
| "truthful_downlink D ls ms (UplinkInterpreted m) = ground_said D ls (val m)"
| "truthful_downlink D ls ms (DownlinkLog l) = (TraceLog l \<in> set ls)"

lemma truthful_extract:
  "downlink_extract b = Some d \<Longrightarrow> truthful D ls ms b \<Longrightarrow> truthful_downlink D ls ms d"
  by (cases b) auto

text \<open>C15: the ground is told the truth.  With a serialiser and a compressor that have inverses,
  whatever packet the relay has sent to the ground in a run from the start decompresses and
  deserialises to a value that reports what really happened in the run: a packet or message
  received on the serial line, a datagram or command received from the ground, a log event, or
  a message requested for the serial line (or its packet).\<close>

theorem downlink_tells_truth:
  assumes "relay_laws D V queue alive" and "relay_started D V st0"
    and "request_run D V st0 ls ms st" and "(s, pkt) \<in> set (rl_sent st)"
    and "downlink_codec (dep_serialize D) deserialize (dep_compress D) decompress"
  shows "\<exists>d. truthful_downlink D ls ms d
    \<and> downlink_read deserialize decompress pkt = Some (downlink_fresh d)"
proof -
  note start = relay_laws.started_parts [OF assms(1,2)]
  have "truthful_sent D ls ms pkt"
    using origin_invD(3) [OF relay_laws.run_origin [OF assms(1,3) start(1,2)] assms(4)] by simp
  then obtain b d where d: "truthful D ls ms b" "downlink_extract b = Some d"
    "Option.bind (dep_serialize D d) (brotli_compress (dep_compress D)) = Some pkt"
    unfolding truthful_sent_def by blast
  have "gen_handle (dep_serialize D) (dep_compress D) \<lparr> sender = Some (), downlink_subscribed = True \<rparr> d
      = SendTo () pkt"
    by (simp add: gen_handle_def d(3))
  from downlink_codec.sent_is_read [OF assms(5) this] show ?thesis
    using truthful_extract [OF d(2,1)] by blast
qed

theorem downlink_tells_truth_witness:
  "\<exists>(st :: sample_relay_state) d. rl_sent st = [(4, [6, 1, 2])]
    \<and> truthful_downlink sample_deps
        [DownlinkConnect 0 (Some 4), SerialItem (Inr [1, 2]), Deliver (ADownlink 0) :: (nat, nat, nat) relay_label]
        [] d
    \<and> downlink_read wire_deserialize Some [6, 1, 2] = Some (downlink_fresh d)"
proof -
  let ?ls = "[DownlinkConnect 0 (Some 4), SerialItem (Inr [1, 2]), Deliver (ADownlink 0)]
    :: (nat, nat, nat) relay_label list"
  have "case sample_execs ?ls sample_boot of None \<Rightarrow> False | Some st \<Rightarrow> rl_sent st = [(4, [6, 1, 2])]"
    by code_simp
  then obtain st where st: "sample_execs ?ls sample_boot = Some st" "rl_sent st = [(4, [6, 1, 2])]"
    by (auto simp only: case_option_some)
  obtain ms where r: "request_run sample_deps sample_views sample_boot ?ls ms st"
    using relay_run_request_run [OF relay_execs_run [OF st(1)]] by blast
  then have "ms = []" by (auto elim!: request_consE request_nilE)
  have codec: "downlink_codec (dep_serialize sample_deps) wire_deserialize (dep_compress sample_deps) Some"
    using wire_codec.downlink_codec_axioms by (simp add: sample_deps_def)
  have "(4, [6, 1, 2]) \<in> set (rl_sent st)" using st(2) by simp
  from downlink_tells_truth [OF sample_laws sample_started r this codec] st(2) \<open>ms = []\<close>
  show ?thesis by blast
qed

subsection \<open>Answers are genuine\<close>

text \<open>C16: a caller gets only what came over the serial line for a request of the run.  A response
  delivered to a channel in any run from the start is a message whose packet was received on
  the serial line, or the ant packet inside such a relay message; the id it names as its source
  is the id of a message that the run requested.\<close>

theorem answers_are_genuine:
  assumes "relay_laws D V queue alive" and "relay_started D V st0"
    and "request_run D V st0 ls ms st" and "chan (view_oneshot V) (rl_channels st) k = Delivered r"
  shows "truthful_response D ls r \<and> (\<exists>m \<in> set ms. response_source r = Some (message_uid m))"
proof -
  note start = relay_laws.started_parts [OF assms(1,2)]
  note o = relay_laws.run_origin [OF assms(1,3) start(1,2)]
  show ?thesis using origin_invD(4) [OF o assms(4)] table_invD(4) [OF origin_invD(5) [OF o] assms(4)]
    by auto
qed

theorem answers_are_genuine_witness:
  "\<exists>(st :: sample_relay_state) st0 ls ms k m. relay_started sample_deps sample_views st0
    \<and> request_run sample_deps sample_views st0 ls ms st
    \<and> chan (view_oneshot sample_views) (rl_channels st) k = Delivered (ResponseMessage m)
    \<and> serial_said sample_deps ls (val (ack_msg 1)) \<and> sample_uid \<in> message_uid ` set ms"
proof -
  obtain st k st1 as st2 where s: "sample_rest st" "\<forall>a. box sample_views st a = []"
    "payload (header (val (ack_msg 1))) = Info sample_info"
    "\<not> is_relay_ack (ty (header (header (val (ack_msg 1)))))"
    "awaits sample_views (header_unique_id (info_header sample_info)) k st"
    "relay_env sample_deps sample_views st
      (SerialItem (Inr (message_wire (dep_crc8 sample_deps) (val (ack_msg 1))))) st1"
    "relay_run sample_deps sample_views st1 (map Deliver as) st2"
    "\<forall>a. box sample_views st2 a = []" "sample_rest st2"
    by (rule sample_acknowledged)
  have e: "box sample_views st a = []" "box sample_views st2 a = []" for a using s(2,8) by blast+
  obtain m where m: "val m = val (ack_msg 1)"
    "chan (view_oneshot sample_views) (rl_channels st2) k = Delivered (ResponseMessage m)"
    using sample_relay.ack_resolves [OF sample_inv [OF conjunct1 [OF s(1)]] e(1) e(1) e(1) s(3-7) e(2) e(2)]
    by (auto simp: answered_def)
  obtain st0 ls ms where r: "relay_started sample_deps sample_views st0"
    "request_run sample_deps sample_views st0 ls ms st2"
    using s(9) reachable_requests by blast
  have "response_source (ResponseMessage m) = Some sample_uid"
    using m(1) s(3) by (simp add: response_source_def)
  then have "serial_said sample_deps ls (val (ack_msg 1))" "sample_uid \<in> message_uid ` set ms"
    using answers_are_genuine [OF sample_laws r m(2)] m(1) by auto
  then show ?thesis using r m(2) by blast
qed


end
