(* ===== verification/System_Calls.thy ===== *)
theory System_Calls
  imports System_Origin
begin

text \<open>
  The relay with its callers.  The relation \<open>relay_env\<close> lets a retrying future of the state
  machine succeed at any time; here the requests keep their callers, through the commander's
  mailbox into the channel that the commander makes for them, and the garage request succeeds
  only with a response on a channel of its own that \<open>send\<close> accepts.  The relation refines
  \<open>relay_env\<close>, so that all its properties carry over.
\<close>

subsection \<open>Callers\<close>

text \<open>
  A request is asked by a retrying future, with its handle and task, or by another send.  The
  requests that wait in the commander's mailbox, oldest first, and the request for which a
  channel was made.
\<close>

type_synonym 'h call = "('h \<times> task) option \<times> message"

record ('h, 'k) calls =
  asked :: "'h call list"
  owner :: "'k \<Rightarrow> 'h call option"

definition no_calls :: "('h, 'k) calls" where
  "no_calls = \<lparr> asked = [], owner = Map.empty \<rparr>"

definition asking :: "('h \<times> task) option \<Rightarrow> message list \<Rightarrow> ('h, 'k) calls \<Rightarrow> ('h, 'k) calls" where
  "asking c ms g = g\<lparr> asked := asked g @ map (Pair c) ms \<rparr>"

definition call_taken ::
  "('h, 'c, 'k, 'w, 'q, 'b) relay_deps \<Rightarrow> ('h, 'c, 'k, 'w, 'b) relay_views
     \<Rightarrow> ('h, 'c, 'k, 'w, 'q, 's, 'b) relay \<Rightarrow> ('h, 'k) calls \<Rightarrow> ('h, 'k) calls" where
  "call_taken D V st g =
     (case (box V st ACommander, asked g) of
        (RequestMail m # xs, a # as) \<Rightarrow>
          g\<lparr> asked := as, owner := (owner g)(fst (channel (dep_oneshot D) (rl_channels st)) \<mapsto> a) \<rparr>
      | _ \<Rightarrow> g)"

fun calls_after ::
  "('h, 'c, 'k, 'w, 'q, 'b) relay_deps \<Rightarrow> ('h, 'c, 'k, 'w, 'b) relay_views
     \<Rightarrow> ('h, 'c, 'k, 'w, 'q, 's, 'b) relay \<Rightarrow> ('h, 'k, 's) relay_label \<Rightarrow> ('h, 'k) calls
     \<Rightarrow> ('h, 'k) calls" where
  "calls_after D V st (RetrySend h now) g =
     (case live (view_ctx V) (rl_ctx st) h of
        None \<Rightarrow> g
      | Some t \<Rightarrow> asking (Some (h, t)) (step_requests V st (RetrySend h now)) g)"
| "calls_after D V st (OneShot h now) g = asking None (step_requests V st (OneShot h now)) g"
| "calls_after D V st (WaitSend now) g = asking None (step_requests V st (WaitSend now)) g"
| "calls_after D V st (Deliver a) g = (if a = ACommander then call_taken D V st g else g)"
| "calls_after D V st l g = g"

text \<open>The garage request of the future \<open>h\<close> succeeds in this step.\<close>

definition garage_succeeds ::
  "('h, 'c, 'k, 'w, 'b) relay_views \<Rightarrow> ('h, 'c, 'k, 'w, 'q, 's, 'b) relay
     \<Rightarrow> ('h, 'k, 's) relay_label \<Rightarrow> 'h \<Rightarrow> bool" where
  "garage_succeeds V st l h \<longleftrightarrow>
     l = MachineStep (Done h True) \<and> live (view_ctx V) (rl_ctx st) h = Some GarageOpenRetry"

inductive call_env ::
  "('h, 'c, 'k, 'w, 'q, 'b) relay_deps \<Rightarrow> ('h, 'c, 'k, 'w, 'b) relay_views
     \<Rightarrow> ('h, 'c, 'k, 'w, 'q, 's, 'b) relay \<times> ('h, 'k) calls \<Rightarrow> ('h, 'k, 's) relay_label
     \<Rightarrow> ('h, 'c, 'k, 'w, 'q, 's, 'b) relay \<times> ('h, 'k) calls \<Rightarrow> bool"
  for D V where
  call_step: "relay_env D V st l st' \<Longrightarrow> (\<And>h. \<not> garage_succeeds V st l h) \<Longrightarrow>
    call_env D V (st, g) l (st', calls_after D V st l g)"
| call_success: "relay_env D V st l st' \<Longrightarrow> garage_succeeds V st l h \<Longrightarrow>
    owner g k = Some (Some (h, GarageOpenRetry), m) \<Longrightarrow>
    chan (view_oneshot V) (rl_channels st) k = Delivered r \<Longrightarrow>
    send_result (Inr (Some r)) = Inr r \<Longrightarrow>
    call_env D V (st, g) l (st', g)"

inductive call_run ::
  "('h, 'c, 'k, 'w, 'q, 'b) relay_deps \<Rightarrow> ('h, 'c, 'k, 'w, 'b) relay_views
     \<Rightarrow> ('h, 'c, 'k, 'w, 'q, 's, 'b) relay \<times> ('h, 'k) calls \<Rightarrow> ('h, 'k, 's) relay_label list
     \<Rightarrow> message list \<Rightarrow> ('h, 'c, 'k, 'w, 'q, 's, 'b) relay \<times> ('h, 'k) calls \<Rightarrow> bool"
  for D V where
  call_nil: "call_run D V sg [] [] sg"
| call_cons: "call_env D V sg l sg' \<Longrightarrow> call_run D V sg' ls ms sg'' \<Longrightarrow>
    call_run D V sg (l # ls) (step_requests V (fst sg) l @ ms) sg''"

lemma call_env_relay: "call_env D V sg l sg' \<Longrightarrow> relay_env D V (fst sg) l (fst sg')"
  by (auto elim: call_env.cases)

text \<open>Without the callers it is a run of the relay.\<close>

lemma call_run_requests: "call_run D V sg ls ms sg' \<Longrightarrow> request_run D V (fst sg) ls ms (fst sg')"
  by (induction rule: call_run.induct) (auto intro: request_run.intros call_env_relay)

subsection \<open>The invariant\<close>

fun asked_in :: "mail \<Rightarrow> message list" where
  "asked_in (RequestMail m) = [m]"
| "asked_in (BrokerMail b) = []"

text \<open>A retrying future asked for its task's command at a moment of the run.\<close>

definition call_genuine ::
  "('h, 'k, 's) relay_label list \<Rightarrow> message list \<Rightarrow> 'h call \<Rightarrow> bool" where
  "call_genuine ls ms a \<longleftrightarrow> snd a \<in> set ms
     \<and> (\<forall>h t. fst a = Some (h, t) \<longrightarrow> (\<exists>now n. RetrySend h now \<in> set ls
        \<and> task_message \<lparr> env_time = epoch_now now, env_seq = n \<rparr> t = Some (snd a)))"

lemma call_genuine_mono: "call_genuine ls ms a \<Longrightarrow> call_genuine (ls @ ls') (ms @ ms') a"
  unfolding call_genuine_def by fastforce

text \<open>Every registered channel has an owner, which asked for the id of its registration, and a
  response on an owned channel names the id that the owner asked for.\<close>

definition owners_ok ::
  "('h, 'w) oneshot_view \<Rightarrow> ('h \<Rightarrow> unique_id option) \<Rightarrow> 'h commander \<Rightarrow> 'w \<Rightarrow> bool" where
  "owners_ok V f c w \<longleftrightarrow>
     (\<forall>uid k. requests c uid = Some k \<longrightarrow> f k = Some uid)
     \<and> (\<forall>k uid. f k = Some uid \<longrightarrow> chan V w k \<noteq> Unused
          \<and> (\<forall>r. chan V w k = Delivered r \<longrightarrow> response_source r = Some uid))"

lemma owners_okD:
  assumes "owners_ok V f c w"
  shows "requests c uid = Some k \<Longrightarrow> f k = Some uid"
    and "f k = Some uid \<Longrightarrow> chan V w k \<noteq> Unused"
    and "f k = Some uid \<Longrightarrow> chan V w k = Delivered r \<Longrightarrow> response_source r = Some uid"
  using assms unfolding owners_ok_def by blast+

definition owner_uid :: "('h, 'k) calls \<Rightarrow> 'k \<Rightarrow> unique_id option" where
  "owner_uid g k = map_option (\<lambda>a. message_uid (snd a)) (owner g k)"

definition calls_inv ::
  "('h, 'c, 'k, 'w, 'b) relay_views \<Rightarrow> ('h, 'k, 's) relay_label list
     \<Rightarrow> message list \<Rightarrow> ('h, 'c, 'k, 'w, 'q, 's, 'b) relay \<Rightarrow> ('h, 'k) calls \<Rightarrow> bool" where
  "calls_inv V ls ms st g \<longleftrightarrow>
     map snd (asked g) = concat (map asked_in (box V st ACommander))
     \<and> owners_ok (view_oneshot V) (owner_uid g) (rl_commander st) (rl_channels st)
     \<and> (\<forall>a \<in> set (asked g) \<union> ran (owner g). call_genuine ls ms a)"

lemma calls_invD:
  assumes "calls_inv V ls ms st g"
  shows "map snd (asked g) = concat (map asked_in (box V st ACommander))"
    and "owners_ok (view_oneshot V) (owner_uid g) (rl_commander st) (rl_channels st)"
    and "a \<in> set (asked g) \<Longrightarrow> call_genuine ls ms a"
    and "owner g k = Some a \<Longrightarrow> call_genuine ls ms a"
  using assms unfolding calls_inv_def ran_def by blast+

lemma owners_ok_cong:
  "owners_ok V f c w \<Longrightarrow> requests c' = requests c \<Longrightarrow> w' = w \<Longrightarrow> owners_ok V f c' w'"
  by (simp add: owners_ok_def)

context oneshot_laws
begin

lemma take_and_send_owners:
  assumes inv: "table_inv V ids c w" and ok: "owners_ok V f c w"
    and r: "response_source r = Some uid" and "take_and_send X uid r c w = (c', w')"
  shows "owners_ok V f c' w'"
proof (cases "requests c uid")
  case None
  then show ?thesis using assms by (simp add: take_and_send_def)
next
  case (Some tx)
  then have c': "c' = c\<lparr> requests := (requests c)(uid := None) \<rparr>" and w': "w' = snd (tx_send X tx r w)"
    using assms(4) by (auto simp: take_and_send_def)
  have "chan V w tx = Open \<or> chan V w tx = ReceiverDropped" using table_invD(1) [OF inv Some] .
  then have cw': "chan V w' g = (if g = tx \<and> chan V w tx = Open then Delivered r else chan V w g)" for g
    using send_open [of w tx r] send_gone [of w tx r] by (auto simp: w')
  show ?thesis unfolding owners_ok_def
    using owners_okD [OF ok] owners_okD(1) [OF ok Some] r by (auto simp: c' cw' split: if_splits)
qed

lemma handle_request_owners:
  assumes inv: "table_inv V ids c w" and ok: "owners_ok V f c w"
    and "handle_request X msg c w = (h, c', w', up)"
  shows "owners_ok V (f(h \<mapsto> message_uid msg)) c' w'"
proof -
  let ?uid = "header_unique_id (message_header msg)"
  obtain j w1 where ch: "channel X w = (j, w1)" by fastforce
  have h: "h = j" and c': "c' = c\<lparr> requests := (requests c)(?uid \<mapsto> j) \<rparr>"
    and w': "w' = drop_sender X (requests c ?uid) w1"
    using assms(3) ch by (auto simp: handle_request_def Let_def)
  have fresh: "chan V w j = Unused" and w1: "chan V w1 = (chan V w)(j := Open)"
    using channel_fresh [of w] chan_channel [of w] by (simp_all add: ch)
  have nreg: "requests c uid \<noteq> Some j" for uid
    using table_invD(1) [OF inv, of uid j] fresh by auto
  have cw': "chan V w' g = (if requests c ?uid = Some g \<and> chan V w g = Open then SenderDropped
      else if g = j then Open else chan V w g)" for g
    using nreg [of ?uid] by (cases "requests c ?uid") (auto simp: w' drop_sender_def chan_tx_drop w1)
  show ?thesis unfolding owners_ok_def
    using owners_okD [OF ok] nreg
    by (auto simp: c' h cw' message_uid_def split: if_splits)
qed

end

context relay_laws
begin

lemma commander_mail_owners:
  assumes inv: "table_inv (view_oneshot V) ids (rl_commander st) (rl_channels st)"
    and ok: "owners_ok (view_oneshot V) f (rl_commander st) (rl_channels st)"
    and h: "commander_mail D x st = Continues st'"
  shows "owners_ok (view_oneshot V)
    (case x of RequestMail m \<Rightarrow> f(fst (channel (dep_oneshot D) (rl_channels st)) \<mapsto> message_uid m) | _ \<Rightarrow> f)
    (rl_commander st') (rl_channels st')"
proof (cases x)
  case (RequestMail m)
  obtain k c w up where r: "handle_request (dep_oneshot D) m (rl_commander st) (rl_channels st) = (k, c, w, up)"
    by (metis prod_cases4)
  then have "k = fst (channel (dep_oneshot D) (rl_channels st))" "rl_commander st' = c" "rl_channels st' = w"
    using h by (auto simp: RequestMail commander_mail_def handle_request_def Let_def split: prod.splits)
  then show ?thesis using oneshot.handle_request_owners [OF inv ok r] by (simp add: RequestMail)
next
  case (BrokerMail b)
  have take: "owners_ok (view_oneshot V) f c' w'"
    if "take_and_send (dep_oneshot D) uid r (rl_commander st) (rl_channels st) = (c', w')"
      and "response_source r = Some uid" for uid r c' w'
    using oneshot.take_and_send_owners [OF inv ok that(2,1)] .
  show ?thesis using h ok
    by (cases b) (auto simp: BrokerMail commander_mail_def handle_ack_message_def
        handle_ant_message_def response_source_def split: prod.splits if_splits source_info.splits
        intro: take)
qed

lemma step_asked:
  assumes inv: "relay_inv D V st" and g: "calls_inv V ls ms st g" and st: "relay_env D V st l st'"
  shows "map snd (asked (calls_after D V st l g)) = concat (map asked_in (box V st' ACommander))"
proof -
  have a: "map snd (asked g) = concat (map asked_in (box V st ACommander))" by (rule calls_invD(1) [OF g])
  have nb: "concat (map asked_in (map BrokerMail bs)) = []" for bs by (induction bs) simp_all
  have nr: "concat (map asked_in (map RequestMail ms)) = ms" for ms by (induction ms) simp_all
  have b: "concat (map asked_in (box V st' ACommander)) =
      concat (map asked_in (popped l ACommander (box V st ACommander))) @ step_requests V st l"
    unfolding step_boxes [OF inv st] map_append concat_append nb by (simp add: nr del: map_map)
  show ?thesis
  proof (cases "l = Deliver ACommander")
    case True
    then obtain x xs where x: "box V st ACommander = x # xs" using st by (auto elim: relay_env.cases)
    show ?thesis using a True unfolding b
      by (cases x; cases "asked g") (auto simp: x popped_def call_taken_def)
  next
    case False
    then have "popped l ACommander (box V st ACommander) = box V st ACommander"
      by (simp add: popped_def)
    moreover have "map snd (map (Pair c) ms) = ms" for c :: "('h \<times> task) option" and ms :: "message list"
      by (induction ms) simp_all
    moreover have "concat (map asked_in (box V st ACommander)) = map snd (asked g)" using a by simp
    ultimately show ?thesis using False unfolding b
      by (cases l) (simp_all add: asking_def del: map_map split: option.splits)
  qed
qed

lemma step_owners:
  assumes t: "table_inv (view_oneshot V) ids (rl_commander st) (rl_channels st)"
    and g: "calls_inv V ls ms st g" and st: "relay_env D V st l st'"
  shows "owners_ok (view_oneshot V) (owner_uid (calls_after D V st l g)) (rl_commander st') (rl_channels st')"
proof -
  have ok: "owners_ok (view_oneshot V) (owner_uid g) (rl_commander st) (rl_channels st)"
    by (rule calls_invD(2) [OF g])
  have same: "owner_uid (calls_after D V st l g) = owner_uid g" if "l \<noteq> Deliver ACommander"
    using that by (cases l) (auto simp: asking_def owner_uid_def fun_eq_iff split: option.splits)
  show ?thesis using st
  proof cases
    case (deliver a x xs)
    show ?thesis
    proof (cases "a = ACommander")
      case True
      let ?st0 = "taken V a st"
      have h: "commander_mail D x ?st0 = Continues st'" using deliver(3) True by (simp add: handle_mail_def)
      have t0: "table_inv (view_oneshot V) ids (rl_commander ?st0) (rl_channels ?st0)"
        and ok0: "owners_ok (view_oneshot V) (owner_uid g) (rl_commander ?st0) (rl_channels ?st0)"
        using t ok by simp_all
      have "owner_uid (calls_after D V st l g) = (case x of RequestMail m \<Rightarrow>
          (owner_uid g)(fst (channel (dep_oneshot D) (rl_channels ?st0)) \<mapsto> message_uid m) | _ \<Rightarrow> owner_uid g)"
        using calls_invD(1) [OF g] deliver(1,2) True
        by (cases x; cases "asked g") (auto simp: call_taken_def owner_uid_def fun_eq_iff)
      then show ?thesis using commander_mail_owners [OF t0 ok0 h] by simp
    next
      case False
      then show ?thesis using handle_mail_frame [OF deliver(3)] ok same deliver(1)
        by (auto intro: owners_ok_cong)
    qed
  next
    case garbage
    then show ?thesis using ok same
      by (auto simp: owners_ok_def collect_garbage_def split: option.splits if_splits)
  next
    case (caller_gone k)
    then show ?thesis using ok same
      by (auto simp: owners_ok_def oneshot.chan_rx_drop split: if_splits)
  qed (use ok same in \<open>auto simp: send_task_frame intro: owners_ok_cong\<close>)
qed

lemma task_requests_call:
  "m \<in> set (task_requests st now t) \<Longrightarrow> RetrySend h now \<in> set ls \<Longrightarrow> m \<in> set ms \<Longrightarrow>
    call_genuine ls ms (Some (h, t), m)"
  by (auto simp: call_genuine_def task_requests_def params_env split: option.splits)

lemma call_genuine_None: "m \<in> set ms \<Longrightarrow> call_genuine ls ms (None, m)"
  by (simp add: call_genuine_def)

lemma step_callers:
  assumes g: "calls_inv V ls ms st g"
    and a: "a \<in> set (asked (calls_after D V st l g)) \<union> ran (owner (calls_after D V st l g))"
  shows "call_genuine (ls @ [l]) (ms @ step_requests V st l) a"
proof (cases "a \<in> set (asked g) \<union> ran (owner g)")
  case True
  then show ?thesis using g call_genuine_mono unfolding calls_inv_def by blast
next
  case new: False
  show ?thesis
  proof (cases l)
    case (Deliver c)
    have "a \<in> set (asked g) \<union> ran (owner g)"
      using a by (auto simp: Deliver call_taken_def ran_def split: if_splits list.splits mail.splits)
    then show ?thesis using new by blast
  next
    case (RetrySend h now)
    then show ?thesis
      using a new task_requests_call [of _ st now _ h "ls @ [l]" "ms @ step_requests V st l"]
      by (auto simp: asking_def split: option.splits)
  qed (use a new in \<open>auto simp: asking_def simp del: step_requests.simps intro: call_genuine_None\<close>)
qed

lemma call_env_inv:
  assumes inv: "relay_inv D V st" and t: "table_inv (view_oneshot V) ids (rl_commander st) (rl_channels st)"
    and g: "calls_inv V ls ms st g" and "call_env D V (st, g) l (st', g')"
  shows "calls_inv V (ls @ [l]) (ms @ step_requests V st l) st' g'"
proof -
  have st: "relay_env D V st l st'" using call_env_relay [OF assms(4)] by simp
  have "g' = calls_after D V st l g"
    using assms(4) by cases (auto simp: garage_succeeds_def)
  then show ?thesis unfolding calls_inv_def
    using step_asked [OF inv g st] step_owners [OF t g st] step_callers [OF g] by blast
qed

lemma call_run_inv:
  "call_run D V (st, g) ls' ms' (st', g') \<Longrightarrow> relay_inv D V st \<Longrightarrow> origin_inv D V ls ms st \<Longrightarrow>
    calls_inv V ls ms st g \<Longrightarrow>
    relay_inv D V st' \<and> origin_inv D V (ls @ ls') (ms @ ms') st' \<and> calls_inv V (ls @ ls') (ms @ ms') st' g'"
proof (induction "(st, g)" ls' ms' "(st', g')" arbitrary: st g ls ms rule: call_run.induct)
  case call_nil
  then show ?case by simp
next
  case (call_cons l sg' ls' ms')
  obtain st1 g1 where sg': "sg' = (st1, g1)" by fastforce
  have st: "relay_env D V st l st1" using call_env_relay [OF call_cons.hyps(1)] by (simp add: sg')
  have "relay_inv D V st1" by (rule relay_env_inv [OF st call_cons.prems(1)])
  moreover have "calls_inv V (ls @ [l]) (ms @ step_requests V st l) st1 g1"
    using call_env_inv [OF call_cons.prems(1) origin_invD(5) [OF call_cons.prems(2)] call_cons.prems(3)]
      call_cons.hyps(1) by (simp add: sg')
  ultimately show ?case
    using call_cons.hyps(3) [OF sg'] step_origin [OF call_cons.prems(1,2) st] by fastforce
qed

end

subsection \<open>What opens the garage\<close>

text \<open>Mail with the event that the BLE connection is gone.\<close>

definition disconnect_mail :: "mail \<Rightarrow> bool" where
  "disconnect_mail x =
     (case x of
        BrokerMail (GroundUpCommand msg) \<Rightarrow> event (ty (message_header msg)) = CSBLEDisconnect
      | BrokerMail (DownMessageB msg) \<Rightarrow> event (ty (message_header msg)) = CSBLEDisconnect
      | _ \<Rightarrow> False)"

lemma next_state_garage: "next_state s evt = GarageOpen \<Longrightarrow> s \<noteq> GarageOpen \<Longrightarrow> evt = CSBLEDisconnect"
  by (cases evt) (auto split: if_splits)

lemma sm_step_garage:
  "sm_step X evt m c = Running (m', c') \<Longrightarrow> state m \<noteq> GarageOpen \<Longrightarrow> state m' = GarageOpen \<Longrightarrow>
    evt = CSBLEDisconnect"
  using sm_step_state next_state_garage by metis

lemma handle_up_garage:
  "handle_up_command X msg m c = Running (m', c') \<Longrightarrow> state m \<noteq> GarageOpen \<Longrightarrow>
    state m' = GarageOpen \<Longrightarrow> event (ty (message_header msg)) = CSBLEDisconnect"
  using sm_step_garage by (auto simp: handle_up_command_def Let_def split: process.splits)

lemma handle_down_garage:
  "handle_down_message X msg m c = Running (m', c') \<Longrightarrow> state m \<noteq> GarageOpen \<Longrightarrow>
    state m' = GarageOpen \<Longrightarrow> event (ty (message_header msg)) = CSBLEDisconnect"
  by (auto simp: handle_down_message_def Let_def split: if_splits dest: sm_step_garage)

lemma machine_mail_garage:
  assumes "machine_mail D x st = Continues st'"
    and "state (rl_machine st) \<noteq> GarageOpen" and "state (rl_machine st') = GarageOpen"
  shows "disconnect_mail x"
  using assms
  by (cases x) (auto simp: machine_mail_def machine_result_def disconnect_mail_def
      split: broker_msg.splits process.splits dest: handle_up_garage handle_down_garage)

context relay_laws
begin

lemma machine_step_garage:
  assumes inv: "sm_inv (view_ctx V) m c" and "sm_env (dep_ctx D) (view_ctx V) (m, c) l (m', c')"
    and "machine_internal (view_ctx V) c l" and s: "state m \<noteq> GarageOpen" "state m' = GarageOpen"
  shows "\<exists>h. l = Done h True \<and> live (view_ctx V) c h = Some GarageOpenRetry"
  using assms(2)
proof cases
  case (wrap evt rest)
  then have "evt = CSBLEDisconnect" using sm_step_garage s by (auto simp: handle_event_wrap_def)
  moreover have "evt = FERoverStop" using inv wrap(2) by (auto simp: sm_inv_def)
  ultimately show ?thesis by simp
next
  case (garage h ok)
  then show ?thesis using s by (cases ok) (auto simp: on_garage_result_def)
qed (use assms(3) s in \<open>auto simp: machine_internal_def on_ble_settle_def on_start_delay_def Let_def
  split: option.splits prod.splits\<close>)

lemma step_garage:
  assumes inv: "relay_inv D V st" and "relay_env D V st l st'"
    and s: "state (rl_machine st) \<noteq> GarageOpen" "state (rl_machine st') = GarageOpen"
  shows "(\<exists>x. x \<in> set (box V st AStateMachine) \<and> disconnect_mail x) \<or> (\<exists>h. garage_succeeds V st l h)"
  using assms(2)
proof cases
  case (deliver a x xs)
  show ?thesis
  proof (cases "a = AStateMachine")
    case True
    then have "machine_mail D x (taken V a st) = Continues st'"
      using deliver(3) by (simp add: handle_mail_def)
    from machine_mail_garage [OF this] s have "disconnect_mail x" by simp
    moreover have "x \<in> set (box V st AStateMachine)" using deliver(2) True by simp
    ultimately show ?thesis by blast
  next
    case False
    then show ?thesis using handle_mail_frame [OF deliver(3)] s by simp
  qed
next
  case (machine k m c)
  have "sm_inv (view_ctx V) (rl_machine st) (rl_ctx st)"
    using relay_invD(1) [OF inv] by (simp add: machine_ok_def)
  from machine_step_garage [OF this machine(4,3)] show ?thesis
    using machine(1,2) s by (auto simp: garage_succeeds_def)
qed (use s in \<open>auto simp: send_task_frame split: if_splits\<close>)

lemma started_calls: "relay_started D V st \<Longrightarrow> calls_inv V [] [] st no_calls"
  unfolding relay_started_def
  by (auto simp: calls_inv_def no_calls_def owners_ok_def owner_uid_def relay_boot_simps
      commander_default_def)

end

text \<open>C17: the garage is open only for a reason.  In every run from the start in which the garage
  request succeeds only with a response that \<open>send\<close> accepts, a step in which the machine enters
  \<open>GarageOpen\<close> follows the event of a lost BLE connection, received on the serial line or from
  the ground in this run, or it is the success of the retried garage request; then a garage
  open command, stamped with the moment of one of this future's sends, was requested in the
  run, and a packet received on the serial line names exactly this command's id and is not
  marked invalid.\<close>

theorem garage_opens_for_a_reason:
  assumes "relay_laws D V queue alive" and "relay_started D V st0"
    and "call_run D V (st0, no_calls) ls ms (st, g)" and "call_env D V (st, g) l (st', g')"
    and "state (rl_machine st) \<noteq> GarageOpen" and "state (rl_machine st') = GarageOpen"
  shows "(\<exists>v. event (ty (header (header v))) = CSBLEDisconnect \<and> (serial_said D ls v \<or> ground_said D ls v))
    \<or> (\<exists>h now n m r. l = MachineStep (Done h True) \<and> RetrySend h now \<in> set ls
        \<and> m = message_command \<lparr> env_time = epoch_now now, env_seq = n \<rparr> CentralStation CSGarageOpen
        \<and> m \<in> set ms \<and> truthful_response D ls r \<and> response_source r = Some (message_uid m)
        \<and> \<not> invalid (ty (response_header r)))"
proof -
  note start = relay_laws.started_parts [OF assms(1,2)]
  note i = relay_laws.call_run_inv [OF assms(1,3) start(1,2) relay_laws.started_calls [OF assms(1,2)],
      simplified]
  have st: "relay_env D V st l st'" using call_env_relay [OF assms(4)] by simp
  from relay_laws.step_garage [OF assms(1) conjunct1 [OF i] st assms(5,6)] show ?thesis
  proof (elim disjE exE conjE)
    fix x assume x: "x \<in> set (box V st AStateMachine)" "disconnect_mail x"
    have "truthful_mail D ls ms x" using origin_invD(1) [OF conjunct1 [OF conjunct2 [OF i]] x(1)] .
    then show ?thesis using x(2)
      by (auto simp: disconnect_mail_def split: mail.splits broker_msg.splits)
  next
    fix h assume h: "garage_succeeds V st l h"
    show ?thesis using assms(4)
    proof cases
      case call_step
      then show ?thesis using h by blast
    next
      case (call_success h' k m r)
      have h': "l = MachineStep (Done h' True)" using call_success(3) by (simp add: garage_succeeds_def)
      have "call_genuine ls ms (Some (h', GarageOpenRetry), m)"
        by (rule calls_invD(4) [OF conjunct2 [OF conjunct2 [OF i]] call_success(4)])
      moreover have "response_source r = Some (message_uid m)"
        using owners_okD(3) [OF calls_invD(2) [OF conjunct2 [OF conjunct2 [OF i]]], of k] call_success(4,5)
        by (simp add: owner_uid_def)
      moreover have "truthful_response D ls r"
        using origin_invD(4) [OF conjunct1 [OF conjunct2 [OF i]] call_success(5)] .
      moreover have "\<not> invalid (ty (response_header r))"
        using call_success(6) by (auto simp: send_result_def split: if_splits)
      ultimately show ?thesis using h' by (auto simp: call_genuine_def)
    qed
  qed
qed

subsection \<open>A run in which the garage opens\<close>

context relay_laws
begin

text \<open>An acknowledgement reaches the caller in three steps, when no other mail is in its way.\<close>

lemma ack_reaches_caller:
  assumes inv: "relay_inv D V st" and rest: "box V st ASerial = []" "box V st ACommander = []"
    and v: "payload (header v) = Info info" "\<not> is_relay_ack (ty (header (header v)))"
    and aw: "awaits V (header_unique_id (info_header info)) k st"
  shows "\<exists>st1 st2 st3 m. relay_env D V st (SerialItem (Inr (message_wire (dep_crc8 D) v))) st1
    \<and> relay_env D V st1 (Deliver ASerial) st2 \<and> box V st2 ACommander = [BrokerMail (AckMessageB m)]
    \<and> relay_env D V st2 (Deliver ACommander) st3
    \<and> rl_machine st3 = rl_machine st \<and> rl_ctx st3 = rl_ctx st \<and> val m = v
    \<and> answered V (header_unique_id (info_header info)) k (ResponseMessage m) st3"
proof -
  let ?pkt = "message_wire (dep_crc8 D) v"
  have "raw_reader_item (stream_item (Inr ?pkt)) = Issue (RawDownPacket ?pkt)"
    by (simp add: raw_reader_item_def stream_item_def)
  then obtain st1 where s1: "relay_env D V st (SerialItem (Inr ?pkt)) st1"
    using relay_env.serial_item by blast
  note i1 = relay_env_inv [OF s1 inv] and item = serial_item_packet [OF inv s1]
  have m1: "rl_machine st1 = rl_machine st" "rl_ctx st1 = rl_ctx st"
    using s1 by (auto elim: relay_env.cases)
  have b1: "box V st1 ASerial = [BrokerMail (RawDownPacket ?pkt)]" "box V st1 ACommander = []"
    using rest by (simp_all add: item(1) subscription_defs)
  obtain m where m: "val m = v" "serial_handle_down (dep_crc8 D) ?pkt = Some (DownMessageB m # try_issue_ack m)"
    using serial_down_wire by blast
  obtain st2 where s2: "relay_env D V st1 (Deliver ASerial) st2"
    and h2: "handle_mail D ASerial (BrokerMail (RawDownPacket ?pkt)) (taken V ASerial st1) = Continues st2"
    using handle_mail_reaction [OF i1 b1(1)] by auto
  note i2 = relay_env_inv [OF s2 i1] and f2 = handle_mail_frame [OF h2]
  have aw2: "awaits V (header_unique_id (info_header info)) k st2"
    using aw item(2,3) f2 by (simp add: awaits_def)
  have b2: "box V st2 ACommander = [BrokerMail (AckMessageB m)]"
    using awaits_started [OF i2 aw2] b1 m v(1) f2 item(2)
    by (simp add: step_boxes [OF i1 s2] popped_def issues_def try_issue_ack_def subscription_defs)
  obtain st3 where s3: "relay_env D V st2 (Deliver ACommander) st3"
    and h3: "handle_mail D ACommander (BrokerMail (AckMessageB m)) (taken V ACommander st2) = Continues st3"
    using handle_mail_reaction [OF i2 b2] by auto
  have "answered V (header_unique_id (info_header info)) k (ResponseMessage m) st3"
    using commander_takes_ack [of m "taken V ACommander st2" st3 info k] h3 aw2 m(1) v
    by (simp add: handle_mail_def awaits_def)
  then show ?thesis using s1 s2 b2 s3 m(1) m1 f2 handle_mail_frame [OF h3]
    by (intro exI [of _ st1] exI [of _ st2] exI [of _ st3] exI [of _ m]) simp
qed

text \<open>So it does with the callers.\<close>

lemma acknowledged_call_run:
  assumes inv: "relay_inv D V st" and rest: "box V st ASerial = []" "box V st ACommander = []"
    and v: "payload (header v) = Info info" "\<not> is_relay_ack (ty (header (header v)))"
    and aw: "awaits V (header_unique_id (info_header info)) k st"
  shows "\<exists>st' m. call_run D V (st, g)
      [SerialItem (Inr (message_wire (dep_crc8 D) v)), Deliver ASerial, Deliver ACommander] [] (st', g)
    \<and> rl_machine st' = rl_machine st \<and> rl_ctx st' = rl_ctx st \<and> val m = v
    \<and> answered V (header_unique_id (info_header info)) k (ResponseMessage m) st'"
proof -
  obtain st1 st2 st3 m where
    s1: "relay_env D V st (SerialItem (Inr (message_wire (dep_crc8 D) v))) st1"
    and s2: "relay_env D V st1 (Deliver ASerial) st2" "box V st2 ACommander = [BrokerMail (AckMessageB m)]"
    and s3: "relay_env D V st2 (Deliver ACommander) st3" "rl_machine st3 = rl_machine st"
      "rl_ctx st3 = rl_ctx st" "val m = v"
      "answered V (header_unique_id (info_header info)) k (ResponseMessage m) st3"
    using ack_reaches_caller [OF assms] by blast
  have c: "call_env D V (st, g) (SerialItem (Inr (message_wire (dep_crc8 D) v))) (st1, g)"
    "call_env D V (st1, g) (Deliver ASerial) (st2, g)"
    "call_env D V (st2, g) (Deliver ACommander) (st3, g)"
    using call_step [OF s1, of g] call_step [OF s2(1), of g] call_step [OF s3(1), of g] s2(2)
    by (simp_all add: garage_succeeds_def call_taken_def)
  have "call_run D V (st, g)
      [SerialItem (Inr (message_wire (dep_crc8 D) v)), Deliver ASerial, Deliver ACommander] [] (st3, g)"
    using call_cons [OF c(1) call_cons [OF c(2) call_cons [OF c(3) call_nil]]] by simp
  then show ?thesis using s3 by blast
qed

end

text \<open>A future whose response is there and accepted succeeds.\<close>

lemma garage_request_succeeds:
  assumes live: "live (view_ctx V) (rl_ctx st) h = Some GarageOpenRetry"
    and "owner g k = Some (Some (h, GarageOpenRetry), m)"
    and "chan (view_oneshot V) (rl_channels st) k = Delivered r"
    and "\<not> invalid (ty (response_header r))"
  shows "\<exists>st'. call_env D V (st, g) (MachineStep (Done h True)) (st', g)
    \<and> state (rl_machine st') = GarageOpen"
proof -
  let ?st' = "st\<lparr> rl_machine := on_garage_result True (rl_machine st),
    rl_ctx := finish (view_ctx V) h (rl_ctx st) \<rparr>"
  have "machine_internal (view_ctx V) (rl_ctx st) (Done h True)"
    by (simp add: machine_internal_def live)
  from relay_env.machine [OF this sm_env.garage [OF live]]
  have "relay_env D V st (MachineStep (Done h True)) ?st'" .
  moreover have "send_result (Inr (Some r)) = Inr r" using assms(4) by (simp add: send_result_def)
  ultimately have "call_env D V (st, g) (MachineStep (Done h True)) (?st', g)"
    using live assms(2,3) by (intro call_success) (auto simp: garage_succeeds_def)
  moreover have "state (rl_machine ?st') = GarageOpen" by (simp add: on_garage_result_def)
  ultimately show ?thesis by blast
qed

fun call_execs ::
  "('h, 'c, 'k, 'w, 'q, 'b) relay_deps \<Rightarrow> ('h, 'c, 'k, 'w, 'b) relay_views
     \<Rightarrow> ('h, 'k, 's) relay_label list \<Rightarrow> ('h, 'c, 'k, 'w, 'q, 's, 'b) relay \<times> ('h, 'k) calls
     \<Rightarrow> (('h, 'c, 'k, 'w, 'q, 's, 'b) relay \<times> ('h, 'k) calls) option" where
  "call_execs D V [] sg = Some sg"
| "call_execs D V (l # ls) (st, g) =
     (case relay_exec D V l st of
        None \<Rightarrow> None
      | Some st' \<Rightarrow> call_execs D V ls (st', calls_after D V st l g))"

lemma call_execs_run: "call_execs D V ls sg = Some sg' \<Longrightarrow> \<exists>ms. call_run D V sg ls ms sg'"
proof (induction D V ls sg rule: call_execs.induct)
  case (2 D V l ls st g)
  then obtain st' where st': "relay_exec D V l st = Some st'"
    "call_execs D V ls (st', calls_after D V st l g) = Some sg'"
    by (auto split: option.splits)
  have "\<not> garage_succeeds V st l h" for h using st'(1) by (auto simp: garage_succeeds_def)
  then have "call_env D V (st, g) l (st', calls_after D V st l g)"
    by (rule call_step [OF relay_exec_sound [OF st'(1)]])
  then show ?case using "2.IH" [OF st'] call_run.call_cons by fastforce
qed (auto intro: call_nil)

lemma call_run_append:
  "call_run D V sg ls ms sg' \<Longrightarrow> call_run D V sg' ls' ms' sg'' \<Longrightarrow>
    call_run D V sg (ls @ ls') (ms @ ms') sg''"
  by (induction rule: call_run.induct) (auto intro: call_run.intros)

text \<open>The ground asks to open the garage, and the future sends its command.\<close>

definition sample_garage_labels :: "(nat, nat, nat) relay_label list" where
  "sample_garage_labels =
    [UplinkDatagram (message_wire (\<lambda>_. 7) (val (cmd_to Frontend FEGarageOpen))), Deliver AStateMachine,
     RetrySend 0 (EPOCH + 5000000), Deliver ACommander, Deliver ASerial]"

abbreviation sample_garage_uid :: unique_id where
  "sample_garage_uid \<equiv> header_unique_id (message_header (request_msg 0))"

lemma sample_garage_asked:
  "case call_execs sample_deps sample_views sample_garage_labels (sample_boot, no_calls) of
    None \<Rightarrow> False
  | Some (st, g) \<Rightarrow> state (rl_machine st) = FlightIdle
     \<and> live (view_ctx sample_views) (rl_ctx st) 0 = Some GarageOpenRetry
     \<and> box sample_views st ASerial = [] \<and> box sample_views st ACommander = []
     \<and> requests (rl_commander st) sample_garage_uid = Some 0
     \<and> chan (view_oneshot sample_views) (rl_channels st) 0 = Open
     \<and> map_option fst (owner g 0) = Some (Some (0, GarageOpenRetry))"
  by code_simp

text \<open>Its acknowledgement arrives, and the future succeeds.\<close>

lemma sample_garage_run:
  "\<exists>(st :: sample_relay_state) g ls ms st' g'.
    call_run sample_deps sample_views (sample_boot, no_calls) ls ms (st, g)
    \<and> call_env sample_deps sample_views (st, g) (MachineStep (Done 0 True)) (st', g')
    \<and> state (rl_machine st) = FlightIdle \<and> state (rl_machine st') = GarageOpen
    \<and> ls = sample_garage_labels
        @ [SerialItem (Inr (message_wire (dep_crc8 sample_deps) (val (ack_msg 0)))), Deliver ASerial, Deliver ACommander]"
proof -
  let ?V = sample_views and ?D = sample_deps
  obtain st g where e: "call_execs ?D ?V sample_garage_labels (sample_boot, no_calls) = Some (st, g)"
    and s: "state (rl_machine st) = FlightIdle" "live (view_ctx ?V) (rl_ctx st) 0 = Some GarageOpenRetry"
    and b: "box ?V st ASerial = []" "box ?V st ACommander = []"
    and r: "requests (rl_commander st) sample_garage_uid = Some 0"
      "chan (view_oneshot ?V) (rl_channels st) 0 = Open"
    and own: "\<exists>m. owner g 0 = Some (Some (0, GarageOpenRetry), m)"
    using sample_garage_asked by (auto split: option.splits prod.splits)
  obtain ms where run: "call_run ?D ?V (sample_boot, no_calls) sample_garage_labels ms (st, g)"
    using call_execs_run [OF e] by blast
  have inv: "relay_inv ?D ?V st"
    using sample_relay.relay_run_inv [OF request_run_relay_run [OF call_run_requests [OF run]]]
      sample_relay.started_parts(1) [OF sample_started] by simp
  let ?info = "\<lparr> info_header = message_header (request_msg 0), info_checksum = 0 \<rparr>"
  have v: "payload (header (val (ack_msg 0))) = Info ?info"
    "\<not> is_relay_ack (ty (header (header (val (ack_msg 0)))))"
    "\<not> invalid (ty (header (header (val (ack_msg 0)))))"
    by (simp_all add: ack_msg_def is_relay_ack_def)
  have "awaits ?V (header_unique_id (info_header ?info)) 0 st" using r by (simp add: awaits_def)
  then obtain st3 m where ack: "call_run ?D ?V (st, g)
      [SerialItem (Inr (message_wire (dep_crc8 ?D) (val (ack_msg 0)))), Deliver ASerial, Deliver ACommander] [] (st3, g)"
    and same: "rl_machine st3 = rl_machine st" "rl_ctx st3 = rl_ctx st" "val m = val (ack_msg 0)"
    and got: "chan (view_oneshot ?V) (rl_channels st3) 0 = Delivered (ResponseMessage m)"
    using sample_relay.acknowledged_call_run [OF inv b v(1,2)] unfolding answered_def by blast
  have lv: "live (view_ctx ?V) (rl_ctx st3) 0 = Some GarageOpenRetry" using s(2) by (simp add: same)
  have ok: "\<not> invalid (ty (response_header (ResponseMessage m)))"
    using v(3) by (simp add: response_header_def same)
  obtain st' where "call_env ?D ?V (st3, g) (MachineStep (Done 0 True)) (st', g)"
    "state (rl_machine st') = GarageOpen"
    using garage_request_succeeds [OF lv _ got ok, where D = ?D] own by blast
  then show ?thesis using call_run_append [OF run ack] s(1) same(1) by fastforce
qed

theorem garage_opens_for_a_reason_witness:
  "\<exists>(st' :: sample_relay_state) h now n r. state (rl_machine st') = GarageOpen
    \<and> RetrySend h now \<in> set sample_garage_labels
    \<and> response_source r = Some (message_uid
        (message_command \<lparr> env_time = epoch_now now, env_seq = n \<rparr> CentralStation CSGarageOpen))
    \<and> \<not> invalid (ty (response_header r))"
proof -
  let ?ls = "sample_garage_labels
    @ [SerialItem (Inr (message_wire (dep_crc8 sample_deps) (val (ack_msg 0)))), Deliver ASerial, Deliver ACommander]"
  obtain st :: sample_relay_state and g ms st' g' where
    r: "call_run sample_deps sample_views (sample_boot, no_calls) ?ls ms (st, g)"
      "call_env sample_deps sample_views (st, g) (MachineStep (Done 0 True)) (st', g')"
    and s: "state (rl_machine st) = FlightIdle" "state (rl_machine st') = GarageOpen"
    using sample_garage_run by blast
  have "state (rl_machine st) \<noteq> GarageOpen" using s(1) by simp
  have no_disconnect: "\<not> (serial_said sample_deps ?ls v \<or> ground_said sample_deps ?ls v)"
    if "event (ty (header (header v))) = CSBLEDisconnect" for v
    using that by (auto simp: serial_said_def ground_said_def sample_garage_labels_def sample_deps_def
        message.enc_inject cmd_to_def ack_msg_def request_defs)
  from garage_opens_for_a_reason [OF sample_laws sample_started r \<open>state (rl_machine st) \<noteq> GarageOpen\<close> s(2)]
    no_disconnect
  obtain h now n ra where "RetrySend h now \<in> set ?ls"
    "response_source ra = Some (message_uid
        (message_command \<lparr> env_time = epoch_now now, env_seq = n \<rparr> CentralStation CSGarageOpen))"
    "\<not> invalid (ty (response_header ra))"
    by blast
  then show ?thesis using s(2) by auto
qed

end
