(* ===== verification/System_Ids.thy ===== *)
theory System_Ids
  imports System_Origin
begin

text \<open>
  The ids of the relay's own commands along a run: a command is stamped with the reading of the
  clock and the next number of the sequence (\<open>runtime/src/system\<close>, \<open>message/src/mission_epoch.rs\<close>),
  and both wrap around.
\<close>

subsection \<open>The commands of a run\<close>

text \<open>A command that a step makes, with what the clock shows then; what the ground has sent is only
  forwarded.\<close>

definition task_commands ::
  "('h, 'c, 'k, 'w, 'q, 's, 'b) relay \<Rightarrow> datetime \<Rightarrow> task \<Rightarrow> (datetime \<times> message) list" where
  "task_commands st now t =
     (case t of Forward msg \<Rightarrow> [] | _ \<Rightarrow> map (Pair now) (task_requests st now t))"

fun step_commands ::
  "('h, 'c, 'k, 'w, 'b) relay_views \<Rightarrow> ('h, 'c, 'k, 'w, 'q, 's, 'b) relay \<Rightarrow> ('h, 'k, 's) relay_label
     \<Rightarrow> (datetime \<times> message) list" where
  "step_commands V st (OneShot h now) =
     (case live (view_ctx V) (rl_ctx st) h of None \<Rightarrow> [] | Some t \<Rightarrow> task_commands st now t)"
| "step_commands V st (RetrySend h now) =
     (case live (view_ctx V) (rl_ctx st) h of None \<Rightarrow> [] | Some t \<Rightarrow> task_commands st now t)"
| "step_commands V st (WaitSend now) =
     (case waiting (view_ctx V) (rl_ctx st) of [] \<Rightarrow> [] | t # ts \<Rightarrow> task_commands st now t)"
| "step_commands V st l = []"

inductive command_run ::
  "('h, 'c, 'k, 'w, 'q, 'b) relay_deps \<Rightarrow> ('h, 'c, 'k, 'w, 'b) relay_views
     \<Rightarrow> ('h, 'c, 'k, 'w, 'q, 's, 'b) relay \<Rightarrow> ('h, 'k, 's) relay_label list \<Rightarrow> (datetime \<times> message) list
     \<Rightarrow> ('h, 'c, 'k, 'w, 'q, 's, 'b) relay \<Rightarrow> bool"
  for D V where
  command_nil: "command_run D V st [] [] st"
| command_cons: "relay_env D V st l st' \<Longrightarrow> command_run D V st' ls cs st'' \<Longrightarrow>
    command_run D V st (l # ls) (step_commands V st l @ cs) st''"

lemma task_commands_subseq: "subseq (map snd (task_commands st now t)) (task_requests st now t)"
  by (cases t) (simp_all add: task_commands_def comp_def)

lemma step_commands_subseq: "subseq (map snd (step_commands V st l)) (step_requests V st l)"
  by (cases l) (auto simp: task_commands_subseq split: option.split list.split)

lemma command_run_requests:
  "command_run D V st ls cs st' \<Longrightarrow> \<exists>ms. request_run D V st ls ms st' \<and> subseq (map snd cs) ms"
proof (induction rule: command_run.induct)
  case (command_cons st l st' ls cs st'')
  then obtain ms where "request_run D V st' ls ms st''" "subseq (map snd cs) ms" by blast
  then show ?case
    using request_run.request_cons [OF command_cons.hyps(1)] list_emb_append_mono [OF step_commands_subseq]
    by fastforce
qed (auto intro: request_run.intros)

lemma command_run_append:
  "command_run D V st ls cs st' \<Longrightarrow> command_run D V st' ls' cs' st'' \<Longrightarrow>
    command_run D V st (ls @ ls') (cs @ cs') st''"
  by (induction rule: command_run.induct) (auto intro: command_run.intros)

subsection \<open>Their ids\<close>

lemma command_uid: "message_uid (message_command env d e) = UniqueId (env_time env) (env_seq env)"
  by (simp add: message_uid_def message_command_def)

lemma rl_seq_send_request [simp]: "rl_seq (send_request D msg st) = rl_seq st"
  by (simp add: send_request_def case_prod_beta Let_def)

text \<open>A future that sends a command takes one number; one that forwards takes none.\<close>

definition stamped ::
  "('h, 'c, 'k, 'w, 'q, 's, 'b) relay \<Rightarrow> (datetime \<times> message) list
     \<Rightarrow> ('h, 'c, 'k, 'w, 'q, 's, 'b) relay \<Rightarrow> bool" where
  "stamped st cs st' \<longleftrightarrow> cs = [] \<and> rl_seq st' = rl_seq st
    \<or> (\<exists>now msg. cs = [(now, msg)] \<and> rl_seq st' = rl_seq st + 1
        \<and> message_uid msg = UniqueId (epoch_now now) (rl_seq st))"

lemma task_stamped:
  assumes "sends_once t \<or> sends_again t \<or> sends_waited t" and "rl_seq st' = rl_seq st"
  shows "stamped st (task_commands st now t) (send_task D now t st')"
proof (cases "\<exists>m. t = Forward m")
  case True
  then show ?thesis using assms(2) by (auto simp: stamped_def task_commands_def send_task_def)
next
  case False
  then obtain d e where m: "\<And>env. task_message env t = Some (message_command env d e)"
    using assms(1) by (cases t) auto
  have params: "params_query now n = (\<lparr> env_time = epoch_now now, env_seq = n \<rparr>, n + 1)" for n
    by (simp add: params_query_def seq_handle_def time_handle_def)
  have "task_commands st now t = map (Pair now) (task_requests st now t)"
    using False by (cases t) (simp_all add: task_commands_def)
  moreover have "send_task D now t st' = (let (p, n) = params_query now (rl_seq st')
      in case task_message p t of
           None \<Rightarrow> st'\<lparr> rl_seq := n \<rparr>
         | Some msg \<Rightarrow> send_request D msg (st'\<lparr> rl_seq := n \<rparr>))"
    using False unfolding send_task_def by (cases t) simp_all
  ultimately show ?thesis using assms(2) by (simp add: stamped_def task_requests_def m params command_uid)
qed

lemma step_stamped:
  assumes "relay_env D V st l st'"
  shows "stamped st (step_commands V st l) st'"
  using assms
proof cases
  case (deliver a x xs)
  then show ?thesis using handle_mail_frame [OF deliver(3)] by (simp add: stamped_def)
qed (simp_all add: task_stamped, simp_all add: stamped_def)

lemma command_run_uids:
  "command_run D V st ls cs st' \<Longrightarrow> i < length cs \<Longrightarrow>
    message_uid (snd (cs ! i)) = UniqueId (epoch_now (fst (cs ! i))) (rl_seq st + of_nat i)"
proof (induction arbitrary: i rule: command_run.induct)
  case (command_cons st l st' ls cs st'')
  then show ?case
    using step_stamped [OF command_cons.hyps(1)]
    by (cases i) (auto simp: stamped_def add.assoc)
qed simp

text \<open>C31: when two commands of the relay have the same id.  Along any run, the requests include the
  relay's own commands in order, each stamped when it is made.  While the clock shows no time
  before the mission epoch, the ids of two of them are equal exactly if their numbers differ by
  a multiple of 256 and the clock's counts of milliseconds since the epoch are congruent modulo
  \<open>u32::MAX\<close>: in the same millisecond, or about 49.7 days apart.\<close>

theorem command_ids_collide:
  assumes "command_run D V st ls cs st'" and "\<And>c. c \<in> set cs \<Longrightarrow> EPOCH \<le> fst c"
    and "i \<le> j" and "j < length cs"
  shows "(\<exists>ms. request_run D V st ls ms st' \<and> subseq (map snd cs) ms)
    \<and> (header_unique_id (message_header (snd (cs ! i))) = header_unique_id (message_header (snd (cs ! j)))
      \<longleftrightarrow> 256 dvd j - i \<and> (fst (cs ! i) - EPOCH) div 10 ^ 6 mod (2 ^ 32 - 1)
            = (fst (cs ! j) - EPOCH) div 10 ^ 6 mod (2 ^ 32 - 1))"
proof -
  have ids: "header_unique_id (message_header (snd (cs ! n)))
      = UniqueId (epoch_now (fst (cs ! n))) (rl_seq st + of_nat n)" if "n \<le> j" for n
    using command_run_uids [OF assms(1), of n] assms(4) that by (simp add: message_uid_def)
  have "EPOCH \<le> fst (cs ! i)" "EPOCH \<le> fst (cs ! j)" using assms(2-4) by simp_all
  from epoch_now_eq [OF this] show ?thesis
    using command_run_requests [OF assms(1)] ids [of i] ids [of j] assms(3)
    by (auto simp: of_nat_u8_eq mod_256_eq)
qed

text \<open>The garage is asked to open 257 times: in the first millisecond of the mission, and once more
  \<open>u32::MAX\<close> milliseconds later.  The last command has the id of the first, and of no other.\<close>

lemma retried_commands:
  assumes "live (view_ctx V) (rl_ctx st) h = Some GarageOpenRetry"
  shows "\<exists>cs st'. command_run D V st (map (RetrySend h) nows) cs st' \<and> map fst cs = nows"
  using assms
proof (induction nows arbitrary: st)
  case (Cons now nows)
  let ?st' = "send_task D now GarageOpenRetry st"
  have "relay_env D V st (RetrySend h now) ?st'"
    by (rule relay_env.retry_send [OF Cons.prems]) simp
  moreover have "rl_ctx ?st' = rl_ctx st" by (simp add: send_task_frame)
  then obtain cs st' where "command_run D V ?st' (map (RetrySend h) nows) cs st'" "map fst cs = nows"
    using Cons.IH [of ?st'] Cons.prems by auto
  moreover have "\<exists>msg. step_commands V st (RetrySend h now) = [(now, msg)]"
    using Cons.prems by (simp add: task_commands_def task_requests_def)
  ultimately show ?case by (fastforce dest: command_run.command_cons)
qed (auto intro: command_run.intros)

definition garage_readings :: "datetime list" where
  "garage_readings = replicate 256 EPOCH @ [EPOCH + (2 ^ 32 - 1) * 10 ^ 6]"

theorem command_ids_collide_witness:
  "\<exists>(st :: sample_relay_state) cs st'.
    reachable_relay sample_deps sample_views st
    \<and> command_run sample_deps sample_views st (map (RetrySend 0) garage_readings) cs st'
    \<and> length cs = 257
    \<and> header_unique_id (message_header (snd (cs ! 0))) = header_unique_id (message_header (snd (cs ! 256)))
    \<and> header_unique_id (message_header (snd (cs ! 1))) \<noteq> header_unique_id (message_header (snd (cs ! 256)))"
proof -
  let ?ls = "[UplinkDatagram (message_wire (\<lambda>_. 7) (val (cmd_to Frontend FEGarageOpen))), Deliver AStateMachine]
    :: (nat, nat, nat) relay_label list"
  have "case sample_execs ?ls sample_boot of None \<Rightarrow> False
      | Some st \<Rightarrow> live (view_ctx sample_views) (rl_ctx st) 0 = Some GarageOpenRetry"
    by code_simp
  then obtain st where st: "sample_execs ?ls sample_boot = Some st"
    "live (view_ctx sample_views) (rl_ctx st) 0 = Some GarageOpenRetry"
    by (auto simp only: case_option_some)
  obtain cs st' where run: "command_run sample_deps sample_views st (map (RetrySend 0) garage_readings) cs st'"
    and clock: "map fst cs = garage_readings"
    using retried_commands [OF st(2), where D = sample_deps and nows = garage_readings] by blast
  have len: "length cs = 257" using arg_cong [OF clock, of length] by (simp add: garage_readings_def)
  have fst: "fst (cs ! n) = garage_readings ! n" if "n < 257" for n
    using that len by (simp flip: clock)
  have readings: "garage_readings ! 0 = EPOCH" "garage_readings ! 1 = EPOCH"
    "garage_readings ! 256 = EPOCH + (2 ^ 32 - 1) * 10 ^ 6"
    by (simp_all add: garage_readings_def nth_append)
  have "fst ` set cs = set garage_readings" by (simp flip: clock)
  then have after: "EPOCH \<le> fst c" if "c \<in> set cs" for c
    using imageI [OF that, of fst] by (auto simp: garage_readings_def)
  note collide = command_ids_collide [OF run after]
  have "header_unique_id (message_header (snd (cs ! 0))) = header_unique_id (message_header (snd (cs ! 256)))"
    using collide [of 0 256] len by (simp add: fst readings)
  moreover have "header_unique_id (message_header (snd (cs ! 1))) \<noteq> header_unique_id (message_header (snd (cs ! 256)))"
    using collide [of 1 256] len by simp
  ultimately show ?thesis using sample_reachable [OF st(1)] run len by blast
qed

end
