(* ===== verification/Slice_Codec.thy ===== *)
theory Slice_Codec
  imports Message
begin

text \<open>
  \<open>PackedSliceCodec\<close> (\<open>codec/src/packed_struct.rs\<close>), a codec for any packed type.  The encoder
  packs into the bytes that the output buffer already has, and the decoder takes the whole
  input and leaves it there, so that neither side works on a stream: used on messages, the
  encoder panics on an empty buffer, and an incomplete input is an error.
\<close>

datatype slice_codec_error =
    PackingError packing_error
  | SliceIo

text \<open>\<open>None\<close> is a panic.  A packing error is converted by the question mark operator.\<close>

definition slice_codec_result :: "'a result \<Rightarrow> (slice_codec_error + 'a) option" where
  "slice_codec_result r =
     (case r of
        Inl Panic \<Rightarrow> None
      | Inl (Fail e) \<Rightarrow> Some (Inl (PackingError e))
      | Inr x \<Rightarrow> Some (Inr x))"

definition slice_codec_encode ::
  "'a packed_ops \<Rightarrow> 'a \<Rightarrow> bytes \<Rightarrow> (slice_codec_error + bytes) option" where
  "slice_codec_encode T item dst = slice_codec_result (pack_to_slice T item dst)"

definition slice_codec_decode ::
  "'a packed_ops \<Rightarrow> bytes \<Rightarrow> (slice_codec_error + ('a option \<times> bytes)) option" where
  "slice_codec_decode T src =
     slice_codec_result (and_then (unpack_from_slice T src) (\<lambda>x. Ok (Some x, src)))"

lemmas slice_codec_defs = slice_codec_encode_def slice_codec_decode_def slice_codec_result_def

context packed_slice
begin

lemma slice_codec_roundtrip:
  assumes "inv x" and "length dst = length (enc (view x))"
  shows "\<exists>out y. slice_codec_encode ops x dst = Some (Inr out)
    \<and> slice_codec_decode ops out = Some (Inr (Some y, out)) \<and> inv y \<and> view y = view x"
proof -
  obtain y where "unpack_from_slice ops (enc (view x)) = Ok y" "inv y" "view y = view x"
    using unpack_enc by blast
  then show ?thesis using pack_exact [OF assms] by (simp add: slice_codec_defs)
qed

text \<open>The decoder never asks for more bytes, never panics and never consumes its input.\<close>

lemma slice_codec_decode_cases:
  "slice_codec_decode ops src \<noteq> None \<and> slice_codec_decode ops src \<noteq> Some (Inr (None, rest))
    \<and> (slice_codec_decode ops src = Some (Inr (Some x, rest)) \<longrightarrow> rest = src \<and> src = enc (view x))"
  using unpack_no_panic [of src] unpack_sound [of src x]
  by (cases "unpack_from_slice ops src") (auto simp: slice_codec_defs split: failure.splits)

end

text \<open>With messages: the codec round trips a message through a buffer of the message's length,
  while on the empty buffer that a framed writer hands to its encoder every message panics.\<close>

theorem slice_codec_message:
  assumes "message_coherent crc8 m"
  shows "(\<forall>dst. length dst = 18 + length (message_payload m) \<longrightarrow>
      (\<exists>y. slice_codec_encode (message_ops crc8) m dst = Some (Inr (message_wire crc8 (val m)))
        \<and> slice_codec_decode (message_ops crc8) (message_wire crc8 (val m))
            = Some (Inr (Some y, message_wire crc8 (val m))) \<and> val y = val m))
    \<and> slice_codec_encode (message_ops crc8) m [] = None"
proof (intro conjI allI impI)
  fix dst :: bytes
  assume "length dst = 18 + length (message_payload m)"
  then have len: "length dst = length (message_wire crc8 (val m))" by (simp add: length_message_wire)
  show "\<exists>y. slice_codec_encode (message_ops crc8) m dst = Some (Inr (message_wire crc8 (val m)))
      \<and> slice_codec_decode (message_ops crc8) (message_wire crc8 (val m))
          = Some (Inr (Some y, message_wire crc8 (val m))) \<and> val y = val m"
    using message.slice_codec_roundtrip [OF assms len] message.pack_exact [OF assms len]
    by (auto simp: slice_codec_encode_def slice_codec_result_def)
next
  show "slice_codec_encode (message_ops crc8) m [] = None"
    using msg.pack_to_slice_wrong_length [OF assms [unfolded message_coherent_def], of "[]"]
    by (auto simp: slice_codec_defs message_ops_def with_crc_ops_def message_wire_eq length_message_wire)
qed

end
