(* ===== verification/Scan_Stream.thy ===== *)
theory Scan_Stream
  imports Prelude
begin

text \<open>
  The stream combinator of \<open>util/src/futures\<close>: \<open>Scan\<close> threads a state through a stream, where
  each item's successor state and output come from a future.  Streams and futures are traits
  of the crate \<open>futures\<close>: their poll functions are dictionaries, and the locales
  \<open>stream_laws\<close> and \<open>future_laws\<close> say that a value arrives after finitely many polls.  \<open>Scan\<close>
  of a lawful stream by lawful futures is a lawful stream again; what it yields is \<open>scan_ref\<close>.
\<close>

subsection \<open>Streams and futures\<close>

datatype 'a poll = Ready 'a | Pending

record ('st, 'it) stream_ops =
  poll_stream :: "'st \<Rightarrow> 'it option poll \<times> 'st"
  stream_hint :: "'st \<Rightarrow> nat \<times> nat option"
  stream_terminated :: "'st \<Rightarrow> bool"

type_synonym ('f, 'a) poll_fun = "'f \<Rightarrow> 'a poll \<times> 'f"

text \<open>\<open>items\<close> is what the stream still yields and \<open>delay\<close> bounds how often it is not ready
  before the next item or the end.\<close>

locale stream_laws =
  fixes S :: "('st, 'it) stream_ops" and items :: "'st \<Rightarrow> 'it list" and delay :: "'st \<Rightarrow> nat"
  assumes poll_pending: "poll_stream S st = (Pending, st') \<Longrightarrow>
      items st' = items st \<and> delay st' < delay st"
    and poll_item: "poll_stream S st = (Ready (Some x), st') \<Longrightarrow> items st = x # items st'"
    and poll_end: "poll_stream S st = (Ready None, st') \<Longrightarrow> items st = []"
    and terminated_end: "stream_terminated S st \<Longrightarrow> items st = []"

locale future_laws =
  fixes poll :: "('f, 'a) poll_fun" and outcome :: "'f \<Rightarrow> 'a" and wait :: "'f \<Rightarrow> nat"
  assumes future_pending: "poll fut = (Pending, fut') \<Longrightarrow>
      outcome fut' = outcome fut \<and> wait fut' < wait fut"
    and future_ready: "poll fut = (Ready r, fut') \<Longrightarrow> r = outcome fut"

text \<open>A consumer that polls at most \<open>n\<close> times and stops at the end: what it received, whether
  it saw the end, and the stream that is left.\<close>

fun collect :: "('st, 'it) stream_ops \<Rightarrow> nat \<Rightarrow> 'st \<Rightarrow> 'it list \<times> bool \<times> 'st" where
  "collect S 0 st = ([], False, st)"
| "collect S (Suc n) st =
     (case poll_stream S st of
        (Pending, st') \<Rightarrow> collect S n st'
      | (Ready (Some x), st') \<Rightarrow> (let (xs, fin, st'') = collect S n st' in (x # xs, fin, st''))
      | (Ready None, st') \<Rightarrow> ([], True, st'))"

context stream_laws
begin

lemma collect_prefix:
  "collect S n st = (xs, fin, st') \<Longrightarrow> \<exists>ys. items st = xs @ ys \<and> (fin \<longrightarrow> ys = [])"
proof (induction n arbitrary: st xs)
  case (Suc n)
  obtain r st1 where p: "poll_stream S st = (r, st1)" by fastforce
  show ?case
  proof (cases r)
    case Pending
    with Suc.IH [of st1 xs] Suc.prems p poll_pending [of st st1] show ?thesis by simp
  next
    case (Ready opt)
    show ?thesis
    proof (cases opt)
      case None
      with Ready p Suc.prems poll_end [of st st1] show ?thesis by auto
    next
      case (Some x)
      obtain ys where "collect S n st1 = (ys, fin, st')" "xs = x # ys"
        using Suc.prems p Ready Some by (auto split: prod.splits)
      with Suc.IH [of st1 ys] poll_item [of st x st1] p Ready Some show ?thesis by auto
    qed
  qed
qed simp

lemma collect_all: "\<exists>n st'. collect S n st = (items st, True, st')"
proof (induction "items st" arbitrary: st rule: length_induct)
  case (1 st)
  show ?case using 1
  proof (induction "delay st" arbitrary: st rule: less_induct)
    case less
    obtain r st1 where p: "poll_stream S st = (r, st1)" by fastforce
    show ?case
    proof (cases r)
      case Pending
      with p have s: "items st1 = items st" "delay st1 < delay st" using poll_pending by auto
      obtain n st' where "collect S n st1 = (items st, True, st')"
        using less.hyps [OF s(2)] less.prems by (auto simp: s(1))
      then have "collect S (Suc n) st = (items st, True, st')" using p Pending by simp
      then show ?thesis by blast
    next
      case (Ready opt)
      show ?thesis
      proof (cases opt)
        case None
        then have "collect S (Suc 0) st = (items st, True, st1)" using p Ready poll_end by simp
        then show ?thesis by blast
      next
        case (Some x)
        then have i: "items st = x # items st1" using p Ready poll_item by simp
        then obtain n st' where "collect S n st1 = (items st1, True, st')" using less.prems by force
        then have "collect S (Suc n) st = (items st, True, st')" using p Ready Some i by simp
        then show ?thesis by blast
      qed
    qed
  qed
qed

end

subsection \<open>The combinator\<close>

datatype ('s, 'f) unfold_state = Value 's | Future 'f | Empty

definition unfold_is_empty :: "('s, 'f) unfold_state \<Rightarrow> bool" where
  "unfold_is_empty u = (case u of Empty \<Rightarrow> True | _ \<Rightarrow> False)"

definition unfold_is_future :: "('s, 'f) unfold_state \<Rightarrow> bool" where
  "unfold_is_future u = (case u of Future fut \<Rightarrow> True | _ \<Rightarrow> False)"

definition project_future :: "('s, 'f) unfold_state \<Rightarrow> 'f option" where
  "project_future u = (case u of Future fut \<Rightarrow> Some fut | _ \<Rightarrow> None)"

definition take_value :: "('s, 'f) unfold_state \<Rightarrow> 's option \<times> ('s, 'f) unfold_state" where
  "take_value u = (case u of Value v \<Rightarrow> (Some v, Empty) | _ \<Rightarrow> (None, u))"

lemmas unfold_defs = unfold_is_empty_def unfold_is_future_def project_future_def take_value_def

text \<open>The closure \<open>f\<close> may keep a state of its own; \<open>call\<close> applies it.\<close>

record ('st, 's, 'f, 'g) scan =
  scan_stream :: 'st
  scan_f :: 'g
  scan_state :: "('s, 'f) unfold_state"

type_synonym ('g, 's, 'it, 'f) call_fun = "'g \<Rightarrow> 's \<Rightarrow> 'it \<Rightarrow> 'f \<times> 'g"

definition scan_new :: "'st \<Rightarrow> 's \<Rightarrow> 'g \<Rightarrow> ('st, 's, 'f, 'g) scan" where
  "scan_new st init f = \<lparr> scan_stream = st, scan_f = f, scan_state = Value init \<rparr>"

definition is_done_taking :: "('st, 's, 'f, 'g) scan \<Rightarrow> bool" where
  "is_done_taking sc = unfold_is_empty (scan_state sc)"

text \<open>
  The loop of \<open>poll_next\<close>; \<open>None\<close> is the panic of the \<open>unwrap\<close>.  A round that makes a future
  is followed by one that polls it, which leaves the loop.
\<close>

function scan_loop ::
  "('st, 'it) stream_ops \<Rightarrow> ('f, ('s \<times> 'b) option) poll_fun \<Rightarrow> ('g, 's, 'it, 'f) call_fun
     \<Rightarrow> ('st, 's, 'f, 'g) scan \<Rightarrow> ('b option poll \<times> ('st, 's, 'f, 'g) scan) option" where
  "scan_loop S P call sc =
     (case project_future (scan_state sc) of
        Some fut \<Rightarrow>
          (case P fut of
             (Pending, fut') \<Rightarrow> Some (Pending, sc\<lparr> scan_state := Future fut' \<rparr>)
           | (Ready None, fut') \<Rightarrow> Some (Ready None, sc\<lparr> scan_state := Empty \<rparr>)
           | (Ready (Some (v, item)), fut') \<Rightarrow>
               Some (Ready (Some item), sc\<lparr> scan_state := Value v \<rparr>))
      | None \<Rightarrow>
          (case poll_stream S (scan_stream sc) of
             (Pending, st') \<Rightarrow> Some (Pending, sc\<lparr> scan_stream := st' \<rparr>)
           | (Ready None, st') \<Rightarrow> Some (Ready None, sc\<lparr> scan_stream := st' \<rparr>)
           | (Ready (Some item), st') \<Rightarrow>
               (case take_value (scan_state sc) of
                  (None, u) \<Rightarrow> None
                | (Some v, u) \<Rightarrow>
                    (let (fut, g) = call (scan_f sc) v item
                     in scan_loop S P call
                          \<lparr> scan_stream = st', scan_f = g, scan_state = Future fut \<rparr>))))"
  by pat_completeness auto
termination
  by (relation "measure (\<lambda>(S, P, call, sc). if unfold_is_future (scan_state sc) then 0 else 1)")
    (auto simp: unfold_defs split: unfold_state.splits)

declare scan_loop.simps [simp del]

definition scan_poll_next ::
  "('st, 'it) stream_ops \<Rightarrow> ('f, ('s \<times> 'b) option) poll_fun \<Rightarrow> ('g, 's, 'it, 'f) call_fun
     \<Rightarrow> ('st, 's, 'f, 'g) scan \<Rightarrow> ('b option poll \<times> ('st, 's, 'f, 'g) scan) option" where
  "scan_poll_next S P call sc =
     (if is_done_taking sc then Some (Ready None, sc) else scan_loop S P call sc)"

definition scan_size_hint ::
  "('st, 'it) stream_ops \<Rightarrow> ('st, 's, 'f, 'g) scan \<Rightarrow> nat \<times> nat option" where
  "scan_size_hint S sc =
     (if is_done_taking sc then (0, Some 0) else stream_hint S (scan_stream sc))"

definition scan_is_terminated ::
  "('st, 'it) stream_ops \<Rightarrow> ('st, 's, 'f, 'g) scan \<Rightarrow> bool" where
  "scan_is_terminated S sc \<longleftrightarrow>
     is_done_taking sc \<or> \<not> unfold_is_future (scan_state sc) \<and> stream_terminated S (scan_stream sc)"

text \<open>\<open>Scan\<close>'s implementation of the stream trait.\<close>

definition scan_ops ::
  "('st, 'it) stream_ops \<Rightarrow> ('f, ('s \<times> 'b) option) poll_fun \<Rightarrow> ('g, 's, 'it, 'f) call_fun
     \<Rightarrow> (('st, 's, 'f, 'g) scan, 'b) stream_ops" where
  "scan_ops S P call = \<lparr>
     poll_stream = (\<lambda>sc. the (scan_poll_next S P call sc)),
     stream_hint = scan_size_hint S,
     stream_terminated = scan_is_terminated S \<rparr>"

subsection \<open>What it yields\<close>

text \<open>The reference: the futures' outcomes along the items, up to the first that is \<open>None\<close>.\<close>

fun scan_ref ::
  "('f \<Rightarrow> ('s \<times> 'b) option) \<Rightarrow> ('g, 's, 'it, 'f) call_fun \<Rightarrow> 'g \<Rightarrow> 's \<Rightarrow> 'it list \<Rightarrow> 'b list" where
  "scan_ref outcome call g v [] = []"
| "scan_ref outcome call g v (x # xs) =
     (let (fut, g') = call g v x
      in case outcome fut of None \<Rightarrow> [] | Some (v', b) \<Rightarrow> b # scan_ref outcome call g' v' xs)"

definition scan_rest ::
  "('st \<Rightarrow> 'it list) \<Rightarrow> ('f \<Rightarrow> ('s \<times> 'b) option) \<Rightarrow> ('g, 's, 'it, 'f) call_fun
     \<Rightarrow> ('st, 's, 'f, 'g) scan \<Rightarrow> 'b list" where
  "scan_rest items outcome call sc =
     (case scan_state sc of
        Value v \<Rightarrow> scan_ref outcome call (scan_f sc) v (items (scan_stream sc))
      | Future fut \<Rightarrow>
          (case outcome fut of
             None \<Rightarrow> []
           | Some (v, b) \<Rightarrow> b # scan_ref outcome call (scan_f sc) v (items (scan_stream sc)))
      | Empty \<Rightarrow> [])"

definition scan_delay ::
  "('st \<Rightarrow> 'it list) \<Rightarrow> ('st \<Rightarrow> nat) \<Rightarrow> ('f \<Rightarrow> nat) \<Rightarrow> ('g, 's, 'it, 'f) call_fun
     \<Rightarrow> ('st, 's, 'f, 'g) scan \<Rightarrow> nat" where
  "scan_delay items delay wait call sc =
     (case scan_state sc of
        Value v \<Rightarrow> delay (scan_stream sc)
          + (case items (scan_stream sc) of
               [] \<Rightarrow> 0
             | x # xs \<Rightarrow> wait (fst (call (scan_f sc) v x)))
      | Future fut \<Rightarrow> wait fut
      | Empty \<Rightarrow> 0)"

text \<open>No poll panics: the loop asks for the value only when it holds one.\<close>

lemma scan_loop_future:
  "scan_loop S P call (sc\<lparr> scan_state := Future fut \<rparr>) \<noteq> None"
  by (subst scan_loop.simps)
    (auto simp: unfold_defs split: poll.splits option.splits prod.splits)

theorem scan_never_panics:
  "scan_poll_next S P call sc \<noteq> None"
proof (cases "scan_state sc")
  case (Future fut)
  then have "sc = sc\<lparr> scan_state := Future fut \<rparr>" by simp
  then have "scan_loop S P call sc \<noteq> None" using scan_loop_future by metis
  then show ?thesis by (simp add: scan_poll_next_def is_done_taking_def)
next
  case (Value v)
  have "scan_loop S P call \<lparr> scan_stream = st, scan_f = g, scan_state = Future fut \<rparr> \<noteq> None" for st g fut
    using scan_loop_future [of S P call fut "\<lparr> scan_stream = st, scan_f = g, scan_state = Empty \<rparr>"]
    by simp
  then have "scan_loop S P call sc \<noteq> None" using Value
    by (subst scan_loop.simps) (auto simp: unfold_defs split: poll.splits option.splits prod.splits)
  then show ?thesis by (simp add: scan_poll_next_def is_done_taking_def)
next
  case Empty
  then show ?thesis by (simp add: scan_poll_next_def is_done_taking_def unfold_defs)
qed

subsection \<open>A scan is a stream\<close>

text \<open>What a poll does in each state.\<close>

lemma scan_poll_empty: "scan_state sc = Empty \<Longrightarrow> scan_poll_next S P call sc = Some (Ready None, sc)"
  by (simp add: scan_poll_next_def is_done_taking_def unfold_defs)

lemma scan_poll_future:
  "scan_state sc = Future fut \<Longrightarrow> scan_poll_next S P call sc =
     (case P fut of
        (Pending, fut') \<Rightarrow> Some (Pending, sc\<lparr> scan_state := Future fut' \<rparr>)
      | (Ready None, fut') \<Rightarrow> Some (Ready None, sc\<lparr> scan_state := Empty \<rparr>)
      | (Ready (Some (v, item)), fut') \<Rightarrow> Some (Ready (Some item), sc\<lparr> scan_state := Value v \<rparr>))"
  by (simp add: scan_poll_next_def is_done_taking_def unfold_defs scan_loop.simps [of S P call sc])

lemma scan_poll_value:
  assumes "scan_state sc = Value v"
  shows "scan_poll_next S P call sc =
     (case poll_stream S (scan_stream sc) of
        (Pending, st') \<Rightarrow> Some (Pending, sc\<lparr> scan_stream := st' \<rparr>)
      | (Ready None, st') \<Rightarrow> Some (Ready None, sc\<lparr> scan_stream := st' \<rparr>)
      | (Ready (Some item), st') \<Rightarrow> scan_poll_next S P call
          \<lparr> scan_stream = st', scan_f = snd (call (scan_f sc) v item),
            scan_state = Future (fst (call (scan_f sc) v item)) \<rparr>)"
  using assms
  by (auto simp: scan_poll_next_def is_done_taking_def unfold_defs scan_loop.simps [of S P call sc]
      case_prod_beta Let_def split: poll.splits option.splits prod.splits)

locale scan_laws =
  inner: stream_laws S items delay + future: future_laws P outcome wait
  for S :: "('st, 'it) stream_ops" and items delay
    and P :: "('f, ('s \<times> 'b) option) poll_fun" and outcome wait
begin

lemma future_step:
  assumes "scan_state sc = Future fut" and "scan_poll_next S P call sc = Some (r, sc')"
  shows "case r of
      Pending \<Rightarrow> scan_rest items outcome call sc' = scan_rest items outcome call sc
        \<and> scan_delay items delay wait call sc' < wait fut
    | Ready (Some b) \<Rightarrow> scan_rest items outcome call sc = b # scan_rest items outcome call sc'
    | Ready None \<Rightarrow> scan_rest items outcome call sc = []"
proof -
  obtain q fut' where p: "P fut = (q, fut')" by fastforce
  show ?thesis
    using assms p future.future_pending [of fut fut'] future.future_ready [of fut _ fut']
    by (auto simp: scan_poll_future scan_rest_def scan_delay_def split: poll.splits option.splits)
qed

lemma value_step:
  assumes v: "scan_state sc = Value v" and st: "scan_poll_next S P call sc = Some (r, sc')"
  shows "case r of
      Pending \<Rightarrow> scan_rest items outcome call sc' = scan_rest items outcome call sc
        \<and> scan_delay items delay wait call sc' < scan_delay items delay wait call sc
    | Ready (Some b) \<Rightarrow> scan_rest items outcome call sc = b # scan_rest items outcome call sc'
    | Ready None \<Rightarrow> scan_rest items outcome call sc = []"
proof -
  obtain q st1 where p: "poll_stream S (scan_stream sc) = (q, st1)" by fastforce
  consider (pending) "q = Pending" | (over) "q = Ready None" | (item) x where "q = Ready (Some x)"
    by (cases q) (auto intro: option.exhaust)
  then show ?thesis
  proof cases
    case pending
    with p st v inner.poll_pending [of "scan_stream sc" st1] show ?thesis
      by (auto simp: scan_poll_value scan_rest_def scan_delay_def split: list.splits)
  next
    case over
    with p st v inner.poll_end [of "scan_stream sc" st1] show ?thesis
      by (auto simp: scan_poll_value scan_rest_def)
  next
    case (item x)
    let ?fut = "fst (call (scan_f sc) v x)"
    let ?sc1 = "\<lparr> scan_stream = st1, scan_f = snd (call (scan_f sc) v x), scan_state = Future ?fut \<rparr>"
    have i: "items (scan_stream sc) = x # items st1" using inner.poll_item p item by simp
    have "scan_poll_next S P call ?sc1 = Some (r, sc')" using st v p item by (simp add: scan_poll_value)
    from future_step [OF _ this, of ?fut]
    have step: "case r of
        Pending \<Rightarrow> scan_rest items outcome call sc' = scan_rest items outcome call ?sc1
          \<and> scan_delay items delay wait call sc' < wait ?fut
      | Ready (Some b) \<Rightarrow> scan_rest items outcome call ?sc1 = b # scan_rest items outcome call sc'
      | Ready None \<Rightarrow> scan_rest items outcome call ?sc1 = []" by simp
    have "scan_rest items outcome call sc = scan_rest items outcome call ?sc1"
      by (simp add: scan_rest_def v i Let_def case_prod_beta split: option.splits)
    moreover have "wait ?fut \<le> scan_delay items delay wait call sc" by (simp add: scan_delay_def v i)
    ultimately show ?thesis using step by (auto split: poll.splits option.splits)
  qed
qed

end

sublocale scan_laws \<subseteq> scanned: stream_laws "scan_ops S P call"
    "scan_rest items outcome call" "scan_delay items delay wait call"
  for call :: "('g, 's, 'it, 'f) call_fun"
proof
  fix sc sc' :: "('st, 's, 'f, 'g) scan" and x
  have poll: "poll_stream (scan_ops S P call) sc = (r, sc') \<longleftrightarrow>
      scan_poll_next S P call sc = Some (r, sc')" for r
    using scan_never_panics [of S P call sc] by (auto simp: scan_ops_def)
  show "poll_stream (scan_ops S P call) sc = (Pending, sc') \<Longrightarrow>
      scan_rest items outcome call sc' = scan_rest items outcome call sc
      \<and> scan_delay items delay wait call sc' < scan_delay items delay wait call sc"
    unfolding poll by (cases "scan_state sc")
      (use value_step [of sc] future_step [of sc] in
        \<open>fastforce simp: scan_poll_empty scan_delay_def\<close>)+
  show "poll_stream (scan_ops S P call) sc = (Ready (Some x), sc') \<Longrightarrow>
      scan_rest items outcome call sc = x # scan_rest items outcome call sc'"
    unfolding poll by (cases "scan_state sc")
      (use value_step [of sc] future_step [of sc] in \<open>fastforce simp: scan_poll_empty\<close>)+
  show "poll_stream (scan_ops S P call) sc = (Ready None, sc') \<Longrightarrow>
      scan_rest items outcome call sc = []"
    unfolding poll by (cases "scan_state sc")
      (use value_step [of sc] future_step [of sc] in \<open>fastforce simp: scan_rest_def\<close>)+
  show "stream_terminated (scan_ops S P call) sc \<Longrightarrow> scan_rest items outcome call sc = []"
    using inner.terminated_end
    by (cases "scan_state sc")
      (auto simp: scan_ops_def scan_is_terminated_def is_done_taking_def unfold_defs scan_rest_def)
qed

context scan_laws
begin

lemma scanned_laws:
  "stream_laws (scan_ops S P call) (scan_rest items outcome call) (scan_delay items delay wait call)"
  by (rule scanned.stream_laws_axioms)

end

text \<open>A scan yields what its futures compute.  For a lawful stream and lawful futures, in
  whatever pattern they are not ready: polling the scan often enough yields exactly the
  outputs of the reference and then the end, and however often it is polled, what came out is
  a prefix of the reference, and all of it if the end was seen.\<close>

theorem scan_equals_reference:
  fixes S :: "('st, 'it) stream_ops" and P :: "('f, ('s \<times> 'b) option) poll_fun"
  assumes "stream_laws S items delay" and "future_laws P outcome wait"
  shows "(\<exists>n sc. collect (scan_ops S P call) n (scan_new st v g)
        = (scan_ref outcome call g v (items st), True, sc))
    \<and> (\<forall>n xs fin sc. collect (scan_ops S P call) n (scan_new st v g) = (xs, fin, sc) \<longrightarrow>
        (\<exists>ys. scan_ref outcome call g v (items st) = xs @ ys \<and> (fin \<longrightarrow> ys = [])))"
proof -
  have "scan_laws S items delay P outcome wait" using assms by (rule scan_laws.intro)
  then have "stream_laws (scan_ops S P call) (scan_rest items outcome call)
      (scan_delay items delay wait call)"
    by (rule scan_laws.scanned_laws)
  moreover have "scan_rest items outcome call (scan_new st v g) = scan_ref outcome call g v (items st)"
    by (simp add: scan_rest_def scan_new_def)
  ultimately show ?thesis
    using stream_laws.collect_all [of _ _ _ "scan_new st v g"]
      stream_laws.collect_prefix [of "scan_ops S P call" _ _ _ "scan_new st v g"] by metis
qed

subsection \<open>Scripts\<close>

text \<open>A stream and a future that are not ready as often as a script says.\<close>

definition script_stream :: "('it poll list, 'it) stream_ops" where
  "script_stream = \<lparr>
     poll_stream = (\<lambda>st. case st of
         [] \<Rightarrow> (Ready None, [])
       | Pending # st' \<Rightarrow> (Pending, st')
       | Ready x # st' \<Rightarrow> (Ready (Some x), st')),
     stream_hint = (\<lambda>st. let n = length (filter (\<lambda>r. r \<noteq> Pending) st) in (n, Some n)),
     stream_terminated = (\<lambda>st. st = []) \<rparr>"

fun script_items :: "'it poll list \<Rightarrow> 'it list" where
  "script_items [] = []"
| "script_items (Pending # st) = script_items st"
| "script_items (Ready x # st) = x # script_items st"

fun script_future :: "(nat \<times> 'a, 'a) poll_fun" where
  "script_future (0, r) = (Ready r, (0, r))"
| "script_future (Suc n, r) = (Pending, (n, r))"

lemma script_future_cases:
  "script_future fut = (r, fut') \<Longrightarrow>
    if fst fut = 0 then r = Ready (snd fut) else r = Pending \<and> fut' = (fst fut - 1, snd fut)"
  by (cases fut rule: script_future.cases) auto

interpretation script: scan_laws script_stream script_items length script_future snd fst
  by unfold_locales
    (auto simp: script_stream_def split: list.splits poll.splits if_splits dest!: script_future_cases)

text \<open>Running sums up to a bound, each computed by a future that is first not ready.\<close>

definition sum_call :: "(unit, nat, nat, nat \<times> (nat \<times> nat) option) call_fun" where
  "sum_call g v x = ((1, if v + x < 10 then Some (v + x, v + x) else None), g)"

theorem scan_equals_reference_witness:
  "\<exists>n sc. collect (scan_ops script_stream script_future sum_call) n
      (scan_new [Ready 3, Pending, Ready 4, Ready 5, Ready 1] 0 ()) = ([3, 7], True, sc)"
proof -
  have "scan_ref snd sum_call () 0 (script_items [Ready 3, Pending, Ready 4, Ready 5, Ready 1]) = [3, 7]"
    by (simp add: sum_call_def)
  then show ?thesis
    using scan_equals_reference [OF script.inner.stream_laws_axioms script.future.future_laws_axioms,
        of sum_call "[Ready 3, Pending, Ready 4, Ready 5, Ready 1]" 0 "()"] by simp
qed

text \<open>
  The hint of a scan is the stream's, although a comment says that no lower bound is known.
  Neither bound holds: a scan whose first future is \<open>None\<close> yields less than the lower bound, and
  while a future is at work the item it will yield is not counted by the upper bound.
\<close>

lemma scan_hint_unsound:
  "scan_size_hint script_stream (scan_new [Ready 50] 0 ()) = (1, Some 1)"
  "scan_rest script_items snd sum_call (scan_new [Ready 50] 0 ()) = []"
  "\<exists>sc. poll_stream (scan_ops script_stream script_future sum_call) (scan_new [Ready 3] 0 ()) = (Pending, sc)
    \<and> scan_size_hint script_stream sc = (0, Some 0) \<and> scan_rest script_items snd sum_call sc = [3]"
proof -
  show "scan_size_hint script_stream (scan_new [Ready 50] 0 ()) = (1, Some 1)"
    by (simp add: scan_size_hint_def is_done_taking_def scan_new_def unfold_defs script_stream_def)
  show "scan_rest script_items snd sum_call (scan_new [Ready 50] 0 ()) = []"
    by (simp add: scan_rest_def scan_new_def sum_call_def)
  have "poll_stream script_stream [Ready 3] = (Ready (Some 3), [] :: nat poll list)"
    by (simp add: script_stream_def)
  then have "scan_poll_next script_stream script_future sum_call (scan_new [Ready 3] 0 ())
      = Some (Pending, \<lparr> scan_stream = [], scan_f = (), scan_state = Future (0, Some (3, 3)) \<rparr>)"
    by (simp add: scan_poll_value scan_new_def scan_poll_future sum_call_def)
  then show "\<exists>sc. poll_stream (scan_ops script_stream script_future sum_call) (scan_new [Ready 3] 0 ()) = (Pending, sc)
    \<and> scan_size_hint script_stream sc = (0, Some 0) \<and> scan_rest script_items snd sum_call sc = [3]"
    by (simp add: scan_ops_def scan_size_hint_def is_done_taking_def unfold_defs script_stream_def scan_rest_def)
qed

end
