(* ===== verification/Delimiter_Codec.thy ===== *)
theory Delimiter_Codec
  imports Framing
begin

text \<open>
  \<open>AllDelimiterCodec\<close> of \<open>codec/src/all_delimiters.rs\<close>: a codec that cuts a stream at a
  delimiter of one or more bytes, which either ends each item (exclusive mode) or starts it
  (inclusive mode).  The search is done by an Aho-Corasick automaton over all prefixes of
  the delimiter.  The automaton (the crate \<open>aho-corasick\<close>) is a parameter; the locale
  \<open>leftmost_longest\<close> names its documented match semantics, which a direct search satisfies.
\<close>

type_synonym find_fun = "bytes \<Rightarrow> (nat \<times> nat) option"

record all_delimiter =
  inclusive :: bool
  delimiter :: bytes
  ac :: find_fun
  inclusive_seen_header :: bool
  inclusive_terminated :: bool
  search_from :: nat

text \<open>The codec's errors, and the panics of slicing and of \<open>usize\<close> subtraction.\<close>

datatype delimiter_error = InclusiveMismatch | DelimiterPanic

definition delimiter_prefixes :: "bytes \<Rightarrow> bytes list" where
  "delimiter_prefixes d = map (\<lambda>i. take i d) [1..<length d + 1]"

definition all_delimiter_new :: "(bytes list \<Rightarrow> find_fun) \<Rightarrow> bytes \<Rightarrow> bool \<Rightarrow> all_delimiter" where
  "all_delimiter_new ac_build d incl =
     \<lparr> inclusive = incl, delimiter = d, ac = ac_build (delimiter_prefixes d),
       inclusive_seen_header = False, inclusive_terminated = False, search_from = 0 \<rparr>"

definition make_decoded :: "all_delimiter \<Rightarrow> bytes \<Rightarrow> bytes" where
  "make_decoded c b = (if \<not> inclusive c then b else delimiter c @ b)"

definition all_delimiter_encode :: "all_delimiter \<Rightarrow> bytes \<Rightarrow> bytes \<Rightarrow> delimiter_error + bytes" where
  "all_delimiter_encode c item dst =
     (if inclusive c \<and> \<not> prefix (delimiter c) item then Inl InclusiveMismatch
      else Inr (let dst' = dst @ item
                in if \<not> inclusive c then dst' @ delimiter c else dst'))"

text \<open>
  \<open>decode\<close>: the loop ends for every automaton, since the search position grows or the
  header is seen for the first time.
\<close>

function all_delimiter_decode :: "(all_delimiter, delimiter_error, bytes) decode_fun" where
  "all_delimiter_decode c src =
     (if length src < search_from c then Inl DelimiterPanic
      else case ac c (drop (search_from c) src) of
        None \<Rightarrow> Inr (None, c\<lparr> search_from := length src \<rparr>, src)
      | Some (s, e) \<Rightarrow>
          if e - s = length (delimiter c) then
            if length src < search_from c + e \<or> search_from c + e < length (delimiter c)
            then Inl DelimiterPanic
            else
              let result = take (search_from c + e) src;
                  src' = drop (search_from c + e) src;
                  c' = c\<lparr> search_from := 0 \<rparr>;
                  result' = take (length result - length (delimiter c)) result
              in if inclusive c \<and> \<not> inclusive_seen_header c
                 then all_delimiter_decode (c'\<lparr> inclusive_seen_header := True \<rparr>) src'
                 else Inr (Some (make_decoded c' result'), c', src')
          else if search_from c + e = length src
            then Inr (None, c\<lparr> search_from := search_from c + s \<rparr>, src)
          else all_delimiter_decode (c\<lparr> search_from := search_from c + s + 1 \<rparr>) src)"
  by pat_completeness auto

termination
  by (relation "measures [\<lambda>(c, src). if inclusive_seen_header c then 0 else 1,
        \<lambda>(c, src). Suc (length src) - search_from c]") auto

declare all_delimiter_decode.simps [simp del]

definition all_delimiter_decode_eof :: "(all_delimiter, delimiter_error, bytes) decode_fun" where
  "all_delimiter_decode_eof c buf =
     (if \<not> inclusive c then all_delimiter_decode c buf
      else if buf = [] then
        (if inclusive_seen_header c \<and> \<not> inclusive_terminated c
         then Inr (Some (make_decoded c []), c\<lparr> inclusive_terminated := True \<rparr>, buf)
         else Inr (None, c, buf))
      else case all_delimiter_decode c buf of
        Inl e \<Rightarrow> Inl e
      | Inr (Some item, c', buf') \<Rightarrow> Inr (Some item, c', buf')
      | Inr (None, c', buf') \<Rightarrow>
          (let c'' = c'\<lparr> inclusive_terminated := True, search_from := 0 \<rparr>
           in Inr (Some (make_decoded c'' buf'), c'', [])))"

subsection \<open>The automaton\<close>

text \<open>
  \<open>MatchKind::LeftmostLongest\<close>: a match starts where the leftmost occurrence of any pattern
  starts and is the longest pattern there.
\<close>

locale leftmost_longest =
  fixes build :: "bytes list \<Rightarrow> find_fun"
  assumes find_None: "[] \<notin> set pats \<Longrightarrow>
      build pats hay = None \<longleftrightarrow> (\<forall>i. \<forall>p \<in> set pats. \<not> prefix p (drop i hay))"
    and find_Some: "[] \<notin> set pats \<Longrightarrow> build pats hay = Some (s, e) \<Longrightarrow>
      (\<exists>p \<in> set pats. e = s + length p \<and> prefix p (drop s hay)
         \<and> (\<forall>q \<in> set pats. prefix q (drop s hay) \<longrightarrow> length q \<le> length p))
      \<and> (\<forall>i < s. \<forall>q \<in> set pats. \<not> prefix q (drop i hay))"

text \<open>What this means for the prefixes of one delimiter.\<close>

definition prefix_search :: "bytes \<Rightarrow> find_fun \<Rightarrow> bool" where
  "prefix_search d search \<longleftrightarrow> (\<forall>hay.
     case search hay of
       None \<Rightarrow> hd d \<notin> set hay
     | Some (s, e) \<Rightarrow> s < e \<and> e \<le> length hay \<and> hd d \<notin> set (take s hay)
         \<and> prefix (take (e - s) d) (drop s hay) \<and> e - s \<le> length d
         \<and> (e - s \<noteq> length d \<longrightarrow> \<not> prefix (take (Suc (e - s)) d) (drop s hay)))"

lemma set_delimiter_prefixes:
  "p \<in> set (delimiter_prefixes d) \<longleftrightarrow> p \<noteq> [] \<and> prefix p d"
proof
  assume "p \<noteq> [] \<and> prefix p d"
  then have "p = take (length p) d" "length p \<in> set [1..<length d + 1]"
    by (auto simp: prefix_def Suc_le_eq)
  then show "p \<in> set (delimiter_prefixes d)"
    unfolding delimiter_prefixes_def by (metis image_eqI list.set_map)
qed (auto simp: delimiter_prefixes_def take_is_prefix)

lemma no_first_byte:
  assumes "d \<noteq> []" and "\<forall>i < s. \<forall>q \<in> set (delimiter_prefixes d). \<not> prefix q (drop i hay)"
  shows "hd d \<notin> set (take s hay)"
proof
  assume "hd d \<in> set (take s hay)"
  then obtain i where i: "i < s" "i < length hay" "hay ! i = hd d" by (auto simp: in_set_conv_nth)
  have "[hd d] \<in> set (delimiter_prefixes d)" using assms(1) by (cases d) (simp_all add: set_delimiter_prefixes)
  moreover have "prefix [hd d] (drop i hay)" using i(2,3) by (simp add: Cons_nth_drop_Suc [symmetric])
  ultimately show False using assms(2) i(1) by blast
qed

context leftmost_longest
begin

lemma build_prefix_search:
  assumes d: "d \<noteq> []"
  shows "prefix_search d (build (delimiter_prefixes d))"
proof -
  let ?P = "delimiter_prefixes d"
  have ne: "[] \<notin> set ?P" by (simp add: set_delimiter_prefixes)
  note no_hd = no_first_byte [OF d]
  show ?thesis unfolding prefix_search_def
  proof
    fix hay
    show "case build ?P hay of
       None \<Rightarrow> hd d \<notin> set hay
     | Some (s, e) \<Rightarrow> s < e \<and> e \<le> length hay \<and> hd d \<notin> set (take s hay)
         \<and> prefix (take (e - s) d) (drop s hay) \<and> e - s \<le> length d
         \<and> (e - s \<noteq> length d \<longrightarrow> \<not> prefix (take (Suc (e - s)) d) (drop s hay))"
    proof (cases "build ?P hay")
      case None
      then have "hd d \<notin> set (take (length hay) hay)"
        using find_None [OF ne, of hay] no_hd [of "length hay" hay] by blast
      with None show ?thesis by simp
    next
      case (Some se)
      obtain s e where se: "se = (s, e)" by (cases se)
      obtain p where p: "p \<in> set ?P" "e = s + length p" "prefix p (drop s hay)"
        and longest: "\<forall>q \<in> set ?P. prefix q (drop s hay) \<longrightarrow> length q \<le> length p"
        and left: "\<forall>i < s. \<forall>q \<in> set ?P. \<not> prefix q (drop i hay)"
        using find_Some [OF ne] Some se by blast
      have pd: "p \<noteq> []" "prefix p d" using p(1) by (simp_all add: set_delimiter_prefixes)
      have take_p: "take (e - s) d = p" using p(2) pd(2) by (auto simp: prefix_def)
      have len: "length p \<le> length hay - s" using prefix_length_le [OF p(3)] by simp
      have "0 < length p" using pd(1) by simp
      then have pos: "0 < length p" "s + length p \<le> length hay" using len by linarith+
      have more: "\<not> prefix (take (Suc (e - s)) d) (drop s hay)" if "e - s \<noteq> length d"
      proof -
        have "length p < length d" using that p(2) prefix_length_le [OF pd(2)] by simp
        then have "take (Suc (e - s)) d \<in> set ?P" "length (take (Suc (e - s)) d) = Suc (length p)"
          using d p(2) by (auto simp: set_delimiter_prefixes take_is_prefix)
        then show ?thesis using longest by fastforce
      qed
      show ?thesis
        using Some se p len more take_p no_hd [OF left] pos prefix_length_le [OF pd(2)]
        by simp
    qed
  qed
qed

end

subsection \<open>A direct search\<close>

definition longest_match :: "bytes list \<Rightarrow> bytes \<Rightarrow> nat option" where
  "longest_match pats bs =
     (case filter (\<lambda>p. prefix p bs) pats of
        [] \<Rightarrow> None
      | p # ps \<Rightarrow> Some (fold max (map length ps) (length p)))"

fun direct_search :: "bytes list \<Rightarrow> find_fun" where
  "direct_search pats [] = None"
| "direct_search pats (x # xs) =
     (case longest_match pats (x # xs) of
        Some n \<Rightarrow> Some (0, n)
      | None \<Rightarrow> map_option (\<lambda>(s, e). (Suc s, Suc e)) (direct_search pats xs))"

lemma fold_max_Max: "fold max ns n = Max (set (n # ns))" for n :: nat
  by (simp only: Max.set_eq_fold)

lemma longest_match_None: "longest_match pats bs = None \<longleftrightarrow> (\<forall>p \<in> set pats. \<not> prefix p bs)"
  by (auto simp: longest_match_def filter_empty_conv split: list.splits)
     (metis filter_empty_conv list.distinct(1))

lemma longest_match_Some:
  assumes "longest_match pats bs = Some n"
  shows "\<exists>p \<in> set pats. n = length p \<and> prefix p bs \<and> (\<forall>q \<in> set pats. prefix q bs \<longrightarrow> length q \<le> n)"
proof -
  obtain p ps where f: "filter (\<lambda>p. prefix p bs) pats = p # ps"
    and n: "n = fold max (map length ps) (length p)"
    using assms by (auto simp: longest_match_def split: list.splits)
  have s: "set (p # ps) = {p \<in> set pats. prefix p bs}" using f by (metis set_filter)
  have n': "n = Max (length ` set (p # ps))" using n by (simp only: fold_max_Max) simp
  have "n \<in> length ` set (p # ps)" unfolding n' by (rule Max_in) auto
  moreover have "length q \<le> n" if "q \<in> set (p # ps)" for q
    unfolding n' using that by (intro Max_ge) auto
  ultimately show ?thesis using s by auto
qed

lemma all_nat_cases: "(\<forall>i. Q i) \<longleftrightarrow> Q 0 \<and> (\<forall>i. Q (Suc i))" for Q :: "nat \<Rightarrow> bool"
  by (metis not0_implies_Suc)

lemma direct_search_None:
  "[] \<notin> set pats \<Longrightarrow>
    direct_search pats hay = None \<longleftrightarrow> (\<forall>i. \<forall>p \<in> set pats. \<not> prefix p (drop i hay))"
proof (induction pats hay rule: direct_search.induct)
  case (2 pats x xs)
  have "(\<forall>i. \<forall>p \<in> set pats. \<not> prefix p (drop i (x # xs))) \<longleftrightarrow>
      (\<forall>p \<in> set pats. \<not> prefix p (x # xs)) \<and> (\<forall>i. \<forall>p \<in> set pats. \<not> prefix p (drop i xs))"
    by (subst all_nat_cases) simp
  then show ?case using 2 longest_match_None [of pats "x # xs"]
    by (cases "longest_match pats (x # xs)") simp_all
qed auto

lemma direct_search_Some:
  assumes "[] \<notin> set pats" and "direct_search pats hay = Some (s, e)"
  shows "(\<exists>p \<in> set pats. e = s + length p \<and> prefix p (drop s hay)
         \<and> (\<forall>q \<in> set pats. prefix q (drop s hay) \<longrightarrow> length q \<le> length p))
      \<and> (\<forall>i < s. \<forall>q \<in> set pats. \<not> prefix q (drop i hay))"
  using assms
proof (induction pats hay arbitrary: s e rule: direct_search.induct)
  case (2 pats x xs)
  show ?case
  proof (cases "longest_match pats (x # xs)")
    case (Some n)
    then show ?thesis using 2 longest_match_Some [OF Some] by auto
  next
    case None
    then obtain s' e' where se: "s = Suc s'" "e = Suc e'" "direct_search pats xs = Some (s', e')"
      using 2 by auto
    note IH = "2.IH" [OF None "2.prems"(1) se(3)]
    have "\<not> prefix q (drop i (x # xs))" if "i < s" "q \<in> set pats" for i q
      using that IH None se(1) by (cases i) (auto simp: longest_match_None)
    then show ?thesis using IH se by auto
  qed
qed auto

interpretation direct: leftmost_longest direct_search
  by unfold_locales (use direct_search_None direct_search_Some in blast)+

subsection \<open>Decoding in exclusive mode and after the header\<close>

text \<open>The specification: the first occurrence of the delimiter.\<close>

fun first_at :: "bytes \<Rightarrow> bytes \<Rightarrow> nat option" where
  "first_at d [] = (if d = [] then Some 0 else None)"
| "first_at d (x # xs) = (if prefix d (x # xs) then Some 0 else map_option Suc (first_at d xs))"

lemma first_at_None: "d \<noteq> [] \<Longrightarrow> first_at d bs = None \<longleftrightarrow> (\<forall>i. \<not> prefix d (drop i bs))"
proof (induction d bs rule: first_at.induct)
  case (2 d x xs)
  then show ?case by (subst all_nat_cases) simp
qed simp

lemma first_at_Some:
  "d \<noteq> [] \<Longrightarrow> first_at d bs = Some n \<longleftrightarrow> prefix d (drop n bs) \<and> (\<forall>i < n. \<not> prefix d (drop i bs))"
proof (induction d bs arbitrary: n rule: first_at.induct)
  case (2 d x xs)
  have less: "(\<forall>i < Suc m. Q i) \<longleftrightarrow> Q 0 \<and> (\<forall>i < m. Q (Suc i))" for m :: nat and Q
    by (metis less_Suc_eq_0_disj not_less_eq)
  show ?case
  proof (cases n)
    case 0
    then show ?thesis using 2 by (auto split: if_splits)
  next
    case (Suc m)
    then show ?thesis using 2 less [of m "\<lambda>i. \<not> prefix d (drop i (x # xs))"] by auto
  qed
qed auto

lemma first_at_bounds:
  assumes "first_at d bs = Some n" and "d \<noteq> []"
  shows "n + length d \<le> length bs" and "take (length d) (drop n bs) = d"
proof -
  have p: "prefix d (drop n bs)" using assms first_at_Some by blast
  then show "take (length d) (drop n bs) = d" by (auto simp: prefix_def)
  have "length d \<le> length bs - n" using prefix_length_le [OF p] by simp
  moreover have "0 < length d" using assms(2) by simp
  ultimately show "n + length d \<le> length bs" by linarith
qed

lemma first_at_append:
  assumes "first_at d bs = Some n"
  shows "first_at d (bs @ ext) = Some n"
proof (cases "d = []")
  case True
  then show ?thesis using assms by (cases bs; cases ext) auto
next
  case False
  have b: "n + length d \<le> length bs" using first_at_bounds [OF assms False] by simp
  have p: "prefix d (drop n bs)" and np: "\<forall>i < n. \<not> prefix d (drop i bs)"
    using assms first_at_Some [OF False] by auto
  have "\<not> prefix d (drop i (bs @ ext))" if "i < n" for i
  proof -
    have "length d \<le> length (drop i bs)" using that b by simp
    then show ?thesis using np that b by (simp add: prefix_append) (auto simp: prefix_def)
  qed
  moreover have "prefix d (drop n (bs @ ext))" using p b by (auto simp: prefix_def)
  ultimately show ?thesis using first_at_Some [OF False] by blast
qed

text \<open>
  A position can be skipped for good if the delimiter neither occurs there nor can be
  completed there by later bytes.
\<close>

definition skippable :: "bytes \<Rightarrow> bytes \<Rightarrow> nat \<Rightarrow> bool" where
  "skippable d buf i \<longleftrightarrow> \<not> prefix d (drop i buf) \<and> \<not> prefix (drop i buf) d"

definition delimiter_inv :: "bytes \<Rightarrow> all_delimiter \<Rightarrow> bytes \<Rightarrow> bool" where
  "delimiter_inv d c buf \<longleftrightarrow> d \<noteq> [] \<and> delimiter c = d \<and> prefix_search d (ac c)
     \<and> search_from c \<le> length buf \<and> (\<forall>i < search_from c. skippable d buf i)"

lemma skippable_append:
  assumes "skippable d buf i" and "i \<le> length buf"
  shows "skippable d (buf @ ext) i"
proof -
  have "prefix d (drop i buf @ ext) \<Longrightarrow> prefix d (drop i buf) \<or> prefix (drop i buf) d"
    by (meson prefix_same_cases prefixI)
  moreover have "prefix (drop i buf @ ext) d \<Longrightarrow> prefix (drop i buf) d"
    by (meson append_prefixD)
  ultimately show ?thesis using assms by (auto simp: skippable_def)
qed

lemma delimiter_inv_receive: "delimiter_inv d c buf \<Longrightarrow> delimiter_inv d c (buf @ bs)"
  by (auto simp: delimiter_inv_def intro!: skippable_append)

lemma delimiter_inv_reset:
  "delimiter_inv d c buf \<Longrightarrow> delimiter_inv d (c\<lparr> search_from := 0 \<rparr>) buf'"
  by (simp add: delimiter_inv_def)

text \<open>No position before the leftmost match of the first byte is a possible start.\<close>

lemma skippable_no_hd:
  assumes "d \<noteq> []" and "hd d \<notin> set (take s (drop k buf))" and "i < k + s" and "k \<le> i"
    and "i < length buf"
  shows "skippable d buf i"
proof -
  have "buf ! i \<in> set (take s (drop k buf))"
    using assms(3-5) by (auto simp: in_set_conv_nth intro!: exI [of _ "i - k"])
  then have "buf ! i \<noteq> hd d" using assms(2) by auto
  moreover have "drop i buf = buf ! i # drop (Suc i) buf" using assms(5) by (simp add: Cons_nth_drop_Suc)
  ultimately show ?thesis using assms(1) by (cases d) (auto simp: skippable_def)
qed

lemma delimiter_inv_advance:
  assumes inv: "delimiter_inv d c buf" and "hd d \<notin> set (take s (drop (search_from c) buf))"
    and "search_from c + s \<le> length buf"
  shows "delimiter_inv d (c\<lparr> search_from := search_from c + s \<rparr>) buf"
    and "i < search_from c + s \<Longrightarrow> skippable d buf i"
proof -
  show *: "skippable d buf i" if "i < search_from c + s" for i
  proof (cases "i < search_from c")
    case True
    then show ?thesis using inv by (simp add: delimiter_inv_def)
  next
    case False
    then show ?thesis using assms that
      by (intro skippable_no_hd [of d s "search_from c"]) (auto simp: delimiter_inv_def)
  qed
  show "delimiter_inv d (c\<lparr> search_from := search_from c + s \<rparr>) buf"
    using inv assms(3) * by (auto simp: delimiter_inv_def)
qed

text \<open>A part of the delimiter at the end of the buffer, and one that ends earlier.\<close>

lemma partial_end_none:
  assumes "d \<noteq> []" and "\<And>i. i < n \<Longrightarrow> skippable d buf i" and "length buf < n + length d"
  shows "first_at d buf = None"
proof -
  have "\<not> prefix d (drop i buf)" for i
  proof (cases "i < n")
    case True
    then show ?thesis using assms(2) by (simp add: skippable_def)
  next
    case False
    moreover have "0 < length d" using assms(1) by simp
    ultimately have "length (drop i buf) < length d" unfolding length_drop using assms(3) by linarith
    then show ?thesis using prefix_length_le by fastforce
  qed
  then show ?thesis using first_at_None [OF assms(1)] by simp
qed

lemma partial_skippable:
  assumes "\<not> prefix (take (Suc n) d) (drop k buf)" and "Suc n \<le> length (drop k buf)"
  shows "skippable d buf k"
proof -
  have "\<not> prefix d (drop k buf)" using assms(1) by (meson prefix_order.trans take_is_prefix)
  moreover have "\<not> prefix (drop k buf) d"
  proof
    assume "prefix (drop k buf) d"
    then have "take (Suc n) d = take (Suc n) (drop k buf)" using assms(2) by (auto simp: prefix_def)
    then show False using assms(1) take_is_prefix by metis
  qed
  ultimately show ?thesis by (simp add: skippable_def)
qed

text \<open>The search for the delimiter from the search position on, one automaton call.\<close>

lemma delimiter_find_cases [consumes 1, case_names Absent Full Partial_End Partial]:
  assumes inv: "delimiter_inv d c buf"
    and "ac c (drop (search_from c) buf) = None \<Longrightarrow> \<forall>i < length buf. skippable d buf i \<Longrightarrow> P"
    and "\<And>s e. ac c (drop (search_from c) buf) = Some (s, e) \<Longrightarrow> e - s = length d \<Longrightarrow>
      first_at d buf = Some (search_from c + s) \<Longrightarrow> s < e \<Longrightarrow> search_from c + e \<le> length buf \<Longrightarrow> P"
    and "\<And>s e. ac c (drop (search_from c) buf) = Some (s, e) \<Longrightarrow> e - s \<noteq> length d \<Longrightarrow>
      search_from c + e = length buf \<Longrightarrow> first_at d buf = None \<Longrightarrow>
      delimiter_inv d (c\<lparr> search_from := search_from c + s \<rparr>) buf \<Longrightarrow> P"
    and "\<And>s e. ac c (drop (search_from c) buf) = Some (s, e) \<Longrightarrow> e - s \<noteq> length d \<Longrightarrow>
      search_from c + e \<noteq> length buf \<Longrightarrow> search_from c + s < length buf \<Longrightarrow>
      delimiter_inv d (c\<lparr> search_from := search_from c + s + 1 \<rparr>) buf \<Longrightarrow> P"
  shows P
proof -
  let ?k = "search_from c" and ?hay = "drop (search_from c) buf"
  have d: "d \<noteq> []" "delimiter c = d" "?k \<le> length buf"
    and ps: "case ac c ?hay of
       None \<Rightarrow> hd d \<notin> set ?hay
     | Some (s, e) \<Rightarrow> s < e \<and> e \<le> length ?hay \<and> hd d \<notin> set (take s ?hay)
         \<and> prefix (take (e - s) d) (drop s ?hay) \<and> e - s \<le> length d
         \<and> (e - s \<noteq> length d \<longrightarrow> \<not> prefix (take (Suc (e - s)) d) (drop s ?hay))"
    using inv by (simp_all add: delimiter_inv_def prefix_search_def)
  show P
  proof (cases "ac c ?hay")
    case None
    then have "hd d \<notin> set (take (length buf - ?k) ?hay)" using ps by simp
    then have "skippable d buf i" if "i < length buf" for i
      using delimiter_inv_advance(2) [OF inv, of "length buf - ?k" i] d(3) that by simp
    then show P using None assms(2) by blast
  next
    case (Some se)
    obtain s e where se: "ac c ?hay = Some (s, e)" using Some by (cases se) auto
    have f: "s < e" "?k + e \<le> length buf" "hd d \<notin> set (take s ?hay)"
      "prefix (take (e - s) d) (drop (?k + s) buf)" "e - s \<le> length d"
      "e - s \<noteq> length d \<Longrightarrow> \<not> prefix (take (Suc (e - s)) d) (drop (?k + s) buf)"
      using ps se d(3) by (simp_all add: add.commute le_diff_conv2)
    have skip: "skippable d buf i" if "i < ?k + s" for i
      using delimiter_inv_advance(2) [OF inv f(3) _ that] f(1,2) by simp
    have adv: "delimiter_inv d (c\<lparr> search_from := ?k + s \<rparr>) buf"
      using delimiter_inv_advance(1) [OF inv f(3)] f(1,2) by simp
    consider "e - s = length d" | "e - s \<noteq> length d" "?k + e = length buf"
      | "e - s \<noteq> length d" "?k + e \<noteq> length buf" by blast
    then show P
    proof cases
      case 1
      then have "prefix d (drop (?k + s) buf)" using f(4) by simp
      then have "first_at d buf = Some (?k + s)"
        using first_at_Some [OF d(1)] skip by (simp add: skippable_def)
      then show P using assms(3) [OF se 1] f(1,2) by blast
    next
      case 2
      have "first_at d buf = None"
        using partial_end_none [OF d(1) skip, of "?k + s"] 2 f(1,5) by simp
      then show P using assms(4) [OF se 2(1,2)] adv by simp
    next
      case 3
      have lt: "?k + s < length buf" "Suc (e - s) \<le> length (drop (?k + s) buf)"
        using f(1,2) 3(2) by auto
      have "skippable d buf (?k + s)" using partial_skippable [OF f(6) [OF 3(1)] lt(2)] .
      then have "delimiter_inv d (c\<lparr> search_from := ?k + s + 1 \<rparr>) buf"
        using adv lt(1) by (auto simp: delimiter_inv_def less_Suc_eq)
      then show P using assms(5) [OF se 3 lt(1)] by blast
    qed
  qed
qed

lemma first_at_skippable:
  assumes "d \<noteq> []" and "\<forall>i < length buf. skippable d buf i"
  shows "first_at d buf = None"
  unfolding first_at_None [OF assms(1)]
  using assms by (metis drop_all linorder_not_le prefix_Nil skippable_def)

lemma decode_delimited:
  assumes "delimiter_inv d c buf" and "inclusive c \<Longrightarrow> inclusive_seen_header c"
  shows "case first_at d buf of
      None \<Rightarrow> (\<exists>k. all_delimiter_decode c buf = Inr (None, c\<lparr> search_from := k \<rparr>, buf)
                \<and> delimiter_inv d (c\<lparr> search_from := k \<rparr>) buf)
    | Some n \<Rightarrow> all_delimiter_decode c buf
        = Inr (Some (make_decoded c (take n buf)), c\<lparr> search_from := 0 \<rparr>, drop (n + length d) buf)"
  using assms
proof (induction "length buf - search_from c" arbitrary: c rule: less_induct)
  case less
  note inv = less.prems(1)
  have d: "d \<noteq> []" "delimiter c = d" "search_from c \<le> length buf"
    using inv by (simp_all add: delimiter_inv_def)
  from inv show ?case
  proof (cases rule: delimiter_find_cases)
    case Absent
    have "delimiter_inv d (c\<lparr> search_from := length buf \<rparr>) buf"
      using inv Absent(2) by (simp add: delimiter_inv_def)
    then show ?thesis using Absent first_at_skippable [OF d(1) Absent(2)] d(3)
      by (subst all_delimiter_decode.simps) (auto intro!: exI [of _ "length buf"])
  next
    case (Full s e)
    have "search_from c + e = search_from c + s + length d" using Full(2,4) by linarith
    then have "all_delimiter_decode c buf = Inr (Some (make_decoded c (take (search_from c + s) buf)),
        c\<lparr> search_from := 0 \<rparr>, drop (search_from c + s + length d) buf)"
      using Full less.prems(2) d by (subst all_delimiter_decode.simps) (auto simp: Let_def min_def make_decoded_def add.assoc)
    then show ?thesis using Full(3) by simp
  next
    case (Partial_End s e)
    then show ?thesis using d
      by (subst all_delimiter_decode.simps) (auto intro!: exI [of _ "search_from c + s"])
  next
    case (Partial s e)
    let ?c = "c\<lparr> search_from := search_from c + s + 1 \<rparr>"
    have eq: "all_delimiter_decode c buf = all_delimiter_decode ?c buf"
      using Partial d by (subst all_delimiter_decode.simps) simp
    have "length buf - search_from ?c < length buf - search_from c" using Partial(4) by simp
    from less.hyps [OF this Partial(5)] less.prems(2) show ?thesis
      by (simp add: eq make_decoded_def split: option.splits)
  qed
qed

text \<open>In inclusive mode everything up to the end of the first delimiter is dropped first.\<close>

lemma decode_unseen:
  assumes "delimiter_inv d c buf" and "inclusive c" and "\<not> inclusive_seen_header c"
  shows "case first_at d buf of
      None \<Rightarrow> (\<exists>k. all_delimiter_decode c buf = Inr (None, c\<lparr> search_from := k \<rparr>, buf)
                \<and> delimiter_inv d (c\<lparr> search_from := k \<rparr>) buf)
    | Some n \<Rightarrow> all_delimiter_decode c buf =
        all_delimiter_decode (c\<lparr> search_from := 0, inclusive_seen_header := True \<rparr>)
          (drop (n + length d) buf)"
  using assms
proof (induction "length buf - search_from c" arbitrary: c rule: less_induct)
  case less
  note inv = less.prems(1)
  have d: "d \<noteq> []" "delimiter c = d" "search_from c \<le> length buf"
    using inv by (simp_all add: delimiter_inv_def)
  from inv show ?case
  proof (cases rule: delimiter_find_cases)
    case Absent
    have "delimiter_inv d (c\<lparr> search_from := length buf \<rparr>) buf"
      using inv Absent(2) by (simp add: delimiter_inv_def)
    then show ?thesis using Absent first_at_skippable [OF d(1) Absent(2)] d(3)
      by (subst all_delimiter_decode.simps) (auto intro!: exI [of _ "length buf"])
  next
    case (Full s e)
    have "search_from c + e = search_from c + s + length d" using Full(2,4) by linarith
    then have "all_delimiter_decode c buf =
        all_delimiter_decode (c\<lparr> search_from := 0, inclusive_seen_header := True \<rparr>)
          (drop (search_from c + s + length d) buf)"
      using Full less.prems(2,3) d by (subst all_delimiter_decode.simps) (auto simp: Let_def add.assoc)
    then show ?thesis using Full(3) by simp
  next
    case (Partial_End s e)
    then show ?thesis using d
      by (subst all_delimiter_decode.simps) (auto intro!: exI [of _ "search_from c + s"])
  next
    case (Partial s e)
    let ?c = "c\<lparr> search_from := search_from c + s + 1 \<rparr>"
    have eq: "all_delimiter_decode c buf = all_delimiter_decode ?c buf"
      using Partial d by (subst all_delimiter_decode.simps) simp
    have "length buf - search_from ?c < length buf - search_from c" using Partial(4) by simp
    from less.hyps [OF this Partial(5)] less.prems(2,3) show ?thesis
      by (simp add: eq split: option.splits)
  qed
qed

subsection \<open>The codec as a stream decoder\<close>

text \<open>The first item of a byte string; \<open>w\<close> is what \<open>make_decoded\<close> puts in front.\<close>

definition segment :: "bytes \<Rightarrow> bytes \<Rightarrow> bytes \<Rightarrow> (bytes \<times> bytes) option" where
  "segment w d buf =
     (if d = [] then None
      else map_option (\<lambda>n. (w @ take n buf, drop (n + length d) buf)) (first_at d buf))"

definition segment_fit :: "bytes \<Rightarrow> bytes \<Rightarrow> all_delimiter \<Rightarrow> bytes \<Rightarrow> bytes \<Rightarrow> bool" where
  "segment_fit w d c buf fut \<longleftrightarrow> delimiter_inv d c buf
     \<and> \<not> inclusive_terminated c
     \<and> (inclusive c \<longrightarrow> inclusive_seen_header c) \<and> w = (if inclusive c then d else [])"

lemma segment_fit_dec:
  assumes "segment_fit w d c buf fut"
  shows "\<exists>c'. all_delimiter_decode c buf = Inr (map_option fst (segment w d buf), c',
            (case segment w d buf of None \<Rightarrow> buf | Some (x, rest) \<Rightarrow> rest))
       \<and> segment_fit w d c' (case segment w d buf of None \<Rightarrow> buf | Some (x, rest) \<Rightarrow> rest) fut"
proof -
  have inv: "delimiter_inv d c buf" and seen: "inclusive c \<Longrightarrow> inclusive_seen_header c"
    and nt: "\<not> inclusive_terminated c" and w: "w = (if inclusive c then d else [])"
    using assms by (simp_all add: segment_fit_def)
  have d: "d \<noteq> []" "delimiter c = d" using inv by (simp_all add: delimiter_inv_def)
  note spec = decode_delimited [OF inv seen]
  show ?thesis
  proof (cases "first_at d buf")
    case None
    then obtain k where "all_delimiter_decode c buf = Inr (None, c\<lparr> search_from := k \<rparr>, buf)"
      "delimiter_inv d (c\<lparr> search_from := k \<rparr>) buf"
      using spec by auto
    then show ?thesis using None seen w d nt
      by (intro exI [of _ "c\<lparr> search_from := k \<rparr>"]) (simp add: segment_def segment_fit_def)
  next
    case (Some n)
    then show ?thesis using spec seen w d nt delimiter_inv_reset [OF inv]
      by (auto simp: segment_def segment_fit_def make_decoded_def)
  qed
qed

lemma segment_append:
  "segment w d buf = Some (x, rest) \<Longrightarrow> segment w d (buf @ ext) = Some (x, rest @ ext)"
  using first_at_append first_at_bounds(1) [of d buf] by (fastforce simp: segment_def split: if_splits)

lemma segment_shrinks:
  assumes "segment w d buf = Some (x, rest)"
  shows "length rest < length buf"
proof -
  obtain n where n: "first_at d buf = Some n" "d \<noteq> []" "rest = drop (n + length d) buf"
    using assms by (auto simp: segment_def split: if_splits)
  then have "n + length d \<le> length buf" "0 < length d" using first_at_bounds(1) by auto
  then have "length buf - (n + length d) < length buf" by linarith
  then show ?thesis using n(3) by simp
qed

interpretation delimited: stream_decoder all_delimiter_decode "segment w d" "segment_fit w d" for w d
  by unfold_locales
    (use segment_fit_dec segment_append segment_shrinks in
      \<open>auto simp: segment_fit_def intro: delimiter_inv_receive\<close>)

lemma segment_None: "segment w d bs = None \<longleftrightarrow> d = [] \<or> first_at d bs = None"
  by (simp add: segment_def)

lemma new_fit:
  assumes "leftmost_longest build" and "d \<noteq> []"
  shows "delimiter_inv d (all_delimiter_new build d incl) buf"
  using leftmost_longest.build_prefix_search [OF assms] assms(2)
  by (simp add: delimiter_inv_def all_delimiter_new_def)

text \<open>Encode the items of a list one after the other.\<close>

fun encode_items :: "all_delimiter \<Rightarrow> bytes list \<Rightarrow> bytes \<Rightarrow> delimiter_error + bytes" where
  "encode_items c [] dst = Inr dst"
| "encode_items c (x # xs) dst =
     (case all_delimiter_encode c x dst of Inl e \<Rightarrow> Inl e | Inr dst' \<Rightarrow> encode_items c xs dst')"

lemma encode_items_exclusive:
  "\<not> inclusive c \<Longrightarrow> encode_items c xs dst = Inr (dst @ concat (map (\<lambda>x. x @ delimiter c) xs))"
  by (induction xs arbitrary: dst) (auto simp: all_delimiter_encode_def Let_def)

lemma segment_item:
  assumes "d \<noteq> []" and "first_at d (x @ d) = Some (length x)"
  shows "segment w d ((x @ d) @ rest) = Some (w @ x, rest)"
  using first_at_append [OF assms(2), of rest] assms(1) by (simp add: segment_def)

text \<open>C24: a stream encoded in exclusive mode is decoded to the same items, however it is cut into
  chunks and whenever the decoder is called.  The condition on an item is that the delimiter's
  first occurrence in the item with the delimiter behind it is the one the encoder wrote; after
  the items a tail without the delimiter may follow, which stays in the buffer.  At least as
  many decode calls as there are items come last.\<close>

theorem exclusive_stream_roundtrip:
  assumes "leftmost_longest build" and "d \<noteq> []"
    and "\<And>x. x \<in> set items \<Longrightarrow> first_at d (x @ d) = Some (length x)"
    and "first_at d tail = None"
    and "encode_items (all_delimiter_new build d False) items [] = Inr wire"
    and "received ops = wire @ tail" and "length items \<le> n"
  shows "\<exists>c. session all_delimiter_decode (ops @ replicate n DecodeCall)
      (all_delimiter_new build d False) [] = Inr (items, c, tail)"
proof -
  let ?c = "all_delimiter_new build d False"
  have c: "delimiter ?c = d" "\<not> inclusive ?c" by (simp_all add: all_delimiter_new_def)
  have wire: "wire = concat (map (\<lambda>x. x @ d) items)"
    using assms(5) encode_items_exclusive [OF c(2), of items "[]"] c(1) by simp
  have fit: "segment_fit [] d ?c [] (received ops @ [])"
    using new_fit [OF assms(1,2)] by (simp add: segment_fit_def all_delimiter_new_def)
  have "cuts (segment [] d) (concat (map (\<lambda>x. x @ d) items) @ tail) items tail"
    using segment_item [OF assms(2,3), of _ "[]"] by (intro cuts_frames) simp
  then have cut: "cuts (segment [] d) ([] @ received ops) items tail"
    using assms(6) wire by simp
  have "segment [] d tail = None" using assms(4) by (simp add: segment_None)
  from delimited.session_all_items [OF fit cut this assms(7)] show ?thesis by blast
qed

theorem exclusive_stream_roundtrip_witness:
  "\<exists>c. session all_delimiter_decode
      ([Received [1, 0], DecodeCall, Received [1, 2, 0], DecodeCall, Received [1, 7]]
         @ replicate 2 DecodeCall)
      (all_delimiter_new direct_search [0, 1] False) [] = Inr ([[1], [2]], c, [7])"
proof -
  have items: "first_at [0, 1] (x @ [0, 1]) = Some (length x)" if "x \<in> set [[1], [2]]"
    for x :: bytes
    using that by auto
  have enc: "encode_items (all_delimiter_new direct_search [0, 1] False) [[1], [2]] []
      = Inr [1, 0, 1, 2, 0, 1]"
    by (simp add: all_delimiter_encode_def all_delimiter_new_def)
  show ?thesis
    using exclusive_stream_roundtrip [OF direct.leftmost_longest_axioms _ items _ enc, of "[7]"
        "[Received [1, 0], DecodeCall, Received [1, 2, 0], DecodeCall, Received [1, 7]]" 2]
    by simp
qed

text \<open>A delimiter that overlaps itself breaks the round trip.  Items that do not contain the
  delimiter are not enough for exclusive mode: the item \<open>[1, 0]\<close> under the delimiter
  \<open>[0, 0]\<close> is encoded as \<open>[1, 0, 0, 0]\<close> and decoded as \<open>[1]\<close>, with a stray zero left over.\<close>

theorem exclusive_overlap_lost:
  "first_at [0, 0] [1, 0] = None
   \<and> all_delimiter_encode (all_delimiter_new direct_search [0, 0] False) [1, 0] [] = Inr [1, 0, 0, 0]
   \<and> (\<exists>c. all_delimiter_decode (all_delimiter_new direct_search [0, 0] False) [1, 0, 0, 0]
        = Inr (Some [1], c, [0]))"
proof -
  let ?c = "all_delimiter_new direct_search [0, 0] False"
  have inv: "delimiter_inv [0, 0] ?c [1, 0, 0, 0]"
    by (rule new_fit [OF direct.leftmost_longest_axioms]) simp
  have c: "inclusive ?c = False" "delimiter ?c = [0, 0]" by (simp_all add: all_delimiter_new_def)
  have "first_at [0, 0] [1, 0, 0, 0 :: u8] = Some 1" by simp
  with decode_delimited [OF inv] c
  have "\<exists>c. all_delimiter_decode ?c [1, 0, 0, 0] = Inr (Some [1], c, [0])"
    by (auto simp: make_decoded_def)
  then show ?thesis by (auto simp: all_delimiter_encode_def c Let_def)
qed

lemma session_unseen:
  assumes "delimiter_inv d c buf" and "inclusive c" and "\<not> inclusive_seen_header c"
    and "\<not> inclusive_terminated c"
  shows "\<exists>items c' buf'. session all_delimiter_decode ops c buf = Inr (items, c', buf')
    \<and> (items = [] \<and> buf' = buf @ received ops \<and> delimiter_inv d c' buf' \<and> inclusive c'
         \<and> \<not> inclusive_seen_header c' \<and> \<not> inclusive_terminated c'
       \<or> (\<exists>n. first_at d (buf @ received ops) = Some n
            \<and> cuts (segment d d) (drop (n + length d) (buf @ received ops)) items buf'
            \<and> segment_fit d d c' buf' []))"
  using assms
proof (induction ops arbitrary: c buf)
  case (Cons op ops)
  note inv = Cons.prems(1)
  have d: "d \<noteq> []" using inv by (simp add: delimiter_inv_def)
  show ?case
  proof (cases op)
    case (Received bs)
    then show ?thesis using Cons.IH [OF delimiter_inv_receive [OF inv, of bs] Cons.prems(2-4)] by simp
  next
    case DecodeCall
    note spec = decode_unseen [OF Cons.prems(1-3)]
    show ?thesis
    proof (cases "first_at d buf")
      case None
      then obtain k where "all_delimiter_decode c buf = Inr (None, c\<lparr> search_from := k \<rparr>, buf)"
        "delimiter_inv d (c\<lparr> search_from := k \<rparr>) buf"
        using spec by auto
      with Cons.IH [of "c\<lparr> search_from := k \<rparr>" buf] Cons.prems(2-4) DecodeCall
      show ?thesis by auto
    next
      case (Some n)
      let ?c = "c\<lparr> search_from := 0, inclusive_seen_header := True \<rparr>" and ?b = "drop (n + length d) buf"
      have eq: "all_delimiter_decode c buf = all_delimiter_decode ?c ?b" using spec Some by simp
      have fit: "segment_fit d d ?c ?b (received (DecodeCall # ops) @ [])"
        using inv Cons.prems(2,4) by (simp add: segment_fit_def delimiter_inv_def)
      obtain items c' buf' where s: "session all_delimiter_decode (DecodeCall # ops) ?c ?b = Inr (items, c', buf')"
        "cuts (segment d d) (?b @ received ops) items buf'" "segment_fit d d c' buf' []"
        using delimited.session_cuts [OF fit] by auto
      have "n + length d \<le> length buf" using first_at_bounds(1) [OF Some d] .
      then have "cuts (segment d d) (drop (n + length d) (buf @ received (op # ops))) items buf'"
        using s(2) DecodeCall by simp
      moreover have "first_at d (buf @ received (op # ops)) = Some n"
        using first_at_append [OF Some] .
      moreover have "session all_delimiter_decode (op # ops) c buf = Inr (items, c', buf')"
        using s(1) DecodeCall eq by simp
      ultimately show ?thesis using s(3) by blast
    qed
  qed
qed auto

text \<open>Decoding is total.  For every delimiter of at least one byte, in both modes and for
  every sequence of chunks and decode calls, a session on a fresh codec neither fails nor
  panics: the search position never leaves the buffer.\<close>

theorem delimiter_session_total:
  assumes "leftmost_longest build" and "d \<noteq> []"
  shows "\<exists>items c buf. session all_delimiter_decode ops (all_delimiter_new build d incl) []
    = Inr (items, c, buf)"
proof (cases incl)
  case False
  then have "segment_fit [] d (all_delimiter_new build d incl) [] (received ops @ [])"
    using new_fit [OF assms] by (simp add: segment_fit_def all_delimiter_new_def)
  from delimited.session_cuts [OF this] show ?thesis by blast
next
  case True
  then show ?thesis
    using session_unseen [OF new_fit [OF assms], of incl ops "[]"]
    by (auto simp: all_delimiter_new_def)
qed

theorem delimiter_session_total_witness:
  "\<exists>items c buf. session all_delimiter_decode [Received [5, 1], DecodeCall, Received [0, 1, 2], DecodeCall]
     (all_delimiter_new direct_search [0, 1] True) [] = Inr (items, c, buf)"
  by (rule delimiter_session_total [OF direct.leftmost_longest_axioms]) simp

lemma encode_items_inclusive:
  assumes "inclusive c" and "encode_items c xs dst = Inr wire"
  shows "wire = dst @ concat xs \<and> (\<forall>x \<in> set xs. prefix (delimiter c) x)"
  using assms(2)
proof (induction xs arbitrary: dst)
  case (Cons x xs)
  then obtain dst' where "all_delimiter_encode c x dst = Inr dst'" "encode_items c xs dst' = Inr wire"
    by (auto split: sum.splits)
  with Cons.IH [of dst'] assms(1) show ?case
    by (auto simp: all_delimiter_encode_def Let_def split: if_splits)
qed simp

lemma eof_item:
  assumes fit: "segment_fit d d c l []" and l: "segment d d l = None"
    and c: "inclusive c" "inclusive_seen_header c"
  shows "\<exists>c'. all_delimiter_decode_eof c l = Inr (Some (d @ l), c', [])
    \<and> all_delimiter_decode_eof c' [] = Inr (None, c', [])"
proof -
  have d: "delimiter c = d" "\<not> inclusive_terminated c"
    using fit by (simp_all add: segment_fit_def delimiter_inv_def)
  show ?thesis
  proof (cases "l = []")
    case True
    then show ?thesis using c d
      by (intro exI [of _ "c\<lparr> inclusive_terminated := True \<rparr>"])
        (simp add: all_delimiter_decode_eof_def make_decoded_def)
  next
    case False
    obtain c1 where c1: "all_delimiter_decode c l = Inr (None, c1, l)" "segment_fit d d c1 l []"
      using delimited.fit_none [OF fit l] by blast
    have "d \<noteq> []" using fit by (simp add: segment_fit_def delimiter_inv_def)
    then have c1': "inclusive c1" "delimiter c1 = d"
      using c1(2) by (simp_all add: segment_fit_def delimiter_inv_def split: if_splits)
    show ?thesis using c(1) False c1' c1(1)
      by (intro exI [of _ "c1\<lparr> inclusive_terminated := True, search_from := 0 \<rparr>"])
        (simp add: all_delimiter_decode_eof_def make_decoded_def Let_def)
  qed
qed

lemma inclusive_session:
  assumes "leftmost_longest build" and "d \<noteq> []"
    and at: "first_at d (received ops) = Some k"
    and cuts: "cuts (segment d d) (drop (k + length d) (received ops)) items l"
    and l: "segment d d l = None" and n: "length items < n"
  shows "\<exists>c. session all_delimiter_decode (ops @ replicate n DecodeCall)
      (all_delimiter_new build d True) [] = Inr (items, c, l) \<and> segment_fit d d c l []"
proof -
  let ?c = "all_delimiter_new build d True" and ?tl = "drop (k + length d) (received ops)"
  have c: "inclusive ?c" "\<not> inclusive_seen_header ?c" "\<not> inclusive_terminated ?c"
    by (simp_all add: all_delimiter_new_def)
  obtain items1 c1 buf1 where s: "session all_delimiter_decode ops ?c [] = Inr (items1, c1, buf1)"
    and or: "items1 = [] \<and> buf1 = received ops \<and> delimiter_inv d c1 buf1 \<and> inclusive c1
         \<and> \<not> inclusive_seen_header c1 \<and> \<not> inclusive_terminated c1
       \<or> cuts (segment d d) ?tl items1 buf1 \<and> segment_fit d d c1 buf1 []"
    using session_unseen [OF new_fit [OF assms(1,2)] c, of ops "[]"] at by auto
  from or show ?thesis
  proof (elim disjE conjE)
    assume un: "items1 = []" "buf1 = received ops" "delimiter_inv d c1 buf1" "inclusive c1"
      "\<not> inclusive_seen_header c1" "\<not> inclusive_terminated c1"
    let ?c1 = "c1\<lparr> search_from := 0, inclusive_seen_header := True \<rparr>"
    have dec: "all_delimiter_decode c1 buf1 = all_delimiter_decode ?c1 ?tl"
      using decode_unseen [OF un(3,4,5)] at un(2) by simp
    obtain m where m: "n = Suc m" using n by (cases n) auto
    have "segment_fit d d ?c1 ?tl []" using un by (simp add: segment_fit_def delimiter_inv_def)
    then obtain c2 where c2: "session all_delimiter_decode (replicate n DecodeCall) ?c1 ?tl
        = Inr (items, c2, l)" "segment_fit d d c2 l []"
      using delimited.session_drain [OF _ cuts l, of ?c1 "[]" n] n by auto
    then have "session all_delimiter_decode (replicate n DecodeCall) c1 buf1 = Inr (items, c2, l)"
      using m dec by simp
    then show ?thesis using c2(2) s un(1) by (simp add: session_append)
  next
    assume cf: "cuts (segment d d) ?tl items1 buf1" "segment_fit d d c1 buf1 []"
    obtain items2 where i2: "items = items1 @ items2" "cuts (segment d d) buf1 items2 l"
      using cuts_prefix [OF cf(1) cuts l] by blast
    have "length items2 \<le> n" using i2(1) n by simp
    then obtain c2 where "session all_delimiter_decode (replicate n DecodeCall) c1 buf1
        = Inr (items2, c2, l)" "segment_fit d d c2 l []"
      using delimited.session_drain [OF cf(2) i2(2) l] by blast
    then show ?thesis using s i2(1) by (simp add: session_append)
  qed
qed

text \<open>A stream of inclusive items is decoded to the same items.  The encoder accepts an item
  only if it starts with the delimiter.  After any bytes without a delimiter in them, a
  session over the encoded items yields all of them but the last, which stays in the buffer
  without its delimiter until the end of the stream, where \<open>decode_eof\<close> yields it.\<close>

theorem inclusive_stream_roundtrip:
  assumes "leftmost_longest build" and "d \<noteq> []"
    and "first_at d (junk @ d) = Some (length junk)"
    and "\<And>x. x \<in> set xs \<Longrightarrow> first_at d (x @ d) = Some (length x)" and "first_at d l = None"
    and "encode_items (all_delimiter_new build d True) (map (\<lambda>x. d @ x) (xs @ [l])) [] = Inr wire"
    and "received ops = junk @ wire" and "length xs < n"
  shows "\<exists>c c'. session all_delimiter_decode (ops @ replicate n DecodeCall)
        (all_delimiter_new build d True) [] = Inr (map (\<lambda>x. d @ x) xs, c, l)
    \<and> all_delimiter_decode_eof c l = Inr (Some (d @ l), c', [])
    \<and> all_delimiter_decode_eof c' [] = Inr (None, c', [])"
proof -
  let ?c = "all_delimiter_new build d True"
  let ?items = "map (\<lambda>x. d @ x) xs"
  let ?tl = "concat (map (\<lambda>x. x @ d) xs) @ l"
  have shift: "concat (map (\<lambda>x. d @ x) (xs @ [l])) = d @ concat (map (\<lambda>x. x @ d) xs) @ l"
    by (induction xs) simp_all
  have "inclusive ?c" by (simp add: all_delimiter_new_def)
  then have total: "received ops = junk @ d @ ?tl"
    using encode_items_inclusive [OF _ assms(6)] assms(7) shift by simp
  then have at: "first_at d (received ops) = Some (length junk)"
    and rest: "drop (length junk + length d) (received ops) = ?tl"
    using first_at_append [OF assms(3), of ?tl] by simp_all
  have "cuts (segment d d) (concat (map (\<lambda>y. drop (length d) y @ d) ?items) @ l) ?items l"
    using segment_item [OF assms(2,4)] by (intro cuts_frames) auto
  then have cuts: "cuts (segment d d) (drop (length junk + length d) (received ops)) ?items l"
    by (simp add: rest comp_def)
  have l: "segment d d l = None" using assms(5) by (simp add: segment_None)
  obtain c where run: "session all_delimiter_decode (ops @ replicate n DecodeCall) ?c []
      = Inr (?items, c, l)" and fit: "segment_fit d d c l []"
    using inclusive_session [OF assms(1,2) at cuts l] assms(8) by auto
  have "inclusive c" "inclusive_seen_header c"
    using fit assms(2) by (auto simp: segment_fit_def split: if_splits)
  from eof_item [OF fit l this] run show ?thesis by blast
qed

theorem inclusive_stream_roundtrip_witness:
  "\<exists>c c'. session all_delimiter_decode
        ([Received [9, 0], DecodeCall, Received [1, 5, 0, 1], DecodeCall, Received [6]]
          @ replicate 2 DecodeCall)
        (all_delimiter_new direct_search [0, 1] True) [] = Inr ([[0, 1, 5]], c, [6])
    \<and> all_delimiter_decode_eof c [6] = Inr (Some [0, 1, 6], c', [])
    \<and> all_delimiter_decode_eof c' [] = Inr (None, c', [])"
proof -
  have enc: "encode_items (all_delimiter_new direct_search [0, 1] True)
      (map (\<lambda>x. [0, 1] @ x) ([[5]] @ [[6]])) [] = Inr [0, 1, 5, 0, 1, 6]"
    by (simp add: all_delimiter_encode_def all_delimiter_new_def)
  have item: "first_at [0, 1] (x @ [0, 1]) = Some (length x)" if "x \<in> set [[5]]" for x :: bytes
    using that by simp
  show ?thesis
    using inclusive_stream_roundtrip [OF direct.leftmost_longest_axioms _ _ item _ enc, of "[9]"
        "[Received [9, 0], DecodeCall, Received [1, 5, 0, 1], DecodeCall, Received [6]]" 2]
    by simp
qed

text \<open>The end of the stream invents a message.  In inclusive mode, when the stream ends
  before any delimiter was seen, \<open>decode_eof\<close> does not discard the buffered bytes as the
  comment on the codec says but yields them behind a delimiter that was never received.\<close>

theorem inclusive_eof_invents_header:
  assumes "leftmost_longest build" and "d \<noteq> []" and "buf \<noteq> []" and "first_at d buf = None"
  shows "\<exists>c. all_delimiter_decode_eof (all_delimiter_new build d True) buf = Inr (Some (d @ buf), c, [])"
proof -
  let ?c = "all_delimiter_new build d True"
  have c: "inclusive ?c" "\<not> inclusive_seen_header ?c" "delimiter ?c = d"
    by (simp_all add: all_delimiter_new_def)
  obtain k where "all_delimiter_decode ?c buf = Inr (None, ?c\<lparr> search_from := k \<rparr>, buf)"
    using decode_unseen [OF new_fit [OF assms(1,2)] c(1,2), of buf] assms(4) by auto
  then show ?thesis using assms(3) c
    by (simp add: all_delimiter_decode_eof_def Let_def make_decoded_def)
qed

theorem inclusive_eof_invents_header_witness:
  "\<exists>c. all_delimiter_decode_eof (all_delimiter_new direct_search [0] True) [4, 5]
     = Inr (Some [0, 4, 5], c, [])"
  using inclusive_eof_invents_header [OF direct.leftmost_longest_axioms, of "[0]" "[4, 5]"] by simp

end
