(* ===== verification/Compose_Codec.thy ===== *)
theory Compose_Codec
  imports Cobs_Codec Delimiter_Codec
begin

text \<open>
  \<open>ComposeCodecs\<close> (\<open>codec/src/compose.rs\<close>): a codec whose encoder runs an inner encoder on an
  empty buffer and an outer encoder on what that wrote, and whose decoder runs the inner decoder
  on each item of the outer one.  The locale \<open>frame_codec\<close> names what a codec promises that turns
  each item into one frame; COBS and the exclusive delimiter codec keep it, and the composition
  of two such codecs keeps it again.  The file is in the repository, but no module declaration
  names it and the program does not use it.
\<close>

subsection \<open>The codec\<close>

text \<open>The encode method: the encoder's new state and the output buffer.\<close>

type_synonym ('s, 'e, 'i) encode_fun = "'s \<Rightarrow> 'i \<Rightarrow> bytes \<Rightarrow> 'e + ('s \<times> bytes)"

record ('t, 'u) compose_codecs =
  codec_0 :: 't
  codec_1 :: 'u

definition compose_new :: "'t \<Rightarrow> 'u \<Rightarrow> ('t, 'u) compose_codecs" where
  "compose_new t u = \<lparr> codec_0 = t, codec_1 = u \<rparr>"

text \<open>The conversions of the two errors are those of the bound \<open>From\<close>.\<close>

definition compose_encode ::
  "('t, 'e0, 'i) encode_fun \<Rightarrow> ('u, 'e1, bytes) encode_fun \<Rightarrow> ('e0 \<Rightarrow> 'e) \<Rightarrow> ('e1 \<Rightarrow> 'e)
     \<Rightarrow> (('t, 'u) compose_codecs, 'e, 'i) encode_fun" where
  "compose_encode enc0 enc1 from0 from1 c item dst =
     (case enc0 (codec_0 c) item [] of
        Inl e \<Rightarrow> Inl (from0 e)
      | Inr (t, b) \<Rightarrow>
          (case enc1 (codec_1 c) b dst of
             Inl e \<Rightarrow> Inl (from1 e)
           | Inr (u, dst') \<Rightarrow> Inr (c\<lparr> codec_0 := t, codec_1 := u \<rparr>, dst')))"

definition compose_decode ::
  "('t, 'e0, 'i) decode_fun \<Rightarrow> ('u, 'e1, 'j) decode_fun \<Rightarrow> ('j \<Rightarrow> bytes) \<Rightarrow> ('e0 \<Rightarrow> 'e) \<Rightarrow> ('e1 \<Rightarrow> 'e)
     \<Rightarrow> (('t, 'u) compose_codecs, 'e, 'i) decode_fun" where
  "compose_decode dec0 dec1 into from0 from1 c src =
     (case dec1 (codec_1 c) src of
        Inl e \<Rightarrow> Inl (from1 e)
      | Inr (None, u, src') \<Rightarrow> Inr (None, c\<lparr> codec_1 := u \<rparr>, src')
      | Inr (Some item, u, src') \<Rightarrow>
          (case dec0 (codec_0 c) (into item) of
             Inl e \<Rightarrow> Inl (from0 e)
           | Inr (result, t, leftover) \<Rightarrow> Inr (result, c\<lparr> codec_0 := t, codec_1 := u \<rparr>, src')))"

text \<open>The encoders of the two codecs with their states.\<close>

definition cobs_encoder :: "cobs_lib \<Rightarrow> (unit, cobs_panic, bytes) encode_fun" where
  "cobs_encoder L s item dst =
     (case cobs_codec_encode L item dst of Inl e \<Rightarrow> Inl e | Inr dst' \<Rightarrow> Inr (s, dst'))"

definition delimiter_encoder :: "(all_delimiter, delimiter_error, bytes) encode_fun" where
  "delimiter_encoder c item dst =
     (case all_delimiter_encode c item dst of Inl e \<Rightarrow> Inl e | Inr dst' \<Rightarrow> Inr (c, dst'))"

text \<open>Encode a list of items.\<close>

fun encode_all ::
  "('s, 'e, 'i) encode_fun \<Rightarrow> 's \<Rightarrow> 'i list \<Rightarrow> bytes \<Rightarrow> 'e + ('s \<times> bytes)" where
  "encode_all enc s [] dst = Inr (s, dst)"
| "encode_all enc s (x # xs) dst =
     (case enc s x dst of Inl e \<Rightarrow> Inl e | Inr (s', dst') \<Rightarrow> encode_all enc s' xs dst')"

subsection \<open>Codecs that write frames\<close>

text \<open>
  The encoder appends the frame of an item; the frame at the front of a buffer is decoded to the
  item.  A decoder whose buffer is empty can take any sequence of frames.
\<close>

locale frame_codec = stream_decoder dec first fit
  for dec :: "('s, 'e, 'i) decode_fun"
    and first :: "bytes \<Rightarrow> ('i \<times> bytes) option"
    and fit :: "'s \<Rightarrow> bytes \<Rightarrow> bytes \<Rightarrow> bool" +
  fixes enc :: "('s, 'f, 'x) encode_fun"
    and frame :: "'x \<Rightarrow> bytes"
    and item :: "'x \<Rightarrow> 'i"
    and legal :: "'x \<Rightarrow> bool"
  assumes enc_frame: "fit s [] [] \<Longrightarrow> legal x \<Longrightarrow> enc s x dst = Inr (s, dst @ frame x)"
    and first_frame: "legal x \<Longrightarrow> first (frame x @ rest) = Some (item x, rest)"
    and fit_frames: "fit s [] [] \<Longrightarrow> (\<And>x. x \<in> set xs \<Longrightarrow> legal x) \<Longrightarrow> fit s [] (concat (map frame xs))"
begin

lemma first_Nil [simp]: "first [] = None"
  using first_shrinks [of "[]"] by (cases "first []") auto

lemma cuts_legal:
  "(\<And>x. x \<in> set xs \<Longrightarrow> legal x) \<Longrightarrow> cuts first (concat (map frame xs) @ rest) (map item xs) rest"
  by (induction xs) (simp_all add: first_frame)

lemma encode_all_frames:
  "fit s [] [] \<Longrightarrow> (\<And>x. x \<in> set xs \<Longrightarrow> legal x) \<Longrightarrow>
    encode_all enc s xs dst = Inr (s, dst @ concat (map frame xs))"
  by (induction xs arbitrary: dst) (simp_all add: enc_frame)

text \<open>One frame in an empty buffer is used up.\<close>

lemma decode_one:
  assumes "fit s [] []" and "legal x"
  shows "\<exists>s'. dec s (frame x) = Inr (Some (item x), s', []) \<and> fit s' [] []"
proof -
  have "fit s [] (frame x @ [])" using fit_frames [of s "[x]"] assms by simp
  then have "fit s (frame x) []" using fit_receive [of s "[]"] by simp
  moreover have "first (frame x) = Some (item x, [])" using first_frame [OF assms(2), of "[]"] by simp
  ultimately show ?thesis using fit_rest by blast
qed

lemma frames_roundtrip:
  assumes "fit s [] []" and "\<And>x. x \<in> set xs \<Longrightarrow> legal x" and "encode_all enc s xs [] = Inr (s1, wire)"
    and "received ops = wire" and "length xs \<le> n"
  shows "\<exists>s'. session dec (ops @ replicate n DecodeCall) s [] = Inr (map item xs, s', [])"
proof -
  have wire: "received ops = concat (map frame xs)"
    using assms(3,4) encode_all_frames [OF assms(1,2), of xs "[]"] by simp
  have "fit s [] (received ops @ [])" using fit_frames [OF assms(1,2), of xs] wire by simp
  moreover have "cuts first ([] @ received ops) (map item xs) []"
    using cuts_legal [OF assms(2), of xs "[]"] wire by simp
  ultimately show ?thesis using session_all_items [of s "[]" ops "[]" "map item xs" "[]" n] assms(5) by auto
qed

end

sublocale cobs_library \<subseteq> frames: frame_codec "cobs_codec_decode L" "cobs_first L" "cobs_fit enc"
  "cobs_encoder L" "\<lambda>x. enc x @ [0]" Inr "\<lambda>x. x \<noteq> []"
proof unfold_locales
  show "cobs_encoder L s x dst = Inr (s, dst @ enc x @ [0])" if "x \<noteq> []" for s x dst
    using encode_frame [OF that] by (simp add: cobs_encoder_def)
  show "cobs_first L ((enc x @ [0]) @ rest) = Some (Inr x, rest)" if "x \<noteq> []" for x rest
    using first_encoded [OF that] by simp
  show "cobs_fit enc s [] (concat (map (\<lambda>x. enc x @ [0]) xs))" if "\<And>x. x \<in> set xs \<Longrightarrow> x \<noteq> []" for s xs
    unfolding cobs_fit_def using that by (intro exI [of _ xs] exI [of _ "[]"]) (auto simp: cobs_wire_def)
qed

text \<open>An item is legal under a delimiter if the delimiter that the encoder writes is the first.\<close>

definition delimiter_legal :: "bytes \<Rightarrow> bytes \<Rightarrow> bool" where
  "delimiter_legal d x \<longleftrightarrow> d \<noteq> [] \<and> first_at d (x @ d) = Some (length x)"

interpretation delimited_frames:
  frame_codec all_delimiter_decode "segment [] d" "segment_fit [] d" delimiter_encoder
    "\<lambda>x. x @ d" id "delimiter_legal d" for d
proof unfold_locales
  show "delimiter_encoder s x dst = Inr (s, dst @ x @ d)" if "segment_fit [] d s [] []" for s x dst
    using that
    by (auto simp: segment_fit_def delimiter_inv_def delimiter_encoder_def all_delimiter_encode_def Let_def)
  show "segment [] d ((x @ d) @ rest) = Some (id x, rest)" if "delimiter_legal d x" for x rest
    using segment_item [of d x "[]" rest] that by (simp add: delimiter_legal_def)
  show "segment_fit [] d s [] (concat (map (\<lambda>x. x @ d) xs))" if "segment_fit [] d s [] []" for s xs
    using that by (simp add: segment_fit_def)
qed

subsection \<open>Composition\<close>

definition compose_first ::
  "(bytes \<Rightarrow> ('i \<times> bytes) option) \<Rightarrow> (bytes \<Rightarrow> ('j \<times> bytes) option) \<Rightarrow> ('j \<Rightarrow> bytes)
     \<Rightarrow> bytes \<Rightarrow> ('i \<times> bytes) option" where
  "compose_first first0 first1 into buf =
     Option.bind (first1 buf) (\<lambda>(y, rest). map_option (\<lambda>(x, leftover). (x, rest)) (first0 (into y)))"

text \<open>Everything that the outer codec will find is a frame of the inner one, but for a partial
  outer frame at the end.\<close>

definition compose_fit ::
  "('t \<Rightarrow> bytes \<Rightarrow> bytes \<Rightarrow> bool) \<Rightarrow> (bytes \<Rightarrow> ('j \<times> bytes) option) \<Rightarrow> ('u \<Rightarrow> bytes \<Rightarrow> bytes \<Rightarrow> bool)
     \<Rightarrow> ('x \<Rightarrow> 'j) \<Rightarrow> ('x \<Rightarrow> bool) \<Rightarrow> ('t, 'u) compose_codecs \<Rightarrow> bytes \<Rightarrow> bytes \<Rightarrow> bool" where
  "compose_fit fit0 first1 fit1 wrapped legal c buf fut \<longleftrightarrow>
     fit0 (codec_0 c) [] [] \<and> fit1 (codec_1 c) buf fut
     \<and> (\<exists>xs tail. (\<forall>x \<in> set xs. legal x) \<and> cuts first1 (buf @ fut) (map wrapped xs) tail \<and> first1 tail = None)"

locale composed_codecs =
  inner: frame_codec dec0 first0 fit0 enc0 frame0 item0 legal0
  + outer: frame_codec dec1 first1 fit1 enc1 frame1 item1 legal1
  for dec0 :: "('t, 'a, 'i) decode_fun" and first0 fit0
    and enc0 :: "('t, 'b, 'x) encode_fun" and frame0 item0 legal0
    and dec1 :: "('u, 'c, 'j) decode_fun" and first1 fit1
    and enc1 :: "('u, 'd, bytes) encode_fun" and frame1 item1 legal1 +
  fixes into :: "'j \<Rightarrow> bytes"
  assumes into_item: "legal1 b \<Longrightarrow> into (item1 b) = b"
begin

definition legal :: "'x \<Rightarrow> bool" where
  "legal x \<longleftrightarrow> legal0 x \<and> legal1 (frame0 x)"

lemma composed_step:
  assumes fit: "compose_fit fit0 first1 fit1 (item1 \<circ> frame0) legal c buf fut"
  shows "\<exists>c'. compose_decode dec0 dec1 into from0 from1 c buf
      = Inr (map_option fst (compose_first first0 first1 into buf), c',
          case compose_first first0 first1 into buf of None \<Rightarrow> buf | Some (x, rest) \<Rightarrow> rest)
    \<and> compose_fit fit0 first1 fit1 (item1 \<circ> frame0) legal c'
        (case compose_first first0 first1 into buf of None \<Rightarrow> buf | Some (x, rest) \<Rightarrow> rest) fut"
proof -
  obtain xs tail where f: "fit0 (codec_0 c) [] []" "fit1 (codec_1 c) buf fut" "\<forall>x \<in> set xs. legal x"
    "cuts first1 (buf @ fut) (map (item1 \<circ> frame0) xs) tail" "first1 tail = None"
    using fit by (auto simp: compose_fit_def)
  show ?thesis
  proof (cases "first1 buf")
    case None
    then obtain u where "dec1 (codec_1 c) buf = Inr (None, u, buf)" "fit1 u buf fut"
      using outer.fit_none [OF f(2)] by blast
    then show ?thesis using None f
      by (intro exI [of _ "c\<lparr> codec_1 := u \<rparr>"])
        (auto simp: compose_decode_def compose_first_def compose_fit_def)
  next
    case (Some p)
    obtain y rest where y: "first1 buf = Some (y, rest)" using Some by (cases p) simp
    obtain u where u: "dec1 (codec_1 c) buf = Inr (Some y, u, rest)" "fit1 u rest fut"
      using outer.fit_rest [OF f(2) y] by blast
    have "first1 (buf @ fut) = Some (y, rest @ fut)"
      using outer.first_append [of "codec_1 c" buf fut "[]"] f(2) y by simp
    then obtain x xs' where x: "xs = x # xs'" "y = item1 (frame0 x)"
      "cuts first1 (rest @ fut) (map (item1 \<circ> frame0) xs') tail"
      using f(4,5) by (cases xs) auto
    have lx: "legal0 x" "into y = frame0 x" using f(3) x(1,2) into_item by (auto simp: legal_def)
    obtain t where t: "dec0 (codec_0 c) (frame0 x) = Inr (Some (item0 x), t, [])" "fit0 t [] []"
      using inner.decode_one [OF f(1) lx(1)] by blast
    have "first0 (frame0 x) = Some (item0 x, [])" using inner.first_frame [OF lx(1), of "[]"] by simp
    then show ?thesis using u t lx(2) y x(1,3) f(3,5)
      by (intro exI [of _ "c\<lparr> codec_0 := t, codec_1 := u \<rparr>"])
        (auto simp: compose_decode_def compose_first_def compose_fit_def)
  qed
qed

end

sublocale composed_codecs \<subseteq> composed: frame_codec "compose_decode dec0 dec1 into from0 from1"
  "compose_first first0 first1 into" "compose_fit fit0 first1 fit1 (item1 \<circ> frame0) legal"
  "compose_encode enc0 enc1 from0' from1'" "frame1 \<circ> frame0" item0 legal
  for from0 from1 from0' from1'
proof unfold_locales
  show "\<exists>s'. compose_decode dec0 dec1 into from0 from1 s buf
        = Inr (map_option fst (compose_first first0 first1 into buf), s',
            case compose_first first0 first1 into buf of None \<Rightarrow> buf | Some (x, rest) \<Rightarrow> rest)
      \<and> compose_fit fit0 first1 fit1 (item1 \<circ> frame0) legal s'
          (case compose_first first0 first1 into buf of None \<Rightarrow> buf | Some (x, rest) \<Rightarrow> rest) fut"
    if "compose_fit fit0 first1 fit1 (item1 \<circ> frame0) legal s buf fut" for s buf fut
    by (rule composed_step [OF that])
  show "compose_fit fit0 first1 fit1 (item1 \<circ> frame0) legal s (buf @ bs) fut"
    if "compose_fit fit0 first1 fit1 (item1 \<circ> frame0) legal s buf (bs @ fut)" for s buf bs fut
    using that outer.fit_receive by (auto simp: compose_fit_def)
  show "compose_first first0 first1 into (buf @ ext) = Some (x, rest @ ext)"
    if "compose_fit fit0 first1 fit1 (item1 \<circ> frame0) legal s buf (ext @ fut)"
      "compose_first first0 first1 into buf = Some (x, rest)" for s buf ext fut x rest
    using that outer.first_append
    by (fastforce simp: compose_fit_def compose_first_def bind_eq_Some_conv)
  show "length rest < length buf" if "compose_first first0 first1 into buf = Some (x, rest)" for buf x rest
    using that outer.first_shrinks by (auto simp: compose_first_def bind_eq_Some_conv)
  show "compose_encode enc0 enc1 from0' from1' s x dst = Inr (s, dst @ (frame1 \<circ> frame0) x)"
    if "compose_fit fit0 first1 fit1 (item1 \<circ> frame0) legal s [] []" "legal x" for s x dst
    using that inner.enc_frame outer.enc_frame
    by (auto simp: compose_fit_def legal_def compose_encode_def)
  show "compose_first first0 first1 into ((frame1 \<circ> frame0) x @ rest) = Some (item0 x, rest)"
    if "legal x" for x rest
    using that inner.first_frame [of x "[]"] outer.first_frame [of "frame0 x" rest] into_item
    by (simp add: compose_first_def legal_def)
  show "compose_fit fit0 first1 fit1 (item1 \<circ> frame0) legal s [] (concat (map (frame1 \<circ> frame0) xs))"
    if "compose_fit fit0 first1 fit1 (item1 \<circ> frame0) legal s [] []" "\<And>x. x \<in> set xs \<Longrightarrow> legal x" for s xs
  proof -
    have l: "\<And>b. b \<in> set (map frame0 xs) \<Longrightarrow> legal1 b" using that(2) by (auto simp: legal_def)
    have "fit1 (codec_1 s) [] (concat (map frame1 (map frame0 xs)))"
      by (rule outer.fit_frames [OF _ l]) (use that(1) in \<open>auto simp: compose_fit_def\<close>)
    moreover have "cuts first1 (concat (map frame1 (map frame0 xs)) @ []) (map item1 (map frame0 xs)) []"
      by (rule outer.cuts_legal [OF l])
    moreover have "fit0 (codec_0 s) [] []" using that(1) by (simp add: compose_fit_def)
    ultimately show ?thesis unfolding compose_fit_def using that(2)
      by (intro conjI exI [of _ xs] exI [of _ "[]"]) simp_all
  qed
qed

context composed_codecs
begin

lemma composed_frame_codec:
  "frame_codec (compose_decode dec0 dec1 into from0 from1) (compose_first first0 first1 into)
    (compose_fit fit0 first1 fit1 (item1 \<circ> frame0) legal) (compose_encode enc0 enc1 from0' from1')
    (frame1 \<circ> frame0) item0 legal"
  by (rule composed.frame_codec_axioms)

end

text \<open>COBS inside an exclusive delimiter codec.\<close>

interpretation cobs_delimited:
  composed_codecs "cobs_codec_decode cobs_reference" "cobs_first cobs_reference" "cobs_fit (cobs_blocks [])"
    "cobs_encoder cobs_reference" "\<lambda>x. cobs_blocks [] x @ [0]" Inr "\<lambda>x. x \<noteq> []"
    all_delimiter_decode "segment [] d" "segment_fit [] d" delimiter_encoder "\<lambda>x. x @ d" id
    "delimiter_legal d" id for d
  by unfold_locales simp

text \<open>Two codecs that write frames compose to one.  Let an inner and an outer codec each decode
  every sequence of frames of its items, however it is cut into chunks.  Items whose inner frame
  is an item of the outer codec are encoded by the composition, and decoded to the same items
  in order, with whatever chunks and whenever the decoder is called in between.\<close>

theorem compose_roundtrip:
  assumes "frame_codec dec0 first0 fit0 enc0 frame0 item0 legal0"
    and "frame_codec dec1 first1 fit1 enc1 frame1 item1 legal1"
    and "\<And>b. legal1 b \<Longrightarrow> into (item1 b) = b"
    and "fit0 t [] []" and "fit1 u [] []"
    and "\<And>x. x \<in> set xs \<Longrightarrow> legal0 x \<and> legal1 (frame0 x)"
    and "received ops = concat (map (\<lambda>x. frame1 (frame0 x)) xs)" and "length xs \<le> n"
  shows "encode_all (compose_encode enc0 enc1 from0' from1') (compose_new t u) xs []
      = Inr (compose_new t u, received ops)
    \<and> (\<exists>c. session (compose_decode dec0 dec1 into from0 from1) (ops @ replicate n DecodeCall)
        (compose_new t u) [] = Inr (map item0 xs, c, []))"
proof -
  have both: "composed_codecs dec0 first0 fit0 enc0 frame0 item0 legal0
      dec1 first1 fit1 enc1 frame1 item1 legal1 into"
    using assms(1-3) by (simp add: composed_codecs_def composed_codecs_axioms_def)
  note legal = composed_codecs.legal_def [OF both]
  have fit: "compose_fit fit0 first1 fit1 (item1 \<circ> frame0)
      (composed_codecs.legal frame0 legal0 legal1) (compose_new t u) [] []"
    unfolding compose_fit_def using assms(4,5) frame_codec.first_Nil [OF assms(2)]
    by (auto simp: compose_new_def intro!: exI [of _ "[]"])
  have ok: "\<And>x. x \<in> set xs \<Longrightarrow> composed_codecs.legal frame0 legal0 legal1 x"
    using assms(6) by (simp add: legal)
  note composed = composed_codecs.composed_frame_codec [OF both]
  have "encode_all (compose_encode enc0 enc1 from0' from1') (compose_new t u) xs []
      = Inr (compose_new t u, [] @ concat (map (frame1 \<circ> frame0) xs))"
    by (rule frame_codec.encode_all_frames [OF composed fit ok])
  then have enc: "encode_all (compose_encode enc0 enc1 from0' from1') (compose_new t u) xs []
      = Inr (compose_new t u, received ops)"
    using assms(7) by (simp add: comp_def)
  show ?thesis
    using frame_codec.frames_roundtrip [OF composed fit ok enc refl assms(8)] enc by blast
qed

theorem compose_roundtrip_witness:
  "\<exists>wire c. encode_all (compose_encode (cobs_encoder cobs_reference) delimiter_encoder Inl Inr)
        (compose_new () (all_delimiter_new direct_search [10, 10] False)) [[1, 2], [3]] []
      = Inr (compose_new () (all_delimiter_new direct_search [10, 10] False), wire)
    \<and> session (compose_decode (cobs_codec_decode cobs_reference) all_delimiter_decode id Inl Inr)
        ([Received wire] @ replicate 2 DecodeCall)
        (compose_new () (all_delimiter_new direct_search [10, 10] False)) [] = Inr ([Inr [1, 2], Inr [3]], c, [])"
proof -
  let ?c = "all_delimiter_new direct_search [10, 10] False"
  let ?xs = "[[1, 2], [3]] :: bytes list"
  have fit: "cobs_fit (cobs_blocks []) () [] []" "segment_fit [] [10, 10] ?c [] []"
    using new_fit [OF direct.leftmost_longest_axioms, of "[10, 10]" False "[]"]
    by (auto simp: cobs_fit_def cobs_wire_def segment_fit_def all_delimiter_new_def intro: exI [of _ "[]"])
  have legal: "x \<noteq> [] \<and> delimiter_legal [10, 10] (cobs_blocks [] x @ [0])" if "x \<in> set ?xs" for x
    using that by (auto simp: delimiter_legal_def)
  let ?wire = "concat (map (\<lambda>x. (cobs_blocks [] x @ [0]) @ [10, 10]) ?xs)"
  have "encode_all (compose_encode (cobs_encoder cobs_reference) delimiter_encoder Inl Inr)
        (compose_new () ?c) ?xs [] = Inr (compose_new () ?c, received [Received ?wire])
    \<and> (\<exists>c. session (compose_decode (cobs_codec_decode cobs_reference) all_delimiter_decode id Inl Inr)
        ([Received ?wire] @ replicate 2 DecodeCall) (compose_new () ?c) [] = Inr (map Inr ?xs, c, []))"
    by (rule compose_roundtrip [where into = id and ?fit0.0 = "cobs_fit (cobs_blocks [])",
          OF cobs_ref.frames.frame_codec_axioms delimited_frames.frame_codec_axioms [of "[10, 10]"], OF _ fit legal])
      (simp, assumption, simp only: received.simps append_Nil2, simp)
  then show ?thesis by auto
qed

text \<open>What the composition loses.  When an outer item holds no complete inner item, the decoder
  answers that it needs more bytes, although the item's bytes are gone and the next item may be
  complete in the buffer: here the item \<open>[5]\<close> is missed until the decoder is called again, and the
  first half \<open>[3]\<close> of a frame, with the outer item that held it, for good.\<close>

lemma compose_swallows:
  assumes "dec1 (codec_1 c) src = Inr (Some item, u, src')" and "dec0 (codec_0 c) (into item) = Inr (None, t, b)"
  shows "compose_decode dec0 dec1 into from0 from1 c src = Inr (None, c\<lparr> codec_0 := t, codec_1 := u \<rparr>, src')"
  using assms by (simp add: compose_decode_def)

lemma compose_stalls:
  "\<exists>c. session (compose_decode (cobs_codec_decode cobs_reference) all_delimiter_decode id Inl Inr)
      [Received [3, 10, 2, 5, 0, 10], DecodeCall]
      (compose_new () (all_delimiter_new direct_search [10] False)) [] = Inr ([], c, [2, 5, 0, 10])"
proof -
  have "segment_fit [] [10] (all_delimiter_new direct_search [10] False) [3, 10, 2, 5, 0, 10] []"
    using new_fit [OF direct.leftmost_longest_axioms, of "[10]" False]
    by (simp add: segment_fit_def all_delimiter_new_def)
  moreover have "segment [] [10] [3, 10, 2, 5, 0, 10] = Some ([3], [2, 5, 0, 10])"
    by (simp add: segment_def)
  ultimately obtain c where "all_delimiter_decode (all_delimiter_new direct_search [10] False)
      [3, 10, 2, 5, 0, 10] = Inr (Some [3], c, [2, 5, 0, 10])"
    using delimited.fit_rest by blast
  moreover have "cobs_codec_decode cobs_reference () [3] = Inr (None, (), [3])"
    by (simp add: cobs_codec_decode_def)
  ultimately show ?thesis by (simp add: compose_decode_def compose_new_def)
qed

end
