(* ===== verification/Trace_Layer.thy ===== *)
theory Trace_Layer
  imports Downlink_Data
begin

text \<open>
  The tracing layer of \<open>src/trace/downlink.rs\<close>, which turns log events into \<open>Log\<close> messages
  for the downlink: the truncation of strings, the visitor that collects fields, and the
  filter for events that are already on the downlink in another form.  A panic is \<open>None\<close>.
  Also the connection check of \<open>src/lib.rs\<close>.
\<close>

subsection \<open>Truncation\<close>

text \<open>The metadata of a span or an event.\<close>

record metadata =
  meta_name :: rust_str
  meta_target :: rust_str
  meta_level :: tracing_level

definition MAX_STR :: nat where
  "MAX_STR = 64"

text \<open>The number of bytes of a scalar value in UTF-8, and of a string.\<close>

definition utf8_len :: "nat \<Rightarrow> nat" where
  "utf8_len c = (if c < 0x80 then 1 else if c < 0x800 then 2 else if c < 0x10000 then 3 else 4)"

definition byte_len :: "rust_str \<Rightarrow> nat" where
  "byte_len s = sum_list (map utf8_len s)"

fun char_indices :: "nat \<Rightarrow> rust_str \<Rightarrow> (nat \<times> nat) list" where
  "char_indices off [] = []"
| "char_indices off (c # cs) = (off, c) # char_indices (off + utf8_len c) cs"

text \<open>\<open>s[..n]\<close>: the characters up to the byte \<open>n\<close>, which has to be a character boundary.\<close>

fun str_slice_to :: "rust_str \<Rightarrow> nat \<Rightarrow> rust_str option" where
  "str_slice_to s 0 = Some []"
| "str_slice_to [] n = None"
| "str_slice_to (c # cs) n =
     (if n < utf8_len c then None else map_option ((#) c) (str_slice_to cs (n - utf8_len c)))"

definition truncate :: "rust_str \<Rightarrow> rust_str option" where
  "truncate s =
     (if s = [] then Some s
      else let kept = take MAX_STR (char_indices 0 s);
               idx = (if kept = [] then 0 else fst (last kept))
           in str_slice_to s (idx + 1))"

lemma utf8_len_pos: "0 < utf8_len c"
  by (simp add: utf8_len_def)

lemma char_indices_nth:
  "i < length s \<Longrightarrow> char_indices off s ! i = (off + byte_len (take i s), s ! i)"
proof (induction s arbitrary: i off)
  case (Cons c cs)
  then show ?case by (cases i) (simp_all add: byte_len_def)
qed simp

lemma length_char_indices [simp]: "length (char_indices off s) = length s"
  by (induction s arbitrary: off) simp_all

lemma str_slice_to_take:
  "i < length s \<Longrightarrow> 0 < n \<Longrightarrow> n \<le> utf8_len (s ! i) \<Longrightarrow> str_slice_to s (byte_len (take i s) + n) =
    (if n = utf8_len (s ! i) then Some (take (Suc i) s) else None)"
proof (induction s arbitrary: i)
  case (Cons c cs)
  obtain m where m: "n = Suc m" using Cons.prems(2) by (cases n) auto
  show ?case
  proof (cases i)
    case 0
    then show ?thesis using Cons.prems m by (auto simp: byte_len_def)
  next
    case (Suc j)
    have "byte_len (take i (c # cs)) + n = Suc (utf8_len c + byte_len (take j cs) + m)"
      using m Suc by (simp add: byte_len_def)
    moreover have "utf8_len c + byte_len (take j cs) + Suc m - utf8_len c = byte_len (take j cs) + n"
      using m by simp
    moreover have "str_slice_to cs (byte_len (take j cs) + n) =
        (if n = utf8_len (cs ! j) then Some (take (Suc j) cs) else None)"
      using Cons.IH [of j] Cons.prems Suc by simp
    ultimately show ?thesis using Suc unfolding m by simp
  qed
qed simp

lemma truncate_eq:
  "truncate s =
    (if s = [] then Some []
     else if s ! (min 64 (length s) - 1) < 0x80 then Some (take 64 s) else None)"
proof (cases "s = []")
  case False
  let ?k = "min 64 (length s) - 1"
  have k: "?k < length s" "min 64 (length s) = Suc ?k" using False by (cases s; simp add: min_def)+
  have ne: "char_indices 0 s \<noteq> []" using False length_char_indices [of 0 s] by (metis length_0_conv)
  have "last (take 64 (char_indices 0 s)) = char_indices 0 s ! ?k"
    using ne k by (subst last_conv_nth) (auto simp: min_def)
  then have "truncate s = str_slice_to s (byte_len (take ?k s) + 1)"
    using False ne k(1) by (simp add: truncate_def MAX_STR_def char_indices_nth Let_def)
  also have "\<dots> = (if 1 = utf8_len (s ! ?k) then Some (take (Suc ?k) s) else None)"
    using str_slice_to_take [OF k(1), of 1] utf8_len_pos [of "s ! ?k"] by (simp add: Suc_le_eq)
  also have "take (Suc ?k) s = take 64 s" using k(2) by (simp add: min_def split: if_splits)
  also have "1 = utf8_len (s ! ?k) \<longleftrightarrow> s ! ?k < 0x80" by (simp add: utf8_len_def)
  finally show ?thesis using False by simp
qed (simp add: truncate_def)

text \<open>C32: truncation keeps 64 characters or panics.  A nonempty string is cut to its first 64
  characters if the last character kept is a single byte (ASCII); otherwise the byte index
  of that character plus one is inside the character and the slice panics, however short the
  string is.\<close>

theorem truncate_exact:
  "truncate s =
    (if s = [] then Some []
     else if s ! (min 64 (length s) - 1) < 0x80 then Some (take 64 s) else None)"
  by (rule truncate_eq)

subsection \<open>Fields\<close>

type_synonym field_map = "rust_str \<Rightarrow> field_value option"

text \<open>The visitor's calls; an error and a debug value come as the text they format to.\<close>

datatype recorded =
    RecordF64 u64
  | RecordI64 u64
  | RecordU64 u64
  | RecordBool bool
  | RecordStr rust_str
  | RecordError rust_str
  | RecordDebug rust_str

definition record_value :: "recorded \<Rightarrow> field_value option" where
  "record_value r =
     (case r of
        RecordF64 v \<Rightarrow> Some (FieldF64 v)
      | RecordI64 v \<Rightarrow> Some (FieldI64 v)
      | RecordU64 v \<Rightarrow> Some (FieldU64 v)
      | RecordBool v \<Rightarrow> Some (FieldBool v)
      | RecordStr s \<Rightarrow> map_option FieldString (truncate s)
      | RecordError s \<Rightarrow> map_option FieldString (truncate s)
      | RecordDebug s \<Rightarrow> map_option FieldString (truncate s))"

fun visit :: "(rust_str \<times> recorded) list \<Rightarrow> field_map \<Rightarrow> field_map option" where
  "visit [] m = Some m"
| "visit ((name, r) # calls) m =
     Option.bind (truncate name) (\<lambda>n.
     Option.bind (record_value r) (\<lambda>v. visit calls (m(n \<mapsto> v))))"

text \<open>\<open>on_new_span\<close>: the fields stored with a span.\<close>

definition on_new_span :: "(rust_str \<times> recorded) list \<Rightarrow> field_map option" where
  "on_new_span attrs = visit attrs Map.empty"

subsection \<open>Events\<close>

definition LIMITED_DOWNLINK :: rust_str where
  "LIMITED_DOWNLINK = str ''limit_downlink''"

definition limited_downlink :: "field_map \<Rightarrow> bool" where
  "limited_downlink fds \<longleftrightarrow>
     (case fds LIMITED_DOWNLINK of Some v \<Rightarrow> v | None \<Rightarrow> FieldBool False) = FieldBool True"

definition filter_fields :: "bool \<Rightarrow> field_map \<Rightarrow> field_map" where
  "filter_fields limited fds =
     (if limited then
        (case fds (str ''message'') of
           Some msg \<Rightarrow> [str ''message'' \<mapsto> msg, str ''downlink_filtered'' \<mapsto> FieldBool True]
         | None \<Rightarrow> Map.empty)
      else fds)"

definition record_span :: "bool \<Rightarrow> field_map \<Rightarrow> metadata \<Rightarrow> span_data option" where
  "record_span limited fds meta =
     Option.bind (truncate (meta_target meta)) (\<lambda>target.
     Option.bind (truncate (meta_name meta)) (\<lambda>name.
       Some \<lparr> span_name = name, span_target = target,
         span_fields = filter_fields limited fds,
         span_level = level_of_tracing (meta_level meta) \<rparr>))"

fun record_all :: "bool \<Rightarrow> (field_map \<times> metadata) list \<Rightarrow> log option" where
  "record_all limited [] = Some []"
| "record_all limited ((f, meta) # rest) =
     Option.bind (record_span limited f meta) (\<lambda>s. map_option ((#) s) (record_all limited rest))"

text \<open>
  \<open>on_event\<close>: \<open>scope\<close> are the stored fields and the metadata of the spans from the root;
  nothing is issued before the layer is active.
\<close>

definition on_event ::
  "bool \<Rightarrow> (field_map \<times> metadata) list \<Rightarrow> (rust_str \<times> recorded) list \<Rightarrow> metadata
     \<Rightarrow> broker_msg list option" where
  "on_event active scope evs meta =
     (if \<not> active then Some []
      else Option.bind (visit evs Map.empty) (\<lambda>fds.
        map_option (\<lambda>spans. [GroundLog spans])
          (record_all (limited_downlink fds) (scope @ [(fds, meta)]))))"

lemma record_all_spans:
  assumes "record_all limited fs = Some spans"
  shows "length spans = length fs \<and> (\<forall>i < length fs.
    span_fields (spans ! i) = filter_fields limited (fst (fs ! i))
    \<and> span_level (spans ! i) = level_of_tracing (meta_level (snd (fs ! i)))
    \<and> truncate (meta_name (snd (fs ! i))) = Some (span_name (spans ! i)))"
  using assms
proof (induction limited fs arbitrary: spans rule: record_all.induct)
  case (2 limited f meta rest)
  then obtain s spans' where s: "record_span limited f meta = Some s"
    "record_all limited rest = Some spans'" "spans = s # spans'"
    by (auto simp: bind_eq_Some_conv)
  have s1: "span_fields s = filter_fields limited f" "span_level s = level_of_tracing (meta_level meta)"
    "truncate (meta_name meta) = Some (span_name s)"
    using s(1) by (auto simp: record_span_def bind_eq_Some_conv)
  have IH: "length spans' = length rest \<and> (\<forall>i < length rest.
    span_fields (spans' ! i) = filter_fields limited (fst (rest ! i))
    \<and> span_level (spans' ! i) = level_of_tracing (meta_level (snd (rest ! i)))
    \<and> truncate (meta_name (snd (rest ! i))) = Some (span_name (spans' ! i)))"
    using "2.IH" [OF s(1)] s(2) by blast
  show ?case
    using IH s1 by (auto simp: s(3) nth_Cons' less_Suc_eq_0_disj)
qed simp

lemma filter_fields_keys:
  "dom (filter_fields True f) \<subseteq> {str ''message'', str ''downlink_filtered''}
   \<and> filter_fields True f (str ''downlink_filtered'') =
      (if filter_fields True f (str ''message'') = None then None else Some (FieldBool True))"
proof -
  have "str ''message'' \<noteq> str ''downlink_filtered''" by (simp add: str_def)
  then show ?thesis by (auto simp: filter_fields_def split: option.splits if_splits)
qed

lemma record_all_maps:
  assumes "record_all limited fs = Some spans"
  shows "map span_level spans = map (\<lambda>(f, md). level_of_tracing (meta_level md)) fs"
    "map span_fields spans = map (filter_fields limited \<circ> fst) fs"
  using record_all_spans [OF assms] by (auto intro!: nth_equalityI simp: case_prod_beta)

text \<open>An event marked for limited downlink leaks nothing but its messages.  Every issued log
  has one record per enclosing span and one for the event, in this order, with the levels of
  the metadata; and when the event's own field \<open>limit_downlink\<close> is true, every record, those
  of the enclosing spans included, has at most the fields \<open>message\<close> and
  \<open>downlink_filtered\<close>, the latter being true and present exactly with the former.\<close>

theorem limited_event_fields:
  assumes "visit evs Map.empty = Some fds"
    and "on_event True scope evs meta = Some out"
  shows "\<exists>spans. out = [GroundLog spans] \<and> length spans = length scope + 1
    \<and> map span_level spans = map (\<lambda>(f, md). level_of_tracing (meta_level md)) (scope @ [(fds, meta)])
    \<and> (limited_downlink fds \<longrightarrow> (\<forall>s \<in> set spans.
        dom (span_fields s) \<subseteq> {str ''message'', str ''downlink_filtered''}
        \<and> (span_fields s (str ''downlink_filtered'') =
            (if span_fields s (str ''message'') = None then None else Some (FieldBool True)))))
    \<and> (\<not> limited_downlink fds \<longrightarrow> map span_fields spans = map fst (scope @ [(fds, meta)]))"
proof -
  let ?fs = "scope @ [(fds, meta)]"
  obtain spans where spans: "record_all (limited_downlink fds) ?fs = Some spans" "out = [GroundLog spans]"
    using assms by (auto simp: on_event_def)
  have len: "length spans = length scope + 1" using record_all_spans [OF spans(1)] by simp
  note r = record_all_maps [OF spans(1)]
  have keys: "dom (span_fields s) \<subseteq> {str ''message'', str ''downlink_filtered''}
      \<and> span_fields s (str ''downlink_filtered'') =
        (if span_fields s (str ''message'') = None then None else Some (FieldBool True))"
    if lim: "limited_downlink fds" and s: "s \<in> set spans" for s
  proof -
    have "span_fields s \<in> set (map span_fields spans)" using s by simp
    then obtain f where "span_fields s = filter_fields True f" unfolding r(2) using lim by auto
    then show ?thesis by (simp add: filter_fields_keys)
  qed
  have all: "map span_fields spans = map fst ?fs" if "\<not> limited_downlink fds"
    unfolding r(2) using that by (simp add: filter_fields_def)
  show ?thesis
    by (intro exI [of _ spans] conjI impI ballI spans(2) len r(1) keys all)
      (use keys in blast)+
qed

theorem limited_event_fields_witness:
  "\<exists>spans. on_event True []
      [(LIMITED_DOWNLINK, RecordBool True), (str ''message'', RecordStr (str ''sent'')),
       (str ''pkt'', RecordU64 7)]
      \<lparr> meta_name = str ''event'', meta_target = str ''relay'', meta_level = TracingInfo \<rparr>
    = Some [GroundLog spans] \<and> map (\<lambda>s. span_fields s (str ''pkt'')) spans = [None]"
proof -
  let ?evs = "[(LIMITED_DOWNLINK, RecordBool True), (str ''message'', RecordStr (str ''sent'')),
       (str ''pkt'', RecordU64 7)]"
  let ?meta = "\<lparr> meta_name = str ''event'', meta_target = str ''relay'', meta_level = TracingInfo \<rparr>"
  let ?fds = "[LIMITED_DOWNLINK \<mapsto> FieldBool True, str ''message'' \<mapsto> FieldString (str ''sent''),
       str ''pkt'' \<mapsto> FieldU64 7]"
  have v: "visit ?evs Map.empty = Some ?fds"
    by (simp add: truncate_eq LIMITED_DOWNLINK_def str_def record_value_def)
  have lim: "limited_downlink ?fds"
    by (simp add: limited_downlink_def LIMITED_DOWNLINK_def str_def)
  obtain spans where o: "on_event True [] ?evs ?meta = Some [GroundLog spans]"
    unfolding on_event_def v by (simp add: record_span_def truncate_eq str_def)
  have pkt: "str ''pkt'' \<notin> {str ''message'', str ''downlink_filtered''}" by (simp add: str_def)
  have "\<exists>spans'. [GroundLog spans] = [GroundLog spans'] \<and> length spans' = 1
      \<and> (\<forall>s \<in> set spans'. dom (span_fields s) \<subseteq> {str ''message'', str ''downlink_filtered''})"
    using limited_event_fields [OF v o] lim by auto
  then have "length spans = 1" "\<forall>s \<in> set spans. span_fields s (str ''pkt'') = None"
    using pkt by blast+
  then obtain s where "spans = [s]" "span_fields s (str ''pkt'') = None"
    by (auto simp: length_Suc_conv)
  then have "map (\<lambda>s. span_fields s (str ''pkt'')) spans = [None]" by (simp only: list.map)
  with o show ?thesis by (intro exI [of _ spans] conjI)
qed

subsection \<open>Waiting for a socket\<close>

text \<open>
  One attempt of \<open>connect_once\<close>: the addresses are tried in order up to the first that
  connects; the failure is reported once over all attempts.  The result is whether one
  connected, the flag, whether this attempt reported, and the addresses tried.
\<close>

fun try_connect :: "('a \<Rightarrow> bool) \<Rightarrow> 'a list \<Rightarrow> bool \<times> 'a list" where
  "try_connect connect [] = (False, [])"
| "try_connect connect (a # as) =
     (if connect a then (True, [a])
      else let (ok, tried) = try_connect connect as in (ok, a # tried))"

definition connect_attempt ::
  "('a \<Rightarrow> bool) \<Rightarrow> 'a list \<Rightarrow> bool \<Rightarrow> bool \<times> bool \<times> bool \<times> 'a list" where
  "connect_attempt connect addrs has_notified =
     (let (ok, tried) = try_connect connect addrs
      in (ok, has_notified \<or> \<not> ok, \<not> ok \<and> \<not> has_notified, tried))"

text \<open>Attempts until one succeeds, with the number of reports.\<close>

fun connect_attempts :: "('a \<Rightarrow> bool) list \<Rightarrow> 'a list \<Rightarrow> bool \<Rightarrow> bool \<times> nat" where
  "connect_attempts [] addrs has_notified = (False, 0)"
| "connect_attempts (connect # later) addrs has_notified =
     (let (ok, flag, reported, tried) = connect_attempt connect addrs has_notified
      in if ok then (True, of_bool reported)
         else let (r, n) = connect_attempts later addrs flag in (r, of_bool reported + n))"

lemma try_connect_ok: "fst (try_connect connect addrs) \<longleftrightarrow> (\<exists>a \<in> set addrs. connect a)"
  by (induction addrs) (auto simp: case_prod_beta)

lemma connect_attempts_Cons:
  "connect_attempts (c # cs) addrs flag =
    (if \<exists>a \<in> set addrs. c a then (True, 0)
     else (fst (connect_attempts cs addrs True), of_bool (\<not> flag) + snd (connect_attempts cs addrs True)))"
  by (simp add: connect_attempt_def case_prod_beta Let_def try_connect_ok)

lemma connect_attempts_ok:
  "fst (connect_attempts cs addrs flag) \<longleftrightarrow> (\<exists>c \<in> set cs. \<exists>a \<in> set addrs. c a)"
  by (induction cs arbitrary: flag) (simp_all add: connect_attempts_Cons del: connect_attempts.simps(2))

lemma connect_attempts_quiet: "snd (connect_attempts cs addrs True) = 0"
  by (induction cs) (simp_all add: connect_attempts_Cons del: connect_attempts.simps(2))

text \<open>The relay waits for one reachable socket and complains at most once.  A sequence of
  attempts succeeds exactly if in one of them some address connects, and at most one error
  is reported over all attempts.\<close>

theorem connect_once_reports_once:
  "(fst (connect_attempts cs addrs False) \<longleftrightarrow> (\<exists>c \<in> set cs. \<exists>a \<in> set addrs. c a))
   \<and> snd (connect_attempts cs addrs False) \<le> 1"
proof (intro conjI)
  show "fst (connect_attempts cs addrs False) \<longleftrightarrow> (\<exists>c \<in> set cs. \<exists>a \<in> set addrs. c a)"
    by (rule connect_attempts_ok)
  show "snd (connect_attempts cs addrs False) \<le> 1"
    by (cases cs) (simp_all add: connect_attempts_Cons connect_attempts_quiet
        del: connect_attempts.simps(2))
qed

end
