(* ===== verification/Texts.thy ===== *)
theory Texts
  imports Downlink_Data "HOL-Library.List_Lexorder"
begin

text \<open>
  The texts that \<open>Display\<close> and \<open>Debug\<close> give to the wire types and to the downlink values, in
  \<open>message/src\<close>.  A text is the list of its Unicode scalar values.  The hexadecimal encoder
  (the crate \<open>hex\<close>), the texts of a time (\<open>chrono\<close>) and of a floating point number, and the
  texts of derived \<open>Debug\<close> implementations are parameters; decimal numbers are modelled.  Of the
  short text of a time it is used that it shows the second.
\<close>

subsection \<open>Hexadecimal text\<close>

record hex_ops =
  hex_encode :: "bytes \<Rightarrow> rust_str"
  hex_decode :: "rust_str \<Rightarrow> bytes option"

definition is_hex_digit :: "nat \<Rightarrow> bool" where
  "is_hex_digit c \<longleftrightarrow> 0x30 \<le> c \<and> c \<le> 0x39 \<or> 0x61 \<le> c \<and> c \<le> 0x66"

locale hex_laws =
  fixes H :: hex_ops
  assumes encode_digits: "c \<in> set (hex_encode H bs) \<Longrightarrow> is_hex_digit c"
    and length_encode: "length (hex_encode H bs) = 2 * length bs"
    and decode_encode: "hex_decode H (hex_encode H bs) = Some bs"

text \<open>A reference.\<close>

definition hex_digit :: "nat \<Rightarrow> nat" where
  "hex_digit n = (if n < 10 then 0x30 + n else 0x57 + n)"

definition hex_value :: "nat \<Rightarrow> nat option" where
  "hex_value c =
     (if 0x30 \<le> c \<and> c \<le> 0x39 then Some (c - 0x30)
      else if 0x61 \<le> c \<and> c \<le> 0x66 then Some (c - 0x57) else None)"

fun hex_text :: "bytes \<Rightarrow> rust_str" where
  "hex_text [] = []"
| "hex_text (b # bs) = hex_digit (unat b div 16) # hex_digit (unat b mod 16) # hex_text bs"

fun hex_bytes :: "rust_str \<Rightarrow> bytes option" where
  "hex_bytes [] = Some []"
| "hex_bytes [c] = None"
| "hex_bytes (c # d # cs) =
     (case (hex_value c, hex_value d, hex_bytes cs) of
        (Some x, Some y, Some bs) \<Rightarrow> Some (of_nat (16 * x + y) # bs)
      | _ \<Rightarrow> None)"

definition hex_reference :: hex_ops where
  "hex_reference = \<lparr> hex_encode = hex_text, hex_decode = hex_bytes \<rparr>"

lemma hex_value_digit: "n < 16 \<Longrightarrow> hex_value (hex_digit n) = Some n"
  by (simp add: hex_value_def hex_digit_def)

lemma hex_bytes_text: "hex_bytes (hex_text bs) = Some bs"
proof (induction bs)
  case (Cons b bs)
  have "unat b < 256" using unsigned_less [of b, where 'a = nat] by simp
  then have "unat b div 16 < 16" by linarith
  then show ?case using Cons.IH by (simp add: hex_value_digit)
qed simp

interpretation hex_ref: hex_laws hex_reference
proof
  show "c \<in> set (hex_encode hex_reference bs) \<Longrightarrow> is_hex_digit c" for c bs
  proof (induction bs)
    case (Cons b bs)
    have "unat b < 256" using unsigned_less [of b, where 'a = nat] by simp
    then have "unat b div 16 < 16" by linarith
    then have "is_hex_digit (hex_digit (unat b div 16))" "is_hex_digit (hex_digit (unat b mod 16))"
      using mod_less_divisor [of 16 "unat b"] by (auto simp: is_hex_digit_def hex_digit_def)
    then show ?case using Cons by (auto simp: hex_reference_def)
  qed (simp add: hex_reference_def)
  show "length (hex_encode hex_reference bs) = 2 * length bs" for bs
    by (induction bs) (simp_all add: hex_reference_def)
  show "hex_decode hex_reference (hex_encode hex_reference bs) = Some bs" for bs
    by (simp add: hex_reference_def hex_bytes_text)
qed

subsection \<open>Numbers\<close>

text \<open>\<open>Display\<close> of an unsigned and of a signed number, \<open>{:#x}\<close>, and \<open>Display\<close> of a flag.\<close>

fun dec_text :: "nat \<Rightarrow> rust_str" where
  "dec_text n = (if n < 10 then [0x30 + n] else dec_text (n div 10) @ [0x30 + n mod 10])"

declare dec_text.simps [simp del]

definition signed_text :: "int \<Rightarrow> rust_str" where
  "signed_text i = (if i < 0 then 0x2d # dec_text (nat (- i)) else dec_text (nat i))"

fun hex_number_digits :: "nat \<Rightarrow> rust_str" where
  "hex_number_digits n =
     (if n < 16 then [hex_digit n] else hex_number_digits (n div 16) @ [hex_digit (n mod 16)])"

declare hex_number_digits.simps [simp del]

definition hex_number :: "nat \<Rightarrow> rust_str" where
  "hex_number n = str ''0x'' @ hex_number_digits n"

definition bool_text :: "bool \<Rightarrow> rust_str" where
  "bool_text b = (if b then str ''true'' else str ''false'')"

definition dec_value :: "rust_str \<Rightarrow> nat" where
  "dec_value s = foldl (\<lambda>n c. 10 * n + (c - 0x30)) 0 s"

definition hex_number_value :: "rust_str \<Rightarrow> nat" where
  "hex_number_value s = foldl (\<lambda>n c. 16 * n + (case hex_value c of Some d \<Rightarrow> d | None \<Rightarrow> 0)) 0 s"

lemma dec_value_text: "dec_value (dec_text n) = n"
proof (induction n rule: dec_text.induct)
  case (1 n)
  show ?case
  proof (cases "n < 10")
    case True
    then show ?thesis by (simp add: dec_text.simps [of n] dec_value_def)
  next
    case False
    with 1 have "foldl (\<lambda>n c. 10 * n + (c - 48)) 0 (dec_text (n div 10)) = n div 10"
      by (simp add: dec_value_def)
    then show ?thesis using False by (subst dec_text.simps) (simp add: dec_value_def)
  qed
qed

lemma hex_number_value_digits: "hex_number_value (hex_number_digits n) = n"
proof (induction n rule: hex_number_digits.induct)
  case (1 n)
  show ?case
  proof (cases "n < 16")
    case True
    then show ?thesis by (simp add: hex_number_digits.simps [of n] hex_number_value_def hex_value_digit)
  next
    case False
    have "n mod 16 < 16" by simp
    then show ?thesis using False 1
      by (subst hex_number_digits.simps) (simp add: hex_number_value_def hex_value_digit)
  qed
qed

lemma dec_text_inject [simp]: "dec_text n = dec_text k \<longleftrightarrow> n = k"
  by (metis dec_value_text)

lemma hex_number_inject [simp]: "hex_number n = hex_number k \<longleftrightarrow> n = k"
  unfolding hex_number_def by (metis hex_number_value_digits same_append_eq)

lemma hex_number_digits_chars: "c \<in> set (hex_number_digits n) \<Longrightarrow> is_hex_digit c"
proof (induction n rule: hex_number_digits.induct)
  case (1 n)
  have digit: "k < 16 \<Longrightarrow> is_hex_digit (hex_digit k)" for k
    by (auto simp: is_hex_digit_def hex_digit_def)
  have "n mod 16 < 16" by simp
  with digit 1 show ?case by (auto simp: hex_number_digits.simps [of n] split: if_splits)
qed

lemma hex_number_chars: "c \<in> set (hex_number n) \<Longrightarrow> c = 0x78 \<or> is_hex_digit c"
  using hex_number_digits_chars by (auto simp: hex_number_def str_def is_hex_digit_def)

lemma dec_text_digits: "c \<in> set (dec_text n) \<Longrightarrow> 0x30 \<le> c \<and> c \<le> 0x39"
proof (induction n rule: dec_text.induct)
  case (1 n)
  show ?case
  proof (cases "n < 10")
    case True
    then show ?thesis using "1.prems" by (simp add: dec_text.simps [of n])
  next
    case False
    then have "c \<in> set (dec_text (n div 10)) \<or> c = 0x30 + n mod 10"
      using "1.prems" by (auto simp: dec_text.simps [of n])
    moreover have "n mod 10 < 10" by simp
    ultimately show ?thesis using "1.IH" [OF False] by auto
  qed
qed

subsection \<open>Derived names\<close>

fun event_name :: "event \<Rightarrow> string" where
  "event_name AntPing = ''AntPing''"
| "event_name AntStart = ''AntStart''"
| "event_name AntCalibrate = ''AntCalibrate''"
| "event_name AntOTA = ''AntOTA''"
| "event_name AntStop = ''AntStop''"
| "event_name AntPowerOff = ''AntPowerOff''"
| "event_name AntHeaterOn = ''AntHeaterOn''"
| "event_name AntHeaterOff = ''AntHeaterOff''"
| "event_name AntMoveForward = ''AntMoveForward''"
| "event_name AntMoveBackward = ''AntMoveBackward''"
| "event_name CSGarageOpen = ''CSGarageOpen''"
| "event_name CSRoverStop = ''CSRoverStop''"
| "event_name CSRoverMove = ''CSRoverMove''"
| "event_name CSPing = ''CSPing''"
| "event_name CSDFUViaBLE = ''CSDFUViaBLE''"
| "event_name CSDFUSerial = ''CSDFUSerial''"
| "event_name CSAntDFUInit = ''CSAntDFUInit''"
| "event_name CSAntDFUPacket = ''CSAntDFUPacket''"
| "event_name CSRelay = ''CSRelay''"
| "event_name CSBLEConnect = ''CSBLEConnect''"
| "event_name CSBLEDisconnect = ''CSBLEDisconnect''"
| "event_name FEGarageOpen = ''FEGarageOpen''"
| "event_name FERoverStop = ''FERoverStop''"
| "event_name FERoverMove = ''FERoverMove''"
| "event_name FEPowerSupplied = ''FEPowerSupplied''"
| "event_name FEPing = ''FEPing''"
| "event_name FERestart = ''FERestart''"
| "event_name FECSPowerCycled = ''FECSPowerCycled''"
| "event_name DebugCSPing = ''DebugCSPing''"

fun destination_name :: "destination \<Rightarrow> string" where
  "destination_name Frontend = ''Frontend''"
| "destination_name CentralStation = ''CentralStation''"
| "destination_name Ant = ''Ant''"
| "destination_name Ground = ''Ground''"

fun level_name :: "level \<Rightarrow> string" where
  "level_name ERROR = ''ERROR''"
| "level_name WARN = ''WARN''"
| "level_name INFO = ''INFO''"
| "level_name DEBUG = ''DEBUG''"
| "level_name TRACE = ''TRACE''"
| "level_name UNKNOWN = ''UNKNOWN''"

lemma event_in_variants: "e \<in> set event_variants"
  by (cases e) (simp_all add: event_variants_def)

lemma event_name_inject [simp]: "event_name e = event_name f \<longleftrightarrow> e = f"
proof -
  have "distinct (map event_name event_variants)" by code_simp
  then have "inj_on event_name (set event_variants)" by (simp only: distinct_map)
  then show ?thesis using event_in_variants by (metis inj_on_def)
qed

lemma destination_name_inject [simp]: "destination_name d = destination_name e \<longleftrightarrow> d = e"
  by (cases d; cases e; simp)

lemma str_inject [simp]: "str s = str t \<longleftrightarrow> s = t"
  by (simp add: str_def inj_map_eq_map inj_of_char)

subsection \<open>Texts of the libraries\<close>

text \<open>\<open>text_short_time\<close> is \<open>format("%y/%m/%d %TZ")\<close>, \<open>text_time\<close> the \<open>Display\<close> of a time.\<close>

record text_ops =
  text_hex :: hex_ops
  text_short_time :: "datetime \<Rightarrow> rust_str"
  text_time :: "datetime \<Rightarrow> rust_str"
  text_f64 :: "u64 \<Rightarrow> rust_str"

text \<open>The format has two digits for each of its six fields, four separators, a blank and the zone; the
  times that mission timestamps denote lie within 50 days and on whole seconds before the
  milliseconds, so that it shows two of them alike exactly if they are in the same second.\<close>

definition same_second :: "mission_epoch \<Rightarrow> mission_epoch \<Rightarrow> bool" where
  "same_second t u \<longleftrightarrow> unat (epoch_val t) div 1000 = unat (epoch_val u) div 1000"

locale text_laws =
  fixes T :: text_ops
  assumes hex: "hex_laws (text_hex T)"
    and length_short_time: "length (text_short_time T (datetime_of_epoch t)) = 18"
    and short_time_second: "text_short_time T (datetime_of_epoch t) = text_short_time T (datetime_of_epoch u)
      \<longleftrightarrow> same_second t u"

text \<open>A reference for the times that a mission epoch denotes: from 2022-06-01, less than 50 days.\<close>

definition two_digits :: "nat \<Rightarrow> rust_str" where
  "two_digits n = [0x30 + n div 10 mod 10, 0x30 + n mod 10]"

definition mission_time_text :: "datetime \<Rightarrow> rust_str" where
  "mission_time_text dt =
     (let secs = nat ((dt - EPOCH) div 10 ^ 9);
          d = secs div 86400
      in str ''22/'' @ two_digits (if d < 30 then 6 else 7) @ str ''/''
         @ two_digits (if d < 30 then d + 1 else d - 29) @ str '' ''
         @ two_digits (secs div 3600 mod 24) @ str '':'' @ two_digits (secs div 60 mod 60)
         @ str '':'' @ two_digits (secs mod 60) @ str ''Z'')"

lemma mission_seconds:
  "nat ((datetime_of_epoch e - EPOCH) div 10 ^ 9) = unat (epoch_val e) div 1000"
proof -
  have "uint (epoch_val e) * 10 ^ 6 div (10 ^ 9 :: int) = uint (epoch_val e) div 1000" by simp
  then show ?thesis by (simp add: datetime_of_epoch_def nat_div_distrib)
qed

text \<open>It shows the second: the digits give the day, the hour, the minute and the second back.\<close>

lemma two_digits_inject [simp]:
  "n < 100 \<Longrightarrow> m < 100 \<Longrightarrow> two_digits n = two_digits m \<longleftrightarrow> n = m"
proof -
  assume "n < 100" "m < 100"
  then have "n = 10 * (n div 10 mod 10) + n mod 10" "m = 10 * (m div 10 mod 10) + m mod 10" by simp_all
  then show ?thesis by (auto simp: two_digits_def)
qed

lemma length_two_digits [simp]: "length (two_digits n) = 2"
  by (simp add: two_digits_def)

lemma clock_parts:
  fixes n :: nat
  shows "n = 86400 * (n div 86400) + 3600 * (n div 3600 mod 24) + 60 * (n div 60 mod 60) + n mod 60"
proof -
  define a where "a = n div 60"
  define b where "b = a div 60"
  have eqs: "n div 60 = a" "n div 3600 = b" "n div 86400 = b div 24"
    by (simp_all add: a_def b_def flip: div_mult2_eq)
  have "n = a * 60 + n mod 60" "a = b * 60 + a mod 60" "b = b div 24 * 24 + b mod 24"
    by (simp_all add: a_def b_def)
  then show ?thesis unfolding eqs by linarith
qed

text \<open>The month and the day of the month of the first fifty days give the day back.\<close>

lemma month_day:
  fixes d e :: nat
  assumes "d < 50" "e < 50"
  shows "two_digits (if d < 30 then 6 else 7) = two_digits (if e < 30 then 6 else 7)
      \<and> two_digits (if d < 30 then d + 1 else d - 29) = two_digits (if e < 30 then e + 1 else e - 29)
    \<longleftrightarrow> d = e"
  using assms by (cases "d < 30"; cases "e < 30") auto

lemma mission_time_inject:
  "mission_time_text (datetime_of_epoch t) = mission_time_text (datetime_of_epoch u) \<longleftrightarrow> same_second t u"
proof -
  define s where "s = (\<lambda>t. unat (epoch_val t) div 1000)"
  define month where "month = (\<lambda>d :: nat. two_digits (if d < 30 then 6 else 7))"
  define day where "day = (\<lambda>d :: nat. two_digits (if d < 30 then d + 1 else d - 29))"
  have shape: "mission_time_text (datetime_of_epoch t) = str ''22/'' @ (month (s t div 86400) @ (str ''/''
      @ (day (s t div 86400) @ (str '' '' @ (two_digits (s t div 3600 mod 24) @ (str '':''
      @ (two_digits (s t div 60 mod 60) @ (str '':'' @ (two_digits (s t mod 60) @ str ''Z'')))))))))" for t
    unfolding mission_time_text_def mission_seconds Let_def s_def month_def day_def by (rule refl)
  have "s t < 50 * 86400" for t
    using unsigned_less [of "epoch_val t", where 'a = nat] by (simp add: s_def div_less_iff_less_mult)
  then have "s t div 86400 < 50" for t by (simp add: div_less_iff_less_mult)
  note days = this [of t] this [of u]
  have date: "month (s t div 86400) = month (s u div 86400) \<and> day (s t div 86400) = day (s u div 86400)
      \<longleftrightarrow> s t div 86400 = s u div 86400"
    unfolding month_def day_def using days by (rule month_day)
  have len: "length (month d) = 2" "length (day d) = 2" for d by (simp_all add: month_def day_def)
  have clock: "two_digits (n mod 60) = two_digits (m mod 60) \<longleftrightarrow> n mod 60 = m mod 60"
    "two_digits (n mod 24) = two_digits (m mod 24) \<longleftrightarrow> n mod 24 = m mod 24" for n m :: nat
    by (intro two_digits_inject; simp add: less_le_trans [OF mod_less_divisor])+
  have "mission_time_text (datetime_of_epoch t) = mission_time_text (datetime_of_epoch u)
      \<longleftrightarrow> s t div 86400 = s u div 86400 \<and> s t div 3600 mod 24 = s u div 3600 mod 24
        \<and> s t div 60 mod 60 = s u div 60 mod 60 \<and> s t mod 60 = s u mod 60"
    unfolding shape same_append_eq using date by (simp add: append_eq_append_conv len clock) blast
  also have "\<dots> \<longleftrightarrow> s t = s u" using clock_parts [of "s t"] clock_parts [of "s u"] by auto
  finally show ?thesis by (simp add: same_second_def s_def)
qed

definition text_reference :: text_ops where
  "text_reference = \<lparr> text_hex = hex_reference, text_short_time = mission_time_text,
     text_time = mission_time_text, text_f64 = (\<lambda>b. dec_text (unat b)) \<rparr>"

lemma length_str [simp]: "length (str s) = length s"
  by (simp add: str_def)

interpretation text_ref: text_laws text_reference
proof (rule text_laws.intro)
  show "hex_laws (text_hex text_reference)"
    using hex_ref.hex_laws_axioms by (simp add: text_reference_def)
  show "length (text_short_time text_reference (datetime_of_epoch t)) = 18" for t
    by (simp add: text_reference_def mission_time_text_def two_digits_def Let_def)
  show "text_short_time text_reference (datetime_of_epoch t) = text_short_time text_reference (datetime_of_epoch u)
      \<longleftrightarrow> same_second t u" for t u
    by (simp add: text_reference_def mission_time_inject)
qed

subsection \<open>Texts of messages\<close>

definition bytes_text :: "text_ops \<Rightarrow> bytes_wrap \<Rightarrow> rust_str" where
  "bytes_text T b = (if b = [] then str ''<empty>'' else str ''0x'' @ hex_encode (text_hex T) b)"

definition bytes_debug :: "text_ops \<Rightarrow> bytes_wrap \<Rightarrow> rust_str" where
  "bytes_debug T b = str ''BytesWrap('' @ bytes_text T b @ str '')''"

text \<open>The event with its two marks, and \<open>Header::display\<close>.\<close>

definition type_text :: "message_type \<Rightarrow> rust_str" where
  "type_text t = str (event_name (event t))
     @ (if disposition t = Ack then str ''[Ack]'' else [])
     @ (if invalid t then str ''[Invalid]'' else [])"

definition header_text :: "text_ops \<Rightarrow> header \<Rightarrow> rust_str" where
  "header_text T h =
     text_short_time T (datetime_of_epoch (timestamp h)) @ str '' [seq '' @ dec_text (unat (seq h))
     @ str '']: '' @ type_text (ty h) @ str '' -> '' @ str (destination_name (destination h))"

definition source_text :: "text_ops \<Rightarrow> source_info \<Rightarrow> rust_str" where
  "source_text T s =
     (case s of
        Empty \<Rightarrow> str ''no source''
      | Info info \<Rightarrow> str ''Source <'' @ header_text T (info_header info) @ str '' crc ''
          @ hex_number (unat (info_checksum info)) @ str ''>'')"

definition header_with_source_text :: "text_ops \<Rightarrow> header_with_source \<Rightarrow> rust_str" where
  "header_with_source_text T h = header_text T (header h) @ str '' / '' @ source_text T (payload h)"

definition packet_text ::
  "text_ops \<Rightarrow> ('p \<Rightarrow> rust_str) \<Rightarrow> (header_with_source, 'p) header_packet \<Rightarrow> rust_str" where
  "packet_text T show_payload p =
     header_with_source_text T (header p) @ str '' / payload: '' @ show_payload (payload p)"

text \<open>
  \<open>WithCRC\<close>: the checksum is computed, or taken from its cell; the text comes with the value
  whose cells are filled.  \<open>None\<close> is a panic while the value is packed.
\<close>

definition crc_shown :: "text_ops \<Rightarrow> bytes result \<Rightarrow> rust_str option" where
  "crc_shown T r =
     (case r of
        Ok ck \<Rightarrow> Some (hex_encode (text_hex T) ck)
      | Inl (Fail e) \<Rightarrow> Some (str ''<failed crc>'')
      | Inl Panic \<Rightarrow> None)"

definition with_crc_text ::
  "text_ops \<Rightarrow> ('a \<Rightarrow> rust_str) \<Rightarrow> 'a packed_ops \<Rightarrow> checksum_ops \<Rightarrow> 'a with_crc
     \<Rightarrow> (rust_str \<times> 'a with_crc) option" where
  "with_crc_text T show_val P C w =
     (let (r, w') = with_crc_checksum P C w
      in map_option (\<lambda>crc. (show_val (val w') @ str '' (crc: 0x'' @ crc @ str '')'', w')) (crc_shown T r))"

definition with_crc_debug ::
  "text_ops \<Rightarrow> ('a \<Rightarrow> rust_str) \<Rightarrow> 'a packed_ops \<Rightarrow> checksum_ops \<Rightarrow> 'a with_crc
     \<Rightarrow> (rust_str \<times> 'a with_crc) option" where
  "with_crc_debug T debug_val P C w =
     (let (r, w') = with_crc_checksum P C w
      in map_option (\<lambda>crc. (str ''CRC('' @ debug_val (val w') @ str '', 0x'' @ crc @ str '')'', w'))
           (crc_shown T r))"

definition message_text :: "text_ops \<Rightarrow> (bytes \<Rightarrow> u8) \<Rightarrow> message \<Rightarrow> rust_str option" where
  "message_text T crc8 m =
     map_option fst (with_crc_text T (packet_text T (bytes_text T)) message_val_ops (StandardCRC crc8) m)"

definition unique_id_text :: "text_ops \<Rightarrow> unique_id \<Rightarrow> rust_str" where
  "unique_id_text T u = text_time T (datetime_of_epoch (uid_timestamp u)) @ str '' [seq ''
     @ dec_text (unat (uid_seq u)) @ str '']''"

subsection \<open>Texts of telemetry\<close>

definition vec3_text :: "vec3 \<Rightarrow> rust_str" where
  "vec3_text v = dec_text (unat (vec_x v)) @ str '', '' @ dec_text (unat (vec_y v)) @ str '', ''
     @ dec_text (unat (vec_z v))"

definition ant_payload_text :: "ant_payload \<Rightarrow> rust_str" where
  "ant_payload_text p =
     str ''tp: '' @ dec_text (unat (calipile_object p)) @ str '' obj / ''
     @ dec_text (unat (calipile_ambient p)) @ str '' amb, accel: '' @ vec3_text (accelerometer p)
     @ str '', gyro: '' @ vec3_text (gyro p) @ str '', steer: '' @ dec_text (unat (steer p))
     @ str '', orient: '' @ dec_text (unat (orientation p)) @ str '', pcb: ''
     @ dec_text (unat (pcb_temp p)) @ [0xb0] @ str ''C, bat: temp '' @ dec_text (unat (battery_temp p))
     @ str '', '' @ dec_text (unat (battery_voltage p)) @ str ''V''"

definition cs_payload_text :: "cs_payload \<Rightarrow> rust_str" where
  "cs_payload_text p =
     str ''temp: '' @ dec_text (unat (temperature p)) @ str '', '' @ dec_text (unat (power_5v p))
     @ str ''v/5v, '' @ dec_text (unat (power_vcc p)) @ str ''/3v, accel: '' @ vec3_text (accel p)
     @ str '', heat: '' @ (if heat_enabled p then str ''on'' else str ''off'') @ str '', fram: ''
     @ dec_text (unat (fram_used p)) @ str ''B''"

definition cs_relay_text :: "text_ops \<Rightarrow> cs_relay \<Rightarrow> rust_str" where
  "cs_relay_text T r =
     header_with_source_text T (header (val (payload r))) @ str '' / cs: ''
     @ cs_payload_text (header r) @ str '' / ant: '' @ ant_payload_text (payload (val (payload r)))"

subsection \<open>Texts of downlink values\<close>

definition value_text :: "text_ops \<Rightarrow> field_value \<Rightarrow> rust_str" where
  "value_text T v =
     (case v of
        FieldString s \<Rightarrow> s
      | FieldU64 n \<Rightarrow> dec_text (unat n)
      | FieldI64 n \<Rightarrow> signed_text (sint n)
      | FieldF64 n \<Rightarrow> text_f64 T n
      | FieldBool b \<Rightarrow> bool_text b)"

text \<open>A \<open>BTreeMap\<close> is iterated in the order of its keys, which for strings is that of their
  characters.\<close>

definition btree_entries :: "(rust_str \<Rightarrow> field_value option) \<Rightarrow> (rust_str \<times> field_value) list" where
  "btree_entries f = map (\<lambda>k. (k, the (f k))) (sorted_list_of_set (dom f))"

lemma btree_entries_exact:
  assumes "finite (dom f)"
  shows "map_of (btree_entries f) = f" and "sorted (map fst (btree_entries f))"
proof -
  show "sorted (map fst (btree_entries f))" by (simp add: btree_entries_def comp_def)
  show "map_of (btree_entries f) = f"
  proof
    fix k
    have "map_of (map (\<lambda>k. (k, the (f k))) ks) k = (if k \<in> set ks then f k else None)"
      if "set ks \<subseteq> dom f" for ks
      using that by (induction ks) auto
    from this [of "sorted_list_of_set (dom f)"] show "map_of (btree_entries f) k = f k"
      using assms by (simp add: btree_entries_def domIff split: if_splits)
  qed
qed

definition span_text :: "text_ops \<Rightarrow> span_data \<Rightarrow> rust_str" where
  "span_text T s = str ''| '' @ span_target s @ str '' ('' @ span_name s @ str '') [''
     @ str (level_name (span_level s)) @ str ''] ''
     @ concat (map (\<lambda>(k, v). k @ str '': '' @ value_text T v @ str '', '') (btree_entries (span_fields s)))"

definition log_text :: "text_ops \<Rightarrow> log \<Rightarrow> rust_str" where
  "log_text T l = concat (map (span_text T) l)"

definition downlink_text :: "text_ops \<Rightarrow> (bytes \<Rightarrow> u8) \<Rightarrow> downlink \<Rightarrow> rust_str option" where
  "downlink_text T crc8 d =
     (case d of
        DownlinkLog s \<Rightarrow> Some (str ''log: '' @ log_text T s)
      | UplinkMirror b \<Rightarrow> Some (str ''raw uplink: '' @ bytes_text T b)
      | UplinkInterpreted m \<Rightarrow> map_option ((@) (str ''uplink: '')) (message_text T crc8 m)
      | SerialUplink m \<Rightarrow> map_option ((@) (str ''serial up: '')) (message_text T crc8 m)
      | SerialDownlink m \<Rightarrow> map_option ((@) (str ''serial down: '')) (message_text T crc8 m)
      | SerialUplinkRaw b \<Rightarrow> Some (str ''raw serial up: '' @ bytes_text T b)
      | SerialDownlinkRaw b \<Rightarrow> Some (str ''raw serial down: '' @ bytes_text T b))"

text \<open>\<open>Debug\<close>, with the derived text of a message's value as a parameter.\<close>

definition downlink_debug ::
  "text_ops \<Rightarrow> (message_val \<Rightarrow> rust_str) \<Rightarrow> (bytes \<Rightarrow> u8) \<Rightarrow> downlink \<Rightarrow> rust_str option" where
  "downlink_debug T debug_val crc8 d =
     (let crc = (\<lambda>m. map_option fst (with_crc_debug T debug_val message_val_ops (StandardCRC crc8) m));
          wrap = (\<lambda>name text. str name @ str ''('' @ text @ str '')'')
      in case d of
           DownlinkLog s \<Rightarrow> Some (wrap ''Log'' (log_text T s))
         | UplinkMirror b \<Rightarrow> Some (wrap ''UplinkMirror'' (bytes_text T b))
         | UplinkInterpreted m \<Rightarrow> map_option (wrap ''Uplink'') (crc m)
         | SerialUplink m \<Rightarrow> map_option (wrap ''SerialUplink'') (crc m)
         | SerialDownlink m \<Rightarrow> map_option (wrap ''SerialDownlink'') (crc m)
         | SerialUplinkRaw b \<Rightarrow> Some (wrap ''SerialUplinkRaw'' (bytes_text T b))
         | SerialDownlinkRaw b \<Rightarrow> Some (wrap ''SerialDownlinkRaw'' (bytes_text T b)))"

subsection \<open>What a text tells\<close>

lemma split_first:
  "c \<notin> set xs \<Longrightarrow> c \<notin> set ys \<Longrightarrow> xs @ c # zs = ys @ c # ws \<longleftrightarrow> xs = ys \<and> zs = ws"
proof (induction xs arbitrary: ys)
  case Nil
  then show ?case by (cases ys) auto
next
  case (Cons x xs)
  then show ?case by (cases ys) auto
qed

lemma name_chars:
  "c \<in> set (str (event_name e)) \<Longrightarrow> 0x41 \<le> c \<and> c \<noteq> 0x5b"
  "c \<in> set (str (destination_name d)) \<Longrightarrow> 0x41 \<le> c"
  by (cases e; auto simp: str_def) (cases d; auto simp: str_def)

lemma type_text_inject [simp]: "type_text s = type_text t \<longleftrightarrow> s = t"
proof
  assume eq: "type_text s = type_text t"
  define flags where "flags = (\<lambda>t :: message_type. (if disposition t = Ack then str ''[Ack]'' else [])
    @ (if invalid t then str ''[Invalid]'' else []) @ [0x5b])"
  have shape: "type_text t @ [0x5b] = str (event_name (event t)) @ 0x5b # tl (flags t)" for t
    by (simp add: type_text_def flags_def str_def)
  have "0x5b \<notin> set (str (event_name e))" for e using name_chars(1) by blast
  then have "str (event_name (event s)) = str (event_name (event t)) \<and> tl (flags s) = tl (flags t)"
    using eq shape [of s] shape [of t] split_first by metis
  then have "event s = event t" and "tl (flags s) = tl (flags t)" by (simp_all only: str_inject event_name_inject)
  then have "event s = event t \<and> disposition s = disposition t \<and> invalid s = invalid t"
    by (cases "disposition s"; cases "disposition t")
      (auto simp: flags_def str_def split: if_splits)
  then show "s = t" by (cases s; cases t) simp
qed simp

lemma type_text_chars: "0x20 \<notin> set (type_text t)"
  using name_chars(1) [of "0x20" "event t"] by (auto simp: type_text_def str_def)

text \<open>Equal but for the fraction of a second of the timestamps.\<close>

definition same_header :: "header \<Rightarrow> header \<Rightarrow> bool" where
  "same_header h h' \<longleftrightarrow> same_second (timestamp h) (timestamp h') \<and> seq h = seq h' \<and> ty h = ty h' \<and> destination h = destination h'"

definition same_source :: "source_info \<Rightarrow> source_info \<Rightarrow> bool" where
  "same_source s s' =
     (case (s, s') of
        (Empty, Empty) \<Rightarrow> True
      | (Info i, Info i') \<Rightarrow> same_header (info_header i) (info_header i')
          \<and> info_checksum i = info_checksum i'
      | _ \<Rightarrow> False)"

lemma message_text_shown:
  assumes "message_coherent crc8 m"
  shows "message_text T crc8 m =
    Some (header_text T (header (header (val m))) @ str '' / '' @ source_text T (payload (header (val m)))
      @ str '' / payload: '' @ bytes_text T (payload (val m)) @ str '' (crc: 0x''
      @ hex_encode (text_hex T) [crc8 (message_val_enc (val m))] @ str '')'')"
  using message_checksum [OF assms]
  by (cases "with_crc_checksum message_val_ops (StandardCRC crc8) m")
    (simp add: message_text_def with_crc_text_def crc_shown_def packet_text_def
      header_with_source_text_def)

lemma message_text_new:
  "message_coherent crc8 m \<Longrightarrow> message_text T crc8 (with_crc_new (val m)) = message_text T crc8 m"
  by (simp add: message_text_shown)

context text_laws
begin

lemma header_text_split:
  "header_text T h @ 0x20 # xs = header_text T h' @ 0x20 # xs' \<longleftrightarrow> same_header h h' \<and> xs = xs'"
proof -
  have d: "0x5d \<notin> set (dec_text n)" for n using dec_text_digits by fastforce
  have n: "0x20 \<notin> set (str (destination_name d))" for d using name_chars(2) by fastforce
  have shape: "header_text T h @ 0x20 # xs = text_short_time T (datetime_of_epoch (timestamp h))
      @ str '' [seq '' @ (dec_text (unat (seq h)) @ 0x5d # str '': '' @ (type_text (ty h)
      @ 0x20 # str ''-> '' @ (str (destination_name (destination h)) @ 0x20 # xs)))" for h xs
    by (simp add: header_text_def str_def)
  show ?thesis
    unfolding shape
    by (auto simp: append_eq_append_conv length_short_time short_time_second split_first d n type_text_chars same_header_def
        dest: word_unat_eq_iff [THEN iffD2])
qed

lemma source_text_split:
  "source_text T s @ 0x20 # xs = source_text T s' @ 0x20 # xs' \<longleftrightarrow> same_source s s' \<and> xs = xs'"
proof -
  have h: "0x3e \<notin> set (hex_number n)" for n using hex_number_chars [of "0x3e" n] by (auto simp: is_hex_digit_def)
  have shape: "source_text T (Info i) @ 0x20 # xs = str ''Source <'' @ (header_text T (info_header i)
      @ 0x20 # str ''crc '' @ (hex_number (unat (info_checksum i)) @ 0x3e # 0x20 # xs))" for i xs
    by (simp add: source_text_def str_def)
  have none: "source_text T Empty @ 0x20 # xs = str ''no source'' @ 0x20 # xs" for xs
    by (simp add: source_text_def)
  have differ: "str ''no source'' @ ys \<noteq> str ''Source <'' @ zs"
    "str ''Source <'' @ zs \<noteq> str ''no source'' @ ys" for ys zs
    by (simp_all add: str_def)
  show ?thesis
  proof (cases s; cases s')
    fix i i' assume "s = Info i" "s' = Info i'"
    then show ?thesis
      by (auto simp: shape header_text_split split_first h same_source_def
          dest: word_unat_eq_iff [THEN iffD2] simp del: append_assoc append_Cons)
  qed (simp_all add: shape none differ same_source_def)
qed

lemma bytes_text_inject: "bytes_text T b = bytes_text T b' \<longleftrightarrow> b = b'"
proof -
  have "hex_encode (text_hex T) b = hex_encode (text_hex T) b' \<Longrightarrow> b = b'"
    using hex_laws.decode_encode [OF hex] by (metis option.inject)
  then show ?thesis by (auto simp: bytes_text_def str_def)
qed

lemma hex_byte_inject:
  "length (hex_encode (text_hex T) [x]) = 2"
  "hex_encode (text_hex T) [x] = hex_encode (text_hex T) [y] \<longleftrightarrow> x = y"
  using hex_laws.decode_encode [OF hex] hex_laws.length_encode [OF hex, of "[x]"]
  by (auto simp: dest: arg_cong [where f = "hex_decode (text_hex T)"])

lemma message_text_same:
  assumes "message_coherent crc8 m" "message_coherent crc8 m'"
  shows "message_text T crc8 m = message_text T crc8 m' \<longleftrightarrow>
    same_header (header (header (val m))) (header (header (val m')))
    \<and> same_source (payload (header (val m))) (payload (header (val m')))
    \<and> payload (val m) = payload (val m')
    \<and> crc8 (message_val_enc (val m)) = crc8 (message_val_enc (val m'))"
proof -
  have shape: "message_text T crc8 m = Some (header_text T (header (header (val m)))
      @ 0x20 # str ''/ '' @ (source_text T (payload (header (val m)))
      @ 0x20 # str ''/ payload: '' @ (bytes_text T (payload (val m)) @ (str '' (crc: 0x''
      @ hex_encode (text_hex T) [crc8 (message_val_enc (val m))] @ str '')''))))"
    if "message_coherent crc8 m" for m
    using message_text_shown [OF that] by (simp add: str_def)
  show ?thesis
    unfolding shape [OF assms(1)] shape [OF assms(2)] option.inject header_text_split
      same_append_eq source_text_split
    using append_eq_append_conv bytes_text_inject
    by (auto simp: hex_byte_inject)
qed

end

text \<open>C33: the text of a message tells the whole message but the milliseconds.  The text of a
  coherent message is always produced; two such texts are equal exactly if the messages agree in
  sequence number, type, destination, source and payload, their timestamps, and those of their
  sources, lie in the same second, and their checksums, which cover the milliseconds as well, are
  equal.\<close>

theorem message_text_exact:
  assumes "text_laws T" and "message_coherent crc8 m" and "message_coherent crc8 m'"
  shows "\<exists>s. message_text T crc8 m = Some s \<and>
    (message_text T crc8 m' = Some s \<longleftrightarrow>
      same_header (message_header m) (message_header m')
      \<and> same_source (message_source m) (message_source m')
      \<and> message_payload m = message_payload m'
      \<and> crc8 (message_val_enc (val m)) = crc8 (message_val_enc (val m')))"
proof -
  obtain s where "message_text T crc8 m = Some s" using message_text_shown [OF assms(2)] by blast
  moreover from this have "message_text T crc8 m' = Some s \<longleftrightarrow> message_text T crc8 m = message_text T crc8 m'"
    by auto
  ultimately show ?thesis using text_laws.message_text_same [OF assms] by blast
qed

text \<open>The exclusive or of all bytes as a checksum: of three messages made in the same second, two
  have the same text.\<close>

theorem message_text_exact_witness:
  "(let crc8 = foldl (XOR) 0; text = (\<lambda>t. message_text text_reference crc8
       (message_command \<lparr> env_time = MissionEpoch t, env_seq = 1 \<rparr> Ant AntPing))
    in text 1000 = text 1263 \<and> text 1000 \<noteq> text 1001 \<and> text 1000 \<noteq> text 2000)"
proof -
  let ?crc8 = "foldl (XOR) 0 :: bytes \<Rightarrow> u8"
  let ?m = "\<lambda>t. message_command \<lparr> env_time = MissionEpoch t, env_seq = 1 \<rparr> Ant AntPing"
  have coherent: "message_coherent ?crc8 (?m t)" for t by (simp add: message_command_def)
  have same: "message_text text_reference ?crc8 (?m t) = message_text text_reference ?crc8 (?m u)
      \<longleftrightarrow> same_second (MissionEpoch t) (MissionEpoch u)
        \<and> ?crc8 (message_val_enc (val (?m t))) = ?crc8 (message_val_enc (val (?m u)))" for t u
    using message_text_exact [OF text_ref.text_laws_axioms coherent coherent, of t u]
    by (auto simp: message_command_def header_command_def same_header_def same_source_def)
  have crc: "?crc8 (message_val_enc (val (?m 1000))) = ?crc8 (message_val_enc (val (?m 1263)))"
    "?crc8 (message_val_enc (val (?m 1000))) \<noteq> ?crc8 (message_val_enc (val (?m 1001)))"
    by code_simp+
  show ?thesis unfolding Let_def same using crc by (simp add: same_second_def)
qed

end
