(* ===== verification/Trace_Init.thy ===== *)
theory Trace_Init
  imports Trace_Layer Texts "HOL-Library.Sublist"
begin

text \<open>
  How the relay sets up its log: the build constants (\<open>util/src/build.rs\<close>), the line printed
  before the log exists (\<open>util/src/macros.rs\<close>), and the tracing subscriber with its layers and
  filters (\<open>src/trace/mod.rs\<close>).  The filters (\<open>EnvFilter\<close> of the crate \<open>tracing_subscriber\<close>) are a
  parameter; the locale \<open>env_filter_laws\<close> names the documented meaning of the directives that the
  program uses, which a direct implementation satisfies.
\<close>

subsection \<open>Build constants\<close>

text \<open>The environment variables at build time; the build script sets them if it can.\<close>

record build_env =
  vergen_build_semver :: "rust_str option"
  vergen_git_sha :: "rust_str option"
  vergen_build_timestamp :: "rust_str option"
  vergen_rustc_commit_hash :: "rust_str option"

definition env_or_none :: "rust_str option \<Rightarrow> rust_str" where
  "env_or_none v = (case v of None \<Rightarrow> str ''<none>'' | Some s \<Rightarrow> s)"

definition PACKAGE :: rust_str where
  "PACKAGE = str ''antrelay''"

definition VERSION :: "build_env \<Rightarrow> rust_str" where
  "VERSION E = env_or_none (vergen_build_semver E)"

definition COMMIT_HASH :: "build_env \<Rightarrow> rust_str" where
  "COMMIT_HASH E = env_or_none (vergen_git_sha E)"

definition BUILD_TIMESTAMP :: "build_env \<Rightarrow> rust_str" where
  "BUILD_TIMESTAMP E = env_or_none (vergen_build_timestamp E)"

definition RUSTC_COMMIT_HASH :: "build_env \<Rightarrow> rust_str" where
  "RUSTC_COMMIT_HASH E = env_or_none (vergen_rustc_commit_hash E)"

text \<open>The slices of constants; where they panic the program does not compile (\<open>None\<close>).\<close>

definition COMMIT_HASH_SHORT :: "build_env \<Rightarrow> rust_str option" where
  "COMMIT_HASH_SHORT E = str_slice_to (COMMIT_HASH E) 6"

definition RUSTC_COMMIT_HASH_SHORT :: "build_env \<Rightarrow> rust_str option" where
  "RUSTC_COMMIT_HASH_SHORT E = str_slice_to (RUSTC_COMMIT_HASH E) 6"

text \<open>The program compiles when the hashes are unset or at least six ASCII characters long.\<close>

lemma str_slice_ascii:
  "list_all (\<lambda>c. c < 0x80) (take n s) \<Longrightarrow> n \<le> length s \<Longrightarrow> str_slice_to s n = Some (take n s)"
proof (induction s n rule: str_slice_to.induct)
  case (3 c cs n)
  then show ?case by (simp add: utf8_len_def)
qed simp_all

lemma hash_short:
  assumes "\<And>s. v = Some s \<Longrightarrow> 6 \<le> length s \<and> list_all (\<lambda>c. c < 0x80) s"
  shows "str_slice_to (env_or_none v) 6 = Some (take 6 (env_or_none v))"
proof (rule str_slice_ascii)
  show "6 \<le> length (env_or_none v)" using assms by (auto simp: env_or_none_def split: option.split)
  have "list_all (\<lambda>c. c < 0x80) (env_or_none v)"
    using assms by (auto simp: env_or_none_def str_def split: option.split)
  then show "list_all (\<lambda>c. c < 0x80) (take 6 (env_or_none v))"
    by (meson in_set_takeD list_all_iff)
qed

text \<open>\<open>bootstrap!\<close>: a line on the standard error output; \<open>x\<close> is the formatted text.\<close>

definition bootstrap :: "rust_str \<Rightarrow> rust_str" where
  "bootstrap x = str ''[bootstrap] '' @ x @ [10]"

subsection \<open>The filters\<close>

record 'f env_filter_ops =
  filter_from_str :: "rust_str \<Rightarrow> 'f option"
  filter_enabled :: "'f \<Rightarrow> metadata \<Rightarrow> bool"
  filter_text :: "'f \<Rightarrow> rust_str"

definition console_default :: "bool \<Rightarrow> rust_str" where
  "console_default debug_assertions =
     (if \<not> debug_assertions
      then str (''warn,antrelay=info,relay=info,antrelay-net=info,antrelay-runtime=info,''
        @ ''antrelay-codec=info,antrelay-message=info,antrelay-util=info'')
      else str (''info,antrelay=debug,relay=debug,antrelay-net=debug,antrelay-runtime=debug,''
        @ ''antrelay-codec=debug,antrelay-message=debug,antrelay-util=debug''))"

text \<open>\<open>try_from_default_env\<close>: an error if the variable \<open>RUST_LOG\<close> is unset or not a filter.\<close>

definition console_filter ::
  "'f env_filter_ops \<Rightarrow> bool \<Rightarrow> rust_str option \<Rightarrow> 'f option" where
  "console_filter F debug_assertions rust_log =
     (case Option.bind rust_log (filter_from_str F) of
        Some f \<Rightarrow> Some f
      | None \<Rightarrow> filter_from_str F (console_default debug_assertions))"

definition downlink_filter :: "'f env_filter_ops \<Rightarrow> 'f option" where
  "downlink_filter F = filter_from_str F (str ''info'')"

subsection \<open>The subscriber\<close>

text \<open>The settings of the layer for the standard error output; \<open>None\<close> is the library's default.\<close>

record 'f stderr_layer =
  st_target :: bool
  st_pretty :: bool
  st_line_number :: "bool option"
  st_timer :: "bool option"
  st_span_events :: "bool option"
  st_filter :: 'f

datatype 'f trace_layer =
    ConsoleSubscriber
  | DownlinkLayer 'f
  | StderrLayer "'f stderr_layer"

text \<open>\<open>init\<close>: what is printed, and the layers on the registry from the inside; \<open>None\<close> is a panic.\<close>

definition trace_init ::
  "'f env_filter_ops \<Rightarrow> bool \<Rightarrow> bool \<Rightarrow> rust_str option \<Rightarrow> bool
     \<Rightarrow> rust_str list \<times> 'f trace_layer list option" where
  "trace_init F debug_assertions tokio_unstable rust_log pretty =
     (case console_filter F debug_assertions rust_log of
        None \<Rightarrow> ([], None)
      | Some console \<Rightarrow>
          ([bootstrap (str ''enabling tracing with filter directive: '' @ filter_text F console)],
           map_option (\<lambda>f.
             let s = (if tokio_unstable \<and> debug_assertions then [ConsoleSubscriber] else []);
                 layer = \<lparr> st_target = False, st_pretty = False, st_line_number = None,
                   st_timer = None, st_span_events = None, st_filter = console \<rparr>
             in s @ [DownlinkLayer f]
                @ [StderrLayer
                    (if pretty then layer\<lparr> st_pretty := True \<rparr>
                     else layer\<lparr> st_line_number := Some False, st_timer := Some False,
                       st_span_events := Some False \<rparr>)])
             (downlink_filter F)))"

text \<open>
  An event at the downlink layer.  A filtered layer sees the spans that its filter enables, whose
  fields it stores when they are created, and the events that its filter enables; \<open>scope\<close> are
  the attributes and the metadata of the enclosing spans.
\<close>

type_synonym attributes = "(rust_str \<times> recorded) list"

fun enter_spans ::
  "(metadata \<Rightarrow> bool) \<Rightarrow> (attributes \<times> metadata) list \<Rightarrow> (field_map \<times> metadata) list option" where
  "enter_spans enabled [] = Some []"
| "enter_spans enabled ((attrs, meta) # rest) =
     (if enabled meta
      then Option.bind (on_new_span attrs) (\<lambda>fds. map_option ((#) (fds, meta)) (enter_spans enabled rest))
      else enter_spans enabled rest)"

definition layer_event ::
  "(metadata \<Rightarrow> bool) \<Rightarrow> bool \<Rightarrow> (attributes \<times> metadata) list \<Rightarrow> attributes \<Rightarrow> metadata
     \<Rightarrow> broker_msg list option" where
  "layer_event enabled active scope evs meta =
     Option.bind (enter_spans enabled scope) (\<lambda>spans.
       if enabled meta then on_event active spans evs meta else Some [])"

subsection \<open>What the directives mean\<close>

record directive =
  dir_target :: rust_str
  dir_level :: tracing_level

text \<open>A directive without target, which is written as the level alone, has the empty one.\<close>

fun level_number :: "tracing_level \<Rightarrow> nat" where
  "level_number TracingError = 1"
| "level_number TracingWarn = 2"
| "level_number TracingInfo = 3"
| "level_number TracingDebug = 4"
| "level_number TracingTrace = 5"

fun level_text :: "tracing_level \<Rightarrow> rust_str" where
  "level_text TracingError = str ''error''"
| "level_text TracingWarn = str ''warn''"
| "level_text TracingInfo = str ''info''"
| "level_text TracingDebug = str ''debug''"
| "level_text TracingTrace = str ''trace''"

definition directive_text :: "directive \<Rightarrow> rust_str" where
  "directive_text d =
     (if dir_target d = [] then level_text (dir_level d)
      else dir_target d @ str ''='' @ level_text (dir_level d))"

fun directives_text :: "directive list \<Rightarrow> rust_str" where
  "directives_text [] = []"
| "directives_text [d] = directive_text d"
| "directives_text (d # ds) = directive_text d @ str '','' @ directives_text ds"

text \<open>The letters, digits and signs of a target.\<close>

definition target_char :: "nat \<Rightarrow> bool" where
  "target_char c \<longleftrightarrow> 0x30 \<le> c \<and> c \<le> 0x39 \<or> 0x41 \<le> c \<and> c \<le> 0x5a \<or> 0x61 \<le> c \<and> c \<le> 0x7a
     \<or> c \<in> {0x2d, 0x3a, 0x5f}"

definition plain_directive :: "directive \<Rightarrow> bool" where
  "plain_directive d \<longleftrightarrow> list_all target_char (dir_target d)"

text \<open>The directive that decides is the one with the longest target that the event's target
  begins with, and the later one of two with the same target.\<close>

fun directive_for :: "directive list \<Rightarrow> metadata \<Rightarrow> directive option" where
  "directive_for [] md = None"
| "directive_for (d # ds) md =
     (if \<not> prefix (dir_target d) (meta_target md) then directive_for ds md
      else case directive_for ds md of
        None \<Rightarrow> Some d
      | Some e \<Rightarrow> Some (if length (dir_target d) \<le> length (dir_target e) then e else d))"

definition directives_enabled :: "directive list \<Rightarrow> metadata \<Rightarrow> bool" where
  "directives_enabled ds md =
     (case directive_for ds md of
        None \<Rightarrow> False
      | Some d \<Rightarrow> level_number (meta_level md) \<le> level_number (dir_level d))"

locale env_filter_laws =
  fixes F :: "'f env_filter_ops"
  assumes from_directives: "ds \<noteq> [] \<Longrightarrow> list_all plain_directive ds \<Longrightarrow>
      \<exists>f. filter_from_str F (directives_text ds) = Some f \<and> filter_enabled F f = directives_enabled ds"

lemma directive_for_None:
  "directive_for ds md = None \<longleftrightarrow> (\<forall>d \<in> set ds. \<not> prefix (dir_target d) (meta_target md))"
  by (induction ds) (auto split: option.splits)

lemma directive_for_Some:
  "directive_for ds md = Some d \<Longrightarrow> d \<in> set ds \<and> prefix (dir_target d) (meta_target md)
    \<and> (\<forall>e \<in> set ds. prefix (dir_target e) (meta_target md) \<longrightarrow> length (dir_target e) \<le> length (dir_target d))"
proof (induction ds arbitrary: d)
  case (Cons a ds)
  show ?case
  proof (cases "directive_for ds md")
    case None
    then show ?thesis using Cons.prems directive_for_None [of ds md] by (auto split: if_splits)
  next
    case (Some e)
    then show ?thesis using Cons.prems Cons.IH [OF Some] by (auto split: if_splits)
  qed
qed simp

text \<open>If all directives with a target have one level, that level decides where one of the targets
  fits, and the level of the directive without target elsewhere.\<close>

lemma two_levels:
  assumes "\<And>d. d \<in> set ds \<Longrightarrow> dir_target d \<noteq> [] \<and> dir_level d = special"
  shows "directives_enabled (\<lparr> dir_target = [], dir_level = general \<rparr> # ds) md \<longleftrightarrow>
    level_number (meta_level md) \<le> level_number
      (if \<exists>d \<in> set ds. prefix (dir_target d) (meta_target md) then special else general)"
proof (cases "directive_for ds md")
  case None
  then show ?thesis using directive_for_None [of ds md] by (simp add: directives_enabled_def)
next
  case (Some d)
  note d = directive_for_Some [OF Some]
  then show ?thesis using assms [of d] Some by (auto simp: directives_enabled_def)
qed

definition console_targets :: "string list" where
  "console_targets = [''antrelay'', ''relay'', ''antrelay-net'', ''antrelay-runtime'', ''antrelay-codec'',
     ''antrelay-message'', ''antrelay-util'']"

definition console_directives :: "bool \<Rightarrow> directive list" where
  "console_directives debug_assertions =
     \<lparr> dir_target = [], dir_level = (if debug_assertions then TracingInfo else TracingWarn) \<rparr>
     # map (\<lambda>t. \<lparr> dir_target = str t, dir_level = (if debug_assertions then TracingDebug else TracingInfo) \<rparr>)
         console_targets"

lemma console_default_directives:
  "console_default d = directives_text (console_directives d)" "list_all plain_directive (console_directives d)"
  "console_directives d \<noteq> []"
  by (cases d; simp add: console_default_def console_directives_def console_targets_def directive_text_def str_def
      plain_directive_def target_char_def)+

lemma console_directives_enabled:
  "directives_enabled (console_directives d) md \<longleftrightarrow>
    level_number (meta_level md) \<le>
      (if prefix (str ''antrelay'') (meta_target md) \<or> prefix (str ''relay'') (meta_target md)
       then (if d then 4 else 3) else (if d then 3 else 2))"
proof -
  have longer: "prefix (str (''antrelay'' @ t)) x \<Longrightarrow> prefix (str ''antrelay'') x" for t x
    unfolding str_def map_append by (rule append_prefixD)
  have l: "prefix (str (''antrelay'' @ t)) (meta_target md) \<or> prefix (str ''antrelay'') (meta_target md)
      \<longleftrightarrow> prefix (str ''antrelay'') (meta_target md)" for t
    using longer by blast
  note l = l [of "''-net''"] l [of "''-runtime''"] l [of "''-codec''"] l [of "''-message''"] l [of "''-util''"]
  have targets: "(\<exists>t \<in> set console_targets. prefix (str t) (meta_target md))
    \<longleftrightarrow> prefix (str ''antrelay'') (meta_target md) \<or> prefix (str ''relay'') (meta_target md)"
    unfolding console_targets_def list.set bex_simps using l [unfolded append_Cons append_Nil] by blast
  have "[] \<notin> set console_targets" by (simp add: console_targets_def)
  then have "str t \<noteq> []" if "t \<in> set console_targets" for t
    using that by (auto simp: str_def)
  then show ?thesis
    unfolding console_directives_def by (subst two_levels) (auto simp: targets [symmetric])
qed

context env_filter_laws
begin

lemma downlink_filter_exact:
  "\<exists>f. downlink_filter F = Some f \<and> (\<forall>md. filter_enabled F f md \<longleftrightarrow> level_number (meta_level md) \<le> 3)"
proof -
  let ?ds = "[\<lparr> dir_target = [], dir_level = TracingInfo \<rparr>]"
  have "directives_text ?ds = str ''info''" "list_all plain_directive ?ds"
    by (simp_all add: directive_text_def plain_directive_def)
  then obtain f where "filter_from_str F (str ''info'') = Some f" "filter_enabled F f = directives_enabled ?ds"
    using from_directives [of ?ds] by auto
  then show ?thesis by (simp add: downlink_filter_def directives_enabled_def)
qed

lemma console_default_exact:
  "\<exists>f. filter_from_str F (console_default d) = Some f
    \<and> filter_enabled F f = directives_enabled (console_directives d)"
  using from_directives [OF console_default_directives(3,2)] by (simp add: console_default_directives(1))

end

text \<open>A direct implementation.\<close>

fun split_chars :: "nat \<Rightarrow> rust_str \<Rightarrow> rust_str list" where
  "split_chars c [] = [[]]"
| "split_chars c (x # xs) =
     (if x = c then [] # split_chars c xs
      else case split_chars c xs of [] \<Rightarrow> [[x]] | w # ws \<Rightarrow> (x # w) # ws)"

definition level_of_text :: "rust_str \<Rightarrow> tracing_level option" where
  "level_of_text s = List.find (\<lambda>l. level_text l = s)
     [TracingError, TracingWarn, TracingInfo, TracingDebug, TracingTrace]"

definition directive_of_text :: "rust_str \<Rightarrow> directive option" where
  "directive_of_text s =
     (case split_chars 0x3d s of
        [l] \<Rightarrow> map_option (\<lambda>v. \<lparr> dir_target = [], dir_level = v \<rparr>) (level_of_text l)
      | [t, l] \<Rightarrow> map_option (\<lambda>v. \<lparr> dir_target = t, dir_level = v \<rparr>) (level_of_text l)
      | _ \<Rightarrow> None)"

definition reference_filter :: "directive list env_filter_ops" where
  "reference_filter =
     \<lparr> filter_from_str = (\<lambda>s. those (map directive_of_text (split_chars 0x2c s))),
       filter_enabled = directives_enabled, filter_text = directives_text \<rparr>"

lemma split_chars_none: "c \<notin> set a \<Longrightarrow> split_chars c a = [a]"
  by (induction a) auto

lemma split_chars_at: "c \<notin> set a \<Longrightarrow> split_chars c (a @ c # b) = a # split_chars c b"
  by (induction a) auto

lemma level_text_chars: "c \<in> set (level_text l) \<Longrightarrow> target_char c"
  by (cases l) (auto simp: str_def target_char_def)

lemma level_of_text: "level_of_text (level_text l) = Some l"
  by (cases l; simp add: level_of_text_def str_def)

lemma directive_of_directive_text:
  assumes "plain_directive d"
  shows "directive_of_text (directive_text d) = Some d"
proof -
  have t: "0x3d \<notin> set (dir_target d)" using assms by (auto simp: plain_directive_def list_all_iff target_char_def)
  have "0x3d \<notin> set (level_text (dir_level d))" using level_text_chars [of "0x3d"] by (auto simp: target_char_def)
  note l = split_chars_none [OF this]
  have eq: "str ''='' = [0x3d]" by (simp add: str_def)
  show ?thesis
    by (cases "dir_target d = []")
      (simp_all add: directive_of_text_def directive_text_def l level_of_text split_chars_at [OF t] eq)
qed

lemma directive_text_chars: "plain_directive d \<Longrightarrow> 0x2c \<notin> set (directive_text d)"
  using level_text_chars [of "0x2c" "dir_level d"]
  by (auto simp: directive_text_def plain_directive_def list_all_iff target_char_def str_def)

interpretation filter_ref: env_filter_laws reference_filter
proof
  fix ds :: "directive list"
  assume "ds \<noteq> []" "list_all plain_directive ds"
  then have "those (map directive_of_text (split_chars 0x2c (directives_text ds))) = Some ds"
  proof (induction ds rule: directives_text.induct)
    case (2 d)
    then show ?case
      using split_chars_none [OF directive_text_chars, of d] by (simp add: directive_of_directive_text)
  next
    case (3 d d' ds)
    have comma: "str '','' = [0x2c]" by (simp add: str_def)
    have "plain_directive d" using 3 by simp
    then show ?case
      using 3 split_chars_at [OF directive_text_chars, of d] by (simp add: directive_of_directive_text comma)
  qed simp
  then show "\<exists>f. filter_from_str reference_filter (directives_text ds) = Some f
      \<and> filter_enabled reference_filter f = directives_enabled ds"
    by (simp add: reference_filter_def)
qed

subsection \<open>What the set-up gives\<close>

text \<open>C39: the log is set up whatever the environment holds, and the ground gets every event that is
  at least informational.  The set-up prints one line and never panics; the downlink layer is
  there once and its filter enables exactly the levels up to \<open>INFO\<close>, whatever \<open>RUST_LOG\<close> says;
  the standard error output follows \<open>RUST_LOG\<close> if that is a filter, and otherwise shows the
  program's own events, whose targets begin with the crates' common name, one level further
  than all others.\<close>

theorem trace_init_exact:
  assumes "env_filter_laws F"
  shows "\<exists>line layers f st. trace_init F debug unstable rust_log pretty = ([line], Some layers)
    \<and> filter (\<lambda>l. \<exists>g. l = DownlinkLayer g) layers = [DownlinkLayer f] \<and> last layers = StderrLayer st
    \<and> (\<forall>md. filter_enabled F f md \<longleftrightarrow> level_number (meta_level md) \<le> 3)
    \<and> (case Option.bind rust_log (filter_from_str F) of
         Some g \<Rightarrow> st_filter st = g
       | None \<Rightarrow> (\<forall>md. filter_enabled F (st_filter st) md \<longleftrightarrow> level_number (meta_level md) \<le>
           (if prefix (str ''antrelay'') (meta_target md) \<or> prefix (str ''relay'') (meta_target md)
            then (if debug then 4 else 3) else (if debug then 3 else 2))))"
proof -
  obtain f where f: "downlink_filter F = Some f"
    "\<And>md. filter_enabled F f md \<longleftrightarrow> level_number (meta_level md) \<le> 3"
    using env_filter_laws.downlink_filter_exact [OF assms] by blast
  obtain c where c: "filter_from_str F (console_default debug) = Some c"
    "filter_enabled F c = directives_enabled (console_directives debug)"
    using env_filter_laws.console_default_exact [OF assms] by blast
  show ?thesis
  proof (cases "Option.bind rust_log (filter_from_str F)")
    case None
    then have "console_filter F debug rust_log = Some c" using c(1) by (simp add: console_filter_def)
    then show ?thesis using f None
      by (auto simp: trace_init_def Let_def c(2) console_directives_enabled)
  next
    case (Some g)
    then have "console_filter F debug rust_log = Some g" by (simp add: console_filter_def)
    then show ?thesis using f Some by (auto simp: trace_init_def Let_def)
  qed
qed

theorem trace_init_exact_witness:
  "\<exists>line layers f. trace_init reference_filter True False (Some (str ''info,relay=oops'')) True
      = ([line], Some layers)
    \<and> filter (\<lambda>l. \<exists>g. l = DownlinkLayer g) layers = [DownlinkLayer f]
    \<and> (\<forall>md. filter_enabled reference_filter f md \<longleftrightarrow> level_number (meta_level md) \<le> 3)"
  using trace_init_exact [OF filter_ref.env_filter_laws_axioms] by blast

end
