(* ===== verification/Log_Texts.thy ===== *)
theory Log_Texts
  imports Trace_Init
begin

text \<open>
  Which texts the tracing layer can take.  The truncation of \<open>src/trace/downlink.rs\<close> panics on a
  text whose last kept character is not ASCII; a text whose first 64 characters are ASCII is
  safe.  The texts of messages and of telemetry are shown to be safe, that of an ant payload
  although it holds a degree sign, and what the layer records is ASCII again.
\<close>

subsection \<open>ASCII\<close>

definition ascii :: "rust_str \<Rightarrow> bool" where
  "ascii s \<longleftrightarrow> list_all (\<lambda>c. c < 0x80) s"

text \<open>A text that can be logged: what is kept of it is ASCII.\<close>

definition loggable :: "rust_str \<Rightarrow> bool" where
  "loggable s \<longleftrightarrow> ascii (take MAX_STR s)"

lemma ascii_simps [simp]:
  "ascii []" "ascii (c # s) \<longleftrightarrow> c < 0x80 \<and> ascii s" "ascii (s @ t) \<longleftrightarrow> ascii s \<and> ascii t"
  by (simp_all add: ascii_def)

lemma ascii_str [simp]: "ascii (str [])" "ascii (str (c # s)) \<longleftrightarrow> of_char c < (0x80 :: nat) \<and> ascii (str s)"
  by (simp_all add: ascii_def str_def)

lemma ascii_concat [simp]: "ascii (concat ss) \<longleftrightarrow> (\<forall>s \<in> set ss. ascii s)"
  by (induction ss) auto

lemma ascii_take: "ascii s \<Longrightarrow> ascii (take n s)"
  by (auto simp: ascii_def list_all_iff dest: in_set_takeD)

lemma ascii_loggable [simp]: "ascii s \<Longrightarrow> loggable s"
  by (simp add: loggable_def ascii_take)

lemma loggable_prefix: "MAX_STR \<le> length s \<Longrightarrow> ascii s \<Longrightarrow> loggable (s @ t)"
  by (simp add: loggable_def ascii_take)

lemma truncate_loggable:
  assumes "loggable s"
  shows "Trace_Layer.truncate s = Some (take MAX_STR s)"
proof (cases "s = []")
  case False
  let ?k = "min 64 (length s) - 1"
  have k: "?k < length (take 64 s)" using False by (cases s) (auto simp: min_def)
  then have "take 64 s ! ?k < 0x80"
    using assms unfolding loggable_def ascii_def MAX_STR_def list_all_length by blast
  then show ?thesis using False k by (simp add: truncate_eq MAX_STR_def)
qed (simp add: truncate_eq)

lemma truncate_ascii: "ascii s \<Longrightarrow> Trace_Layer.truncate s = Some (take MAX_STR s)"
  by (simp add: truncate_loggable)

subsection \<open>Texts\<close>

lemma ascii_dec_text [simp]: "ascii (dec_text n)"
  using dec_text_digits by (fastforce simp: ascii_def list_all_iff)

lemma hex_digit_ascii: "is_hex_digit c \<Longrightarrow> c < 0x80"
  by (auto simp: is_hex_digit_def)

lemma ascii_hex_number [simp]: "ascii (hex_number n)"
  using hex_number_chars hex_digit_ascii by (fastforce simp: ascii_def list_all_iff)

lemma ascii_names [simp]:
  "ascii (str (event_name e))" "ascii (str (destination_name d))" "ascii (str (level_name l))"
  "ascii (bool_text b)" "ascii (signed_text i)"
proof -
  show "ascii (str (event_name e))" by (cases e; simp)
  show "ascii (str (destination_name d))" by (cases d; simp)
  show "ascii (str (level_name l))" by (cases l; simp)
qed (simp_all add: bool_text_def signed_text_def)

lemma ascii_type_text [simp]: "ascii (type_text t)"
  by (simp add: type_text_def)

lemma ascii_telemetry [simp]: "ascii (vec3_text v)" "ascii (cs_payload_text c)"
  by (simp_all add: vec3_text_def cs_payload_text_def)

text \<open>The degree sign of the ant payload's text comes behind 76 characters at least.\<close>

lemma length_dec_text: "1 \<le> length (dec_text n)"
  by (cases "dec_text n") (simp_all add: dec_text.simps [of n] split: if_splits)

lemma length_vec3_text: "7 \<le> length (vec3_text v)"
  using length_dec_text [of "unat (vec_x v)"] length_dec_text [of "unat (vec_y v)"]
    length_dec_text [of "unat (vec_z v)"]
  unfolding vec3_text_def length_append length_str by simp

lemma loggable_ant_payload [simp]: "loggable (ant_payload_text p)"
proof -
  define front where "front = str ''tp: '' @ dec_text (unat (calipile_object p)) @ str '' obj / ''
     @ dec_text (unat (calipile_ambient p)) @ str '' amb, accel: '' @ vec3_text (accelerometer p)
     @ str '', gyro: '' @ vec3_text (gyro p) @ str '', steer: '' @ dec_text (unat (steer p))
     @ str '', orient: '' @ dec_text (unat (orientation p)) @ str '', pcb: ''"
  have "MAX_STR \<le> length front"
    using length_vec3_text [of "accelerometer p"] length_vec3_text [of "gyro p"]
    by (simp add: front_def MAX_STR_def)
  moreover have "ascii front" by (simp add: front_def)
  moreover have "\<exists>rest. ant_payload_text p = front @ rest"
    by (simp add: ant_payload_text_def front_def)
  ultimately show ?thesis using loggable_prefix by metis
qed

text \<open>The texts of the libraries: hexadecimal digits, and times and numbers in ASCII.\<close>

locale text_ascii = text_laws +
  assumes ascii_short_time [simp]: "ascii (text_short_time T t)"
    and ascii_time [simp]: "ascii (text_time T t)"
    and ascii_f64 [simp]: "ascii (text_f64 T n)"
begin

lemma ascii_hex [simp]: "ascii (hex_encode (text_hex T) bs)"
  using hex_laws.encode_digits [OF hex] hex_digit_ascii by (auto simp: ascii_def list_all_iff)

lemma ascii_headers [simp]:
  "ascii (header_text T h)" "ascii (source_text T s)" "ascii (header_with_source_text T hs)"
  by (auto simp: header_with_source_text_def source_text_def header_text_def
      split: source_info.split)

lemma ascii_bytes [simp]: "ascii (bytes_text T b)" "ascii (unique_id_text T u)"
  by (simp_all add: bytes_text_def unique_id_text_def)

lemma message_text_ascii:
  assumes "message_coherent crc8 m"
  shows "\<exists>s. message_text T crc8 m = Some s \<and> ascii s"
  using message_text_shown [OF assms, of T] by simp

end

lemma ascii_two_digits [simp]: "ascii (two_digits n)"
proof -
  have "n div 10 mod 10 < 10" "n mod 10 < 10" by simp_all
  then have "n div 10 mod 10 < 80" "n mod 10 < 80" by linarith+
  then show ?thesis by (simp add: two_digits_def)
qed

interpretation text_ref_ascii: text_ascii text_reference
proof
  have "ascii (mission_time_text t)" for t by (simp add: mission_time_text_def Let_def)
  then show "ascii (text_short_time text_reference t)" "ascii (text_time text_reference t)" for t
    by (simp_all add: text_reference_def)
  show "ascii (text_f64 text_reference n)" for n by (simp add: text_reference_def)
qed

subsection \<open>What the layer records\<close>

fun recorded_ok :: "recorded \<Rightarrow> bool" where
  "recorded_ok (RecordStr s) = loggable s"
| "recorded_ok (RecordError s) = loggable s"
| "recorded_ok (RecordDebug s) = loggable s"
| "recorded_ok r = True"

definition attributes_ok :: "attributes \<Rightarrow> bool" where
  "attributes_ok attrs \<longleftrightarrow> (\<forall>(name, r) \<in> set attrs. ascii name \<and> recorded_ok r)"

definition metadata_ok :: "metadata \<Rightarrow> bool" where
  "metadata_ok md \<longleftrightarrow> ascii (meta_name md) \<and> ascii (meta_target md)"

fun value_ascii :: "field_value \<Rightarrow> bool" where
  "value_ascii (FieldString s) = ascii s"
| "value_ascii v = True"

definition fields_ascii :: "field_map \<Rightarrow> bool" where
  "fields_ascii m \<longleftrightarrow> finite (dom m) \<and> (\<forall>k v. m k = Some v \<longrightarrow> ascii k \<and> value_ascii v)"

definition log_ascii :: "log \<Rightarrow> bool" where
  "log_ascii l \<longleftrightarrow>
     (\<forall>s \<in> set l. ascii (span_name s) \<and> ascii (span_target s) \<and> fields_ascii (span_fields s))"

lemma record_value_ok: "recorded_ok r \<Longrightarrow> \<exists>v. record_value r = Some v \<and> value_ascii v"
  by (cases r) (simp_all add: record_value_def truncate_loggable loggable_def)

lemma visit_ok:
  "attributes_ok attrs \<Longrightarrow> fields_ascii m \<Longrightarrow> \<exists>m'. visit attrs m = Some m' \<and> fields_ascii m'"
proof (induction attrs m rule: visit.induct)
  case (2 name r calls m)
  have "ascii name" "recorded_ok r" "attributes_ok calls"
    using "2.prems"(1) by (auto simp: attributes_ok_def)
  moreover obtain v where v: "record_value r = Some v" "value_ascii v"
    using record_value_ok \<open>recorded_ok r\<close> by blast
  moreover have "fields_ascii (m(take MAX_STR name \<mapsto> v))"
    using "2.prems"(2) \<open>ascii name\<close> v(2) ascii_take by (auto simp: fields_ascii_def)
  ultimately show ?case using "2.IH" [of "take MAX_STR name" v]
    by (simp add: truncate_ascii del: fun_upd_apply)
qed simp

lemma fields_ascii_empty [simp]: "fields_ascii Map.empty"
  by (simp add: fields_ascii_def)

lemma filter_fields_ascii: "fields_ascii m \<Longrightarrow> fields_ascii (filter_fields limited m)"
  by (auto simp: filter_fields_def fields_ascii_def split: option.split)

lemma record_all_ok:
  "(\<And>f md. (f, md) \<in> set fs \<Longrightarrow> fields_ascii f \<and> metadata_ok md) \<Longrightarrow>
    \<exists>l. record_all limited fs = Some l \<and> log_ascii l"
proof (induction limited fs rule: record_all.induct)
  case (2 limited f md rest)
  have "fields_ascii f" "metadata_ok md" using "2.prems" by auto
  then obtain s where s: "record_span limited f md = Some s" "log_ascii [s]"
    by (auto simp: record_span_def metadata_ok_def truncate_ascii log_ascii_def ascii_take filter_fields_ascii)
  obtain l where "record_all limited rest = Some l" "log_ascii l"
    using "2.IH" [OF s(1)] "2.prems" by auto
  then show ?case using s by (simp add: log_ascii_def)
qed (simp add: log_ascii_def)

text \<open>An event with safe texts, in spans with safe texts, is recorded without a panic, and the log
  that the layer issues is ASCII.\<close>

type_synonym logged = "(attributes \<times> metadata) list \<times> attributes \<times> metadata"

definition logged_ok :: "logged \<Rightarrow> bool" where
  "logged_ok ev \<longleftrightarrow>
     (\<forall>(attrs, md) \<in> set (fst ev). attributes_ok attrs \<and> metadata_ok md)
     \<and> attributes_ok (fst (snd ev)) \<and> metadata_ok (snd (snd ev))"

lemma enter_spans_ok:
  assumes "\<And>attrs md. (attrs, md) \<in> set scope \<Longrightarrow> attributes_ok attrs \<and> metadata_ok md"
  shows "\<exists>spans. enter_spans enabled scope = Some spans
    \<and> (\<forall>(f, md) \<in> set spans. fields_ascii f \<and> metadata_ok md)"
  using assms
proof (induction enabled scope rule: enter_spans.induct)
  case (2 enabled attrs md rest)
  then obtain spans where s: "enter_spans enabled rest = Some spans"
    "\<forall>(f, md) \<in> set spans. fields_ascii f \<and> metadata_ok md"
    using "2.IH" visit_ok [of attrs Map.empty] by (fastforce simp: on_new_span_def)
  obtain f where "visit attrs Map.empty = Some f" "fields_ascii f"
    using visit_ok [of attrs Map.empty] "2.prems" by auto
  moreover have "metadata_ok md" using "2.prems" [of attrs md] by simp
  ultimately show ?case using s by (simp add: on_new_span_def)
qed simp

lemma layer_event_ok:
  assumes "logged_ok (scope, evs, md)"
  shows "\<exists>out. layer_event enabled active scope evs md = Some out
    \<and> (out = [] \<or> (\<exists>l. out = [GroundLog l] \<and> log_ascii l \<and> length l \<le> Suc (length scope)))
    \<and> (enabled md \<and> active \<longleftrightarrow> out \<noteq> [])"
proof -
  have ok: "attributes_ok evs" "metadata_ok md"
    "\<And>a m. (a, m) \<in> set scope \<Longrightarrow> attributes_ok a \<and> metadata_ok m"
    using assms by (auto simp: logged_ok_def)
  obtain spans where spans: "enter_spans enabled scope = Some spans"
    "\<forall>(f, md) \<in> set spans. fields_ascii f \<and> metadata_ok md"
    using enter_spans_ok [of scope enabled, OF ok(3)] by blast
  have len: "length spans \<le> length scope"
    using spans(1) by (induction enabled scope arbitrary: spans rule: enter_spans.induct)
      (auto simp: bind_eq_Some_conv le_SucI split: if_splits)
  obtain fds where fds: "visit evs Map.empty = Some fds" "fields_ascii fds"
    using visit_ok [OF ok(1), of Map.empty] by auto
  obtain l where l: "record_all (limited_downlink fds) (spans @ [(fds, md)]) = Some l" "log_ascii l"
    using record_all_ok [of "spans @ [(fds, md)]"] spans(2) fds(2) ok(2) by fastforce
  have "length l \<le> Suc (length scope)" using record_all_spans [OF l(1)] len by simp
  then show ?thesis using l by (simp add: layer_event_def spans(1) on_event_def fds(1))
qed

context text_ascii
begin

text \<open>The text of such a log is ASCII.\<close>

lemma value_text_ascii: "value_ascii v \<Longrightarrow> ascii (value_text T v)"
  by (cases v) (simp_all add: value_text_def)

lemma log_text_ascii:
  assumes "log_ascii l"
  shows "ascii (log_text T l)"
proof -
  have "ascii (span_text T s)" if s: "s \<in> set l" for s
  proof -
    have f: "fields_ascii (span_fields s)" "ascii (span_name s)" "ascii (span_target s)"
      using assms s by (auto simp: log_ascii_def)
    have "ascii k \<and> value_ascii v" if "(k, v) \<in> set (btree_entries (span_fields s))" for k v
      using that f(1) by (auto simp: btree_entries_def fields_ascii_def dom_def)
    then show ?thesis using f(2,3) value_text_ascii
      by (auto simp: span_text_def)
  qed
  then show ?thesis by (auto simp: log_text_def)
qed

end

end
