(* ===== verification/Log_Events.thy ===== *)
theory Log_Events
  imports Log_Texts System_Origin
begin

text \<open>
  What the actors log.  Every handler of \<open>runtime/src\<close> gets a function to the events that its
  \<open>tracing\<close> calls make, with the spans around them (\<open>#[instrument]\<close> and \<open>info_span!\<close>), their
  fields, levels and places in the source.  The tracing layer makes a log of each event that its
  filter enables, which the broker passes on to the downlinks.  The events that the message
  parser, the codec and the socket wrappers log themselves are left out.
\<close>

subsection \<open>Events and spans\<close>

text \<open>The texts of the errors of the libraries are parameters.\<close>

record log_texts =
  lg_text :: text_ops
  lg_packing_error :: "packing_error \<Rightarrow> rust_str"
  lg_io_error :: "io_error \<Rightarrow> rust_str"
  lg_send_error :: rust_str

text \<open>An event is named after its place; the message is the field \<open>message\<close>.  Values given with a
  percent sign or a question mark are recorded as texts.\<close>

definition event_at ::
  "string \<Rightarrow> nat \<Rightarrow> string \<Rightarrow> tracing_level \<Rightarrow> attributes \<Rightarrow> string \<Rightarrow> attributes \<times> metadata" where
  "event_at file line target level flds msg =
     ((str ''message'', RecordDebug (str msg)) # flds,
      \<lparr> meta_name = str ''event '' @ str file @ str '':'' @ dec_text line,
        meta_target = str target, meta_level = level \<rparr>)"

definition span_of :: "string \<Rightarrow> string \<Rightarrow> attributes \<Rightarrow> attributes \<times> metadata" where
  "span_of name target flds =
     (flds, \<lparr> meta_name = str name, meta_target = str target, meta_level = TracingInfo \<rparr>)"

definition limit_downlink :: "rust_str \<times> recorded" where
  "limit_downlink = (LIMITED_DOWNLINK, RecordBool True)"

abbreviation shown :: "string \<Rightarrow> rust_str \<Rightarrow> rust_str \<times> recorded" where
  "shown name s \<equiv> (str name, RecordDebug s)"

definition within :: "(attributes \<times> metadata) list \<Rightarrow> (attributes \<times> metadata) list \<Rightarrow> logged list" where
  "within scope evs = map (\<lambda>(e, md). (scope, e, md)) evs"

subsection \<open>The control state machine\<close>

fun state_name :: "state \<Rightarrow> string" where
  "state_name FlightIdle = ''FlightIdle''"
| "state_name PingCentralStation = ''PingCentralStation''"
| "state_name GarageOpen = ''GarageOpen''"
| "state_name BLEConnected = ''BLEConnected''"
| "state_name AntReady = ''AntReady''"
| "state_name AntRun = ''AntRun''"

definition sm_event :: "nat \<Rightarrow> tracing_level \<Rightarrow> attributes \<Rightarrow> string \<Rightarrow> attributes \<times> metadata" where
  "sm_event line = event_at ''runtime/src/state_machine.rs'' line ''antrelay_runtime::state_machine''"

definition sm_span :: "string \<Rightarrow> attributes \<Rightarrow> attributes \<times> metadata" where
  "sm_span name = span_of name ''antrelay_runtime::state_machine''"

definition noop_log :: "attributes \<times> metadata" where
  "noop_log = sm_event 112 TracingInfo [] ''noop event: already in target state''"

definition unmatched_log :: "state \<Rightarrow> event \<Rightarrow> attributes \<times> metadata" where
  "unmatched_log s evt = sm_event 267 TracingDebug
     [shown ''state'' (str (state_name s)), shown ''event'' (str (event_name evt))]
     ''unmatched state machine transition''"

definition arm_logs :: "state \<Rightarrow> event \<Rightarrow> (attributes \<times> metadata) list" where
  "arm_logs s evt =
    (if s = PingCentralStation \<and> evt = FEPowerSupplied then [noop_log]
     else if evt = FEPowerSupplied then []
     else if s = GarageOpen \<and> evt = FEGarageOpen then [noop_log]
     else if evt = FEGarageOpen then []
     else if evt = CSBLEDisconnect then []
     else if s = BLEConnected \<and> evt = CSBLEConnect then [noop_log]
     else if evt = CSBLEConnect then []
     else if s = AntRun \<and> evt = FERoverStop then [noop_log]
     else if s = AntReady \<and> evt = FERoverStop then []
     else if s = AntRun \<and> evt = FERoverMove then []
     else if evt = FERoverStop then [sm_event 218 TracingInfo [] ''queueing rover stop for later'']
     else if evt = FERoverMove then [sm_event 223 TracingInfo [] ''clearing pending event'']
     else if evt = FERestart then [sm_event 230 TracingWarn [] ''received restart, exiting'']
     else if evt = DebugCSPing \<or> evt = AntPing then []
     else if evt = FEPing then [sm_event 262 TracingInfo [] ''pong'']
     else [unmatched_log s evt])"

definition transition_log :: "state \<Rightarrow> state \<Rightarrow> attributes \<times> metadata" where
  "transition_log init_state s =
     (if s \<noteq> init_state
      then sm_event 277 TracingInfo [shown ''new_state'' (str (state_name s))] ''state machine transition''
      else sm_event 279 TracingInfo [] ''state machine did not transition'')"

definition step_logs ::
  "('h, 'c) sm_ctx_ops \<Rightarrow> (attributes \<times> metadata) list \<Rightarrow> event \<Rightarrow> 'h machine \<Rightarrow> 'c \<Rightarrow> logged list" where
  "step_logs X scope evt m c =
     within (scope @ [sm_span ''step''
         [shown ''state'' (str (state_name (state m))), shown ''event'' (str (event_name evt))]])
       (sm_event 102 TracingInfo [] ''state machine event'' # arm_logs (state m) evt
        @ (case sm_step X evt m c of
             Running (m', c') \<Rightarrow> [transition_log (state m) (state m')]
           | Exited code \<Rightarrow> []))"

text \<open>\<open>do_step\<close>: a step never returns an error.\<close>

definition do_step_logs ::
  "('h, 'c) sm_ctx_ops \<Rightarrow> (attributes \<times> metadata) list \<Rightarrow> event \<Rightarrow> 'h machine \<Rightarrow> 'c \<Rightarrow> logged list" where
  "do_step_logs X scope = step_logs X (scope @ [sm_span ''do_step'' []])"

text \<open>The handlers; the span of a command shows the message, which may fail to be shown (\<open>None\<close>).\<close>

definition up_command_logs ::
  "log_texts \<Rightarrow> (bytes \<Rightarrow> u8) \<Rightarrow> ('h, 'c) sm_ctx_ops \<Rightarrow> message \<Rightarrow> 'h machine \<Rightarrow> 'c
     \<Rightarrow> logged list option" where
  "up_command_logs L crc8 X msg m c =
     map_option (\<lambda>s. do_step_logs X [sm_span ''handle'' [shown ''msg'' s]]
         (event (ty (message_header msg))) m c)
       (message_text (lg_text L) crc8 msg)"

definition down_message_logs ::
  "('h, 'c) sm_ctx_ops \<Rightarrow> message \<Rightarrow> 'h machine \<Rightarrow> 'c \<Rightarrow> logged list" where
  "down_message_logs X msg m c =
     (let evt = event (ty (message_header msg))
      in if evt \<noteq> CSBLEConnect \<and> evt \<noteq> CSBLEDisconnect
         then within [sm_span ''handle'' []]
           [sm_event 345 TracingTrace [] ''state machine ignoring non-BLE event'']
         else do_step_logs X [sm_span ''handle'' []] evt m c)"

definition event_wrap_logs ::
  "('h, 'c) sm_ctx_ops \<Rightarrow> event \<Rightarrow> 'h machine \<Rightarrow> 'c \<Rightarrow> logged list" where
  "event_wrap_logs X = do_step_logs X [sm_span ''handle'' []]"

text \<open>The hooks of the actor's life.\<close>

definition sm_started_logs :: "logged list" where
  "sm_started_logs = within [sm_span ''started'' []]
     [sm_event 303 TracingInfo [] ''state machine controller started'']"

definition sm_stopped_logs :: "logged list" where
  "sm_stopped_logs = within [] [sm_event 307 TracingError [] ''state machine controller stopped'']"

definition sm_restarting_logs :: "logged list" where
  "sm_restarting_logs = within [] [sm_event 371 TracingWarn [] ''state machine controller restarting'']"

subsection \<open>The serial side\<close>

definition serial_event :: "nat \<Rightarrow> tracing_level \<Rightarrow> attributes \<Rightarrow> string \<Rightarrow> attributes \<times> metadata" where
  "serial_event line = event_at ''runtime/src/serial/mod.rs'' line ''antrelay_runtime::serial''"

definition serial_span :: "string \<Rightarrow> attributes \<Rightarrow> attributes \<times> metadata" where
  "serial_span name = span_of name ''antrelay_runtime::serial''"

definition issue_ack_logs ::
  "log_texts \<Rightarrow> (bytes \<Rightarrow> u8) \<Rightarrow> (attributes \<times> metadata) list \<Rightarrow> message \<Rightarrow> logged list option" where
  "issue_ack_logs L crc8 scope msg =
     map_option (\<lambda>s. within (scope @ [serial_span ''try_issue_ack'' [shown ''msg'' s]])
         (case message_source msg of
            Empty \<Rightarrow> [serial_event 57 TracingTrace [] ''message has no source'']
          | Info info \<Rightarrow>
              [serial_event 62 TracingInfo
                [shown ''unique_id'' (unique_id_text (lg_text L) (message_uid msg)),
                 shown ''response_to'' (unique_id_text (lg_text L) (header_unique_id (info_header info))),
                 shown ''orig_crc'' (dec_text (unat (info_checksum info))), limit_downlink]
                ''decoded acked command'']))
       (message_text (lg_text L) crc8 msg)"

definition serial_up_logs ::
  "log_texts \<Rightarrow> (bytes \<Rightarrow> u8) \<Rightarrow> message \<Rightarrow> logged list option" where
  "serial_up_logs L crc8 msg =
     map_option (\<lambda>s. within [serial_span ''handle'' [shown ''msg'' s]]
         (case pack_to_vec (message_ops crc8) msg of
            Ok v \<Rightarrow>
              [serial_event 106 TracingInfo
                [shown ''packed'' (hex_encode (text_hex (lg_text L)) v), limit_downlink] ''send serial packet'']
          | Inl (Fail e) \<Rightarrow>
              [serial_event 101 TracingError [shown ''error'' (lg_packing_error L e)]
                ''packing serial uplink message'']
          | Inl Panic \<Rightarrow> []))
       (message_text (lg_text L) crc8 msg)"

definition serial_down_logs ::
  "log_texts \<Rightarrow> (bytes \<Rightarrow> u8) \<Rightarrow> bytes \<Rightarrow> logged list option" where
  "serial_down_logs L crc8 pkt =
     (let scope = [serial_span ''handle'' [shown ''pkt'' (hex_encode (text_hex (lg_text L)) pkt)]]
      in case unpack_from_slice (message_ops crc8) pkt of
           Inl Panic \<Rightarrow> Some []
         | Inl (Fail e) \<Rightarrow>
             Some (within scope [serial_event 120 TracingError [shown ''error'' (lg_packing_error L e)]
               ''unpacking serial downlink message''])
         | Ok unpacked \<Rightarrow>
             Option.bind (message_text (lg_text L) crc8 unpacked) (\<lambda>s.
               map_option ((@) (within scope
                   [serial_event 125 TracingInfo [shown ''unpacked'' s, limit_downlink] ''recv serial packet'']))
                 (issue_ack_logs L crc8
                   (scope @ [serial_span ''serial message decoded''
                     [shown ''event'' (str (event_name (event (ty (message_header unpacked)))))]])
                   unpacked)))"

definition ant_decode_logs ::
  "log_texts \<Rightarrow> cs_payload struct_ops \<Rightarrow> (bytes \<Rightarrow> u8) \<Rightarrow> message \<Rightarrow> logged list option" where
  "ant_decode_logs L C crc8 msg =
     map_option (\<lambda>s. within [span_of ''handle'' ''antrelay_runtime::serial::ant_decode'' [shown ''msg'' s]]
         (let ant_event = (\<lambda>line. event_at ''runtime/src/serial/ant_decode.rs'' line
                ''antrelay_runtime::serial::ant_decode'')
          in if \<not> is_relay_ack (ty (message_header msg)) then []
             else case unpack_from_slice (cs_relay_ops C crc8) (message_payload msg) of
               Inl Panic \<Rightarrow> []
             | Inl (Fail e) \<Rightarrow>
                 [ant_event 69 TracingError [shown ''error'' (lg_packing_error L e)]
                   ''failed to unpack ant message'']
             | Ok relay \<Rightarrow>
                 [ant_event 78 TracingInfo
                   [shown ''cs'' (cs_payload_text (header relay)),
                    shown ''ant_hdr'' (header_with_source_text (lg_text L) (header (val (payload relay)))),
                    shown ''ant'' (ant_payload_text (payload (val (payload relay)))), limit_downlink]
                   ''decoded relay message'']))
       (message_text (lg_text L) crc8 msg)"

definition raw_up_logs ::
  "log_texts \<Rightarrow> 'c mpsc_ops \<Rightarrow> bytes \<Rightarrow> 'c raw_io \<Rightarrow> logged list" where
  "raw_up_logs L M pkt a =
     (let raw_event = (\<lambda>line. event_at ''runtime/src/serial/raw.rs'' line ''antrelay_runtime::serial::raw'')
      in within [span_of ''handle'' ''antrelay_runtime::serial::raw''
            [shown ''msg'' (hex_encode (text_hex (lg_text L)) pkt)]]
          (raw_event 151 TracingTrace [limit_downlink] ''sending serial packet''
           # (case raw_tx a of
                Some tx \<Rightarrow>
                  if fst (mpsc_send M pkt tx) then []
                  else [raw_event 156 TracingError []
                    ''trying to send serial uplink packet: remote channel dropped'']
              | None \<Rightarrow> [raw_event 160 TracingError [] ''dropping packet -- serial actor restarting''])))"

subsection \<open>The commander\<close>

text \<open>\<open>Debug\<close> of an id, as it is derived.\<close>

definition unique_id_debug :: "unique_id \<Rightarrow> rust_str" where
  "unique_id_debug u = str ''UniqueId { timestamp: MissionEpoch { val: ''
     @ dec_text (unat (epoch_val (uid_timestamp u))) @ str '' }, seq: '' @ dec_text (unat (uid_seq u))
     @ str '' }''"

definition commander_event :: "nat \<Rightarrow> tracing_level \<Rightarrow> attributes \<Rightarrow> string \<Rightarrow> attributes \<times> metadata" where
  "commander_event line =
     event_at ''runtime/src/serial/commander.rs'' line ''antrelay_runtime::serial::commander''"

definition ack_message_logs ::
  "('h, 'w) oneshot_ops \<Rightarrow> message \<Rightarrow> 'h commander \<Rightarrow> 'w \<Rightarrow> logged list" where
  "ack_message_logs X msg c w =
     (if is_relay_ack (ty (message_header msg)) then []
      else case message_source msg of
        Empty \<Rightarrow> []
      | Info info \<Rightarrow>
          (let msg_id = header_unique_id (info_header info)
           in within [] (case requests c msg_id of
                None \<Rightarrow> [commander_event 193 TracingWarn [shown ''msg_id'' (unique_id_debug msg_id)]
                  ''received ack message for unregistered command'']
              | Some tx \<Rightarrow>
                  commander_event 197 TracingDebug [] ''found listener for message, replying''
                  # (if fst (tx_send X tx (ResponseMessage msg) w) then []
                     else [commander_event 200 TracingWarn [shown ''msg_id'' (unique_id_debug msg_id)]
                       ''tried to ack command, listener dropped'']))))"

definition ant_message_logs ::
  "('h, 'w) oneshot_ops \<Rightarrow> ant_packet \<Rightarrow> 'h commander \<Rightarrow> 'w \<Rightarrow> logged list" where
  "ant_message_logs X pkt c w =
     (case ant_packet_source pkt of
        Empty \<Rightarrow> []
      | Info info \<Rightarrow>
          (let msg_id = header_unique_id (info_header info)
           in within [] (case requests c msg_id of
                None \<Rightarrow> []
              | Some tx \<Rightarrow>
                  if fst (tx_send X tx (ResponseAnt pkt) w) then []
                  else [commander_event 220 TracingWarn [shown ''msg_id'' (unique_id_debug msg_id)]
                    ''got ant ack for valid command whose listener was dropped''])))"

subsection \<open>The ground side\<close>

definition uplink_event :: "nat \<Rightarrow> tracing_level \<Rightarrow> attributes \<Rightarrow> string \<Rightarrow> attributes \<times> metadata" where
  "uplink_event line = event_at ''runtime/src/ground/uplink.rs'' line ''antrelay_runtime::ground::uplink''"

definition uplink_span :: "string \<Rightarrow> attributes \<Rightarrow> attributes \<times> metadata" where
  "uplink_span name = span_of name ''antrelay_runtime::ground::uplink''"

definition uplink_logs :: "log_texts \<Rightarrow> (bytes \<Rightarrow> u8) \<Rightarrow> packet_result \<Rightarrow> logged list option" where
  "uplink_logs L crc8 item =
     (case item of
        PacketErr e \<Rightarrow>
          Some (within [uplink_span ''handle'' [(str ''ok'', RecordBool False)]]
            [uplink_event 75 TracingError [shown ''error'' (lg_io_error L e)] ''receiving packet''])
      | PacketOk pkt \<Rightarrow>
          (let scope = [uplink_span ''handle'' [(str ''ok'', RecordBool True)],
                 uplink_span ''uplink packet'' [shown ''pkt'' (hex_encode (text_hex (lg_text L)) pkt)]];
               decoded = uplink_event 83 TracingDebug [limit_downlink] ''decoded uplink packet''
           in case unpack_from_slice (message_ops crc8) pkt of
                Inl Panic \<Rightarrow> Some (within scope [decoded])
              | Inl (Fail e) \<Rightarrow>
                  Some (within scope [decoded, uplink_event 91 TracingError
                    [shown ''error'' (lg_packing_error L e)] ''bad uplink message format''])
              | Ok msg \<Rightarrow>
                  map_option (\<lambda>s. within scope [decoded, uplink_event 96 TracingDebug
                      [shown ''msg'' s, limit_downlink] ''decoded uplink message''])
                    (message_text (lg_text L) crc8 msg)))"

definition downlink_at :: "nat \<Rightarrow> tracing_level \<Rightarrow> attributes \<Rightarrow> string \<Rightarrow> attributes \<times> metadata" where
  "downlink_at line = event_at ''runtime/src/ground/downlink.rs'' line ''antrelay_runtime::ground::downlink''"

definition downlink_span :: "string \<Rightarrow> attributes \<Rightarrow> attributes \<times> metadata" where
  "downlink_span name = span_of name ''antrelay_runtime::ground::downlink''"

text \<open>The text of a handled message, and the name of its type.\<close>

fun downlink_shown :: "log_texts \<Rightarrow> (bytes \<Rightarrow> u8) \<Rightarrow> broker_msg \<Rightarrow> rust_str option" where
  "downlink_shown L crc8 (RawDownPacket p) = Some (hex_encode (text_hex (lg_text L)) p)"
| "downlink_shown L crc8 (RawUpPacket p) = Some (hex_encode (text_hex (lg_text L)) p)"
| "downlink_shown L crc8 (GroundUpPacket p) = Some (hex_encode (text_hex (lg_text L)) p)"
| "downlink_shown L crc8 (UpMessageB m) = message_text (lg_text L) crc8 m"
| "downlink_shown L crc8 (DownMessageB m) = message_text (lg_text L) crc8 m"
| "downlink_shown L crc8 (GroundUpCommand m) = message_text (lg_text L) crc8 m"
| "downlink_shown L crc8 (GroundLog l) = Some (log_text (lg_text L) l)"
| "downlink_shown L crc8 b = Some []"

fun downlink_type :: "broker_msg \<Rightarrow> string" where
  "downlink_type (RawDownPacket p) = ''serial::raw::DownPacket''"
| "downlink_type (RawUpPacket p) = ''serial::raw::UpPacket''"
| "downlink_type (GroundUpPacket p) = ''ground::UpPacket''"
| "downlink_type (UpMessageB m) = ''serial::UpMessage''"
| "downlink_type (DownMessageB m) = ''serial::DownMessage''"
| "downlink_type (GroundUpCommand m) = ''ground::UpCommand''"
| "downlink_type (GroundLog l) = ''ground::Log''"
| "downlink_type b = []"

definition downlink_logs ::
  "log_texts \<Rightarrow> (bytes \<Rightarrow> u8) \<Rightarrow> (downlink \<Rightarrow> bytes option) \<Rightarrow> (bytes \<Rightarrow> bytes option) \<Rightarrow> broker_msg
     \<Rightarrow> 's downlink_actor \<Rightarrow> logged list option" where
  "downlink_logs L crc8 serialize compress msg a =
     (if \<not> downlink_subscribed a then Some []
      else case downlink_extract msg of
        None \<Rightarrow> Some []
      | Some d \<Rightarrow>
          Option.bind (downlink_shown L crc8 msg) (\<lambda>s.
          Option.bind (downlink_text (lg_text L) crc8 d) (\<lambda>t.
            Some (within [downlink_span ''handle'' [shown ''msg'' s], downlink_span ''gen_handle'' []]
              (downlink_at 112 TracingTrace [shown ''msg'' t, limit_downlink] ''downlinking''
               # (case Option.bind (serialize d) (brotli_compress compress) of
                    None \<Rightarrow> [downlink_at 123 TracingError
                      [shown ''error'' (lg_send_error L), shown ''ty'' (str (downlink_type msg))]
                      ''serializing downlink data'']
                  | Some result \<Rightarrow> []))))))"

subsection \<open>The relay\<close>

text \<open>What the handler of a piece of mail logs.\<close>

definition mail_logs ::
  "log_texts \<Rightarrow> ('h, 'c, 'k, 'w, 'q, 'b) relay_deps \<Rightarrow> actor_id \<Rightarrow> mail
     \<Rightarrow> ('h, 'c, 'k, 'w, 'q, 's, 'b) relay \<Rightarrow> logged list option" where
  "mail_logs L D a x st =
     (case x of
        RequestMail msg \<Rightarrow> Some []
      | BrokerMail b \<Rightarrow>
          (case (a, b) of
             (AStateMachine, GroundUpCommand msg) \<Rightarrow>
               up_command_logs L (dep_crc8 D) (dep_ctx D) msg (rl_machine st) (rl_ctx st)
           | (AStateMachine, DownMessageB msg) \<Rightarrow>
               Some (down_message_logs (dep_ctx D) msg (rl_machine st) (rl_ctx st))
           | (AAntDecode, DownMessageB msg) \<Rightarrow> ant_decode_logs L (dep_cs D) (dep_crc8 D) msg
           | (ASerial, UpMessageB msg) \<Rightarrow> serial_up_logs L (dep_crc8 D) msg
           | (ASerial, RawDownPacket pkt) \<Rightarrow> serial_down_logs L (dep_crc8 D) pkt
           | (ARawIO, RawUpPacket pkt) \<Rightarrow> Some (raw_up_logs L (dep_mpsc D) pkt (rl_raw st))
           | (ACommander, AckMessageB msg) \<Rightarrow>
               Some (ack_message_logs (dep_oneshot D) msg (rl_commander st) (rl_channels st))
           | (ACommander, AntMessageB pkt) \<Rightarrow>
               Some (ant_message_logs (dep_oneshot D) pkt (rl_commander st) (rl_channels st))
           | (ADownlink i, msg) \<Rightarrow>
               downlink_logs L (dep_crc8 D) (dep_serialize D) (dep_compress D) msg (rl_downlink st i)
           | _ \<Rightarrow> Some []))"

subsection \<open>Everything that is logged can be recorded\<close>

definition event_ok :: "attributes \<times> metadata \<Rightarrow> bool" where
  "event_ok ev \<longleftrightarrow> attributes_ok (fst ev) \<and> metadata_ok (snd ev)"

lemma attributes_ok_simps [simp]:
  "attributes_ok []" "attributes_ok ((n, r) # fs) \<longleftrightarrow> ascii n \<and> recorded_ok r \<and> attributes_ok fs"
  "attributes_ok (limit_downlink # fs) \<longleftrightarrow> attributes_ok fs"
  by (auto simp: attributes_ok_def limit_downlink_def LIMITED_DOWNLINK_def)

lemma event_at_ok [simp]:
  "event_ok (event_at file line target level flds msg) \<longleftrightarrow>
    loggable (str msg) \<and> attributes_ok flds \<and> ascii (str file) \<and> ascii (str target)"
  by (auto simp: event_ok_def event_at_def metadata_ok_def)

lemma span_of_ok [simp]:
  "event_ok (span_of name target flds) \<longleftrightarrow> attributes_ok flds \<and> ascii (str name) \<and> ascii (str target)"
  by (auto simp: event_ok_def span_of_def metadata_ok_def)

lemma places_ok [simp]:
  "event_ok (sm_event line level flds msg) \<longleftrightarrow> loggable (str msg) \<and> attributes_ok flds"
  "event_ok (serial_event line level flds msg) \<longleftrightarrow> loggable (str msg) \<and> attributes_ok flds"
  "event_ok (commander_event line level flds msg) \<longleftrightarrow> loggable (str msg) \<and> attributes_ok flds"
  "event_ok (uplink_event line level flds msg) \<longleftrightarrow> loggable (str msg) \<and> attributes_ok flds"
  "event_ok (downlink_at line level flds msg) \<longleftrightarrow> loggable (str msg) \<and> attributes_ok flds"
  "event_ok (sm_span name flds) \<longleftrightarrow> attributes_ok flds \<and> ascii (str name)"
  "event_ok (serial_span name flds) \<longleftrightarrow> attributes_ok flds \<and> ascii (str name)"
  "event_ok (uplink_span name flds) \<longleftrightarrow> attributes_ok flds \<and> ascii (str name)"
  "event_ok (downlink_span name flds) \<longleftrightarrow> attributes_ok flds \<and> ascii (str name)"
  by (auto simp: sm_event_def serial_event_def commander_event_def uplink_event_def downlink_at_def
      sm_span_def serial_span_def uplink_span_def downlink_span_def)

lemma within_ok [simp]:
  "list_all logged_ok (within scope evs) \<longleftrightarrow>
    evs = [] \<or> list_all event_ok scope \<and> list_all event_ok evs"
  by (cases evs)
    (auto simp: within_def list_all_iff logged_ok_def event_ok_def case_prod_beta)

lemma state_name_ascii [simp]: "ascii (str (state_name s))"
  by (cases s) simp_all

lemma unique_id_debug_ascii [simp]: "ascii (unique_id_debug u)"
  by (simp add: unique_id_debug_def)

lemma arm_logs_ok: "list_all event_ok (arm_logs s evt)"
  by (simp add: arm_logs_def noop_log_def unmatched_log_def)

lemma step_logs_ok: "list_all event_ok scope \<Longrightarrow> list_all logged_ok (step_logs X scope evt m c)"
  by (auto simp: step_logs_def arm_logs_ok transition_log_def split: process.split)

lemma do_step_logs_ok: "list_all event_ok scope \<Longrightarrow> list_all logged_ok (do_step_logs X scope evt m c)"
  by (simp add: do_step_logs_def step_logs_ok)

text \<open>The library texts are ASCII.\<close>

locale log_texts_ascii = text_ascii "lg_text L" for L :: log_texts +
  assumes packing_ascii [simp]: "ascii (lg_packing_error L p)"
    and io_ascii [simp]: "ascii (lg_io_error L e)"
    and send_ascii [simp]: "ascii (lg_send_error L)"
begin

lemma ack_issue_ok:
  assumes "message_coherent crc8 msg" and "list_all event_ok scope"
  shows "\<exists>logs. issue_ack_logs L crc8 scope msg = Some logs \<and> list_all logged_ok logs"
  using message_text_ascii [OF assms(1)] assms(2)
  by (auto simp: issue_ack_logs_def split: source_info.split)

lemma serial_up_ok:
  assumes "message_coherent crc8 msg"
  shows "\<exists>logs. serial_up_logs L crc8 msg = Some logs \<and> list_all logged_ok logs"
  using message_text_ascii [OF assms]
  by (auto simp: serial_up_logs_def split: sum.split failure.split)

lemma serial_down_ok: "\<exists>logs. serial_down_logs L crc8 pkt = Some logs \<and> list_all logged_ok logs"
proof (cases "unpack_from_slice (message_ops crc8) pkt")
  case (Inr m)
  then have co: "message_coherent crc8 m" using message.unpack_sound by blast
  obtain s where s: "message_text (lg_text L) crc8 m = Some s" "ascii s"
    using message_text_ascii [OF co] by blast
  show ?thesis
    using ack_issue_ok [OF co, of "[serial_span ''handle'' [shown ''pkt'' (hex_encode (text_hex (lg_text L)) pkt)],
      serial_span ''serial message decoded'' [shown ''event'' (str (event_name (event (ty (message_header m)))))]]"] s
    by (auto simp: serial_down_logs_def Inr Let_def)
qed (auto simp: serial_down_logs_def Let_def split: failure.split)

lemma ant_decode_ok:
  assumes "message_coherent crc8 msg"
  shows "\<exists>logs. ant_decode_logs L C crc8 msg = Some logs \<and> list_all logged_ok logs"
  using message_text_ascii [OF assms]
  by (auto simp: ant_decode_logs_def Let_def split: sum.split failure.split)

lemma uplink_ok: "\<exists>logs. uplink_logs L crc8 item = Some logs \<and> list_all logged_ok logs"
proof (cases item)
  case (PacketOk pkt)
  show ?thesis
  proof (cases "unpack_from_slice (message_ops crc8) pkt")
    case (Inr m)
    then have co: "message_coherent crc8 m" using message.unpack_sound by blast
    then show ?thesis using message_text_ascii [OF co] by (auto simp: uplink_logs_def PacketOk Inr Let_def)
  qed (auto simp: uplink_logs_def PacketOk Let_def split: failure.split)
qed (simp add: uplink_logs_def)

lemma downlink_text_ascii:
  assumes "broker_coherent crc8 b" and "downlink_extract b = Some d"
    and "\<And>l. b = GroundLog l \<Longrightarrow> log_ascii l"
  shows "\<exists>s t. downlink_shown L crc8 b = Some s \<and> ascii s
    \<and> downlink_text (lg_text L) crc8 d = Some t \<and> ascii t"
proof (cases b)
  case (GroundLog l)
  then show ?thesis using assms(2,3) log_text_ascii by (auto simp: downlink_text_def)
qed (use assms message_text_ascii in \<open>fastforce simp: downlink_text_def\<close>)+

lemma downlink_ok:
  assumes "broker_coherent crc8 b" and "\<And>l. b = GroundLog l \<Longrightarrow> log_ascii l"
  shows "\<exists>logs. downlink_logs L crc8 serialize compress b a = Some logs \<and> list_all logged_ok logs"
proof (cases "downlink_subscribed a \<and> downlink_extract b \<noteq> None")
  case True
  then obtain d where d: "downlink_extract b = Some d" by blast
  obtain s t where "downlink_shown L crc8 b = Some s" "ascii s"
    "downlink_text (lg_text L) crc8 d = Some t" "ascii t"
    using downlink_text_ascii [OF assms(1) d assms(2)] by blast
  moreover have "ascii (str (downlink_type b))" by (cases b) simp_all
  ultimately show ?thesis using True d by (simp add: downlink_logs_def split: option.split)
qed (auto simp: downlink_logs_def)

lemma mail_logs_ok:
  assumes "mail_coherent (dep_crc8 D) x" and "\<And>l. x = BrokerMail (GroundLog l) \<Longrightarrow> log_ascii l"
  shows "\<exists>logs. mail_logs L D a x st = Some logs \<and> list_all logged_ok logs"
proof (cases x)
  case (BrokerMail b)
  have co: "broker_coherent (dep_crc8 D) b" using assms(1) BrokerMail by simp
  have up: "\<exists>logs. up_command_logs L (dep_crc8 D) X msg m c = Some logs \<and> list_all logged_ok logs"
    if "message_coherent (dep_crc8 D) msg" for X :: "('x, 'y) sm_ctx_ops" and msg m c
    using message_text_ascii [OF that] by (auto simp: up_command_logs_def do_step_logs_ok)
  have down: "list_all logged_ok (down_message_logs X msg m c)" for X :: "('x, 'y) sm_ctx_ops" and msg m c
    by (simp add: down_message_logs_def Let_def do_step_logs_ok)
  have raw: "list_all logged_ok (raw_up_logs L M pkt r)" for M :: "'z mpsc_ops" and pkt r
    by (auto simp: raw_up_logs_def Let_def split: option.split)
  have ack: "list_all logged_ok (ack_message_logs X msg c w)" for X :: "('x, 'y) oneshot_ops" and msg c w
    by (auto simp: ack_message_logs_def Let_def split: source_info.split option.split)
  have ant: "list_all logged_ok (ant_message_logs X pkt c w)" for X :: "('x, 'y) oneshot_ops" and pkt c w
    by (auto simp: ant_message_logs_def Let_def split: source_info.split option.split)
  show ?thesis
    using co up down raw ack ant serial_up_ok serial_down_ok ant_decode_ok
      downlink_ok [OF co, of "dep_serialize D" "dep_compress D"] assms(2)
    by (cases a; cases b) (auto simp: mail_logs_def BrokerMail)
qed (simp add: mail_logs_def)

end

end
