(* ===== verification/Log_Runs.thy ===== *)
theory Log_Runs
  imports Log_Events
begin

text \<open>
  The log in runs of the relay: whatever the handlers log is recorded without a panic and
  reaches the downlinks, the transitions of the state machine among it; and what the downlink
  itself logs, which goes into its own mailbox (\<open>runtime/src/ground/downlink.rs\<close>,
  \<open>src/main.rs\<close>, \<open>net/src/unix.rs\<close>): nothing while its sends succeed, so that a backlog of
  mail is worked off, and three to four logs for each failed attempt, so that the mail of a
  downlink whose peer is gone grows without end.
\<close>

subsection \<open>From the handlers to the broker\<close>

text \<open>The filter of the downlink layer.\<close>

definition informational :: "metadata \<Rightarrow> bool" where
  "informational md \<longleftrightarrow> level_number (meta_level md) \<le> 3"

lemma informational_level [simp]:
  "informational \<lparr> meta_name = n, meta_target = t, meta_level = TracingError \<rparr>"
  "informational \<lparr> meta_name = n, meta_target = t, meta_level = TracingWarn \<rparr>"
  "informational \<lparr> meta_name = n, meta_target = t, meta_level = TracingInfo \<rparr>"
  "\<not> informational \<lparr> meta_name = n, meta_target = t, meta_level = TracingDebug \<rparr>"
  "\<not> informational \<lparr> meta_name = n, meta_target = t, meta_level = TracingTrace \<rparr>"
  by (simp_all add: informational_def)

text \<open>What the layer issues for a list of events; \<open>None\<close> is a panic.\<close>

fun layer_logs :: "(metadata \<Rightarrow> bool) \<Rightarrow> bool \<Rightarrow> logged list \<Rightarrow> broker_msg list option" where
  "layer_logs enabled active [] = Some []"
| "layer_logs enabled active ((scope, evs, md) # rest) =
     Option.bind (layer_event enabled active scope evs md) (\<lambda>out.
       map_option ((@) out) (layer_logs enabled active rest))"

definition log_mail :: "broker_msg \<Rightarrow> bool" where
  "log_mail b \<longleftrightarrow> (\<exists>l. b = GroundLog l \<and> log_ascii l)"

lemma layer_logs_ok:
  "list_all logged_ok logs \<Longrightarrow> \<exists>out. layer_logs enabled active logs = Some out
    \<and> list_all log_mail out
    \<and> length out = (if active then length (filter (\<lambda>(scope, evs, md). enabled md) logs) else 0)"
proof (induction enabled active logs rule: layer_logs.induct)
  case (2 enabled active scope evs md rest)
  obtain out where out: "layer_event enabled active scope evs md = Some out"
    "out = [] \<or> (\<exists>l. out = [GroundLog l] \<and> log_ascii l)" "enabled md \<and> active \<longleftrightarrow> out \<noteq> []"
    using layer_event_ok [of scope evs md enabled active] "2.prems" by auto
  have "length out = of_bool (enabled md \<and> active)" "list_all log_mail out"
    using out(2,3) by (auto simp: log_mail_def)
  then show ?case using out(1) "2.IH" [OF out(1)] "2.prems" by (auto split: if_splits)
qed simp

lemma layer_logs_append:
  "layer_logs enabled active (as @ bs) =
    Option.bind (layer_logs enabled active as) (\<lambda>x. map_option ((@) x) (layer_logs enabled active bs))"
proof (induction enabled active as rule: layer_logs.induct)
  case (1 enabled active)
  show ?case by (cases "layer_logs enabled active bs") simp_all
next
  case (2 enabled active scope evs md rest)
  then show ?case
    by (cases "layer_event enabled active scope evs md"; cases "layer_logs enabled active rest";
        cases "layer_logs enabled active bs") simp_all
qed

text \<open>C34: logging never panics in the relay.  In any run from the start in which the logs that came
  from elsewhere are ASCII, the handler of every piece of mail that any actor has can show what
  it logs, and the tracing layer records all of it, with any filter and active or not, issuing
  only logs that are ASCII again; so does the uplink for every packet.\<close>

theorem logging_never_panics:
  assumes "relay_laws D V queue alive" and "log_texts_ascii L" and "relay_started D V st0"
    and "request_run D V st0 ls ms st" and "\<And>l. TraceLog l \<in> set ls \<Longrightarrow> log_ascii l"
    and "x \<in> set (box V st a)"
  shows "(\<exists>logs out. mail_logs L D a x st = Some logs
      \<and> layer_logs enabled active logs = Some out \<and> list_all log_mail out)
    \<and> (\<exists>logs out. uplink_logs L (dep_crc8 D) item = Some logs
      \<and> layer_logs enabled active logs = Some out \<and> list_all log_mail out)"
proof -
  note start = relay_laws.started_parts [OF assms(1,3)]
  have inv: "relay_inv D V st"
    by (rule relay_laws.relay_run_inv [OF assms(1) request_run_relay_run [OF assms(4)] start(1)])
  have "mail_coherent (dep_crc8 D) x"
    using inv assms(6) mail_okD(1) unfolding relay_inv_def by blast
  moreover have "log_ascii l" if "x = BrokerMail (GroundLog l)" for l
    using origin_invD(1) [OF relay_laws.run_origin [OF assms(1,4) start(1,2)] assms(6)] assms(5) that
    by simp
  ultimately obtain logs where "mail_logs L D a x st = Some logs" "list_all logged_ok logs"
    using log_texts_ascii.mail_logs_ok [OF assms(2)] by blast
  moreover obtain logs' where "uplink_logs L (dep_crc8 D) item = Some logs'" "list_all logged_ok logs'"
    using log_texts_ascii.uplink_ok [OF assms(2)] by blast
  ultimately show ?thesis using layer_logs_ok by blast
qed

definition sample_texts :: log_texts where
  "sample_texts = \<lparr> lg_text = text_reference, lg_packing_error = (\<lambda>_. str ''invalid''),
     lg_io_error = (\<lambda>_. str ''broken pipe''), lg_send_error = str ''size limit'' \<rparr>"

interpretation log_ref: log_texts_ascii sample_texts
  unfolding log_texts_ascii_def log_texts_ascii_axioms_def
  using text_ref_ascii.text_ascii_axioms by (simp add: sample_texts_def)

theorem logging_never_panics_witness:
  "\<exists>(st :: sample_relay_state) logs out.
    sample_execs [DownlinkConnect 0 (Some 4), SerialItem (Inr [1, 2])] sample_boot = Some st
    \<and> BrokerMail (RawDownPacket [1, 2]) \<in> set (box sample_views st (ADownlink 0))
    \<and> mail_logs sample_texts sample_deps (ADownlink 0) (BrokerMail (RawDownPacket [1, 2])) st = Some logs
    \<and> layer_logs informational True logs = Some out \<and> list_all log_mail out"
proof -
  let ?ls = "[DownlinkConnect 0 (Some 4), SerialItem (Inr [1, 2])] :: (nat, nat, nat) relay_label list"
  have "case sample_execs ?ls sample_boot of None \<Rightarrow> False
      | Some st \<Rightarrow> (case box sample_views st (ADownlink 0) of
          BrokerMail (RawDownPacket p) # xs \<Rightarrow> p = [1, 2] | _ \<Rightarrow> False)"
    by code_simp
  then obtain st where st: "sample_execs ?ls sample_boot = Some st"
    and b: "case box sample_views st (ADownlink 0) of
      BrokerMail (RawDownPacket p) # xs \<Rightarrow> p = [1, 2] | _ \<Rightarrow> False"
    by (auto simp only: case_option_some)
  have box: "BrokerMail (RawDownPacket [1, 2]) \<in> set (box sample_views st (ADownlink 0))"
    using b by (simp split: list.splits mail.splits broker_msg.splits)
  obtain ms where r: "request_run sample_deps sample_views sample_boot ?ls ms st"
    using relay_run_request_run [OF relay_execs_run [OF st]] by blast
  from conjunct1 [OF logging_never_panics [OF sample_laws log_ref.log_texts_ascii_axioms sample_started r _ box,
      of informational True]] st box
  show ?thesis by auto
qed

subsection \<open>Transitions\<close>

lemma short_str: "length s \<le> 64 \<Longrightarrow> take MAX_STR (str s) = str s"
  by (simp add: MAX_STR_def)

lemma short_names: "length (state_name s) \<le> 64" "length (event_name e) \<le> 64"
proof -
  show "length (state_name s) \<le> 64" by (cases s) simp_all
  show "length (event_name e) \<le> 64" by (cases e) simp_all
qed

lemma enter_spans_append:
  "enter_spans enabled (as @ bs) =
    Option.bind (enter_spans enabled as) (\<lambda>x. map_option ((@) x) (enter_spans enabled bs))"
proof (induction enabled as rule: enter_spans.induct)
  case (1 enabled)
  show ?case by (cases "enter_spans enabled bs") simp_all
next
  case (2 enabled attrs md rest)
  then show ?case
    by (cases "on_new_span attrs"; cases "enter_spans enabled rest"; cases "enter_spans enabled bs") simp_all
qed

lemma record_all_append:
  "record_all limited (as @ bs) =
    Option.bind (record_all limited as) (\<lambda>x. map_option ((@) x) (record_all limited bs))"
proof (induction limited as rule: record_all.induct)
  case (1 limited)
  show ?case by (cases "record_all limited bs") simp_all
next
  case (2 limited f md rest)
  then show ?case
    by (cases "record_span limited f md"; cases "record_all limited rest"; cases "record_all limited bs")
      simp_all
qed

text \<open>C35: the ground sees every transition.  A step of the state machine, in whatever spans its handler
  runs, ends with an event that the downlink layer makes one log of, whose last two records are
  the span of the step, which shows the state before the step and the event, and the event
  itself, which shows the new state exactly if the state has changed.\<close>

theorem transitions_are_logged:
  assumes "sm_step X evt m c = Running (m', c')" and "list_all event_ok scope"
  shows "\<exists>spans step_span final. layer_logs informational True [last (step_logs X scope evt m c)]
      = Some [GroundLog (spans @ [step_span, final])]
    \<and> span_fields step_span =
        [str ''state'' \<mapsto> FieldString (str (state_name (state m))),
         str ''event'' \<mapsto> FieldString (str (event_name evt))]
    \<and> span_level final = INFO
    \<and> span_fields final (str ''new_state'') =
        (if state m' = state m then None else Some (FieldString (str (state_name (state m')))))"
proof -
  let ?step = "sm_span ''step''
    [shown ''state'' (str (state_name (state m))), shown ''event'' (str (event_name evt))]"
  have step: "last (step_logs X scope evt m c)
      = (let (e, md) = transition_log (state m) (state m') in (scope @ [?step], e, md))"
    by (simp add: step_logs_def within_def assms(1) Let_def split: prod.split)
  obtain spans where spans: "enter_spans informational scope = Some spans"
    "\<forall>(f, md) \<in> set spans. fields_ascii f \<and> metadata_ok md"
    using enter_spans_ok [of scope informational] assms(2) unfolding list_all_iff event_ok_def by fastforce
  obtain l where l: "record_all False spans = Some l" "log_ascii l"
    using record_all_ok [of spans False] spans(2) by fastforce
  note texts = truncate_ascii short_str short_names on_new_span_def record_value_def record_span_def
    transition_log_def sm_event_def sm_span_def event_at_def span_of_def
    layer_event_def on_event_def limited_downlink_def LIMITED_DOWNLINK_def filter_fields_def
    enter_spans_append record_all_append spans(1) l(1)
  show ?thesis
    unfolding step by (cases "state m' = state m") (simp_all add: texts)
qed

theorem transitions_are_logged_witness:
  "\<exists>(m' :: nat machine) c' spans step_span final.
    sm_step table_ops FEPowerSupplied machine_default empty_table = Running (m', c')
    \<and> layer_logs informational True
        [last (step_logs table_ops [sm_span ''do_step'' []] FEPowerSupplied machine_default empty_table)]
      = Some [GroundLog (spans @ [step_span, final])]
    \<and> span_fields final (str ''new_state'') = Some (FieldString (str ''PingCentralStation''))"
proof -
  obtain m' :: "nat machine" and c' where
    s: "sm_step table_ops FEPowerSupplied machine_default empty_table = Running (m', c')"
    "state m' = PingCentralStation"
    by (auto simp: sm_step_equations machine_default_def table_ops_def table_register_def)
  have "list_all event_ok [sm_span ''do_step'' []]" by simp
  from transitions_are_logged [OF s(1) this] s show ?thesis
    by (fastforce simp: machine_default_def)
qed

subsection \<open>The downlink's own log\<close>

text \<open>
  The life of a downlink actor: it waits for its socket, in \<open>started\<close>, or handles its mail.  After a
  failed send or connection it stops, and the supervisor restarts it.  What it and the socket's
  wrapper log goes into its own mailbox, once it has subscribed.
\<close>

datatype downlink_phase = Connecting_Socket | Serving

record 's downlink_state =
  dn_phase :: downlink_phase
  dn_actor :: "'s downlink_actor"
  dn_mail :: "broker_msg list"
  dn_sent :: "('s \<times> bytes) list"

text \<open>An event without a message, from the attribute \<open>err\<close> of an instrumented function.\<close>

definition err_event :: "string \<Rightarrow> nat \<Rightarrow> string \<Rightarrow> rust_str \<Rightarrow> attributes \<times> metadata" where
  "err_event file line target err =
     ([shown ''error'' err],
      \<lparr> meta_name = str ''event '' @ str file @ str '':'' @ dec_text line,
        meta_target = str target, meta_level = TracingError \<rparr>)"

text \<open>A failed send: the wrapper of the Unix socket reports the error, then the actor does.\<close>

definition unix_send_logs :: "log_texts \<Rightarrow> bytes \<Rightarrow> io_error \<Rightarrow> logged list" where
  "unix_send_logs L packet e =
     within [span_of ''send'' ''antrelay_net::unix'' [shown ''packet'' (hex_encode (text_hex (lg_text L)) packet)]]
       [err_event ''net/src/unix.rs'' 60 ''antrelay_net::unix'' (lg_io_error L e)]"

definition send_failed_logs :: "log_texts \<Rightarrow> io_error \<Rightarrow> logged list" where
  "send_failed_logs L e = within []
     [downlink_at 137 TracingError [shown ''error'' (lg_io_error L e)]
       ''failed sending packet to downlink, reconnecting'']"

text \<open>\<open>restarting\<close>; the second of waiting is not modelled.\<close>

definition downlink_restarting_logs :: "logged list" where
  "downlink_restarting_logs = within [downlink_span ''restarting'' []]
     [downlink_at 93 TracingWarn [] ''restarting downlink'']"

text \<open>A connection: the socket's wrapper, the closure in \<open>main\<close>, and what \<open>started\<close> does with the
  result.\<close>

definition unix_connect_logs :: "log_texts \<Rightarrow> rust_str \<Rightarrow> io_error option \<Rightarrow> logged list" where
  "unix_connect_logs L addr failed =
     (case failed of
        None \<Rightarrow> []
      | Some e \<Rightarrow> within [span_of ''connect'' ''antrelay_net::unix'' [shown ''address'' addr]]
          [err_event ''net/src/unix.rs'' 20 ''antrelay_net::unix'' (lg_io_error L e)])"

definition make_downlink_logs :: "log_texts \<Rightarrow> rust_str \<Rightarrow> io_error option \<Rightarrow> logged list" where
  "make_downlink_logs L addr failed =
     unix_connect_logs L addr failed
     @ (case failed of
          None \<Rightarrow> []
        | Some e \<Rightarrow> within [] [event_at ''src/main.rs'' 129 ''antrelay'' TracingError
            [shown ''addr'' addr, shown ''error'' (lg_io_error L e)]
            ''unable to connect to downlink socket''])"

definition downlink_connected_logs :: "bool \<Rightarrow> logged list" where
  "downlink_connected_logs ok = within []
     [if ok then downlink_at 61 TracingInfo [] ''connected to downlink socket''
      else downlink_at 65 TracingError [] ''failed to construct downlink'']"

text \<open>What is logged comes back as mail.\<close>

definition log_back ::
  "logged list \<Rightarrow> 's downlink_state \<Rightarrow> 's downlink_state option" where
  "log_back logs st =
     map_option (\<lambda>out. if downlink_subscribed (dn_actor st) then st\<lparr> dn_mail := dn_mail st @ out \<rparr> else st)
       (layer_logs informational True logs)"

datatype 's downlink_label =
    Handles "io_error option"
  | Connects "io_error + 's"

text \<open>The steps: the handler of the first message with the result of the send, and the end of a
  connection attempt.  \<open>None\<close> is a panic.\<close>

fun downlink_step ::
  "log_texts \<Rightarrow> (bytes \<Rightarrow> u8) \<Rightarrow> (downlink \<Rightarrow> bytes option) \<Rightarrow> (bytes \<Rightarrow> bytes option) \<Rightarrow> rust_str
     \<Rightarrow> 's downlink_label \<Rightarrow> 's downlink_state \<Rightarrow> 's downlink_state option" where
  "downlink_step L crc8 serialize compress addr (Handles failed) st =
     (case (dn_phase st, dn_mail st) of
        (Serving, b # bs) \<Rightarrow>
          Option.bind (downlink_logs L crc8 serialize compress b (dn_actor st)) (\<lambda>logs.
          Option.bind (log_back logs (st\<lparr> dn_mail := bs \<rparr>)) (\<lambda>st'.
            case downlink_handle serialize compress b (dn_actor st) of
              DownlinkPanic \<Rightarrow> None
            | SendTo s pkt \<Rightarrow>
                (case failed of
                   None \<Rightarrow> Some (st'\<lparr> dn_sent := dn_sent st @ [(s, pkt)] \<rparr>)
                 | Some e \<Rightarrow>
                     log_back (unix_send_logs L pkt e @ send_failed_logs L e @ downlink_restarting_logs)
                       (st'\<lparr> dn_phase := Connecting_Socket \<rparr>))
            | _ \<Rightarrow> Some st'))
      | _ \<Rightarrow> Some st)"
| "downlink_step L crc8 serialize compress addr (Connects result) st =
     (if dn_phase st = Serving then Some st
      else case result of
        Inl e \<Rightarrow>
          log_back (make_downlink_logs L addr (Some e) @ downlink_connected_logs False
            @ downlink_restarting_logs) st
      | Inr s \<Rightarrow>
          (case downlink_connected (Some s) (dn_actor st) of
             None \<Rightarrow> None
           | Some a \<Rightarrow>
               map_option (\<lambda>st'. st'\<lparr> dn_actor := a, dn_phase := Serving \<rparr>)
                 (log_back (make_downlink_logs L addr None @ downlink_connected_logs True) st)))"

fun downlink_steps ::
  "log_texts \<Rightarrow> (bytes \<Rightarrow> u8) \<Rightarrow> (downlink \<Rightarrow> bytes option) \<Rightarrow> (bytes \<Rightarrow> bytes option) \<Rightarrow> rust_str
     \<Rightarrow> 's downlink_label list \<Rightarrow> 's downlink_state \<Rightarrow> 's downlink_state option" where
  "downlink_steps L crc8 serialize compress addr [] st = Some st"
| "downlink_steps L crc8 serialize compress addr (l # ls) st =
     Option.bind (downlink_step L crc8 serialize compress addr l st)
       (downlink_steps L crc8 serialize compress addr ls)"

subsection \<open>The backlog\<close>

definition downlink_packet ::
  "(downlink \<Rightarrow> bytes option) \<Rightarrow> (bytes \<Rightarrow> bytes option) \<Rightarrow> broker_msg \<Rightarrow> bytes option" where
  "downlink_packet serialize compress b =
     Option.bind (downlink_extract b) (\<lambda>d. Option.bind (serialize d) (brotli_compress compress))"

definition showable :: "(bytes \<Rightarrow> u8) \<Rightarrow> broker_msg \<Rightarrow> bool" where
  "showable crc8 b \<longleftrightarrow> broker_coherent crc8 b \<and> (\<forall>l. b = GroundLog l \<longrightarrow> log_ascii l)"

lemma log_mail_showable: "log_mail b \<Longrightarrow> showable crc8 b"
  by (auto simp: log_mail_def showable_def)

lemma err_event_ok [simp]:
  "event_ok (err_event file line target err) \<longleftrightarrow> ascii (str file) \<and> ascii (str target) \<and> loggable err"
  by (auto simp: event_ok_def err_event_def metadata_ok_def)

lemma count_informational:
  "length (filter (\<lambda>(s, evs, md). informational md) (within scope evs))
    = length (filter (informational \<circ> snd) evs)"
  by (induction evs) (auto simp: within_def)

context log_texts_ascii
begin

text \<open>A handled message that can be packed is only logged at the level \<open>TRACE\<close>.\<close>

lemma handled_logs:
  assumes "showable crc8 b" and "downlink_packet serialize compress b = Some pkt"
    and "downlink_subscribed a"
  shows "\<exists>logs. downlink_logs L crc8 serialize compress b a = Some logs
    \<and> layer_logs informational True logs = Some []"
proof -
  obtain d where d: "downlink_extract b = Some d" "Option.bind (serialize d) (brotli_compress compress) = Some pkt"
    using assms(2) by (auto simp: downlink_packet_def bind_eq_Some_conv)
  obtain logs where logs: "downlink_logs L crc8 serialize compress b a = Some logs" "list_all logged_ok logs"
    using downlink_ok assms(1) unfolding showable_def by blast
  have "filter (\<lambda>(s, evs, md). informational md) logs = []"
    using logs(1) d assms(3)
    by (auto simp: downlink_logs_def bind_eq_Some_conv within_def downlink_at_def event_at_def)
  then show ?thesis using layer_logs_ok [OF logs(2), of informational True] logs(1) by auto
qed

lemma handle_one:
  assumes "dn_phase st = Serving" and "dn_mail st = b # bs" and "sender (dn_actor st) = Some s"
    and "downlink_subscribed (dn_actor st)" and "showable crc8 b"
    and "downlink_packet serialize compress b = Some pkt"
  shows "downlink_step L crc8 serialize compress addr (Handles None) st
    = Some (st\<lparr> dn_mail := bs, dn_sent := dn_sent st @ [(s, pkt)] \<rparr>)"
proof -
  obtain logs where "downlink_logs L crc8 serialize compress b (dn_actor st) = Some logs"
    "layer_logs informational True logs = Some []"
    using handled_logs [OF assms(5,6,4)] by blast
  moreover have "downlink_handle serialize compress b (dn_actor st) = SendTo s pkt"
    using assms(3,4,6)
    by (auto simp: downlink_handle_def gen_handle_def downlink_packet_def bind_eq_Some_conv
        split: option.split)
  ultimately show ?thesis using assms(1,2,4) by (simp add: log_back_def)
qed

lemma backlog_sent:
  assumes "dn_phase st = Serving" and "sender (dn_actor st) = Some s" and "downlink_subscribed (dn_actor st)"
    and "dn_mail st = bs" and "list_all (showable crc8) bs"
    and "map (downlink_packet serialize compress) bs = map Some pkts"
  shows "downlink_steps L crc8 serialize compress addr (replicate (length bs) (Handles None)) st
    = Some (st\<lparr> dn_mail := [], dn_sent := dn_sent st @ map (Pair s) pkts \<rparr>)"
  using assms
proof (induction bs arbitrary: st pkts)
  case (Cons b bs)
  obtain pkt pkts' where p: "pkts = pkt # pkts'" "downlink_packet serialize compress b = Some pkt"
    "map (downlink_packet serialize compress) bs = map Some pkts'"
    using Cons.prems(6) by (cases pkts) auto
  have "showable crc8 b" "list_all (showable crc8) bs" using Cons.prems(5) by simp_all
  note step = handle_one [OF Cons.prems(1,4,2,3) this(1) p(2), of addr]
  have "downlink_steps L crc8 serialize compress addr (replicate (length bs) (Handles None))
      (st\<lparr> dn_mail := bs, dn_sent := dn_sent st @ [(s, pkt)] \<rparr>)
    = Some (st\<lparr> dn_mail := [], dn_sent := dn_sent st @ map (Pair s) pkts \<rparr>)"
    using Cons.IH [of "st\<lparr> dn_mail := bs, dn_sent := dn_sent st @ [(s, pkt)] \<rparr>" pkts'] Cons.prems(1-3)
      \<open>list_all (showable crc8) bs\<close> p(1,3) by simp
  then show ?case using step by simp
qed simp

lemma logged_back:
  assumes "list_all logged_ok logs" and "downlink_subscribed (dn_actor st)"
  shows "\<exists>out. log_back logs st = Some (st\<lparr> dn_mail := dn_mail st @ out \<rparr>) \<and> list_all log_mail out
    \<and> length out = length (filter (\<lambda>(s, evs, md). informational md) logs)"
  using layer_logs_ok [OF assms(1), of informational True] assms(2) by (auto simp: log_back_def)

lemma failed_connection:
  assumes "dn_phase st = Connecting_Socket" and "downlink_subscribed (dn_actor st)" and "loggable addr"
  shows "\<exists>out. downlink_step L crc8 serialize compress addr (Connects (Inl e)) st
      = Some (st\<lparr> dn_mail := dn_mail st @ out \<rparr>) \<and> length out = 4 \<and> list_all log_mail out"
proof -
  let ?logs = "make_downlink_logs L addr (Some e) @ downlink_connected_logs False @ downlink_restarting_logs"
  have "list_all logged_ok ?logs"
    using assms(3)
    by (simp add: make_downlink_logs_def unix_connect_logs_def downlink_connected_logs_def
        downlink_restarting_logs_def)
  moreover have "length (filter (\<lambda>(s, evs, md). informational md) ?logs) = 4"
    by (simp add: make_downlink_logs_def unix_connect_logs_def downlink_connected_logs_def
        downlink_restarting_logs_def count_informational err_event_def event_at_def downlink_at_def)
  ultimately show ?thesis using logged_back [of ?logs st] assms(1,2) by auto
qed

lemma failed_connections:
  assumes "dn_phase st = Connecting_Socket" and "downlink_subscribed (dn_actor st)" and "loggable addr"
  shows "\<exists>out. downlink_steps L crc8 serialize compress addr (map (Connects \<circ> Inl) es) st
      = Some (st\<lparr> dn_mail := dn_mail st @ out \<rparr>) \<and> length out = 4 * length es \<and> list_all log_mail out"
  using assms
proof (induction es arbitrary: st)
  case (Cons e es)
  obtain out where o: "downlink_step L crc8 serialize compress addr (Connects (Inl e)) st
      = Some (st\<lparr> dn_mail := dn_mail st @ out \<rparr>)" "length out = 4" "list_all log_mail out"
    using failed_connection [OF Cons.prems] by blast
  obtain out' where o': "downlink_steps L crc8 serialize compress addr (map (Connects \<circ> Inl) es)
      (st\<lparr> dn_mail := dn_mail st @ out \<rparr>) = Some (st\<lparr> dn_mail := dn_mail st @ out @ out' \<rparr>)"
    "length out' = 4 * length es" "list_all log_mail out'"
    using Cons.IH [of "st\<lparr> dn_mail := dn_mail st @ out \<rparr>"] Cons.prems by (auto simp: comp_def)
  show ?case using o o'
    by (intro exI [of _ "out @ out'"]) (simp add: comp_def del: downlink_step.simps)
qed simp

text \<open>A failed send takes one message and adds three logs.\<close>

lemma failed_send:
  assumes "dn_phase st = Serving" and "dn_mail st = b # bs" and "sender (dn_actor st) = Some s"
    and "downlink_subscribed (dn_actor st)" and "showable crc8 b"
    and "downlink_packet serialize compress b = Some pkt"
  shows "\<exists>out. downlink_step L crc8 serialize compress addr (Handles (Some e)) st
      = Some (st\<lparr> dn_phase := Connecting_Socket, dn_mail := bs @ out \<rparr>)
    \<and> length out = 3 \<and> list_all log_mail out"
proof -
  let ?logs = "unix_send_logs L pkt e @ send_failed_logs L e @ downlink_restarting_logs"
  obtain logs where logs: "downlink_logs L crc8 serialize compress b (dn_actor st) = Some logs"
    "layer_logs informational True logs = Some []"
    using handled_logs [OF assms(5,6,4)] by blast
  have handle: "downlink_handle serialize compress b (dn_actor st) = SendTo s pkt"
    using assms(3,4,6)
    by (auto simp: downlink_handle_def gen_handle_def downlink_packet_def bind_eq_Some_conv
        split: option.split)
  have "list_all logged_ok ?logs"
    by (simp add: unix_send_logs_def send_failed_logs_def downlink_restarting_logs_def)
  moreover have "length (filter (\<lambda>(s, evs, md). informational md) ?logs) = 3"
    by (simp add: unix_send_logs_def send_failed_logs_def downlink_restarting_logs_def
        count_informational err_event_def event_at_def downlink_at_def)
  ultimately show ?thesis
    using logged_back [of ?logs "st\<lparr> dn_phase := Connecting_Socket, dn_mail := bs \<rparr>"] assms(1,2,4) logs handle
    by (auto simp: log_back_def)
qed

lemma connection:
  assumes "dn_phase st = Connecting_Socket" and "downlink_subscribed (dn_actor st)"
  shows "\<exists>out. downlink_step L crc8 serialize compress addr (Connects (Inr s)) st
      = Some (st\<lparr> dn_mail := dn_mail st @ out, dn_phase := Serving,
          dn_actor := \<lparr> sender = Some s, downlink_subscribed = True \<rparr> \<rparr>)
    \<and> length out = 1 \<and> list_all log_mail out"
proof -
  let ?logs = "make_downlink_logs L addr None @ downlink_connected_logs True"
  have "list_all logged_ok ?logs"
    by (simp add: make_downlink_logs_def unix_connect_logs_def downlink_connected_logs_def)
  moreover have "length (filter (\<lambda>(s, evs, md). informational md) ?logs) = 1"
    by (simp add: make_downlink_logs_def unix_connect_logs_def downlink_connected_logs_def
        count_informational event_at_def downlink_at_def)
  ultimately obtain out where out: "log_back ?logs st = Some (st\<lparr> dn_mail := dn_mail st @ out \<rparr>)"
    "length out = 1" "list_all log_mail out"
    using logged_back [of ?logs st] assms(2) by auto
  then show ?thesis using assms
    by (intro exI [of _ out]) (cases st; cases "dn_actor st"; simp add: downlink_connected_def)
qed

end

lemma downlink_steps_append:
  "downlink_steps L crc8 serialize compress addr (as @ bs) st =
    Option.bind (downlink_steps L crc8 serialize compress addr as st)
      (downlink_steps L crc8 serialize compress addr bs)"
  by (induction as arbitrary: st) (auto split: Option.bind_split)

text \<open>C36: the backlog of a downlink.  A subscribed downlink that cannot reach its socket adds four
  logs to its own mail with every attempt, without bound.  When it is connected at last, which
  it also logs, as many handled messages as there are empty its mailbox again, since sending
  logs nothing that the ground gets; all that was waiting has then been sent, in order.\<close>

theorem downlink_backlog:
  assumes "log_texts_ascii L" and "dn_phase st = Connecting_Socket"
    and "downlink_subscribed (dn_actor st)" and "loggable addr"
    and "list_all (showable crc8) (dn_mail st)" and "list_all (\<lambda>b. downlink_extract b \<noteq> None) (dn_mail st)"
    and "\<And>d. Option.bind (serialize d) (brotli_compress compress) \<noteq> None"
  shows "\<exists>logs. length logs = 4 * length es + 1 \<and> list_all log_mail logs
    \<and> downlink_steps L crc8 serialize compress addr
        (map (Connects \<circ> Inl) es @ [Connects (Inr s)]
          @ replicate (length (dn_mail st) + 4 * length es + 1) (Handles None)) st
      = Some (st\<lparr> dn_phase := Serving, dn_actor := \<lparr> sender = Some s, downlink_subscribed = True \<rparr>,
          dn_mail := [], dn_sent := dn_sent st
            @ map (\<lambda>b. (s, the (downlink_packet serialize compress b))) (dn_mail st @ logs) \<rparr>)"
proof -
  obtain out where out: "downlink_steps L crc8 serialize compress addr (map (Connects \<circ> Inl) es) st
      = Some (st\<lparr> dn_mail := dn_mail st @ out \<rparr>)" "length out = 4 * length es" "list_all log_mail out"
    using log_texts_ascii.failed_connections [OF assms(1-4)] by blast
  let ?st = "st\<lparr> dn_mail := dn_mail st @ out \<rparr>"
  obtain out' where out': "downlink_step L crc8 serialize compress addr (Connects (Inr s)) ?st
      = Some (?st\<lparr> dn_mail := dn_mail ?st @ out', dn_phase := Serving,
          dn_actor := \<lparr> sender = Some s, downlink_subscribed = True \<rparr> \<rparr>)"
    "length out' = 1" "list_all log_mail out'"
    using log_texts_ascii.connection [OF assms(1), of ?st] assms(2,3) by auto
  let ?logs = "out @ out'" and ?mail = "dn_mail st @ out @ out'"
  let ?up = "st\<lparr> dn_mail := ?mail, dn_phase := Serving,
    dn_actor := \<lparr> sender = Some s, downlink_subscribed = True \<rparr> \<rparr>"
  have "list_all (showable crc8) ?mail"
    using assms(5) out(3) out'(3) log_mail_showable by (auto simp: list_all_iff)
  moreover have "downlink_packet serialize compress b \<noteq> None" if "b \<in> set ?mail" for b
  proof -
    have "downlink_extract b \<noteq> None"
      using that assms(6) out(3) out'(3) by (auto simp: list_all_iff log_mail_def)
    then show ?thesis using assms(7) by (auto simp: downlink_packet_def)
  qed
  then have "map (downlink_packet serialize compress) ?mail
      = map Some (map (\<lambda>b. the (downlink_packet serialize compress b)) ?mail)"
    by auto
  ultimately have "downlink_steps L crc8 serialize compress addr (replicate (length ?mail) (Handles None)) ?up
      = Some (?up\<lparr> dn_mail := [], dn_sent := dn_sent ?up
          @ map (Pair s) (map (\<lambda>b. the (downlink_packet serialize compress b)) ?mail) \<rparr>)"
    by (intro log_texts_ascii.backlog_sent [OF assms(1)]) simp_all
  then have "downlink_steps L crc8 serialize compress addr
        (map (Connects \<circ> Inl) es @ [Connects (Inr s)] @ replicate (length ?mail) (Handles None)) st
      = Some (st\<lparr> dn_phase := Serving, dn_actor := \<lparr> sender = Some s, downlink_subscribed = True \<rparr>,
          dn_mail := [], dn_sent := dn_sent st
            @ map (\<lambda>b. (s, the (downlink_packet serialize compress b))) (dn_mail st @ ?logs) \<rparr>)"
    using out(1) out'(1) by (simp add: downlink_steps_append comp_def)
  then show ?thesis using out(2,3) out'(2,3)
    by (intro exI [of _ ?logs]) (simp add: add.assoc)
qed

theorem downlink_backlog_witness:
  "\<exists>logs st. length logs = 13 \<and> list_all log_mail logs
    \<and> downlink_steps sample_texts (\<lambda>_. 7) (\<lambda>_. Some [1]) Some (str ''/run/down'')
        (map (Connects \<circ> Inl) [OtherIo, NotFound, OtherIo] @ [Connects (Inr (5 :: nat))] @ replicate 14 (Handles None))
        \<lparr> dn_phase = Connecting_Socket, dn_actor = \<lparr> sender = Some 4, downlink_subscribed = True \<rparr>,
          dn_mail = [RawDownPacket [1, 2]], dn_sent = [] \<rparr> = Some st
    \<and> dn_mail st = [] \<and> length (dn_sent st) = 14"
proof -
  let ?st = "\<lparr> dn_phase = Connecting_Socket, dn_actor = \<lparr> sender = Some 4, downlink_subscribed = True \<rparr>,
    dn_mail = [RawDownPacket [1, 2]], dn_sent = [] \<rparr> :: nat downlink_state"
  have "loggable (str ''/run/down'')" by simp
  moreover have "list_all (showable (\<lambda>_. 7)) (dn_mail ?st)" by (simp add: showable_def)
  ultimately obtain logs where "length logs = 13" "list_all log_mail logs"
    "downlink_steps sample_texts (\<lambda>_. 7) (\<lambda>_. Some [1]) Some (str ''/run/down'')
        (map (Connects \<circ> Inl) [OtherIo, NotFound, OtherIo] @ [Connects (Inr 5)] @ replicate 14 (Handles None)) ?st
      = Some (?st\<lparr> dn_phase := Serving, dn_actor := \<lparr> sender = Some 5, downlink_subscribed = True \<rparr>,
          dn_mail := [], dn_sent := dn_sent ?st
            @ map (\<lambda>b. (5, the (downlink_packet (\<lambda>_. Some [1]) Some b))) (dn_mail ?st @ logs) \<rparr>)"
    using downlink_backlog [OF log_ref.log_texts_ascii_axioms, of ?st "str ''/run/down''" "\<lambda>_. 7"
        "\<lambda>_. Some [1]" Some "[OtherIo, NotFound, OtherIo]" 5]
    by (auto simp: brotli_compress_def)
  then show ?thesis by auto
qed

end
