(* ===== verification/Network.thy ===== *)
theory Network
  imports Ground
begin

text \<open>
  The datagram sockets of \<open>net/src\<close> over the system calls of the operating system, which are a
  parameter, with the sockets that \<open>src/src/main.rs\<close> and the console open.  A locale states
  what the program relies on of local datagram sockets; it is interpreted by the code's Unix
  sockets over a small reference system.
\<close>

subsection \<open>Calls that may fail\<close>

type_synonym ('w, 'a) io = "'w \<Rightarrow> (io_error + 'a) \<times> 'w"

definition io_return :: "'a \<Rightarrow> ('w, 'a) io" where
  "io_return x w = (Inr x, w)"

definition io_then :: "('w, 'a) io \<Rightarrow> ('a \<Rightarrow> ('w, 'b) io) \<Rightarrow> ('w, 'b) io" where
  "io_then f k w = (case f w of (Inl e, w') \<Rightarrow> (Inl e, w') | (Inr x, w') \<Rightarrow> k x w')"

lemma io_then_Inr: "f w = (Inr x, w') \<Longrightarrow> io_then f k w = k x w'"
  and io_then_Inl: "f w = (Inl e, w') \<Longrightarrow> io_then f k w = (Inl e, w')"
  by (simp_all add: io_then_def)

lemma io_then_cases:
  assumes "io_then f k w = (r, w2)"
  obtains (failed) e where "f w = (Inl e, w2)" "r = Inl e"
    | (passed) x w1 where "f w = (Inr x, w1)" "k x w1 = (r, w2)"
  using assms by (auto simp: io_then_def split: prod.splits sum.splits)

subsection \<open>The system\<close>

datatype shutdown_how = ShutdownRead | ShutdownWrite | ShutdownBoth

text \<open>\<open>os_recv\<close> is \<open>None\<close> while nothing has arrived; \<open>os_drop\<close> closes a socket that goes out of
  scope.\<close>

record ('a, 's, 'w) os_ops =
  os_parent :: "'a \<Rightarrow> 'a option"
  os_canonicalize :: "'a \<Rightarrow> 'w \<Rightarrow> 'a option"
  os_display :: "'a \<Rightarrow> rust_str"
  create_dir_all :: "'a \<Rightarrow> ('w, unit) io"
  remove_file :: "'a \<Rightarrow> ('w, unit) io"
  os_unbound :: "('w, 's) io"
  os_bind :: "'a \<Rightarrow> ('w, 's) io"
  os_connect :: "'s \<Rightarrow> 'a \<Rightarrow> ('w, unit) io"
  os_shutdown :: "'s \<Rightarrow> shutdown_how \<Rightarrow> ('w, unit) io"
  os_send :: "'s \<Rightarrow> bytes \<Rightarrow> ('w, nat) io"
  os_recv :: "'s \<Rightarrow> bytes \<Rightarrow> 'w \<Rightarrow> ((io_error + (nat \<times> bytes)) \<times> 'w) option"
  os_drop :: "'s \<Rightarrow> 'w \<Rightarrow> 'w"

subsection \<open>Datagram sockets\<close>

text \<open>The traits \<open>DatagramOps\<close>, \<open>DatagramSender\<close> and \<open>DatagramReceiver\<close>.\<close>

record ('a, 's, 'w) datagram_ops =
  dg_connect :: "'a \<Rightarrow> ('w, 's) io"
  dg_bind :: "'a \<Rightarrow> ('w, 's) io"
  dg_shutdown :: "'s \<Rightarrow> shutdown_how \<Rightarrow> ('w, unit) io"
  dg_display_addr :: "'a \<Rightarrow> 'w \<Rightarrow> rust_str"
  dg_send :: "'s \<Rightarrow> bytes \<Rightarrow> ('w, nat) io"
  dg_recv :: "'s \<Rightarrow> bytes \<Rightarrow> 'w \<Rightarrow> ((io_error + (nat \<times> bytes)) \<times> 'w) option"
  dg_drop :: "'s \<Rightarrow> 'w \<Rightarrow> 'w"

text \<open>Unix sockets.  A socket whose connection fails is closed.  Binding creates the directory of
  the address and removes a stale socket file; only its absence is no error.\<close>

definition unix_connect :: "('a, 's, 'w) os_ops \<Rightarrow> 'a \<Rightarrow> ('w, 's) io" where
  "unix_connect OS address =
     io_then (os_unbound OS) (\<lambda>sock w.
       (case os_connect OS sock address w of
          (Inl e, w') \<Rightarrow> (Inl e, os_drop OS sock w')
        | (Inr u, w') \<Rightarrow> (Inr sock, w')))"

definition unix_bind :: "('a, 's, 'w) os_ops \<Rightarrow> 'a \<Rightarrow> ('w, 's) io" where
  "unix_bind OS address =
     io_then (case os_parent OS address of None \<Rightarrow> io_return () | Some parent \<Rightarrow> create_dir_all OS parent)
       (\<lambda>_. io_then (\<lambda>w. case remove_file OS address w of
            (Inl e, w') \<Rightarrow> (if e = NotFound then Inr () else Inl e, w')
          | (Inr u, w') \<Rightarrow> (Inr u, w'))
       (\<lambda>_. os_bind OS address))"

definition unix_display_addr :: "('a, 's, 'w) os_ops \<Rightarrow> 'a \<Rightarrow> 'w \<Rightarrow> rust_str" where
  "unix_display_addr OS addr w =
     os_display OS (case os_canonicalize OS addr w of None \<Rightarrow> addr | Some a \<Rightarrow> a)"

definition unix_datagram :: "('a, 's, 'w) os_ops \<Rightarrow> ('a, 's, 'w) datagram_ops" where
  "unix_datagram OS = \<lparr> dg_connect = unix_connect OS, dg_bind = unix_bind OS,
     dg_shutdown = os_shutdown OS, dg_display_addr = unix_display_addr OS,
     dg_send = os_send OS, dg_recv = os_recv OS, dg_drop = os_drop OS \<rparr>"

text \<open>UDP sockets; \<open>any\<close> is the address \<open>127.0.0.1:0\<close>.  Shutting down does nothing.\<close>

definition udp_connect :: "('a, 's, 'w) os_ops \<Rightarrow> 'a \<Rightarrow> 'a \<Rightarrow> ('w, 's) io" where
  "udp_connect OS any address =
     io_then (os_bind OS any) (\<lambda>sock w.
       (case os_connect OS sock address w of
          (Inl e, w') \<Rightarrow> (Inl e, os_drop OS sock w')
        | (Inr u, w') \<Rightarrow> (Inr sock, w')))"

definition udp_shutdown :: "'s \<Rightarrow> shutdown_how \<Rightarrow> ('w, unit) io" where
  "udp_shutdown sock how = io_return ()"

definition udp_datagram :: "('a, 's, 'w) os_ops \<Rightarrow> 'a \<Rightarrow> ('a, 's, 'w) datagram_ops" where
  "udp_datagram OS any = \<lparr> dg_connect = udp_connect OS any, dg_bind = os_bind OS,
     dg_shutdown = udp_shutdown, dg_display_addr = (\<lambda>addr w. os_display OS addr),
     dg_send = os_send OS, dg_recv = os_recv OS, dg_drop = os_drop OS \<rparr>"

text \<open>The sender over a channel, whose own \<open>send\<close> fails when the receiver is gone.\<close>

definition channel_send :: "(bytes \<Rightarrow> 'c \<Rightarrow> bool \<times> 'c) \<Rightarrow> bytes \<Rightarrow> ('c, nat) io" where
  "channel_send send packet c =
     (let (ok, c') = send packet c
      in (if ok then Inr (length packet) else Inl ConnectionAborted, c'))"

text \<open>Binding ignores only a missing socket file.  When the directory can be created, the
  bind is reached exactly if removing the old file succeeds or finds none; every other error
  of the removal is returned, and the socket is not bound.\<close>

theorem unix_bind_removes_stale:
  assumes "os_parent OS addr = Some p"
    and "create_dir_all OS p w = (Inr (), w1)" and "remove_file OS addr w1 = (r, w2)"
  shows "unix_bind OS addr w =
    (case r of
       Inl NotFound \<Rightarrow> os_bind OS addr w2
     | Inl e \<Rightarrow> (Inl e, w2)
     | Inr u \<Rightarrow> os_bind OS addr w2)"
  using assms by (auto simp: unix_bind_def io_then_def split: sum.splits io_error.splits)

subsection \<open>Sockets that the program opens\<close>

text \<open>The closures of \<open>main\<close>: an error is logged, and the actor gets nothing.\<close>

definition ok_or_log :: "('w, 'x) io \<Rightarrow> 'w \<Rightarrow> 'x option \<times> 'w" where
  "ok_or_log f w = (case f w of (Inl e, w') \<Rightarrow> (None, w') | (Inr x, w') \<Rightarrow> (Some x, w'))"

definition make_port :: "('w, 'r \<times> 't) io \<Rightarrow> 'w \<Rightarrow> ('r \<times> 't) option \<times> 'w" where
  "make_port open_serial = ok_or_log open_serial"

definition make_uplink :: "('a, 's, 'w) datagram_ops \<Rightarrow> 'a \<Rightarrow> 'w \<Rightarrow> 's option \<times> 'w" where
  "make_uplink N addr = ok_or_log (dg_bind N addr)"

definition make_downlink :: "('a, 's, 'w) datagram_ops \<Rightarrow> 'a \<Rightarrow> 'w \<Rightarrow> 's option \<times> 'w" where
  "make_downlink N addr = ok_or_log (dg_connect N addr)"

text \<open>\<open>Uplink::started\<close>: the receiver with an empty buffer, or the actor stops.\<close>

definition uplink_started :: "'s option \<Rightarrow> ('s \<times> bytes) option" where
  "uplink_started result = map_option (\<lambda>receiver. (receiver, [])) result"

text \<open>An attempt of \<open>connect_once\<close>: the first address that connects; its socket is dropped.\<close>

fun probe :: "('a, 's, 'w) datagram_ops \<Rightarrow> 'a list \<Rightarrow> 'w \<Rightarrow> bool \<times> 'w" where
  "probe N [] w = (False, w)"
| "probe N (addr # addrs) w =
     (case dg_connect N addr w of
        (Inr sock, w') \<Rightarrow> (True, dg_drop N sock w')
      | (Inl e, w') \<Rightarrow> probe N addrs w')"

subsection \<open>What the program relies on\<close>

text \<open>
  A view of the sockets: those that were ever opened, whether one is still open, which one an
  address leads to, to which one a socket is connected, and what has arrived at it.
\<close>

record ('a, 's, 'w) net_view =
  nv_ok :: "'w \<Rightarrow> bool"
  nv_known :: "'w \<Rightarrow> 's set"
  nv_alive :: "'w \<Rightarrow> 's \<Rightarrow> bool"
  nv_bound :: "'w \<Rightarrow> 'a \<Rightarrow> 's option"
  nv_peer :: "'w \<Rightarrow> 's \<Rightarrow> 's option"
  nv_inbox :: "'w \<Rightarrow> 's \<Rightarrow> bytes list"

definition nv_same :: "('a, 's, 'w) net_view \<Rightarrow> 'w \<Rightarrow> 'w \<Rightarrow> 's \<Rightarrow> bool" where
  "nv_same V w w' t \<longleftrightarrow> nv_alive V w' t = nv_alive V w t \<and> nv_peer V w' t = nv_peer V w t
     \<and> nv_inbox V w' t = nv_inbox V w t"

text \<open>The sockets other than \<open>S\<close> are as they were.\<close>

definition nv_keeps :: "('a, 's, 'w) net_view \<Rightarrow> 's set \<Rightarrow> 'w \<Rightarrow> 'w \<Rightarrow> bool" where
  "nv_keeps V S w w' \<longleftrightarrow> nv_known V w \<subseteq> nv_known V w' \<and> (\<forall>t \<in> nv_known V w - S. nv_same V w w' t)"

definition nv_opened :: "('a, 's, 'w) net_view \<Rightarrow> 's \<Rightarrow> 's option \<Rightarrow> 'w \<Rightarrow> 'w \<Rightarrow> bool" where
  "nv_opened V s p w w' \<longleftrightarrow> s \<notin> nv_known V w \<and> s \<in> nv_known V w' \<and> nv_alive V w' s
     \<and> nv_peer V w' s = p \<and> nv_inbox V w' s = [] \<and> nv_keeps V {} w w'"

lemma nv_keepsD:
  assumes "nv_keeps V S w w'" and "t \<in> nv_known V w" and "t \<notin> S"
  shows "t \<in> nv_known V w'" and "nv_alive V w' t = nv_alive V w t"
    and "nv_peer V w' t = nv_peer V w t" and "nv_inbox V w' t = nv_inbox V w t"
  using assms unfolding nv_keeps_def nv_same_def by blast+

lemma nv_keeps_refl [simp]: "nv_keeps V S w w"
  by (simp add: nv_keeps_def nv_same_def)

lemma nv_keeps_trans: "nv_keeps V S w w1 \<Longrightarrow> nv_keeps V T w1 w2 \<Longrightarrow> nv_keeps V (S \<union> T) w w2"
  unfolding nv_keeps_def nv_same_def by fastforce

lemma nv_keeps_unknown: "nv_keeps V S w w' \<Longrightarrow> S \<inter> nv_known V w = {} \<Longrightarrow> nv_keeps V {} w w'"
  unfolding nv_keeps_def by fastforce

lemma nv_openedD:
  assumes "nv_opened V s p w w'"
  shows "s \<notin> nv_known V w" and "s \<in> nv_known V w'" and "nv_alive V w' s"
    and "nv_peer V w' s = p" and "nv_inbox V w' s = []" and "nv_keeps V {} w w'"
  using assms unfolding nv_opened_def by blast+

text \<open>
  Local datagram sockets.  Sockets are never reused; an address leads to the socket bound to it
  until the address is bound anew; connecting succeeds exactly to an open socket; a datagram
  goes to the socket that the sender was connected to, and sending fails when that is closed.
  Nothing is said of exhausted resources: a full queue makes a sender wait.
\<close>

locale datagram_laws =
  fixes N :: "('a, 's, 'w) datagram_ops" and V :: "('a, 's, 'w) net_view"
  assumes alive_known: "nv_ok V w \<Longrightarrow> nv_alive V w s \<Longrightarrow> s \<in> nv_known V w"
    and bound_known: "nv_ok V w \<Longrightarrow> nv_bound V w a = Some s \<Longrightarrow> s \<in> nv_known V w"
    and peer_known: "nv_ok V w \<Longrightarrow> nv_peer V w s = Some p \<Longrightarrow> p \<in> nv_known V w"
    and connect_keeps: "nv_ok V w \<Longrightarrow> dg_connect N a w = (r, w') \<Longrightarrow>
      nv_ok V w' \<and> nv_bound V w' = nv_bound V w \<and> nv_keeps V {} w w'"
    and connect_opens: "nv_ok V w \<Longrightarrow> dg_connect N a w = (Inr s, w') \<Longrightarrow>
      nv_opened V s (nv_bound V w a) w w'"
    and connect_succeeds: "nv_ok V w \<Longrightarrow>
      (\<exists>s w'. dg_connect N a w = (Inr s, w')) \<longleftrightarrow> (\<exists>p. nv_bound V w a = Some p \<and> nv_alive V w p)"
    and bind_keeps: "nv_ok V w \<Longrightarrow> dg_bind N a w = (r, w') \<Longrightarrow>
      nv_ok V w' \<and> nv_keeps V {} w w' \<and> (\<forall>b. b \<noteq> a \<longrightarrow> nv_bound V w' b = nv_bound V w b)
        \<and> (case r of Inl e \<Rightarrow> nv_bound V w' a \<in> {nv_bound V w a, None}
            | Inr s \<Rightarrow> nv_opened V s None w w' \<and> nv_bound V w' a = Some s)"
    and send_arrives: "nv_ok V w \<Longrightarrow> nv_alive V w s \<Longrightarrow> nv_peer V w s = Some p \<Longrightarrow> nv_alive V w p \<Longrightarrow>
      \<exists>w'. dg_send N s d w = (Inr (length d), w') \<and> nv_ok V w' \<and> nv_bound V w' = nv_bound V w
        \<and> nv_keeps V {p} w w' \<and> nv_alive V w' p \<and> nv_peer V w' p = nv_peer V w p
        \<and> nv_inbox V w' p = nv_inbox V w p @ [d]"
    and send_refused: "nv_ok V w \<Longrightarrow> nv_alive V w s \<Longrightarrow> nv_peer V w s = Some p \<Longrightarrow> \<not> nv_alive V w p \<Longrightarrow>
      \<exists>e. dg_send N s d w = (Inl e, w)"
    and recv_waits: "nv_ok V w \<Longrightarrow> nv_alive V w s \<Longrightarrow> nv_inbox V w s = [] \<Longrightarrow> dg_recv N s buf w = None"
    and recv_takes: "nv_ok V w \<Longrightarrow> nv_alive V w s \<Longrightarrow> nv_inbox V w s = d # ds \<Longrightarrow>
      socket_recv d buf = Some res \<Longrightarrow> \<exists>w'. dg_recv N s buf w = Some (res, w')
        \<and> nv_ok V w' \<and> nv_bound V w' = nv_bound V w \<and> nv_keeps V {s} w w' \<and> nv_alive V w' s
        \<and> nv_peer V w' s = nv_peer V w s \<and> nv_inbox V w' s = ds"
    and drop_closes: "nv_ok V w \<Longrightarrow> nv_ok V (dg_drop N s w) \<and> nv_bound V (dg_drop N s w) = nv_bound V w
      \<and> nv_keeps V {s} w (dg_drop N s w) \<and> \<not> nv_alive V (dg_drop N s w) s"
begin

text \<open>A probe leaves everything as it was, and succeeds exactly if some address leads to an open
  socket.\<close>

lemma probe_exact:
  assumes "nv_ok V w" and "probe N addrs w = (ok, w')"
  shows "nv_ok V w' \<and> nv_bound V w' = nv_bound V w \<and> nv_keeps V {} w w'
    \<and> (ok \<longleftrightarrow> (\<exists>a \<in> set addrs. \<exists>p. nv_bound V w a = Some p \<and> nv_alive V w p))"
  using assms
proof (induction addrs arbitrary: w)
  case Nil
  then show ?case by (simp add: nv_keeps_def nv_same_def)
next
  case (Cons a addrs)
  obtain r w1 where c: "dg_connect N a w = (r, w1)" by fastforce
  note k = connect_keeps [OF Cons.prems(1) c]
  show ?case
  proof (cases r)
    case (Inr s)
    note o = nv_openedD [OF connect_opens [OF Cons.prems(1) c [unfolded Inr]]]
    have w': "ok" "w' = dg_drop N s w1" using Cons.prems(2) c Inr by auto
    note d = drop_closes [OF conjunct1 [OF k], of s, folded w'(2)]
    have "nv_keeps V {} w w'"
      using nv_keeps_unknown [OF nv_keeps_trans [OF o(6), of "{s}" w']] d o(1) by simp
    moreover have "\<exists>p. nv_bound V w a = Some p \<and> nv_alive V w p"
      using connect_succeeds [OF Cons.prems(1), of a] c Inr by blast
    ultimately show ?thesis using d k w'(1) by simp
  next
    case (Inl e)
    then have "probe N addrs w1 = (ok, w')" using Cons.prems(2) c by simp
    from Cons.IH [OF _ this] k have ih: "nv_ok V w'" "nv_bound V w' = nv_bound V w" "nv_keeps V {} w1 w'"
      "ok \<longleftrightarrow> (\<exists>a \<in> set addrs. \<exists>p. nv_bound V w a = Some p \<and> nv_alive V w1 p)"
      by auto
    have "nv_alive V w1 p = nv_alive V w p" if "nv_bound V w b = Some p" for b p
      using nv_keepsD(2) [of V "{}" w w1 p] bound_known [OF Cons.prems(1) that] k by simp
    moreover have "nv_keeps V {} w w'" using nv_keeps_trans [of V "{}" w w1 "{}" w'] k ih(3) by simp
    moreover have "\<not> (\<exists>p. nv_bound V w a = Some p \<and> nv_alive V w p)"
      using connect_succeeds [OF Cons.prems(1), of a] c Inl by simp
    ultimately show ?thesis using ih(1,2,4) by (metis insertE list.simps(15) list.set_intros(2))
  qed
qed

text \<open>A downlink gets a socket exactly if an attempt of \<open>connect_once\<close> for its address would succeed.\<close>

lemma make_downlink_exact:
  assumes "nv_ok V w" and "make_downlink N addr w = (r, w')"
  shows "nv_ok V w' \<and> nv_bound V w' = nv_bound V w \<and> (r \<noteq> None \<longleftrightarrow> fst (probe N [addr] w))"
proof -
  obtain c w1 where c: "dg_connect N addr w = (c, w1)" by fastforce
  show ?thesis using assms(2) connect_keeps [OF assms(1) c] c
    by (cases c) (auto simp: make_downlink_def ok_or_log_def)
qed

text \<open>The uplink's address leads to the socket that it gets.\<close>

lemma make_uplink_bound:
  assumes "nv_ok V w" and "make_uplink N addr w = (Some u, w')"
  shows "nv_ok V w' \<and> nv_bound V w' addr = Some u \<and> nv_alive V w' u \<and> nv_inbox V w' u = []"
proof -
  have "dg_bind N addr w = (Inr u, w')"
    using assms(2) by (auto simp: make_uplink_def ok_or_log_def split: prod.splits sum.splits)
  from bind_keeps [OF assms(1) this] show ?thesis by (auto dest: nv_openedD)
qed

end

subsection \<open>A reference system\<close>

text \<open>Socket files and sockets; the next socket is the number of those ever opened.\<close>

record unix_sock =
  us_peer :: "nat option"
  us_inbox :: "bytes list"

record unix_world =
  uw_files :: "string \<Rightarrow> nat option"
  uw_socks :: "nat \<Rightarrow> unix_sock option"
  uw_next :: nat

definition unix_world_new :: unix_world where
  "unix_world_new = \<lparr> uw_files = Map.empty, uw_socks = Map.empty, uw_next = 0 \<rparr>"

definition uw_open :: "unix_world \<Rightarrow> unix_world" where
  "uw_open w = w\<lparr> uw_socks := (uw_socks w)(uw_next w \<mapsto> \<lparr> us_peer = None, us_inbox = [] \<rparr>),
     uw_next := Suc (uw_next w) \<rparr>"

definition uw_open_at :: "unix_world \<Rightarrow> string \<Rightarrow> nat option" where
  "uw_open_at w a = Option.bind (uw_files w a) (\<lambda>p. if uw_socks w p = None then None else Some p)"

definition reference_os :: "(string, nat, unix_world) os_ops" where
  "reference_os = \<lparr>
     os_parent = (\<lambda>a. None), os_canonicalize = (\<lambda>a w. None), os_display = str,
     create_dir_all = (\<lambda>a. io_return ()),
     remove_file = (\<lambda>a w. if uw_files w a = None then (Inl NotFound, w)
       else (Inr (), w\<lparr> uw_files := (uw_files w)(a := None) \<rparr>)),
     os_unbound = (\<lambda>w. (Inr (uw_next w), uw_open w)),
     os_bind = (\<lambda>a w. if uw_files w a \<noteq> None then (Inl OtherIo, w)
       else (Inr (uw_next w), (uw_open w)\<lparr> uw_files := (uw_files w)(a \<mapsto> uw_next w) \<rparr>)),
     os_connect = (\<lambda>s a w. case (uw_open_at w a, uw_socks w s) of
         (Some p, Some k) \<Rightarrow> (Inr (), w\<lparr> uw_socks := (uw_socks w)(s \<mapsto> k\<lparr> us_peer := Some p \<rparr>) \<rparr>)
       | _ \<Rightarrow> (Inl NotFound, w)),
     os_shutdown = (\<lambda>s how. io_return ()),
     os_send = (\<lambda>s d w. case Option.bind (uw_socks w s) us_peer of
         None \<Rightarrow> (Inl OtherIo, w)
       | Some p \<Rightarrow>
           (case uw_socks w p of
              None \<Rightarrow> (Inl ConnectionAborted, w)
            | Some k \<Rightarrow> (Inr (length d),
                w\<lparr> uw_socks := (uw_socks w)(p \<mapsto> k\<lparr> us_inbox := us_inbox k @ [d] \<rparr>) \<rparr>))),
     os_recv = (\<lambda>s buf w. case uw_socks w s of
         None \<Rightarrow> Some (Inl OtherIo, w)
       | Some k \<Rightarrow>
           (case us_inbox k of
              [] \<Rightarrow> None
            | d # ds \<Rightarrow> map_option (\<lambda>r. (r, w\<lparr> uw_socks := (uw_socks w)(s \<mapsto> k\<lparr> us_inbox := ds \<rparr>) \<rparr>))
                (socket_recv d buf))),
     os_drop = (\<lambda>s w. w\<lparr> uw_socks := (uw_socks w)(s := None) \<rparr>) \<rparr>"

definition reference_net :: "(string, nat, unix_world) datagram_ops" where
  "reference_net = unix_datagram reference_os"

definition reference_view :: "(string, nat, unix_world) net_view" where
  "reference_view = \<lparr>
     nv_ok = (\<lambda>w. (\<forall>s \<in> dom (uw_socks w) \<union> ran (uw_files w). s < uw_next w)
       \<and> (\<forall>k \<in> ran (uw_socks w). \<forall>p. us_peer k = Some p \<longrightarrow> p < uw_next w)),
     nv_known = (\<lambda>w. {..<uw_next w}),
     nv_alive = (\<lambda>w s. uw_socks w s \<noteq> None),
     nv_bound = uw_files,
     nv_peer = (\<lambda>w s. Option.bind (uw_socks w s) us_peer),
     nv_inbox = (\<lambda>w s. case uw_socks w s of None \<Rightarrow> [] | Some k \<Rightarrow> us_inbox k) \<rparr>"

lemmas reference_defs = reference_net_def reference_os_def unix_datagram_def
  io_return_def

lemma reference_connect:
  "dg_connect reference_net a w =
     (case uw_open_at w a of
        None \<Rightarrow> (Inl NotFound, (uw_open w)\<lparr> uw_socks := (uw_socks w)(uw_next w := None) \<rparr>)
      | Some p \<Rightarrow> (Inr (uw_next w), (uw_open w)\<lparr> uw_socks := (uw_socks w)(uw_next w \<mapsto>
          \<lparr> us_peer = Some p, us_inbox = [] \<rparr>) \<rparr>))"
  if "\<And>p. uw_files w a = Some p \<Longrightarrow> p < uw_next w"
proof -
  have "uw_open_at (uw_open w) a = uw_open_at w a"
    using that by (auto simp: uw_open_at_def uw_open_def split: bind_splits)
  then show ?thesis
    by (auto simp: reference_defs unix_connect_def io_then_def uw_open_def split: option.splits)
qed

lemma reference_bind:
  "dg_bind reference_net a w =
     (Inr (uw_next w), (uw_open w)\<lparr> uw_files := (uw_files w)(a \<mapsto> uw_next w) \<rparr>)"
  by (simp add: reference_defs unix_bind_def io_then_def uw_open_def)

definition uw_ok :: "unix_world \<Rightarrow> bool" where
  "uw_ok w \<longleftrightarrow> (\<forall>s \<in> dom (uw_socks w) \<union> ran (uw_files w). s < uw_next w)
     \<and> (\<forall>k \<in> ran (uw_socks w). \<forall>p. us_peer k = Some p \<longrightarrow> p < uw_next w)"

lemma reference_view_sel [simp]:
  "nv_ok reference_view w = uw_ok w" "nv_known reference_view w = {..<uw_next w}"
  "nv_alive reference_view w s \<longleftrightarrow> uw_socks w s \<noteq> None" "nv_bound reference_view = uw_files"
  "nv_peer reference_view w s = Option.bind (uw_socks w s) us_peer"
  "nv_inbox reference_view w s = (case uw_socks w s of None \<Rightarrow> [] | Some k \<Rightarrow> us_inbox k)"
  by (simp_all add: reference_view_def uw_ok_def)

lemma uw_okD:
  assumes "uw_ok w"
  shows "uw_socks w s = Some k \<Longrightarrow> s < uw_next w"
    and "uw_files w a = Some s \<Longrightarrow> s < uw_next w"
    and "uw_socks w s = Some k \<Longrightarrow> us_peer k = Some p \<Longrightarrow> p < uw_next w"
  using assms unfolding uw_ok_def by (blast intro: ranI domI)+

lemma uw_okI:
  assumes "\<And>s k. uw_socks w s = Some k \<Longrightarrow> s < uw_next w"
    and "\<And>a s. uw_files w a = Some s \<Longrightarrow> s < uw_next w"
    and "\<And>s k p. uw_socks w s = Some k \<Longrightarrow> us_peer k = Some p \<Longrightarrow> p < uw_next w"
  shows "uw_ok w"
  using assms unfolding uw_ok_def by (auto simp: ran_def dom_def)

lemma uw_fresh: "uw_ok w \<Longrightarrow> uw_socks w (uw_next w) = None"
  using uw_okD(1) [of w "uw_next w"] by (cases "uw_socks w (uw_next w)") auto

lemma reference_connect_keeps:
  assumes "uw_ok w" and "dg_connect reference_net a w = (r, w')"
  shows "uw_ok w' \<and> uw_files w' = uw_files w \<and> nv_keeps reference_view {} w w'"
  using assms(2) reference_connect [of w a, OF uw_okD(2) [OF assms(1)]] uw_fresh [OF assms(1)] uw_okD [OF assms(1)]
  by (auto simp: uw_open_def uw_open_at_def nv_keeps_def nv_same_def less_Suc_eq
      intro!: uw_okI split: option.splits if_splits bind_splits)

lemma reference_connect_opens:
  assumes "uw_ok w" and "dg_connect reference_net a w = (Inr s, w')"
  shows "nv_opened reference_view s (uw_files w a) w w'"
  using assms(2) reference_connect [of w a, OF uw_okD(2) [OF assms(1)]] uw_fresh [OF assms(1)] uw_okD [OF assms(1)]
  by (auto simp: uw_open_def uw_open_at_def nv_opened_def nv_keeps_def nv_same_def
      split: option.splits if_splits bind_splits)

lemma reference_bind_opens:
  assumes "uw_ok w" and "dg_bind reference_net a w = (r, w')"
  shows "uw_ok w' \<and> nv_opened reference_view (uw_next w) None w w' \<and> r = Inr (uw_next w)
    \<and> uw_files w' = (uw_files w)(a \<mapsto> uw_next w)"
  using assms(2) uw_fresh [OF assms(1)] uw_okD [OF assms(1)]
  by (auto simp: reference_bind uw_open_def nv_opened_def nv_keeps_def nv_same_def less_Suc_eq
      intro!: uw_okI split: if_splits)

text \<open>A change of one socket that keeps its peer.\<close>

lemma reference_changes:
  assumes "uw_ok w" and "uw_socks w p = Some k" and "us_peer k' = us_peer k"
    and "w' = w\<lparr> uw_socks := (uw_socks w)(p \<mapsto> k') \<rparr>"
  shows "uw_ok w' \<and> nv_keeps reference_view {p} w w'"
  using assms uw_okD [OF assms(1)]
  by (auto simp: nv_keeps_def nv_same_def intro!: uw_okI split: if_splits bind_splits)

interpretation reference: datagram_laws reference_net reference_view
proof (unfold_locales, goal_cases)
  case (1 w s)
  then show ?case using uw_okD(1) by fastforce
next
  case (2 w a s)
  then show ?case using uw_okD(2) by fastforce
next
  case (3 w s p)
  then show ?case using uw_okD(3) by (fastforce split: bind_splits)
next
  case (4 w a r w')
  then show ?case using reference_connect_keeps by simp
next
  case (5 w a s w')
  then show ?case using reference_connect_opens by simp
next
  case (6 w a)
  then show ?case using reference_connect [of w a] uw_okD(2) [of w a]
    by (auto simp: uw_open_at_def split: option.splits bind_splits if_splits)
next
  case (7 w a r w')
  then show ?case using reference_bind_opens [of w a r w'] by (simp add: nv_opened_def)
next
  case (8 w s p d)
  then obtain k where k: "uw_socks w p = Some k" by auto
  from reference_changes [OF _ k _ refl, of "k\<lparr> us_inbox := us_inbox k @ [d] \<rparr>"] 8 k
  show ?case by (auto simp: reference_defs split: bind_splits)
next
  case (9 w s p d)
  then show ?case by (auto simp: reference_defs split: bind_splits)
next
  case (10 w s buf)
  then show ?case by (auto simp: reference_defs)
next
  case (11 w s d ds buf res)
  then obtain k where k: "uw_socks w s = Some k" "us_inbox k = d # ds" by auto
  from reference_changes [OF _ k(1) _ refl, of "k\<lparr> us_inbox := ds \<rparr>"] 11(1,4) k
  show ?case by (simp add: reference_defs)
next
  case (12 w s)
  then show ?case using uw_okD [of w]
    by (auto simp: reference_defs nv_keeps_def nv_same_def intro!: uw_okI split: if_splits bind_splits)
qed

theorem unix_bind_removes_stale_witness:
  "unix_bind (reference_os\<lparr> os_parent := (\<lambda>a. Some ''/run'') \<rparr>) ''/run/up'' unix_world_new
    = os_bind reference_os ''/run/up'' unix_world_new"
  using unix_bind_removes_stale [of "reference_os\<lparr> os_parent := (\<lambda>a. Some ''/run'') \<rparr>" "''/run/up''" "''/run''"
      unix_world_new unix_world_new "Inl NotFound" unix_world_new]
  by (simp add: reference_os_def io_return_def unix_world_new_def)

end
