(* ===== verification/Relay_Main.thy ===== *)
theory Relay_Main
  imports Log_Runs Network
begin

text \<open>
  The relay from its command line on: the options of \<open>src/options.rs\<close> and of the consoles
  (\<open>src/bin/console/options.rs\<close>, \<open>src/bin/serial_console/options.rs\<close>), the set-up at the start of
  \<open>main\<close> (\<open>src/main.rs\<close>), and the runs of \<open>main\<close>, which starts its actors, waits in
  \<open>connect_once\<close> (\<open>src/lib.rs\<close>) and starts the downlinks when a ground socket has answered.
  The parser of the command line (the crate \<open>structopt\<close>) is a parameter, with the locale
  \<open>arg_parser\<close> of what the attributes promise.
\<close>

subsection \<open>Options\<close>

text \<open>What an attribute says of an argument: its names, whether it is a flag, has one value or any
  number, whether it is required, its default, and which values the field's type accepts.\<close>

datatype arg_kind = ArgFlag | ArgOne | ArgMany

record arg_spec =
  arg_long :: string
  arg_short :: "char option"
  arg_kind :: arg_kind
  arg_required :: bool
  arg_default :: "string option"
  arg_valid :: "rust_str \<Rightarrow> bool"

text \<open>\<open>FromStr\<close> of \<open>u32\<close>: digits, perhaps behind a plus sign, that do not overflow.\<close>

definition u32_from_str :: "rust_str \<Rightarrow> u32 option" where
  "u32_from_str s =
     (let ds = (case s of c # t \<Rightarrow> if c = 0x2b then t else s | [] \<Rightarrow> [])
      in if ds \<noteq> [] \<and> list_all (\<lambda>c. 0x30 \<le> c \<and> c \<le> 0x39) ds \<and> dec_value ds < 2 ^ 32
         then Some (of_nat (dec_value ds)) else None)"

definition required_arg :: "string \<Rightarrow> char option \<Rightarrow> arg_kind \<Rightarrow> (rust_str \<Rightarrow> bool) \<Rightarrow> arg_spec" where
  "required_arg long short kind ok = \<lparr> arg_long = long, arg_short = short, arg_kind = kind,
     arg_required = True, arg_default = None, arg_valid = ok \<rparr>"

definition baud_arg :: "char option \<Rightarrow> arg_spec" where
  "baud_arg short = \<lparr> arg_long = ''baud'', arg_short = short, arg_kind = ArgOne,
     arg_required = False, arg_default = Some ''115200'', arg_valid = (\<lambda>v. u32_from_str v \<noteq> None) \<rparr>"

definition relay_args :: "(rust_str \<Rightarrow> 'a option) \<Rightarrow> arg_spec list" where
  "relay_args address = [
     required_arg ''downlink'' None ArgMany (\<lambda>v. address v \<noteq> None),
     required_arg ''uplink'' None ArgOne (\<lambda>v. address v \<noteq> None),
     required_arg ''serial-port'' (Some CHR ''s'') ArgOne (\<lambda>_. True),
     baud_arg (Some CHR ''b''),
     \<lparr> arg_long = ''pretty'', arg_short = None, arg_kind = ArgFlag, arg_required = False,
       arg_default = None, arg_valid = (\<lambda>_. True) \<rparr>]"

definition console_args :: "(rust_str \<Rightarrow> 'a option) \<Rightarrow> arg_spec list" where
  "console_args address = [
     required_arg ''uplink'' None ArgOne (\<lambda>v. address v \<noteq> None),
     required_arg ''downlink'' None ArgOne (\<lambda>v. address v \<noteq> None)]"

definition serial_console_args :: "arg_spec list" where
  "serial_console_args = [required_arg ''serial_port'' None ArgOne (\<lambda>_. True), baud_arg None]"

text \<open>The values of each argument, by its long name; a flag that is given has one, empty value.\<close>

type_synonym arg_values = "string \<Rightarrow> rust_str list"

definition one_value :: "arg_values \<Rightarrow> string \<Rightarrow> rust_str option" where
  "one_value get name = (case get name of [] \<Rightarrow> None | v # vs \<Rightarrow> Some v)"

record 'a relay_options =
  downlink_addresses :: "'a list"
  uplink_address :: 'a
  serial_port :: rust_str
  baud :: u32
  pretty :: bool

record 'a console_options =
  console_uplink :: 'a
  console_downlink :: 'a

record serial_console_options =
  console_port :: rust_str
  console_baud :: u32

text \<open>The derived conversions; a missing value is a panic (\<open>None\<close>).\<close>

definition relay_options_from :: "(rust_str \<Rightarrow> 'a option) \<Rightarrow> arg_values \<Rightarrow> 'a relay_options option" where
  "relay_options_from address get =
     Option.bind (those (map address (get ''downlink''))) (\<lambda>ds.
     Option.bind (Option.bind (one_value get ''uplink'') address) (\<lambda>u.
     Option.bind (one_value get ''serial-port'') (\<lambda>port.
     map_option (\<lambda>n. \<lparr> downlink_addresses = ds, uplink_address = u, serial_port = port, baud = n,
         pretty = (get ''pretty'' \<noteq> []) \<rparr>)
       (Option.bind (one_value get ''baud'') u32_from_str))))"

definition console_options_from :: "(rust_str \<Rightarrow> 'a option) \<Rightarrow> arg_values \<Rightarrow> 'a console_options option" where
  "console_options_from address get =
     Option.bind (Option.bind (one_value get ''uplink'') address) (\<lambda>u.
     map_option (\<lambda>d. \<lparr> console_uplink = u, console_downlink = d \<rparr>)
       (Option.bind (one_value get ''downlink'') address))"

definition serial_console_options_from :: "arg_values \<Rightarrow> serial_console_options option" where
  "serial_console_options_from get =
     Option.bind (one_value get ''serial_port'') (\<lambda>port.
     map_option (\<lambda>n. \<lparr> console_port = port, console_baud = n \<rparr>)
       (Option.bind (one_value get ''baud'') u32_from_str))"

text \<open>\<open>from_args\<close>: without a result the process prints how it is used and ends.\<close>

type_synonym clap = "arg_spec list \<Rightarrow> rust_str list \<Rightarrow> arg_values option"

definition arg_kept :: "arg_values \<Rightarrow> arg_spec \<Rightarrow> bool" where
  "arg_kept get sp \<longleftrightarrow> (arg_required sp \<longrightarrow> get (arg_long sp) \<noteq> [])
     \<and> (arg_kind sp = ArgOne \<longrightarrow> length (get (arg_long sp)) \<le> 1)
     \<and> (arg_default sp \<noteq> None \<longrightarrow> get (arg_long sp) \<noteq> [])
     \<and> list_all (arg_valid sp) (get (arg_long sp))"

locale arg_parser =
  fixes clap :: clap
  assumes parsed: "clap specs args = Some get \<Longrightarrow> sp \<in> set specs \<Longrightarrow> arg_kept get sp"
begin

lemma value_of:
  assumes "clap specs args = Some get" and "sp \<in> set specs"
    and "arg_required sp \<or> arg_default sp \<noteq> None"
  shows "\<exists>v. one_value get (arg_long sp) = Some v \<and> arg_valid sp v"
  using parsed [OF assms(1,2)] assms(3)
  by (cases "get (arg_long sp)") (auto simp: arg_kept_def one_value_def)

lemma those_valid:
  assumes "list_all (\<lambda>v. f v \<noteq> None) vs"
  shows "\<exists>xs. those (map f vs) = Some xs \<and> length xs = length vs"
  using assms by (induction vs) auto

lemma relay_options_total:
  assumes "clap (relay_args address) args = Some get"
  shows "\<exists>opts. relay_options_from address get = Some opts \<and> downlink_addresses opts \<noteq> []"
proof -
  have kept: "arg_kept get (required_arg ''downlink'' None ArgMany (\<lambda>v. address v \<noteq> None))"
    by (rule parsed [OF assms]) (simp add: relay_args_def)
  then obtain ds where ds: "those (map address (get ''downlink'')) = Some ds"
    "length ds = length (get ''downlink'')" "get ''downlink'' \<noteq> []"
    using those_valid [of address "get ''downlink''"] by (auto simp: arg_kept_def required_arg_def)
  note val = value_of [OF assms]
  obtain u where "one_value get ''uplink'' = Some u" "address u \<noteq> None"
    using val [of "required_arg ''uplink'' None ArgOne (\<lambda>v. address v \<noteq> None)"]
    by (auto simp: relay_args_def required_arg_def)
  moreover obtain p where "one_value get ''serial-port'' = Some p"
    using val [of "required_arg ''serial-port'' (Some CHR ''s'') ArgOne (\<lambda>_. True)"]
    by (auto simp: relay_args_def required_arg_def)
  moreover obtain n where "one_value get ''baud'' = Some n" "u32_from_str n \<noteq> None"
    using val [of "baud_arg (Some CHR ''b'')"] by (auto simp: relay_args_def baud_arg_def)
  ultimately show ?thesis using ds by (auto simp: relay_options_from_def)
qed

lemma console_options_total:
  assumes "clap (console_args address) args = Some get"
  shows "\<exists>opts. console_options_from address get = Some opts"
proof -
  note val = value_of [OF assms]
  obtain u where "one_value get ''uplink'' = Some u" "address u \<noteq> None"
    using val [of "required_arg ''uplink'' None ArgOne (\<lambda>v. address v \<noteq> None)"]
    by (auto simp: console_args_def required_arg_def)
  moreover obtain d where "one_value get ''downlink'' = Some d" "address d \<noteq> None"
    using val [of "required_arg ''downlink'' None ArgOne (\<lambda>v. address v \<noteq> None)"]
    by (auto simp: console_args_def required_arg_def)
  ultimately show ?thesis by (auto simp: console_options_from_def)
qed

lemma serial_console_options_total:
  assumes "clap serial_console_args args = Some get"
  shows "\<exists>opts. serial_console_options_from get = Some opts"
proof -
  note val = value_of [OF assms]
  obtain p where "one_value get ''serial_port'' = Some p"
    using val [of "required_arg ''serial_port'' None ArgOne (\<lambda>_. True)"]
    by (auto simp: serial_console_args_def required_arg_def)
  moreover obtain n where "one_value get ''baud'' = Some n" "u32_from_str n \<noteq> None"
    using val [of "baud_arg None"] by (auto simp: serial_console_args_def baud_arg_def)
  ultimately show ?thesis by (auto simp: serial_console_options_from_def)
qed

end

lemma dec_text_all_digits: "list_all (\<lambda>c. 0x30 \<le> c \<and> c \<le> 0x39) (dec_text n)"
  using dec_text_digits by (fastforce simp: list_all_iff)

lemma u32_from_dec_text: "u32_from_str (dec_text (unat n)) = Some n"
proof -
  obtain c t where ct: "dec_text (unat n) = c # t"
    using length_dec_text [of "unat n"] by (cases "dec_text (unat n)") auto
  then have "c \<noteq> 0x2b" using dec_text_all_digits [of "unat n"] by auto
  moreover have "unat n < 2 ^ 32" using unsigned_less [of n] by simp
  ultimately show ?thesis
    using dec_text_all_digits [of "unat n"] dec_value_text [of "unat n"]
    by (simp add: u32_from_str_def Let_def ct)
qed

text \<open>A direct parser: options with their values, long or short, in any order.\<close>

definition arg_named :: "rust_str \<Rightarrow> arg_spec \<Rightarrow> bool" where
  "arg_named a sp \<longleftrightarrow> a = str (''--'' @ arg_long sp)
     \<or> (case arg_short sp of None \<Rightarrow> False | Some c \<Rightarrow> a = str [CHR ''-'', c])"

fun scan_args :: "arg_spec list \<Rightarrow> rust_str list \<Rightarrow> arg_values \<Rightarrow> arg_values option" where
  "scan_args specs [] get = Some get"
| "scan_args specs (a # args) get =
     (case List.find (arg_named a) specs of
        None \<Rightarrow> None
      | Some sp \<Rightarrow>
          if arg_kind sp = ArgFlag then scan_args specs args (get(arg_long sp := [[]]))
          else (case args of
                  [] \<Rightarrow> None
                | v # args' \<Rightarrow> scan_args specs args' (get(arg_long sp := get (arg_long sp) @ [v]))))"

definition fill_default :: "arg_spec \<Rightarrow> arg_values \<Rightarrow> arg_values" where
  "fill_default sp get =
     (case arg_default sp of
        Some d \<Rightarrow> if get (arg_long sp) = [] then get(arg_long sp := [str d]) else get
      | None \<Rightarrow> get)"

definition reference_clap :: clap where
  "reference_clap specs args =
     Option.bind (scan_args specs args (\<lambda>_. [])) (\<lambda>get.
       let get' = fold fill_default specs get
       in if list_all (arg_kept get') specs then Some get' else None)"

interpretation reference_parser: arg_parser reference_clap
  by unfold_locales (auto simp: reference_clap_def Let_def list_all_iff bind_eq_Some_conv split: if_splits)

subsection \<open>The set-up\<close>

text \<open>The line that says what is started, and the first event of the log.\<close>

definition starting_line :: "build_env \<Rightarrow> rust_str option" where
  "starting_line E =
     Option.bind (COMMIT_HASH_SHORT E) (\<lambda>commit. map_option (\<lambda>rustc.
         bootstrap (str ''starting '' @ PACKAGE @ str '' '' @ VERSION E @ str '' ('' @ commit
           @ str '', built at '' @ BUILD_TIMESTAMP E @ str '' with rustc '' @ rustc @ str '')''))
       (RUSTC_COMMIT_HASH_SHORT E))"

definition main_event :: "nat \<Rightarrow> tracing_level \<Rightarrow> attributes \<Rightarrow> string \<Rightarrow> attributes \<times> metadata" where
  "main_event line = event_at ''src/main.rs'' line ''antrelay''"

definition started_logs :: "build_env \<Rightarrow> logged list option" where
  "started_logs E =
     Option.bind (COMMIT_HASH_SHORT E) (\<lambda>commit. map_option (\<lambda>rustc.
         within [] [main_event 50 TracingInfo
           [shown ''application'' PACKAGE, shown ''version'' (VERSION E), shown ''build_commit'' commit,
            shown ''built_at'' (BUILD_TIMESTAMP E), shown ''using_rustc'' rustc]
           ''tracing subsystem initialized''])
       (RUSTC_COMMIT_HASH_SHORT E))"

text \<open>The downlink layer is not yet active, so it drops the event.\<close>

definition downlink_layers :: "'f env_filter_ops \<Rightarrow> 'f trace_layer list \<Rightarrow> (metadata \<Rightarrow> bool) list" where
  "downlink_layers F layers =
     concat (map (\<lambda>l. case l of DownlinkLayer f \<Rightarrow> [filter_enabled F f] | _ \<Rightarrow> []) layers)"

datatype ('a, 'f) main_setup =
    SetupPanics
  | UsageExit
  | SetupDone "'a relay_options" "'f trace_layer list" "broker_msg list"

definition main_setup ::
  "clap \<Rightarrow> (rust_str \<Rightarrow> 'a option) \<Rightarrow> 'f env_filter_ops \<Rightarrow> build_env \<Rightarrow> bool \<Rightarrow> bool
     \<Rightarrow> rust_str option \<Rightarrow> rust_str list \<Rightarrow> rust_str list \<times> ('a, 'f) main_setup" where
  "main_setup clap address F E debug_assertions tokio_unstable rust_log args =
     (case (starting_line E, started_logs E) of
        (Some line, Some logs) \<Rightarrow>
          (case clap (relay_args address) args of
             None \<Rightarrow> ([line], UsageExit)
           | Some get \<Rightarrow>
               (case relay_options_from address get of
                  None \<Rightarrow> ([line], SetupPanics)
                | Some opts \<Rightarrow>
                    (case trace_init F debug_assertions tokio_unstable rust_log (pretty opts) of
                       (lines, None) \<Rightarrow> (line # lines, SetupPanics)
                     | (lines, Some layers) \<Rightarrow>
                         (line # lines,
                          case those (map (\<lambda>enabled. layer_logs enabled False logs) (downlink_layers F layers)) of
                            None \<Rightarrow> SetupPanics
                          | Some out \<Rightarrow> SetupDone opts layers (concat out)))))
      | _ \<Rightarrow> ([], SetupPanics))"

lemma trace_init_parts:
  assumes "env_filter_laws F"
  shows "\<exists>line layers. trace_init F debug unstable rust_log is_pretty = ([line], Some layers)"
proof -
  obtain f c where "downlink_filter F = Some f" "filter_from_str F (console_default debug) = Some c"
    using env_filter_laws.downlink_filter_exact [OF assms] env_filter_laws.console_default_exact [OF assms]
    by blast
  then show ?thesis by (cases "Option.bind rust_log (filter_from_str F)")
    (auto simp: trace_init_def console_filter_def Let_def)
qed

lemma not_active_logs: "layer_logs enabled False (within [] evs) = Some []"
  by (induction evs) (auto simp: within_def layer_event_def on_event_def)

lemma those_none_issued: "those (map (\<lambda>f. Some []) fs) = Some (map (\<lambda>f. []) fs)"
  by (induction fs) simp_all

text \<open>C38: the relay starts or says how it is used.  Compiled with hashes that are unset or at least
  six ASCII characters long, and over any parser that keeps to the attributes of the options,
  \<open>main\<close> prints one line and ends when the command line is not accepted; otherwise it never
  panics, prints two lines, has the options with at least one ground address, and issues nothing
  to the ground before its actors are started.\<close>

theorem main_setup_exact:
  assumes "arg_parser clap" and "env_filter_laws F"
    and "\<And>s. vergen_git_sha E = Some s \<Longrightarrow> 6 \<le> length s \<and> list_all (\<lambda>c. c < 0x80) s"
    and "\<And>s. vergen_rustc_commit_hash E = Some s \<Longrightarrow> 6 \<le> length s \<and> list_all (\<lambda>c. c < 0x80) s"
  shows "\<exists>line filter. case clap (relay_args address) args of
      None \<Rightarrow> main_setup clap address F E debug unstable rust_log args = ([line], UsageExit)
    | Some get \<Rightarrow> \<exists>opts layers. main_setup clap address F E debug unstable rust_log args
          = ([line, filter], SetupDone opts layers [])
        \<and> relay_options_from address get = Some opts \<and> downlink_addresses opts \<noteq> []
        \<and> trace_init F debug unstable rust_log (pretty opts) = ([filter], Some layers)"
proof -
  have short: "COMMIT_HASH_SHORT E = Some (take 6 (COMMIT_HASH E))"
    "RUSTC_COMMIT_HASH_SHORT E = Some (take 6 (RUSTC_COMMIT_HASH E))"
    unfolding COMMIT_HASH_SHORT_def RUSTC_COMMIT_HASH_SHORT_def COMMIT_HASH_def RUSTC_COMMIT_HASH_def
    by (rule hash_short, erule assms(3), rule hash_short, erule assms(4))
  then obtain line evs where start: "starting_line E = Some line" "started_logs E = Some (within [] evs)"
    by (simp add: starting_line_def started_logs_def)
  show ?thesis
  proof (cases "clap (relay_args address) args")
    case None
    then show ?thesis by (simp add: main_setup_def start)
  next
    case (Some get)
    then obtain opts where opts: "relay_options_from address get = Some opts" "downlink_addresses opts \<noteq> []"
      using arg_parser.relay_options_total [OF assms(1)] by blast
    obtain f layers where t: "trace_init F debug unstable rust_log (pretty opts) = ([f], Some layers)"
      using trace_init_parts [OF assms(2)] by blast
    show ?thesis using Some opts t
      by (auto simp: main_setup_def start not_active_logs those_none_issued comp_def)
  qed
qed

definition sample_env :: build_env where
  "sample_env = \<lparr> vergen_build_semver = None, vergen_git_sha = None, vergen_build_timestamp = None,
     vergen_rustc_commit_hash = Some (str ''90c541806f'') \<rparr>"

definition sample_args :: "rust_str list" where
  "sample_args = [str ''--downlink'', str ''down0'', str ''-s'', str ''tty'', str ''--uplink'', str ''up'',
     str ''--downlink'', str ''down1'']"

theorem main_setup_exact_witness:
  "\<exists>line filter opts layers. main_setup reference_clap Some reference_filter sample_env True False None sample_args
      = ([line, filter], SetupDone opts layers [])
    \<and> downlink_addresses opts = [str ''down0'', str ''down1''] \<and> baud opts = 115200"
proof -
  have "case reference_clap (relay_args Some) sample_args of None \<Rightarrow> False | Some get \<Rightarrow>
      (case relay_options_from Some get of None \<Rightarrow> False | Some opts \<Rightarrow>
        downlink_addresses opts = [str ''down0'', str ''down1''] \<and> baud opts = 115200)"
    by (simp add: reference_clap_def relay_args_def sample_args_def required_arg_def baud_arg_def
        arg_named_def fill_default_def arg_kept_def relay_options_from_def one_value_def
        u32_from_str_def dec_value_def str_def)
  then obtain get opts where get: "reference_clap (relay_args Some) sample_args = Some get"
    "relay_options_from Some get = Some opts" "downlink_addresses opts = [str ''down0'', str ''down1'']"
    "baud opts = 115200"
    by (auto split: option.splits)
  have "6 \<le> length s \<and> list_all (\<lambda>c. c < 0x80) s"
    if "vergen_git_sha sample_env = Some s \<or> vergen_rustc_commit_hash sample_env = Some s" for s
    using that by (auto simp: sample_env_def str_def)
  then show ?thesis
    using main_setup_exact [OF reference_parser.arg_parser_axioms filter_ref.env_filter_laws_axioms,
        where args = sample_args and address = Some and E = sample_env and debug = True and unstable = False
          and rust_log = None] get
    by auto
qed

subsection \<open>Runs of main\<close>

text \<open>
  \<open>main\<close> starts the actors but the downlinks, waits until an attempt of \<open>connect_once\<close> finds a
  socket, and starts a downlink for each address; each downlink then tries to connect.  All the
  while the actors that run already handle their mail and get their inputs.  The state is the
  phase, with whether a failed attempt has been reported, the sockets of the system, and the relay.
\<close>

datatype main_phase = StartsActors | AwaitsGround bool | ServesGround

record ('n, 'r) main_state =
  mn_phase :: main_phase
  mn_net :: 'n
  mn_relay :: 'r

datatype ('h, 'k, 's, 'n) main_label =
    MainWaits
  | MainAttempt
  | MainConnects nat
  | MainRelay "('h, 'k, 's) relay_label"
  | MainNet 'n

definition lib_event :: "nat \<Rightarrow> tracing_level \<Rightarrow> string \<Rightarrow> attributes \<times> metadata" where
  "lib_event line level = event_at ''src/lib.rs'' line ''antrelay'' level []"

text \<open>What \<open>connect_once\<close> logs: at its start, and for an attempt with the given result.\<close>

definition waiting_logs :: "logged list" where
  "waiting_logs = within [] [lib_event 22 TracingInfo ''waiting for downlink sockets to become available'']"

definition attempt_logs :: "bool \<Rightarrow> bool \<Rightarrow> logged list" where
  "attempt_logs ok has_notified = within []
     ((if \<not> ok \<and> \<not> has_notified
       then [lib_event 43 TracingError ''failed to connect to any downlink socket, retrying...''] else [])
      @ [if ok then lib_event 58 TracingInfo ''at least one socket present''
         else lib_event 49 TracingTrace ''no connection to socket(s)''])"

definition log_relay ::
  "('h, 'c, 'k, 'w, 'q, 'b) relay_deps \<Rightarrow> broker_msg list \<Rightarrow> ('h, 'c, 'k, 'w, 'q, 's, 'b) relay
     \<Rightarrow> ('h, 'c, 'k, 'w, 'q, 's, 'b) relay" where
  "log_relay D out st = st\<lparr> rl_mail := issue_all (dep_mail D) out (rl_mail st) \<rparr>"

fun attempt_phase :: "bool \<Rightarrow> main_phase" where
  "attempt_phase ok = (if ok then ServesGround else AwaitsGround True)"

inductive main_step ::
  "('a, 's, 'n) datagram_ops \<Rightarrow> 'a list \<Rightarrow> ('h, 'c, 'k, 'w, 'q, 'b) relay_deps
     \<Rightarrow> ('h, 'c, 'k, 'w, 'b) relay_views \<Rightarrow> ('n, ('h, 'c, 'k, 'w, 'q, 's, 'b) relay) main_state
     \<Rightarrow> ('h, 'k, 's, 'n) main_label \<Rightarrow> ('n, ('h, 'c, 'k, 'w, 'q, 's, 'b) relay) main_state \<Rightarrow> bool"
  for N addrs D V where
  main_waits: "mn_phase st = StartsActors \<Longrightarrow> layer_logs informational True waiting_logs = Some out \<Longrightarrow>
    main_step N addrs D V st MainWaits
      (st\<lparr> mn_phase := AwaitsGround False, mn_relay := log_relay D out (mn_relay st) \<rparr>)"
| main_attempt: "mn_phase st = AwaitsGround has_notified \<Longrightarrow> probe N addrs (mn_net st) = (ok, net) \<Longrightarrow>
    layer_logs informational True (attempt_logs ok has_notified) = Some out \<Longrightarrow>
    main_step N addrs D V st MainAttempt
      (st\<lparr> mn_phase := attempt_phase ok, mn_net := net, mn_relay := log_relay D out (mn_relay st) \<rparr>)"
| main_connects: "mn_phase st = ServesGround \<Longrightarrow> i < length addrs \<Longrightarrow>
    make_downlink N (addrs ! i) (mn_net st) = (Some s, net) \<Longrightarrow>
    relay_env D V (mn_relay st) (DownlinkConnect i (Some s)) r \<Longrightarrow>
    main_step N addrs D V st (MainConnects i) (st\<lparr> mn_net := net, mn_relay := r \<rparr>)"
| main_refused: "mn_phase st = ServesGround \<Longrightarrow> i < length addrs \<Longrightarrow>
    make_downlink N (addrs ! i) (mn_net st) = (None, net) \<Longrightarrow>
    main_step N addrs D V st (MainConnects i) (st\<lparr> mn_net := net \<rparr>)"
| main_relay: "relay_env D V (mn_relay st) l r \<Longrightarrow> (\<And>i x. l \<noteq> DownlinkConnect i x) \<Longrightarrow>
    main_step N addrs D V st (MainRelay l) (st\<lparr> mn_relay := r \<rparr>)"
| main_net: "main_step N addrs D V st (MainNet net) (st\<lparr> mn_net := net \<rparr>)"

inductive main_run ::
  "('a, 's, 'n) datagram_ops \<Rightarrow> 'a list \<Rightarrow> ('h, 'c, 'k, 'w, 'q, 'b) relay_deps
     \<Rightarrow> ('h, 'c, 'k, 'w, 'b) relay_views \<Rightarrow> ('n, ('h, 'c, 'k, 'w, 'q, 's, 'b) relay) main_state
     \<Rightarrow> ('h, 'k, 's, 'n) main_label list \<Rightarrow> ('n, ('h, 'c, 'k, 'w, 'q, 's, 'b) relay) main_state \<Rightarrow> bool"
  for N addrs D V where
  main_nil: "main_run N addrs D V st [] st"
| main_snoc: "main_run N addrs D V st ls st' \<Longrightarrow> main_step N addrs D V st' l st'' \<Longrightarrow>
    main_run N addrs D V st (ls @ [l]) st''"

text \<open>The state in which \<open>main\<close> starts its actors; there are as many downlinks as addresses.\<close>

definition main_deps :: "'a relay_options \<Rightarrow> ('h, 'c, 'k, 'w, 'q, 'b) relay_deps \<Rightarrow> ('h, 'c, 'k, 'w, 'q, 'b) relay_deps" where
  "main_deps opts D = D\<lparr> dep_addresses := length (downlink_addresses opts) \<rparr>"

definition main_start ::
  "('h, 'c, 'k, 'w, 'q, 'b) relay_deps \<Rightarrow> 'c \<Rightarrow> 'w \<Rightarrow> 'b \<Rightarrow> 'n
     \<Rightarrow> ('n, ('h, 'c, 'k, 'w, 'q, 's, 'b) relay) main_state" where
  "main_start D c w b net = \<lparr> mn_phase = StartsActors, mn_net = net, mn_relay = relay_boot D c w b \<rparr>"

text \<open>What a step does to the relay, as labels of \<open>relay_env\<close>.\<close>

lemma main_logs_ok [simp]: "list_all logged_ok waiting_logs" "list_all logged_ok (attempt_logs ok n)"
  by (simp_all add: waiting_logs_def attempt_logs_def lib_event_def)

lemma log_relay_run:
  assumes "list_all log_mail out"
  shows "\<exists>logs. relay_run D V st (map TraceLog logs) (log_relay D out st) \<and> list_all log_ascii logs"
  using assms
proof (induction out arbitrary: st)
  case Nil
  show ?case by (rule exI [of _ "[]"]) (simp add: log_relay_def relay_run.relay_nil)
next
  case (Cons x out)
  obtain l where l: "x = GroundLog l" "log_ascii l" using Cons.prems by (auto simp: log_mail_def)
  let ?st = "st\<lparr> rl_mail := broker_issue (dep_mail D) x (rl_mail st) \<rparr>"
  obtain logs where logs: "relay_run D V ?st (map TraceLog logs) (log_relay D out ?st)" "list_all log_ascii logs"
    using Cons by fastforce
  have "relay_env D V st (TraceLog l) ?st" unfolding l(1) by (rule relay_env.trace_log)
  moreover have "log_relay D out ?st = log_relay D (x # out) st" by (simp add: log_relay_def issue_all_def)
  ultimately have "relay_run D V st (TraceLog l # map TraceLog logs) (log_relay D (x # out) st)"
    using logs(1) by (auto intro: relay_run.relay_cons)
  then show ?case using l(2) logs(2) by (intro exI [of _ "l # logs"]) simp
qed

lemma issued_logs_ok:
  "list_all logged_ok logs \<Longrightarrow> layer_logs enabled active logs = Some out \<Longrightarrow> list_all log_mail out"
  by (drule layer_logs_ok [of _ enabled active]) auto

definition connects_label :: "('h, 'k, 's) relay_label \<Rightarrow> bool" where
  "connects_label l \<longleftrightarrow> (\<exists>i x. l = DownlinkConnect i x)"

lemma main_step_relay:
  assumes "main_step N addrs D V st l st'"
  shows "\<exists>ls. relay_run D V (mn_relay st) ls (mn_relay st')
    \<and> (mn_phase st' = ServesGround \<or> \<not> list_ex connects_label ls)
    \<and> (mn_phase st = ServesGround \<longrightarrow> mn_phase st' = ServesGround)"
  using assms
proof cases
  case (main_waits out)
  obtain logs where "relay_run D V (mn_relay st) (map TraceLog logs) (log_relay D out (mn_relay st))"
    using log_relay_run [OF issued_logs_ok [OF _ main_waits(4)]] main_logs_ok(1) by blast
  then show ?thesis using main_waits
    by (intro exI [of _ "map TraceLog logs"]) (auto simp: connects_label_def list_ex_iff)
next
  case (main_attempt has_notified ok net out)
  obtain logs where "relay_run D V (mn_relay st) (map TraceLog logs) (log_relay D out (mn_relay st))"
    using log_relay_run [OF issued_logs_ok [OF _ main_attempt(5)]] main_logs_ok(2) by blast
  then show ?thesis using main_attempt
    by (intro exI [of _ "map TraceLog logs"]) (auto simp: connects_label_def list_ex_iff)
next
  case (main_connects i s net r)
  then have "relay_run D V (mn_relay st) [DownlinkConnect i (Some s)] r"
    by (auto intro: relay_run.intros)
  then show ?thesis using main_connects by auto
next
  case (main_refused i net)
  then show ?thesis by (auto intro: relay_run.relay_nil)
next
  case (main_relay l r)
  then have "relay_run D V (mn_relay st) [l] r" by (auto intro: relay_run.intros)
  then show ?thesis using main_relay by (intro exI [of _ "[l]"]) (auto simp: connects_label_def)
next
  case (main_net net)
  then show ?thesis by (auto intro: relay_run.relay_nil)
qed

lemma main_run_relay:
  assumes "main_run N addrs D V st ls st'" and "mn_phase st \<noteq> ServesGround"
  shows "\<exists>rs. relay_run D V (mn_relay st) rs (mn_relay st')
    \<and> (mn_phase st' = ServesGround \<or> \<not> list_ex connects_label rs)"
  using assms
proof induction
  case (main_nil st)
  then show ?case by (intro exI [of _ "[]"]) (simp add: relay_run.relay_nil)
next
  case (main_snoc st ls st' l st'')
  obtain rs where rs: "relay_run D V (mn_relay st) rs (mn_relay st')"
    "mn_phase st' = ServesGround \<or> \<not> list_ex connects_label rs"
    using main_snoc.IH main_snoc.prems by blast
  obtain qs where qs: "relay_run D V (mn_relay st') qs (mn_relay st'')"
    "mn_phase st'' = ServesGround \<or> \<not> list_ex connects_label qs"
    "mn_phase st' = ServesGround \<longrightarrow> mn_phase st'' = ServesGround"
    using main_step_relay [OF main_snoc.hyps(2)] by blast
  have "relay_run D V (mn_relay st) (rs @ qs) (mn_relay st'')"
    by (rule relay_run_append [OF rs(1) qs(1)])
  then show ?case using rs(2) qs(2,3) by (intro exI [of _ "rs @ qs"]) auto
qed

text \<open>Without a connection no downlink is subscribed, so none has mail and nothing is sent.\<close>

definition unconnected ::
  "('h, 'c, 'k, 'w, 'b) relay_views \<Rightarrow> ('h, 'c, 'k, 'w, 'q, 's, 'b) relay \<Rightarrow> bool" where
  "unconnected V st \<longleftrightarrow> rl_downlink st = (\<lambda>_. downlink_new) \<and> rl_sent st = []
     \<and> (\<forall>i. box V st (ADownlink i) = [])"

lemma handle_mail_unsent:
  "handle_mail D a x st = Continues st' \<Longrightarrow> (\<And>i. a \<noteq> ADownlink i) \<Longrightarrow> rl_sent st' = rl_sent st"
  by (cases a; cases x) (auto simp: handle_mail_def mail_defs Let_def
      split: broker_msg.splits prod.splits process.splits option.splits)

lemma send_request_downlink: "rl_downlink (send_request D msg st) = rl_downlink st"
  by (simp add: send_request_def Let_def split: prod.split)

lemma send_task_downlink: "rl_downlink (send_task D now t st) = rl_downlink st"
  using send_task_requests [of D now t st]
  by (cases "task_requests st now t") (auto simp: send_request_downlink)

context relay_laws
begin

lemma no_downlink_mail:
  assumes "relay_inv D V st" and "rl_downlink st = (\<lambda>_. downlink_new)"
  shows "box V st (ADownlink i) = []"
proof -
  have "mail_ok (dep_crc8 D) (has_started st) (inbox (view_mail V) (rl_mail st))"
    using assms(1) by (simp add: relay_inv_def)
  moreover have "\<not> has_started st (ADownlink i)" using assms(2) by (simp add: downlink_new_def)
  ultimately show ?thesis unfolding mail_ok_def using list.set_sel(1) by blast
qed

lemma step_unconnected:
  assumes "relay_env D V st l st'" and inv: "relay_inv D V st" and un: "unconnected V st"
    and l: "\<not> connects_label l"
  shows "unconnected V st'"
proof -
  have "rl_downlink st' = rl_downlink st \<and> rl_sent st' = rl_sent st"
    using assms(1)
  proof cases
    case (deliver a x xs)
    have a: "a \<noteq> ADownlink i" for i using deliver(2) un by (auto simp: unconnected_def)
    then show ?thesis
      using handle_mail_frame [OF deliver(3)] handle_mail_unsent [OF deliver(3)] by simp
  next
    case (one_shot h t now)
    then show ?thesis by (simp add: send_task_frame send_task_downlink)
  next
    case (retry_send h t now)
    then show ?thesis by (simp add: send_task_frame send_task_downlink)
  next
    case (wait_send t ts now)
    then show ?thesis by (simp add: send_task_frame send_task_downlink)
  next
    case (downlink_connect i result a)
    then show ?thesis using l by (simp add: connects_label_def)
  qed simp_all
  then show ?thesis
    using un no_downlink_mail [OF relay_env_inv [OF assms(1) inv]] by (simp add: unconnected_def)
qed

lemma run_unconnected:
  "relay_run D V st ls st' \<Longrightarrow> relay_inv D V st \<Longrightarrow> unconnected V st \<Longrightarrow> \<not> list_ex connects_label ls
    \<Longrightarrow> unconnected V st'"
proof (induction rule: relay_run.induct)
  case (relay_cons st l st' ls st'')
  then show ?case using step_unconnected [OF relay_cons.hyps(1)] relay_env_inv [OF relay_cons.hyps(1)] by simp
qed simp

end

lemma probe_succeeds:
  "probe N addrs w = (True, w') \<Longrightarrow>
    \<exists>a \<in> set addrs. \<exists>world s. make_downlink N a world = (Some s, snd (dg_connect N a world))"
proof (induction N addrs w rule: probe.induct)
  case (2 N a addrs w)
  obtain r w1 where c: "dg_connect N a w = (r, w1)" by fastforce
  show ?case
  proof (cases r)
    case (Inl e)
    then show ?thesis using 2 c by auto
  next
    case (Inr s)
    then have "make_downlink N a w = (Some s, snd (dg_connect N a w))"
      using c by (simp add: make_downlink_def ok_or_log_def)
    then show ?thesis by auto
  qed
qed simp

lemma main_serves:
  assumes "main_run N addrs D V st ls st'" and "mn_phase st \<noteq> ServesGround" and "mn_phase st' = ServesGround"
  shows "\<exists>net net'. probe N addrs net = (True, net')"
  using assms
proof induction
  case (main_snoc st ls st' l st'')
  from main_snoc.hyps(2) show ?case
    using main_snoc.IH main_snoc.prems by cases (auto split: if_splits)
qed simp

text \<open>C37: what \<open>main\<close> does is a run of the relay.  Whatever the actors, the sockets and the
  attempts of \<open>connect_once\<close> do in any order, the relay that \<open>main\<close> starts goes through a run of the
  relay from its boot, with one downlink for each address; until an attempt has found an address
  that connects, no downlink has a socket or mail and nothing is sent to the ground.\<close>

theorem main_runs_relay:
  assumes "relay_laws D V queue alive" and "fresh_context (view_ctx V) c"
    and "\<And>h. chan (view_oneshot V) w h = Unused" and "\<And>a. inbox (view_mail V) b a = []"
    and "\<And>k a. \<not> subscribed_to (view_mail V) b k a"
    and "main_run N (downlink_addresses opts) (main_deps opts D) V (main_start (main_deps opts D) c w b net) ls st"
  shows "\<exists>st0 rs. relay_started (main_deps opts D) V st0
      \<and> relay_run (main_deps opts D) V st0 rs (mn_relay st)
      \<and> (if mn_phase st = ServesGround
         then \<exists>a \<in> set (downlink_addresses opts). \<exists>world s. make_downlink N a world = (Some s, snd (dg_connect N a world))
         else unconnected V (mn_relay st) \<and> \<not> list_ex connects_label rs)"
proof -
  let ?D = "main_deps opts D"
  obtain st0 rs where boot: "st0 = relay_boot ?D c w b" and rs: "relay_run ?D V st0 rs (mn_relay st)"
    "mn_phase st = ServesGround \<or> \<not> list_ex connects_label rs"
    using main_run_relay [OF assms(6)] by (auto simp: main_start_def)
  have laws: "relay_laws ?D V queue alive"
    using assms(1) unfolding relay_laws_def relay_laws_axioms_def main_deps_def by simp
  have started: "relay_started ?D V st0" using assms(2-5) unfolding relay_started_def boot by blast
  note start = relay_laws.started_parts [OF laws started]
  have "rl_downlink st0 = (\<lambda>_. downlink_new)" "rl_sent st0 = []"
    by (simp_all add: boot relay_boot_def Let_def case_prod_beta)
  then have "unconnected V st0"
    using relay_laws.no_downlink_mail [OF laws start(1)] by (simp add: unconnected_def)
  moreover have "\<exists>a \<in> set (downlink_addresses opts). \<exists>world s. make_downlink N a world = (Some s, snd (dg_connect N a world))"
    if served: "mn_phase st = ServesGround"
  proof -
    obtain n n' where "probe N (downlink_addresses opts) n = (True, n')"
      using main_serves [OF assms(6) _ served] by (auto simp: main_start_def)
    from probe_succeeds [OF this] show ?thesis .
  qed
  ultimately show ?thesis
    using started rs relay_laws.run_unconnected [OF laws rs(1) start(1)]
    by (intro exI [of _ st0] exI [of _ rs]) auto
qed

lemma main_run_two:
  assumes "main_step N addrs D V st l st1" and "main_step N addrs D V st1 k st2"
  shows "main_run N addrs D V st [l, k] st2"
  using main_run.main_snoc [OF main_run.main_snoc [OF main_run.main_nil assms(1)] assms(2)] by simp

definition sample_options :: "string relay_options" where
  "sample_options = \<lparr> downlink_addresses = [''/down''], uplink_address = ''/up'', serial_port = str ''tty'',
     baud = 9600, pretty = False \<rparr>"

lemma sample_options_addresses: "downlink_addresses sample_options = [''/down'']"
  by (simp add: sample_options_def)

lemma list_all_ok_some: "list_all logged_ok logs \<Longrightarrow> \<exists>out. layer_logs enabled active logs = Some out"
  using layer_logs_ok by blast

theorem main_runs_relay_witness:
  "\<exists>ls st st0 rs. main_run reference_net [''/down''] (main_deps sample_options sample_deps) sample_views
      (main_start (main_deps sample_options sample_deps) empty_table [] no_mail unix_world_new) ls st
    \<and> mn_phase st = AwaitsGround True
    \<and> relay_run (main_deps sample_options sample_deps) sample_views st0 rs (mn_relay st)
    \<and> unconnected sample_views (mn_relay st :: sample_relay_state)"
proof -
  let ?D = "main_deps sample_options sample_deps"
  let ?start = "main_start ?D empty_table [] no_mail unix_world_new :: (unix_world, sample_relay_state) main_state"
  obtain out where out: "layer_logs informational True waiting_logs = Some out"
    using list_all_ok_some [OF main_logs_ok(1)] by blast
  obtain out' where out': "layer_logs informational True (attempt_logs False False) = Some out'"
    using list_all_ok_some [OF main_logs_ok(2)] by blast
  obtain ok w where pr: "probe reference_net [''/down''] unix_world_new = (ok, w)" by fastforce
  have "nv_ok reference_view unix_world_new" "nv_bound reference_view unix_world_new ''/down'' = None"
    by (simp_all add: unix_world_new_def uw_ok_def)
  then have "\<not> ok" using reference.probe_exact [OF _ pr] by simp
  then have w: "probe reference_net [''/down''] unix_world_new = (False, w)" using pr by simp
  let ?st1 = "?start\<lparr> mn_phase := AwaitsGround False, mn_relay := log_relay ?D out (mn_relay ?start) \<rparr>"
  let ?st2 = "?st1\<lparr> mn_phase := attempt_phase False, mn_net := w, mn_relay := log_relay ?D out' (mn_relay ?st1) \<rparr>"
  have "main_step reference_net [''/down''] ?D sample_views ?start MainWaits ?st1"
    by (rule main_step.main_waits [OF _ out]) (simp add: main_start_def)
  moreover have "main_step reference_net [''/down''] ?D sample_views ?st1 MainAttempt ?st2"
    by (rule main_step.main_attempt [OF _ _ out']) (simp_all add: main_start_def w del: probe.simps)
  ultimately have run: "main_run reference_net [''/down''] ?D sample_views ?start [MainWaits, MainAttempt] ?st2"
    by (rule main_run_two)
  have fresh: "fresh_context (view_ctx sample_views) empty_table"
    "chan (view_oneshot sample_views) [] h = Unused" "inbox (view_mail sample_views) no_mail a = []"
    "\<not> subscribed_to (view_mail sample_views) no_mail k a" for h a k
    by (simp_all add: sample_views_def fresh_empty_table list_channels_view_def list_mail_view_def no_mail_def)
  have "mn_phase ?st2 = AwaitsGround True" by simp
  from main_runs_relay [OF sample_laws fresh, OF run [folded sample_options_addresses], unfolded this]
  obtain st0 rs where "relay_run ?D sample_views st0 rs (mn_relay ?st2)"
    "unconnected sample_views (mn_relay ?st2)" by auto
  then show ?thesis using run \<open>mn_phase ?st2 = AwaitsGround True\<close> by blast
qed

end
