(* ===== verification/Serde_Forms.thy ===== *)
theory Serde_Forms
  imports Ground Texts
begin

text \<open>
  How values become bytes on the downlink: the serde implementations of \<open>message/src\<close>, derived
  and written by hand, as translations to and from serde's data model.  A format (in the program
  \<open>bincode\<close>) is a parameter, with the locale \<open>serde_format\<close> of what is documented of it, and a
  direct implementation of bincode's fixed-width little-endian layout satisfies the locale.
  The serialiser and the reader of the downlink over any such format satisfy the contract
  \<open>downlink_codec\<close>, logs included.
\<close>

subsection \<open>The data model\<close>

text \<open>What a \<open>Serialize\<close> implementation hands to the format.\<close>

datatype serde_value =
    SBool bool
  | SU8 u8
  | SU32 u32
  | SU64 u64
  | SI64 u64
  | SF64 u64
  | SStr rust_str
  | SBytes bytes
  | SSeq "serde_value list"
  | SMap "(serde_value \<times> serde_value) list"
  | SStruct "serde_value list"
  | SNewtypeStruct serde_value
  | SUnitVariant nat
  | SNewtypeVariant nat serde_value

text \<open>What a \<open>Deserialize\<close> implementation asks the format for; an enum lists its variants, unit or
  with one field.\<close>

datatype serde_shape =
    HBool | HU8 | HU32 | HU64 | HI64 | HF64 | HStr
  | HSeq serde_shape
  | HMap serde_shape serde_shape
  | HStruct "serde_shape list"
  | HNewtypeStruct serde_shape
  | HEnum "serde_shape option list"

text \<open>What a reader that asks for the shape gets of the value that was written: the value itself,
  but a sequence of bytes for a byte string.\<close>

fun apply_each :: "('a \<Rightarrow> 'b option) list \<Rightarrow> 'a list \<Rightarrow> 'b list option" where
  "apply_each [] [] = Some []"
| "apply_each (f # fs) (x # xs) = Option.bind (f x) (\<lambda>y. map_option ((#) y) (apply_each fs xs))"
| "apply_each fs xs = None"

definition read_entry ::
  "('a \<Rightarrow> 'b option) \<Rightarrow> ('c \<Rightarrow> 'd option) \<Rightarrow> 'a \<times> 'c \<Rightarrow> ('b \<times> 'd) option" where
  "read_entry f g e = Option.bind (f (fst e)) (\<lambda>k. map_option (Pair k) (g (snd e)))"

primrec reads :: "serde_shape \<Rightarrow> serde_value \<Rightarrow> serde_value option" where
  "reads HBool v = (case v of SBool b \<Rightarrow> Some v | _ \<Rightarrow> None)"
| "reads HU8 v = (case v of SU8 w \<Rightarrow> Some v | _ \<Rightarrow> None)"
| "reads HU32 v = (case v of SU32 w \<Rightarrow> Some v | _ \<Rightarrow> None)"
| "reads HU64 v = (case v of SU64 w \<Rightarrow> Some v | _ \<Rightarrow> None)"
| "reads HI64 v = (case v of SI64 w \<Rightarrow> Some v | _ \<Rightarrow> None)"
| "reads HF64 v = (case v of SF64 w \<Rightarrow> Some v | _ \<Rightarrow> None)"
| "reads HStr v = (case v of SStr s \<Rightarrow> Some v | _ \<Rightarrow> None)"
| "reads (HSeq h) v =
     (case v of
        SSeq vs \<Rightarrow> map_option SSeq (those (map (reads h) vs))
      | SBytes bs \<Rightarrow> if h = HU8 then Some (SSeq (map SU8 bs)) else None
      | _ \<Rightarrow> None)"
| "reads (HMap hk hv) v =
     (case v of
        SMap kvs \<Rightarrow> map_option SMap (those (map (read_entry (reads hk) (reads hv)) kvs))
      | _ \<Rightarrow> None)"
| "reads (HStruct hs) v =
     (case v of SStruct vs \<Rightarrow> map_option SStruct (apply_each (map reads hs) vs) | _ \<Rightarrow> None)"
| "reads (HNewtypeStruct h) v =
     (case v of SNewtypeStruct x \<Rightarrow> map_option SNewtypeStruct (reads h x) | _ \<Rightarrow> None)"
| "reads (HEnum hs) v =
     (let rs = map (map_option reads) hs
      in case v of
           SUnitVariant n \<Rightarrow> if n < length rs \<and> rs ! n = None then Some v else None
         | SNewtypeVariant n x \<Rightarrow>
             if n < length rs
             then (case rs ! n of None \<Rightarrow> None | Some r \<Rightarrow> map_option (SNewtypeVariant n) (r x))
             else None
         | _ \<Rightarrow> None)"

text \<open>A format: writing may fail, reading ignores what follows the value.\<close>

record format_ops =
  fmt_write :: "serde_value \<Rightarrow> bytes option"
  fmt_read :: "serde_shape \<Rightarrow> bytes \<Rightarrow> serde_value option"

locale serde_format =
  fixes F :: format_ops
  assumes read_write: "fmt_write F v = Some bs \<Longrightarrow> reads h v = Some v' \<Longrightarrow> fmt_read F h bs = Some v'"

subsection \<open>The layout of bincode\<close>

text \<open>Fixed-width little-endian numbers, 64 bit lengths, 32 bit variant numbers, UTF-8 strings, and
  nothing around structs.  A writer fails only on what no Rust value holds: strings with
  surrogates, and lengths and numbers of variants that their integers do not hold.\<close>

definition utf8_bytes :: "nat \<Rightarrow> bytes" where
  "utf8_bytes c = map of_nat
     (if c < 0x80 then [c]
      else if c < 0x800 then [0xc0 + c div 64, 0x80 + c mod 64]
      else if c < 0x10000 then [0xe0 + c div 4096, 0x80 + c div 64 mod 64, 0x80 + c mod 64]
      else [0xf0 + c div 262144, 0x80 + c div 4096 mod 64, 0x80 + c div 64 mod 64, 0x80 + c mod 64])"

definition unicode_scalar :: "nat \<Rightarrow> bool" where
  "unicode_scalar c \<longleftrightarrow> c < 0x110000 \<and> \<not> (0xd800 \<le> c \<and> c < 0xe000)"

definition utf8_more :: "nat \<Rightarrow> nat" where
  "utf8_more n = (if n < 0x80 then 0 else if n < 0xe0 then 1 else if n < 0xf0 then 2 else 3)"

definition utf8_lead :: "nat \<Rightarrow> nat" where
  "utf8_lead n = (if n < 0x80 then n else if n < 0xe0 then n mod 32 else if n < 0xf0 then n mod 16 else n mod 8)"

function utf8_decode :: "bytes \<Rightarrow> rust_str option" where
  "utf8_decode [] = Some []"
| "utf8_decode (b # bs) =
     (let k = utf8_more (unat b)
      in if length bs < k then None
         else map_option ((#) (foldl (\<lambda>v x. v * 64 + unat x mod 64) (utf8_lead (unat b)) (take k bs)))
           (utf8_decode (drop k bs)))"
  by pat_completeness auto
termination by (relation "measure length") auto

lemma unat_u8 [simp]: "n < 256 \<Longrightarrow> unat (of_nat n :: u8) = n"
  by (simp add: unat_of_nat)

text \<open>A byte that continues a character carries six bits.\<close>

definition utf8_tail :: "nat \<Rightarrow> u8" where
  "utf8_tail x = of_nat (0x80 + x mod 64)"

lemma unat_utf8_tail: "unat (utf8_tail x) mod 64 = x mod 64"
proof -
  have "x mod 64 < 64" by simp
  then have "(128 + x mod 64) mod 64 = x mod 64" "128 + x mod 64 < 256"
    using mod_mult_self1 [of "x mod 64" 2 64] by (simp_all add: add.commute)
  then show ?thesis unfolding utf8_tail_def by (simp only: unat_u8)
qed

lemma utf8_decode_next:
  assumes "length ms = utf8_more n" and "n < 256"
    and "foldl (\<lambda>v x. v * 64 + unat x mod 64) (utf8_lead n) ms = c"
  shows "utf8_decode (of_nat n # ms @ bs) = map_option ((#) c) (utf8_decode bs)"
  using assms(2) assms(1) [symmetric] assms(3) by (simp add: Let_def)

lemma utf8_two:
  assumes "c < 0x800"
  shows "utf8_decode (of_nat (0xc0 + c div 64) # [utf8_tail c] @ bs) = map_option ((#) c) (utf8_decode bs)"
proof (rule utf8_decode_next)
  have "c div 64 < 32" using assms by (simp add: less_mult_imp_div_less)
  then have n: "(0xc0 + c div 64) mod 32 = c div 64" "0xc0 + c div 64 < 0xe0"
    using mod_mult_self1 [of "c div 64" 6 32] by (simp_all add: add.commute)
  then have "utf8_lead (0xc0 + c div 64) = c div 64" by (simp add: utf8_lead_def)
  then show "foldl (\<lambda>v x. v * 64 + unat x mod 64) (utf8_lead (0xc0 + c div 64)) [utf8_tail c] = c"
    by (simp add: unat_utf8_tail)
  show "length [utf8_tail c] = utf8_more (0xc0 + c div 64)" using n by (simp add: utf8_more_def)
  show "0xc0 + c div 64 < 256" using n by linarith
qed

lemma six_bits:
  fixes c :: nat
  shows "c div 4096 * 64 + c div 64 mod 64 = c div 64" and "c div 262144 * 64 + c div 4096 mod 64 = c div 4096"
    and "c div 64 * 64 + c mod 64 = c"
  using div_mult_mod_eq [of "c div 64" 64] div_mult_mod_eq [of "c div 4096" 64]
  by (simp_all add: div_mult2_eq [symmetric])

lemma utf8_three:
  assumes "c < 0x10000"
  shows "utf8_decode (of_nat (0xe0 + c div 4096) # [utf8_tail (c div 64), utf8_tail c] @ bs)
    = map_option ((#) c) (utf8_decode bs)"
proof (rule utf8_decode_next)
  have "c div 4096 < 16" using assms by (simp add: less_mult_imp_div_less)
  then have n: "(0xe0 + c div 4096) mod 16 = c div 4096" "0xe0 + c div 4096 < 0xf0"
    "(c div 4096 * 64 + c div 64 mod 64) * 64 + c mod 64 = c"
    using mod_mult_self1 [of "c div 4096" 14 16] six_bits [of c] by (simp_all add: add.commute)
  then have "utf8_lead (0xe0 + c div 4096) = c div 4096" by (simp add: utf8_lead_def)
  then show "foldl (\<lambda>v x. v * 64 + unat x mod 64) (utf8_lead (0xe0 + c div 4096)) [utf8_tail (c div 64), utf8_tail c] = c"
    using n(3) by (simp only: foldl.simps unat_utf8_tail)
  show "length [utf8_tail (c div 64), utf8_tail c] = utf8_more (0xe0 + c div 4096)"
    using n by (simp add: utf8_more_def)
  show "0xe0 + c div 4096 < 256" using n by linarith
qed

lemma utf8_four:
  assumes "c < 0x110000"
  shows "utf8_decode (of_nat (0xf0 + c div 262144) # [utf8_tail (c div 4096), utf8_tail (c div 64), utf8_tail c] @ bs)
    = map_option ((#) c) (utf8_decode bs)"
proof (rule utf8_decode_next)
  have "c div 262144 < 8" using assms by (simp add: less_mult_imp_div_less)
  then have n: "(0xf0 + c div 262144) mod 8 = c div 262144" "0xf0 + c div 262144 < 0xf8"
    "((c div 262144 * 64 + c div 4096 mod 64) * 64 + c div 64 mod 64) * 64 + c mod 64 = c"
    using mod_mult_self1 [of "c div 262144" 30 8] six_bits [of c] by (simp_all add: add.commute)
  then have "utf8_lead (0xf0 + c div 262144) = c div 262144" by (simp add: utf8_lead_def)
  then show "foldl (\<lambda>v x. v * 64 + unat x mod 64) (utf8_lead (0xf0 + c div 262144))
      [utf8_tail (c div 4096), utf8_tail (c div 64), utf8_tail c] = c"
    using n(3) by (simp only: foldl.simps unat_utf8_tail)
  show "length [utf8_tail (c div 4096), utf8_tail (c div 64), utf8_tail c] = utf8_more (0xf0 + c div 262144)"
    using n by (simp add: utf8_more_def)
  show "0xf0 + c div 262144 < 256" using n by linarith
qed

lemma utf8_step:
  assumes "c < 0x110000"
  shows "utf8_decode (utf8_bytes c @ bs) = map_option ((#) c) (utf8_decode bs)"
proof -
  have "utf8_decode (of_nat c # [] @ bs) = map_option ((#) c) (utf8_decode bs)" if "c < 0x80"
    using that by (intro utf8_decode_next) (simp_all add: utf8_more_def utf8_lead_def)
  then show ?thesis
    using utf8_two [of c bs] utf8_three [of c bs] utf8_four [OF assms, of bs]
    unfolding utf8_bytes_def utf8_tail_def by (auto simp del: utf8_decode.simps of_nat_add)
qed

lemma utf8_roundtrip:
  "list_all unicode_scalar s \<Longrightarrow> utf8_decode (concat (map utf8_bytes s)) = Some s"
  by (induction s) (simp_all add: utf8_step unicode_scalar_def)

definition length_prefix :: "nat \<Rightarrow> bytes option" where
  "length_prefix n = (if n < 2 ^ 64 then Some (le_bytes 8 (of_nat n :: u64)) else None)"

definition variant_prefix :: "nat \<Rightarrow> bytes option" where
  "variant_prefix n = (if n < 2 ^ 32 then Some (le_bytes 4 (of_nat n :: u32)) else None)"

definition joined :: "bytes option \<Rightarrow> bytes option \<Rightarrow> bytes option" where
  "joined a b = Option.bind a (\<lambda>x. map_option ((@) x) b)"

lemma joined_Some: "joined a b = Some bs \<longleftrightarrow> (\<exists>x y. a = Some x \<and> b = Some y \<and> bs = x @ y)"
  by (auto simp: joined_def bind_eq_Some_conv)

fun bincode_write :: "serde_value \<Rightarrow> bytes option" where
  "bincode_write (SBool b) = Some [of_bool b]"
| "bincode_write (SU8 w) = Some [w]"
| "bincode_write (SU32 w) = Some (le_bytes 4 w)"
| "bincode_write (SU64 w) = Some (le_bytes 8 w)"
| "bincode_write (SI64 w) = Some (le_bytes 8 w)"
| "bincode_write (SF64 w) = Some (le_bytes 8 w)"
| "bincode_write (SStr s) =
     (if list_all unicode_scalar s
      then let bs = concat (map utf8_bytes s) in joined (length_prefix (length bs)) (Some bs)
      else None)"
| "bincode_write (SBytes bs) = joined (length_prefix (length bs)) (Some bs)"
| "bincode_write (SSeq vs) =
     joined (length_prefix (length vs)) (map_option concat (those (map bincode_write vs)))"
| "bincode_write (SMap kvs) =
     joined (length_prefix (length kvs)) (map_option concat
       (those (map (\<lambda>(k, v). joined (bincode_write k) (bincode_write v)) kvs)))"
| "bincode_write (SStruct vs) = map_option concat (those (map bincode_write vs))"
| "bincode_write (SNewtypeStruct v) = bincode_write v"
| "bincode_write (SUnitVariant n) = variant_prefix n"
| "bincode_write (SNewtypeVariant n v) = joined (variant_prefix n) (bincode_write v)"

text \<open>Readers take a value off the front.\<close>

type_synonym 'a reader = "bytes \<Rightarrow> ('a \<times> bytes) option"

definition read_bytes :: "nat \<Rightarrow> bytes reader" where
  "read_bytes n bs = (if n \<le> length bs then Some (take n bs, drop n bs) else None)"

definition read_word :: "nat \<Rightarrow> 'a::len word reader" where
  "read_word n bs = map_option (map_prod of_le_bytes id) (read_bytes n bs)"

definition read_then :: "'a reader \<Rightarrow> ('a \<Rightarrow> 'b reader) \<Rightarrow> 'b reader" where
  "read_then r f bs = Option.bind (r bs) (\<lambda>(x, rest). f x rest)"

definition read_map :: "('a \<Rightarrow> 'b) \<Rightarrow> 'a reader \<Rightarrow> 'b reader" where
  "read_map f r bs = map_option (map_prod f id) (r bs)"

definition read_fail :: "'a reader" where
  "read_fail bs = None"

fun read_each :: "'a reader list \<Rightarrow> 'a list reader" where
  "read_each [] bs = Some ([], bs)"
| "read_each (r # rs) bs = Option.bind (r bs) (\<lambda>(x, rest). map_option (map_prod ((#) x) id) (read_each rs rest))"

definition read_pair :: "'a reader \<Rightarrow> 'b reader \<Rightarrow> ('a \<times> 'b) reader" where
  "read_pair r s = read_then r (\<lambda>x. read_map (Pair x) s)"

definition read_bool :: "bool reader" where
  "read_bool = read_then (read_word 1) (\<lambda>(w :: u8) bs.
     if w = 0 then Some (False, bs) else if w = 1 then Some (True, bs) else None)"

definition read_str :: "rust_str reader" where
  "read_str = read_then (read_word 8) (\<lambda>(n :: u64). read_then (read_bytes (unat n)) (\<lambda>s bs.
     map_option (\<lambda>t. (t, bs)) (utf8_decode s)))"

definition read_variant :: "serde_value reader option list \<Rightarrow> serde_value reader" where
  "read_variant rs = read_then (read_word 4) (\<lambda>(n :: u32).
     if unat n < length rs
     then (case rs ! unat n of
             None \<Rightarrow> (\<lambda>bs. Some (SUnitVariant (unat n), bs))
           | Some r \<Rightarrow> read_map (SNewtypeVariant (unat n)) r)
     else read_fail)"

primrec bincode_reader :: "serde_shape \<Rightarrow> serde_value reader" where
  "bincode_reader HBool = read_map SBool read_bool"
| "bincode_reader HU8 = read_map SU8 (read_word 1)"
| "bincode_reader HU32 = read_map SU32 (read_word 4)"
| "bincode_reader HU64 = read_map SU64 (read_word 8)"
| "bincode_reader HI64 = read_map SI64 (read_word 8)"
| "bincode_reader HF64 = read_map SF64 (read_word 8)"
| "bincode_reader HStr = read_map SStr read_str"
| "bincode_reader (HSeq h) =
     read_then (read_word 8) (\<lambda>(n :: u64). read_map SSeq (read_each (replicate (unat n) (bincode_reader h))))"
| "bincode_reader (HMap hk hv) =
     read_then (read_word 8) (\<lambda>(n :: u64).
       read_map SMap (read_each (replicate (unat n) (read_pair (bincode_reader hk) (bincode_reader hv)))))"
| "bincode_reader (HStruct hs) = read_map SStruct (read_each (map bincode_reader hs))"
| "bincode_reader (HNewtypeStruct h) = read_map SNewtypeStruct (bincode_reader h)"
| "bincode_reader (HEnum hs) = read_variant (map (map_option bincode_reader) hs)"

definition bincode :: format_ops where
  "bincode = \<lparr> fmt_write = bincode_write, fmt_read = (\<lambda>h bs. map_option fst (bincode_reader h bs)) \<rparr>"

text \<open>A reader reads back what was written, in front of anything.\<close>

definition reads_back :: "'a reader \<Rightarrow> bytes \<Rightarrow> 'a \<Rightarrow> bool" where
  "reads_back r bs x \<longleftrightarrow> (\<forall>rest. r (bs @ rest) = Some (x, rest))"

lemma reads_back_map: "reads_back r bs x \<Longrightarrow> y = f x \<Longrightarrow> reads_back (read_map f r) bs y"
  by (simp add: reads_back_def read_map_def)

lemma reads_back_then: "reads_back r as x \<Longrightarrow> reads_back (f x) bs y \<Longrightarrow> reads_back (read_then r f) (as @ bs) y"
  by (simp add: reads_back_def read_then_def)

lemma reads_back_pair:
  "reads_back r as x \<Longrightarrow> reads_back s bs y \<Longrightarrow> reads_back (read_pair r s) (as @ bs) (x, y)"
  unfolding read_pair_def by (rule reads_back_then, assumption, rule reads_back_map) simp_all

lemma reads_back_word:
  "LENGTH('a::len) = 8 * n \<Longrightarrow> reads_back (read_word n) (le_bytes n w) (w :: 'a word)"
  by (simp add: reads_back_def read_word_def read_bytes_def)

lemmas reads_back_words = reads_back_word [where 'a = 32 and n = 4, simplified]
  reads_back_word [where 'a = 64 and n = 8, simplified]

lemma reads_back_bytes: "reads_back (read_bytes (length bs)) bs bs"
  by (simp add: reads_back_def read_bytes_def)

lemma reads_back_each:
  "list_all2 (\<lambda>(r, bs) x. reads_back r bs x) (zip rs bss) xs \<Longrightarrow> length rs = length bss
    \<Longrightarrow> reads_back (read_each rs) (concat bss) xs"
proof (induction rs bss arbitrary: xs rule: list_induct2')
  case (4 r rs b bss)
  then show ?case by (auto simp: reads_back_def list_all2_Cons1)
qed (simp_all add: reads_back_def)

lemma reads_back_length:
  assumes "length_prefix n = Some pre" and "reads_back (f (of_nat n :: u64)) bs y"
  shows "reads_back (read_then (read_word 8) f) (pre @ bs) y"
  using assms by (intro reads_back_then [of _ _ "of_nat n"])
    (auto simp: length_prefix_def split: if_splits intro: reads_back_word)

lemma length_prefix_unat: "length_prefix n = Some pre \<Longrightarrow> unat (of_nat n :: u64) = n"
  by (simp add: length_prefix_def unat_of_nat split: if_splits)

lemma reads_back_variant:
  assumes "variant_prefix n = Some pre" and "n < length rs"
    and "case rs ! n of None \<Rightarrow> bs = [] \<and> v = SUnitVariant n
      | Some r \<Rightarrow> \<exists>x. reads_back r bs x \<and> v = SNewtypeVariant n x"
  shows "reads_back (read_variant rs) (pre @ bs) v"
proof -
  have n: "unat (of_nat n :: u32) = n" "pre = le_bytes 4 (of_nat n :: u32)"
    using assms(1) by (simp_all add: variant_prefix_def unat_of_nat split: if_splits)
  have "reads_back (read_word 4 :: u32 reader) pre (of_nat n)"
    unfolding n(2) by (rule reads_back_word) simp
  then show ?thesis unfolding read_variant_def
    by (rule reads_back_then)
      (use assms(2,3) n(1) in \<open>auto simp: reads_back_map split: option.splits, simp add: reads_back_def\<close>)
qed

lemma those_Cons_Some:
  "those (x # xs) = Some ys \<longleftrightarrow> (\<exists>y zs. x = Some y \<and> those xs = Some zs \<and> ys = y # zs)"
  by (auto split: option.split)

lemma those_map_Some:
  "those (map f xs) = Some ys \<longleftrightarrow> list_all2 (\<lambda>x y. f x = Some y) xs ys"
  by (induction xs arbitrary: ys) (auto simp: list_all2_Cons1 split: option.split)

lemma apply_each_Some:
  "apply_each fs xs = Some ys \<longleftrightarrow> length fs = length xs
    \<and> list_all2 (\<lambda>(f, x) y. f x = Some y) (zip fs xs) ys"
  by (induction fs xs arbitrary: ys rule: apply_each.induct)
    (auto simp: list_all2_Cons1 bind_eq_Some_conv)

lemma read_entry_Some:
  "read_entry f g e = Some kv \<longleftrightarrow> f (fst e) = Some (fst kv) \<and> g (snd e) = Some (snd kv)"
  by (cases kv) (auto simp: read_entry_def bind_eq_Some_conv)

lemma reads_back_bool: "reads_back read_bool [of_bool b] b"
  by (cases b) (simp_all add: reads_back_def read_bool_def read_then_def read_word_def read_bytes_def)

lemma reads_back_str:
  assumes "list_all unicode_scalar s"
    and "joined (length_prefix (length (concat (map utf8_bytes s)))) (Some (concat (map utf8_bytes s))) = Some bs"
  shows "reads_back read_str bs s"
proof -
  let ?u = "concat (map utf8_bytes s)"
  obtain pre where pre: "length_prefix (length ?u) = Some pre" "bs = pre @ ?u"
    using assms(2) by (auto simp: joined_Some)
  have "reads_back (read_then (read_bytes (length ?u)) (\<lambda>s bs. map_option (\<lambda>t. (t, bs)) (utf8_decode s))) (?u @ []) s"
    by (rule reads_back_then [OF reads_back_bytes]) (simp add: reads_back_def utf8_roundtrip assms(1))
  then show ?thesis unfolding read_str_def pre(2)
    by (intro reads_back_length [OF pre(1)]) (simp add: length_prefix_unat [OF pre(1)])
qed

lemma reads_back_seq:
  assumes "joined (length_prefix (length xs)) (map_option concat (those (map f xs))) = Some bs"
    and "list_all2 (\<lambda>x y. \<forall>b. f x = Some b \<longrightarrow> reads_back r b y) xs ys"
  shows "reads_back (read_then (read_word 8) (\<lambda>(n :: u64). read_map g (read_each (replicate (unat n) r)))) bs (g ys)"
proof -
  obtain pre bss where b: "length_prefix (length xs) = Some pre" "bs = pre @ concat bss"
    "list_all2 (\<lambda>x b. f x = Some b) xs bss"
    using assms(1) by (auto simp: joined_Some those_map_Some)
  have "list_all2 (\<lambda>(r, bs) x. reads_back r bs x) (zip (replicate (length xs) r) bss) ys"
    using b(3) assms(2) by (fastforce simp: list_all2_conv_all_nth)
  then have "reads_back (read_each (replicate (length xs) r)) (concat bss) ys"
    by (rule reads_back_each) (simp add: list_all2_lengthD [OF b(3)])
  then show ?thesis unfolding b(2)
    by (intro reads_back_length [OF b(1)]) (simp add: length_prefix_unat [OF b(1)] reads_back_map)
qed

lemma bincode_back:
  "bincode_write v = Some bs \<Longrightarrow> reads h v = Some v' \<Longrightarrow> reads_back (bincode_reader h) bs v'"
proof (induction v arbitrary: bs h v')
  case (SBool b)
  then show ?case by (cases h) (auto intro: reads_back_map reads_back_bool)
next
  case (SU8 w)
  have "le_bytes 1 w = [w]" by (simp add: le_bytes_def)
  then have "reads_back (read_word 1) [w] w" using reads_back_word [of 1 w] by simp
  then show ?case using SU8 by (cases h) (auto intro: reads_back_map)
next
  case (SU32 w)
  then show ?case by (cases h) (auto intro: reads_back_map reads_back_words)
next
  case (SU64 w)
  then show ?case by (cases h) (auto intro: reads_back_map reads_back_words)
next
  case (SI64 w)
  then show ?case by (cases h) (auto intro: reads_back_map reads_back_words)
next
  case (SF64 w)
  then show ?case by (cases h) (auto intro: reads_back_map reads_back_words)
next
  case (SStr s)
  then show ?case
    by (cases h) (auto simp: Let_def split: if_splits intro: reads_back_map reads_back_str)
next
  case (SBytes b)
  then obtain h' where h: "h = HSeq h'" "h' = HU8" "v' = SSeq (map SU8 b)"
    by (cases h) (auto split: if_splits)
  have w: "reads_back (bincode_reader HU8) [x] (SU8 x)" for x
    using reads_back_map [OF reads_back_word [of 1 x], of "SU8 x" SU8] by (simp add: le_bytes_def)
  have "those (map (\<lambda>x. Some [x]) b) = Some (map (\<lambda>x. [x]) b)"
    by (simp add: those_map_Some list_all2_map2 list_all2_same)
  then have "joined (length_prefix (length b)) (map_option concat (those (map (\<lambda>x. Some [x]) b))) = Some bs"
    using SBytes.prems(1) by (simp add: concat_map_singleton)
  then show ?case using reads_back_seq [of b "\<lambda>x. Some [x]" bs "bincode_reader HU8" "map SU8 b" SSeq] w
    unfolding h by (simp add: list_all2_map2 list_all2_same)
next
  case (SSeq vs)
  then obtain h' vs' where h: "h = HSeq h'" "v' = SSeq vs'" "list_all2 (\<lambda>v v'. reads h' v = Some v') vs vs'"
    by (cases h) (auto simp: those_map_Some)
  have "list_all2 (\<lambda>v v'. \<forall>b. bincode_write v = Some b \<longrightarrow> reads_back (bincode_reader h') b v') vs vs'"
    using h(3) unfolding list_all2_conv_all_nth by (blast intro: SSeq.IH [OF nth_mem])
  then show ?case using reads_back_seq [OF SSeq.prems(1) [simplified]] unfolding h(1,2) by simp
next
  case (SMap kvs)
  then obtain hk hv kvs' where h: "h = HMap hk hv" "v' = SMap kvs'"
    "list_all2 (\<lambda>e kv'. read_entry (reads hk) (reads hv) e = Some kv') kvs kvs'"
    by (cases h) (auto simp: those_map_Some)
  have "list_all2 (\<lambda>e kv'. \<forall>b. joined (bincode_write (fst e)) (bincode_write (snd e)) = Some b
      \<longrightarrow> reads_back (read_pair (bincode_reader hk) (bincode_reader hv)) b kv') kvs kvs'"
    unfolding list_all2_conv_all_nth
  proof (intro conjI allI impI)
    show "length kvs = length kvs'" using h(3) by (rule list_all2_lengthD)
    fix i
    assume i: "i < length kvs"
    obtain k v where kv: "kvs ! i = (k, v)" by fastforce
    then have "(k, v) \<in> set kvs" using i by (metis nth_mem)
    note IH = SMap.IH [OF this]
    have "reads hk k = Some (fst (kvs' ! i))" "reads hv v = Some (snd (kvs' ! i))"
      using list_all2_nthD [OF h(3) i] by (simp_all add: kv read_entry_Some)
    then have "\<And>x y. bincode_write k = Some x \<Longrightarrow> bincode_write v = Some y \<Longrightarrow>
        reads_back (read_pair (bincode_reader hk) (bincode_reader hv)) (x @ y) (fst (kvs' ! i), snd (kvs' ! i))"
      using IH by (intro reads_back_pair) auto
    then show "joined (bincode_write (fst (kvs ! i))) (bincode_write (snd (kvs ! i))) = Some b
      \<Longrightarrow> reads_back (read_pair (bincode_reader hk) (bincode_reader hv)) b (kvs' ! i)" for b
      by (auto simp: kv joined_Some)
  qed
  then show ?case using reads_back_seq [OF SMap.prems(1) [simplified]] unfolding h(1,2)
    by (simp add: case_prod_beta)
next
  case (SStruct vs)
  then obtain hs vs' where h: "h = HStruct hs" "v' = SStruct vs'" "length hs = length vs"
    "list_all2 (\<lambda>(f, v) v'. f v = Some v') (zip (map reads hs) vs) vs'"
    by (cases h) (auto simp: apply_each_Some)
  obtain bss where b: "bs = concat bss" "list_all2 (\<lambda>v b. bincode_write v = Some b) vs bss"
    using SStruct.prems(1) by (auto simp: those_map_Some)
  have "list_all2 (\<lambda>(r, bs) x. reads_back r bs x) (zip (map bincode_reader hs) bss) vs'"
    using h(3) list_all2_lengthD [OF b(2)] list_all2_lengthD [OF h(4)]
      list_all2_nthD [OF b(2)] list_all2_nthD [OF h(4)]
    by (auto simp: list_all2_conv_all_nth intro!: SStruct.IH [OF nth_mem])
  then have "reads_back (read_each (map bincode_reader hs)) (concat bss) vs'"
    by (rule reads_back_each) (use h(3) list_all2_lengthD [OF b(2)] in simp)
  then show ?case unfolding h(1,2) b(1) by (simp add: reads_back_map)
next
  case (SNewtypeStruct v)
  then show ?case by (cases h) (auto intro: reads_back_map)
next
  case (SUnitVariant n)
  then obtain hs where h: "h = HEnum hs" "n < length hs" "hs ! n = None" "v' = SUnitVariant n"
    by (cases h) (auto split: if_splits)
  then show ?case
    using reads_back_variant [of n bs "map (map_option bincode_reader) hs" "[]" v'] SUnitVariant.prems(1)
    by simp
next
  case (SNewtypeVariant n v)
  then obtain hs h' x where h: "h = HEnum hs" "n < length hs" "hs ! n = Some h'" "reads h' v = Some x"
    "v' = SNewtypeVariant n x"
    by (cases h) (auto split: if_splits option.splits)
  obtain pre b where b: "variant_prefix n = Some pre" "bincode_write v = Some b" "bs = pre @ b"
    using SNewtypeVariant.prems(1) by (auto simp: joined_Some)
  show ?case
    using reads_back_variant [of n pre "map (map_option bincode_reader) hs" b v'] b
      SNewtypeVariant.IH [OF b(2) h(4)] h by simp
qed

interpretation bincode_format: serde_format bincode
proof
  fix v bs h v'
  assume "fmt_write bincode v = Some bs" and "reads h v = Some v'"
  then have "reads_back (bincode_reader h) bs v'" by (simp add: bincode_def bincode_back)
  then have "bincode_reader h (bs @ []) = Some (v', [])" unfolding reads_back_def by blast
  then show "fmt_read bincode h bs = Some v'" by (simp add: bincode_def)
qed

subsection \<open>The implementations of the message crate\<close>

text \<open>
  An implementation: what a value is written as, what is asked for when it is read, and how the
  answer is turned into a value.  \<open>fresh\<close> is the value that is read back.
\<close>

locale serde_impl =
  fixes ser :: "'a \<Rightarrow> serde_value" and shape :: serde_shape and de :: "serde_value \<Rightarrow> 'a option"
    and ok :: "'a \<Rightarrow> bool" and fresh :: "'a \<Rightarrow> 'a"
  assumes read_back: "ok x \<Longrightarrow> \<exists>v. reads shape (ser x) = Some v \<and> de v = Some (fresh x)"
begin

lemma read_backE:
  assumes "ok x"
  obtains v where "reads shape (ser x) = Some v" and "de v = Some (fresh x)"
  using read_back [OF assms] by blast

text \<open>Vectors.\<close>

lemma read_back_list:
  assumes "list_all ok xs"
  shows "\<exists>vs. those (map (reads shape \<circ> ser) xs) = Some vs \<and> those (map de vs) = Some (map fresh xs)"
  using assms
proof (induction xs)
  case (Cons x xs)
  from Cons.prems read_backE [of x] obtain v where v: "reads shape (ser x) = Some v" "de v = Some (fresh x)"
    by auto
  from Cons.prems have "list_all ok xs" by simp
  from Cons.IH [OF this] obtain vs where "those (map (reads shape \<circ> ser) xs) = Some vs"
    "those (map de vs) = Some (map fresh xs)" by blast
  then show ?case using v by (intro exI [of _ "v # vs"]) (simp add: comp_def)
qed simp

end

text \<open>Enums without fields, from the list of their variants.\<close>

definition variant_index :: "'a list \<Rightarrow> 'a \<Rightarrow> nat" where
  "variant_index vs x = length (takeWhile (\<lambda>y. y \<noteq> x) vs)"

definition ser_unit :: "'a list \<Rightarrow> 'a \<Rightarrow> serde_value" where
  "ser_unit vs x = SUnitVariant (variant_index vs x)"

definition shape_unit :: "'a list \<Rightarrow> serde_shape" where
  "shape_unit vs = HEnum (map (\<lambda>_. None) vs)"

fun de_unit :: "'a list \<Rightarrow> serde_value \<Rightarrow> 'a option" where
  "de_unit vs (SUnitVariant n) = (if n < length vs then Some (vs ! n) else None)"
| "de_unit vs v = None"

lemma variant_index:
  assumes "x \<in> set vs"
  shows "variant_index vs x < length vs" and "vs ! variant_index vs x = x"
proof -
  show l: "variant_index vs x < length vs"
    using assms unfolding variant_index_def by (induction vs) auto
  show "vs ! variant_index vs x = x"
    using nth_length_takeWhile [of "\<lambda>y. y \<noteq> x" vs] l unfolding variant_index_def by simp
qed

lemma unit_variants [simp]:
  "x \<in> set vs \<Longrightarrow> reads (shape_unit vs) (ser_unit vs x) = Some (ser_unit vs x)"
  "x \<in> set vs \<Longrightarrow> de_unit vs (ser_unit vs x) = Some x"
  by (simp_all add: shape_unit_def ser_unit_def variant_index)

text \<open>\<open>MagicValue\<close> and \<open>BytesWrap\<close> by hand: bytes are written as a byte string and read as a
  vector of bytes.\<close>

definition ser_magic :: "magic_value \<Rightarrow> serde_value" where
  "ser_magic m = SU8 (magic_serialize MAGIC m)"

fun de_u8 :: "serde_value \<Rightarrow> u8 option" where
  "de_u8 (SU8 w) = Some w"
| "de_u8 v = None"

definition de_magic :: "serde_value \<Rightarrow> magic_value option" where
  "de_magic v = Option.bind (de_u8 v) (magic_deserialize MAGIC)"

definition ser_bytes :: "bytes_wrap \<Rightarrow> serde_value" where
  "ser_bytes b = SBytes b"

fun de_bytes :: "serde_value \<Rightarrow> bytes_wrap option" where
  "de_bytes (SSeq vs) = those (map de_u8 vs)"
| "de_bytes v = None"

text \<open>The derived implementations, field by field.\<close>

definition ser_epoch :: "mission_epoch \<Rightarrow> serde_value" where
  "ser_epoch e = SStruct [SU32 (epoch_val e)]"

definition shape_epoch :: serde_shape where
  "shape_epoch = HStruct [HU32]"

fun de_epoch :: "serde_value \<Rightarrow> mission_epoch option" where
  "de_epoch (SStruct [SU32 w]) = Some (MissionEpoch w)"
| "de_epoch v = None"

fun de_bool :: "serde_value \<Rightarrow> bool option" where
  "de_bool (SBool b) = Some b"
| "de_bool v = None"

definition ser_type :: "message_type \<Rightarrow> serde_value" where
  "ser_type t = SStruct [ser_unit disposition_variants (disposition t), SBool (invalid t),
     ser_unit event_variants (event t)]"

definition shape_type :: serde_shape where
  "shape_type = HStruct [shape_unit disposition_variants, HBool, shape_unit event_variants]"

fun de_type :: "serde_value \<Rightarrow> message_type option" where
  "de_type (SStruct [d, i, e]) =
     Option.bind (de_unit disposition_variants d) (\<lambda>d.
     Option.bind (de_bool i) (\<lambda>i.
     map_option (\<lambda>e. \<lparr> disposition = d, invalid = i, event = e \<rparr>) (de_unit event_variants e)))"
| "de_type v = None"

definition ser_header :: "header \<Rightarrow> serde_value" where
  "ser_header h = SStruct [ser_magic (magic h), ser_unit destination_variants (destination h),
     ser_epoch (timestamp h), SU8 (seq h), ser_type (ty h)]"

definition shape_header :: serde_shape where
  "shape_header = HStruct [HU8, shape_unit destination_variants, shape_epoch, HU8, shape_type]"

fun de_header :: "serde_value \<Rightarrow> header option" where
  "de_header (SStruct [m, d, t, s, y]) =
     Option.bind (de_magic m) (\<lambda>m.
     Option.bind (de_unit destination_variants d) (\<lambda>d.
     Option.bind (de_epoch t) (\<lambda>t.
     Option.bind (de_u8 s) (\<lambda>s.
     map_option (\<lambda>y. \<lparr> magic = m, destination = d, timestamp = t, seq = s, ty = y \<rparr>) (de_type y)))))"
| "de_header v = None"

definition ser_info :: "info \<Rightarrow> serde_value" where
  "ser_info i = SStruct [ser_header (info_header i), SU8 (info_checksum i)]"

definition shape_info :: serde_shape where
  "shape_info = HStruct [shape_header, HU8]"

fun de_info :: "serde_value \<Rightarrow> info option" where
  "de_info (SStruct [h, c]) =
     Option.bind (de_header h) (\<lambda>h. map_option (\<lambda>c. \<lparr> info_header = h, info_checksum = c \<rparr>) (de_u8 c))"
| "de_info v = None"

fun ser_source :: "source_info \<Rightarrow> serde_value" where
  "ser_source Empty = SUnitVariant 0"
| "ser_source (Info i) = SNewtypeVariant 1 (ser_info i)"

definition shape_source :: serde_shape where
  "shape_source = HEnum [None, Some shape_info]"

fun de_source :: "serde_value \<Rightarrow> source_info option" where
  "de_source (SUnitVariant n) = (if n = 0 then Some Empty else None)"
| "de_source (SNewtypeVariant n v) = (if n = 1 then map_option Info (de_info v) else None)"
| "de_source v = None"

definition ser_packet ::
  "('h \<Rightarrow> serde_value) \<Rightarrow> ('p \<Rightarrow> serde_value) \<Rightarrow> ('h, 'p) header_packet \<Rightarrow> serde_value" where
  "ser_packet ser_h ser_p p = SStruct [ser_h (header p), ser_p (payload p)]"

definition shape_packet :: "serde_shape \<Rightarrow> serde_shape \<Rightarrow> serde_shape" where
  "shape_packet h p = HStruct [h, p]"

fun de_packet ::
  "(serde_value \<Rightarrow> 'h option) \<Rightarrow> (serde_value \<Rightarrow> 'p option) \<Rightarrow> serde_value
     \<Rightarrow> ('h, 'p) header_packet option" where
  "de_packet de_h de_p (SStruct [h, p]) =
     Option.bind (de_h h) (\<lambda>h. map_option (\<lambda>p. \<lparr> header = h, payload = p \<rparr>) (de_p p))"
| "de_packet de_h de_p v = None"

definition ser_message :: "message \<Rightarrow> serde_value" where
  "ser_message = with_crc_serialize (ser_packet (ser_packet ser_header ser_source) ser_bytes)"

definition shape_message :: serde_shape where
  "shape_message = shape_packet (shape_packet shape_header shape_source) (HSeq HU8)"

definition de_message :: "serde_value \<Rightarrow> message option" where
  "de_message = with_crc_deserialize (de_packet (de_packet de_header de_source) de_bytes)"

text \<open>Logs.\<close>

fun ser_value :: "field_value \<Rightarrow> serde_value" where
  "ser_value (FieldString s) = SNewtypeVariant 0 (SStr s)"
| "ser_value (FieldU64 n) = SNewtypeVariant 1 (SU64 n)"
| "ser_value (FieldI64 n) = SNewtypeVariant 2 (SI64 n)"
| "ser_value (FieldF64 n) = SNewtypeVariant 3 (SF64 n)"
| "ser_value (FieldBool b) = SNewtypeVariant 4 (SBool b)"

definition shape_value :: serde_shape where
  "shape_value = HEnum [Some HStr, Some HU64, Some HI64, Some HF64, Some HBool]"

definition de_value :: "serde_value \<Rightarrow> field_value option" where
  "de_value v =
     (case v of
        SNewtypeVariant n x \<Rightarrow>
          (case x of
             SStr s \<Rightarrow> if n = 0 then Some (FieldString s) else None
           | SU64 w \<Rightarrow> if n = 1 then Some (FieldU64 w) else None
           | SI64 w \<Rightarrow> if n = 2 then Some (FieldI64 w) else None
           | SF64 w \<Rightarrow> if n = 3 then Some (FieldF64 w) else None
           | SBool b \<Rightarrow> if n = 4 then Some (FieldBool b) else None
           | _ \<Rightarrow> None)
      | _ \<Rightarrow> None)"

fun de_str :: "serde_value \<Rightarrow> rust_str option" where
  "de_str (SStr s) = Some s"
| "de_str v = None"

text \<open>A map is written in the order of its keys, and read by inserting one entry after the other.\<close>

definition ser_fields :: "(rust_str \<Rightarrow> field_value option) \<Rightarrow> serde_value" where
  "ser_fields f = SMap (map (\<lambda>(k, v). (SStr k, ser_value v)) (btree_entries f))"

fun de_fields :: "serde_value \<Rightarrow> (rust_str \<Rightarrow> field_value option) option" where
  "de_fields (SMap kvs) = map_option (\<lambda>es. map_of (rev es))
     (those (map (read_entry de_str de_value) kvs))"
| "de_fields v = None"

definition level_variants :: "level list" where
  "level_variants = [ERROR, WARN, INFO, DEBUG, TRACE, UNKNOWN]"

definition ser_span :: "span_data \<Rightarrow> serde_value" where
  "ser_span s = SStruct [SStr (span_name s), SStr (span_target s), ser_fields (span_fields s),
     ser_unit level_variants (span_level s)]"

definition shape_span :: serde_shape where
  "shape_span = HStruct [HStr, HStr, HMap HStr shape_value, shape_unit level_variants]"

fun de_span :: "serde_value \<Rightarrow> span_data option" where
  "de_span (SStruct [n, t, f, l]) =
     Option.bind (de_str n) (\<lambda>n.
     Option.bind (de_str t) (\<lambda>t.
     Option.bind (de_fields f) (\<lambda>f.
     map_option (\<lambda>l. \<lparr> span_name = n, span_target = t, span_fields = f, span_level = l \<rparr>)
       (de_unit level_variants l))))"
| "de_span v = None"

definition ser_log :: "log \<Rightarrow> serde_value" where
  "ser_log l = SNewtypeStruct (SSeq (map ser_span l))"

definition shape_log :: serde_shape where
  "shape_log = HNewtypeStruct (HSeq shape_span)"

fun de_log :: "serde_value \<Rightarrow> log option" where
  "de_log (SNewtypeStruct (SSeq vs)) = those (map de_span vs)"
| "de_log v = None"

fun ser_downlink :: "downlink \<Rightarrow> serde_value" where
  "ser_downlink (DownlinkLog l) = SNewtypeVariant 0 (ser_log l)"
| "ser_downlink (UplinkMirror b) = SNewtypeVariant 1 (ser_bytes b)"
| "ser_downlink (UplinkInterpreted m) = SNewtypeVariant 2 (ser_message m)"
| "ser_downlink (SerialUplink m) = SNewtypeVariant 3 (ser_message m)"
| "ser_downlink (SerialDownlink m) = SNewtypeVariant 4 (ser_message m)"
| "ser_downlink (SerialUplinkRaw b) = SNewtypeVariant 5 (ser_bytes b)"
| "ser_downlink (SerialDownlinkRaw b) = SNewtypeVariant 6 (ser_bytes b)"

definition shape_downlink :: serde_shape where
  "shape_downlink = HEnum [Some shape_log, Some (HSeq HU8), Some shape_message, Some shape_message,
     Some shape_message, Some (HSeq HU8), Some (HSeq HU8)]"

definition de_downlink :: "serde_value \<Rightarrow> downlink option" where
  "de_downlink v =
     (case v of
        SNewtypeVariant n x \<Rightarrow>
          (if n = 0 then map_option DownlinkLog (de_log x)
           else if n = 1 then map_option UplinkMirror (de_bytes x)
           else if n = 2 then map_option UplinkInterpreted (de_message x)
           else if n = 3 then map_option SerialUplink (de_message x)
           else if n = 4 then map_option SerialDownlink (de_message x)
           else if n = 5 then map_option SerialUplinkRaw (de_bytes x)
           else if n = 6 then map_option SerialDownlinkRaw (de_bytes x)
           else None)
      | _ \<Rightarrow> None)"

lemmas serde_read_defs = bind_eq_Some_conv with_crc_serialize_def with_crc_deserialize_def

lemma variants_all [simp]:
  "d \<in> set destination_variants" "p \<in> set disposition_variants" "e \<in> set event_variants"
  "l \<in> set level_variants"
proof -
  show "d \<in> set destination_variants" by (cases d) (simp_all add: destination_variants_def)
  show "p \<in> set disposition_variants" by (cases p) (simp_all add: disposition_variants_def)
  show "e \<in> set event_variants" by (cases e) (simp_all add: event_variants_def)
  show "l \<in> set level_variants" by (cases l) (simp_all add: level_variants_def)
qed

interpretation serde_epoch: serde_impl ser_epoch shape_epoch de_epoch "\<lambda>_. True" id
  by unfold_locales (simp add: ser_epoch_def shape_epoch_def)

interpretation serde_type: serde_impl ser_type shape_type de_type "\<lambda>_. True" id
  by unfold_locales (simp add: ser_type_def shape_type_def)

lemma magic_read [simp]: "de_magic (ser_magic m) = Some m"
  by (cases m) (simp add: de_magic_def ser_magic_def magic_serde)

interpretation serde_header: serde_impl ser_header shape_header de_header "\<lambda>_. True" id
proof
  fix h :: header
  obtain t where t: "reads shape_epoch (ser_epoch (timestamp h)) = Some t" "de_epoch t = Some (timestamp h)"
    using serde_epoch.read_back [OF TrueI] by (metis id_apply)
  obtain y where y: "reads shape_type (ser_type (ty h)) = Some y" "de_type y = Some (ty h)"
    using serde_type.read_back [OF TrueI] by (metis id_apply)
  have "reads HU8 (ser_magic (magic h)) = Some (ser_magic (magic h))" by (simp add: ser_magic_def)
  then show "\<exists>v. reads shape_header (ser_header h) = Some v \<and> de_header v = Some (id h)"
    using t y by (simp add: ser_header_def shape_header_def)
qed

interpretation serde_info: serde_impl ser_info shape_info de_info "\<lambda>_. True" id
proof
  fix i :: info
  obtain v where "reads shape_header (ser_header (info_header i)) = Some v" "de_header v = Some (info_header i)"
    using serde_header.read_back [OF TrueI] by (metis id_apply)
  then show "\<exists>v. reads shape_info (ser_info i) = Some v \<and> de_info v = Some (id i)"
    by (simp add: ser_info_def shape_info_def)
qed

interpretation serde_source: serde_impl ser_source shape_source de_source "\<lambda>_. True" id
proof
  fix s
  show "\<exists>v. reads shape_source (ser_source s) = Some v \<and> de_source v = Some (id s)"
  proof (cases s)
    case (Info i)
    obtain v where "reads shape_info (ser_info i) = Some v" "de_info v = Some i"
      using serde_info.read_back [OF TrueI] by (metis id_apply)
    then show ?thesis using Info by (simp add: shape_source_def)
  qed (simp add: shape_source_def)
qed

interpretation serde_bytes: serde_impl ser_bytes "HSeq HU8" de_bytes "\<lambda>_. True" id
proof
  fix b
  have "those (map de_u8 (map SU8 b)) = Some b" by (induction b) simp_all
  then show "\<exists>v. reads (HSeq HU8) (ser_bytes b) = Some v \<and> de_bytes v = Some (id b)"
    by (simp add: ser_bytes_def)
qed

text \<open>A packet of two implementations that read back the same value.\<close>

lemma serde_packet:
  assumes "serde_impl ser_h sh de_h (\<lambda>_. True) id" and "serde_impl ser_p sp de_p (\<lambda>_. True) id"
  shows "serde_impl (ser_packet ser_h ser_p) (shape_packet sh sp) (de_packet de_h de_p) (\<lambda>_. True) id"
proof
  fix x :: "('a, 'b) header_packet"
  obtain h p where "reads sh (ser_h (header x)) = Some h" "de_h h = Some (header x)"
    "reads sp (ser_p (payload x)) = Some p" "de_p p = Some (payload x)"
    using serde_impl.read_back [OF assms(1) TrueI, of "header x"]
      serde_impl.read_back [OF assms(2) TrueI, of "payload x"] by auto
  then show "\<exists>v. reads (shape_packet sh sp) (ser_packet ser_h ser_p x) = Some v
      \<and> de_packet de_h de_p v = Some (id x)"
    by (simp add: ser_packet_def shape_packet_def)
qed

interpretation serde_message: serde_impl ser_message shape_message de_message "\<lambda>_. True"
  "\<lambda>m. with_crc_new (val m)"
proof
  fix m :: message
  obtain v where "reads shape_message (ser_packet (ser_packet ser_header ser_source) ser_bytes (val m)) = Some v"
    "de_packet (de_packet de_header de_source) de_bytes v = Some (val m)"
    unfolding shape_message_def
    using serde_impl.read_back [OF serde_packet [OF serde_packet [OF serde_header.serde_impl_axioms
          serde_source.serde_impl_axioms] serde_bytes.serde_impl_axioms] TrueI, of "val m"]
    by auto
  then show "\<exists>v. reads shape_message (ser_message m) = Some v
      \<and> de_message v = Some (with_crc_new (val m))"
    by (simp add: ser_message_def de_message_def serde_read_defs)
qed

interpretation serde_value: serde_impl ser_value shape_value de_value "\<lambda>_. True" id
proof
  fix x
  show "\<exists>v. reads shape_value (ser_value x) = Some v \<and> de_value v = Some (id x)"
    by (cases x) (simp_all add: shape_value_def de_value_def)
qed

interpretation serde_fields: serde_impl ser_fields "HMap HStr shape_value" de_fields "\<lambda>f. finite (dom f)" id
proof
  fix f :: "rust_str \<Rightarrow> field_value option"
  assume fin: "finite (dom f)"
  have entries: "\<exists>kvs. those (map (read_entry (reads HStr) (reads shape_value)) (map (\<lambda>(k, v). (SStr k, ser_value v)) es)) = Some kvs
      \<and> those (map (read_entry de_str de_value) kvs) = Some es"
    for es
  proof (induction es)
    case (Cons e es)
    obtain k x where e: "e = (k, x)" by fastforce
    obtain v where "reads shape_value (ser_value x) = Some v" "de_value v = Some x"
      using serde_value.read_back [OF TrueI] by (metis id_apply)
    then have "read_entry (reads HStr) (reads shape_value) (SStr k, ser_value x) = Some (SStr k, v)"
      "read_entry de_str de_value (SStr k, v) = Some (k, x)"
      by (simp_all add: read_entry_Some)
    moreover obtain kvs where "those (map (read_entry (reads HStr) (reads shape_value))
        (map (\<lambda>(k, v). (SStr k, ser_value v)) es)) = Some kvs" "those (map (read_entry de_str de_value) kvs) = Some es"
      using Cons by blast
    ultimately show ?case using e
      by (intro exI [of _ "(SStr k, v) # kvs"]) (simp del: map_map reads.simps)
  qed simp
  have "distinct (map fst (btree_entries f))" by (simp add: btree_entries_def comp_def)
  then have "map_of (rev (btree_entries f)) = f"
    using btree_entries_exact(1) [OF fin] map_of_inject_set [of "rev (btree_entries f)" "btree_entries f"]
    by (simp add: rev_map [symmetric])
  then show "\<exists>v. reads (HMap HStr shape_value) (ser_fields f) = Some v \<and> de_fields v = Some (id f)"
    using entries [of "btree_entries f"] by (auto simp: ser_fields_def)
qed

definition span_finite :: "span_data \<Rightarrow> bool" where
  "span_finite s \<longleftrightarrow> finite (dom (span_fields s))"

interpretation serde_span: serde_impl ser_span shape_span de_span span_finite id
proof
  fix s :: span_data
  assume "span_finite s"
  then obtain f where "reads (HMap HStr shape_value) (ser_fields (span_fields s)) = Some f"
    "de_fields f = Some (span_fields s)"
    using serde_fields.read_backE [of "span_fields s"] by (auto simp: span_finite_def)
  then show "\<exists>v. reads shape_span (ser_span s) = Some v \<and> de_span v = Some (id s)"
    by (simp add: ser_span_def shape_span_def)
qed

interpretation serde_log: serde_impl ser_log shape_log de_log "list_all span_finite" id
proof
  fix l
  assume "list_all span_finite l"
  from serde_span.read_back_list [OF this]
  show "\<exists>v. reads shape_log (ser_log l) = Some v \<and> de_log v = Some (id l)"
    by (auto simp: ser_log_def shape_log_def comp_def)
qed

text \<open>The fields of a span are finitely many, as in every \<open>BTreeMap\<close>.\<close>

fun downlink_finite :: "downlink \<Rightarrow> bool" where
  "downlink_finite (DownlinkLog l) = list_all span_finite l"
| "downlink_finite d = True"

interpretation serde_downlink: serde_impl ser_downlink shape_downlink de_downlink downlink_finite downlink_fresh
proof
  fix d
  assume fin: "downlink_finite d"
  note msg = serde_message.read_back [OF TrueI] and bts = serde_bytes.read_back [OF TrueI]
  show "\<exists>v. reads shape_downlink (ser_downlink d) = Some v \<and> de_downlink v = Some (downlink_fresh d)"
  proof (cases d)
    case (DownlinkLog l)
    then show ?thesis using serde_log.read_back [of l] fin by (auto simp: shape_downlink_def de_downlink_def)
  next
    case (UplinkMirror b)
    then show ?thesis using bts [of b] by (auto simp: shape_downlink_def de_downlink_def)
  next
    case (UplinkInterpreted m)
    then show ?thesis using msg [of m] by (auto simp: shape_downlink_def de_downlink_def)
  next
    case (SerialUplink m)
    then show ?thesis using msg [of m] by (auto simp: shape_downlink_def de_downlink_def)
  next
    case (SerialDownlink m)
    then show ?thesis using msg [of m] by (auto simp: shape_downlink_def de_downlink_def)
  next
    case (SerialUplinkRaw b)
    then show ?thesis using bts [of b] by (auto simp: shape_downlink_def de_downlink_def)
  next
    case (SerialDownlinkRaw b)
    then show ?thesis using bts [of b] by (auto simp: shape_downlink_def de_downlink_def)
  qed
qed

subsection \<open>The serialiser of the downlink\<close>

definition downlink_serialize :: "format_ops \<Rightarrow> downlink \<Rightarrow> bytes option" where
  "downlink_serialize F d = (if downlink_finite d then fmt_write F (ser_downlink d) else None)"

definition downlink_deserialize :: "format_ops \<Rightarrow> bytes \<Rightarrow> downlink option" where
  "downlink_deserialize F bs = Option.bind (fmt_read F shape_downlink bs) de_downlink"

context serde_format
begin

lemma serialized_is_read:
  assumes "downlink_serialize F d = Some bs"
  shows "downlink_deserialize F bs = Some (downlink_fresh d)"
proof -
  have d: "downlink_finite d" "fmt_write F (ser_downlink d) = Some bs"
    using assms by (simp_all add: downlink_serialize_def split: if_splits)
  obtain v where "reads shape_downlink (ser_downlink d) = Some v" "de_downlink v = Some (downlink_fresh d)"
    using serde_downlink.read_backE [OF d(1)] by blast
  then show ?thesis using read_write [OF d(2)] by (simp add: downlink_deserialize_def)
qed

end

interpretation bincode_downlink: downlink_codec "downlink_serialize bincode" "downlink_deserialize bincode" Some Some
  by unfold_locales (simp_all add: bincode_format.serialized_is_read)

lemma downlink_fresh_eq: "downlink_fresh d = downlink_fresh d' \<Longrightarrow> downlink_same d d'"
  by (cases d; cases d') (auto dest: arg_cong [of _ _ val])

text \<open>C27: what the relay serialises is read back.  Over any format that reads what it wrote, and gives
  the bytes of a byte string to a reader of a vector, the reader of the downlink gets from the
  bytes of a value the value itself, log records, messages and packets alike, with the messages'
  caches empty; so no two different values have the same bytes.\<close>

theorem downlink_serde_roundtrip:
  assumes "serde_format F" and "downlink_serialize F d = Some bs"
  shows "downlink_deserialize F bs = Some (downlink_fresh d)
    \<and> (\<forall>d'. downlink_serialize F d' = Some bs \<longrightarrow> downlink_same d d')"
proof (intro conjI allI impI)
  note read = serde_format.serialized_is_read [OF assms(1)]
  show "downlink_deserialize F bs = Some (downlink_fresh d)" by (rule read [OF assms(2)])
  show "downlink_same d d'" if "downlink_serialize F d' = Some bs" for d'
    using read [OF assms(2)] read [OF that] by (simp add: downlink_fresh_eq)
qed

definition sample_span :: span_data where
  "sample_span = \<lparr> span_name = str ''ev'', span_target = [0xe9], span_fields = [str ''ok'' \<mapsto> FieldBool True],
     span_level = WARN \<rparr>"

lemma sample_span_written:
  "downlink_serialize bincode (DownlinkLog [sample_span]) = Some ([0, 0, 0, 0] @ [1, 0, 0, 0, 0, 0, 0, 0]
     @ [2, 0, 0, 0, 0, 0, 0, 0, 101, 118] @ [2, 0, 0, 0, 0, 0, 0, 0, 0xc3, 0xa9]
     @ [1, 0, 0, 0, 0, 0, 0, 0] @ [2, 0, 0, 0, 0, 0, 0, 0, 111, 107] @ [4, 0, 0, 0, 1] @ [1, 0, 0, 0])"
  by (simp add: downlink_serialize_def bincode_def sample_span_def span_finite_def ser_log_def ser_span_def
      ser_fields_def btree_entries_def ser_unit_def variant_index_def level_variants_def joined_def
      length_prefix_def variant_prefix_def le_bytes_def utf8_bytes_def unicode_scalar_def str_def Let_def
      upt_rec)

theorem downlink_serde_roundtrip_witness:
  "downlink_deserialize bincode ([0, 0, 0, 0] @ [1, 0, 0, 0, 0, 0, 0, 0]
     @ [2, 0, 0, 0, 0, 0, 0, 0, 101, 118] @ [2, 0, 0, 0, 0, 0, 0, 0, 0xc3, 0xa9]
     @ [1, 0, 0, 0, 0, 0, 0, 0] @ [2, 0, 0, 0, 0, 0, 0, 0, 111, 107] @ [4, 0, 0, 0, 1] @ [1, 0, 0, 0])
    = Some (DownlinkLog [sample_span])"
  using downlink_serde_roundtrip [OF bincode_format.serde_format_axioms sample_span_written] by simp

text \<open>In bincode every message and packet is written, unless it is longer than any memory.\<close>

lemma bincode_message_written:
  assumes "length (payload (val m)) < 2 ^ 64"
  shows "bincode_write (ser_message m) \<noteq> None"
proof -
  have unit: "bincode_write (ser_unit vs x) \<noteq> None" if "variant_index vs x < 2 ^ 32" for vs :: "'x list" and x
    using that by (simp add: ser_unit_def variant_prefix_def)
  have index: "variant_index vs x < 2 ^ 32" if "length vs < 2 ^ 32" for vs :: "'x list" and x
    using that length_takeWhile_le [of "\<lambda>y. y \<noteq> x" vs] unfolding variant_index_def by linarith
  note units = unit [OF index]
  have hdr: "bincode_write (ser_header h) \<noteq> None" for h
  proof -
    have "bincode_write (ser_unit disposition_variants (disposition (ty h))) \<noteq> None"
      by (rule units) (simp add: disposition_variants_def)
    moreover have "bincode_write (ser_unit event_variants (event (ty h))) \<noteq> None"
      by (rule units) (simp add: event_variants_def)
    moreover have "bincode_write (ser_unit destination_variants (destination h)) \<noteq> None"
      by (rule units) (simp add: destination_variants_def)
    ultimately show ?thesis
      by (auto simp: ser_header_def ser_type_def ser_epoch_def ser_magic_def)
  qed
  then have "bincode_write (ser_source s) \<noteq> None" for s
    by (cases s) (auto simp: ser_info_def variant_prefix_def joined_def split: option.splits bind_splits)
  then show ?thesis using hdr assms
    by (auto simp: ser_message_def with_crc_serialize_def ser_packet_def ser_bytes_def joined_def
        length_prefix_def split: option.splits)
qed

end
