(* ===== verification/Tools.thy ===== *)
theory Tools
  imports Ground Services Machine_Runs Texts
begin

text \<open>
  The command line tools of \<open>src/bin\<close>: the listing of control messages (\<open>rovermsgs\<close>), the
  commands of the ground console (\<open>console\<close>), and the central station emulator
  (\<open>serial_console\<close>) with its automatic acknowledgement.
\<close>

subsection \<open>rovermsgs\<close>

definition NULL_PARAMS :: params where
  "NULL_PARAMS = \<lparr> env_time = MissionEpoch 0, env_seq = 0 \<rparr>"

definition mk_fe_command :: "hex_ops \<Rightarrow> (bytes \<Rightarrow> u8) \<Rightarrow> event \<Rightarrow> rust_str result" where
  "mk_fe_command H crc8 evt =
     and_then (pack_to_vec (message_ops crc8) (message_command NULL_PARAMS Frontend evt))
       (\<lambda>result. Ok (hex_encode H result))"

definition mk_ant_command :: "hex_ops \<Rightarrow> (bytes \<Rightarrow> u8) \<Rightarrow> event \<Rightarrow> rust_str result" where
  "mk_ant_command H crc8 evt =
     and_then (pack_to_vec (message_ops crc8) (message_command NULL_PARAMS Ant evt))
       (\<lambda>result. Ok (hex_encode H result))"

text \<open>The lines printed, on their two streams.  An error ends the printing.\<close>

datatype printed = Stdout rust_str | Stderr rust_str

definition print_command :: "rust_str \<Rightarrow> rust_str \<Rightarrow> printed list" where
  "print_command evt msg = [Stderr msg, Stdout evt, Stderr []]"

fun print_listing :: "(rust_str \<times> rust_str result) list \<Rightarrow> printed list \<times> unit result" where
  "print_listing [] = ([], Ok ())"
| "print_listing ((msg, command) # commands) =
     (case command of
        Inl e \<Rightarrow> ([], Inl e)
      | Ok evt \<Rightarrow>
          (let (out, r) = print_listing commands in (print_command evt msg @ out, r)))"

definition rovermsgs :: "hex_ops \<Rightarrow> (bytes \<Rightarrow> u8) \<Rightarrow> printed list \<times> unit result" where
  "rovermsgs H crc8 =
     (let (out, r) = print_listing (map (\<lambda>(msg, evt). (str msg, mk_fe_command H crc8 evt))
            [(''5v supplied to ant'', FEPowerSupplied), (''ant garage open'', FEGarageOpen),
             (''rover is not turning'', FERoverStop), (''rover is turning'', FERoverMove)]);
          out = Stderr (str ''hex-encoding of binary control messages (rover -> antrelay frontend)'') # out
      in case r of
           Inl e \<Rightarrow> (out, Inl e)
         | Inr u \<Rightarrow>
             (let (out', r') = print_listing (map (\<lambda>(msg, evt). (str msg, mk_ant_command H crc8 evt))
                    [(''ant start'', AntStart), (''ant stop'', AntStop),
                     (''ant forward (test only)'', AntMoveForward),
                     (''ant backward (test only)'', AntMoveBackward), (''ant ping'', AntPing)])
              in (out @ Stderr (str ''hex-encoding of selected binary ant control messages'') # out', r')))"

text \<open>What is listed: the code on the standard output, under the label printed before it.\<close>

fun listed :: "printed list \<Rightarrow> (rust_str \<times> rust_str) list" where
  "listed (Stderr msg # Stdout evt # out) = (msg, evt) # listed out"
| "listed (x # out) = listed out"
| "listed [] = []"

definition entry :: "hex_ops \<Rightarrow> (bytes \<Rightarrow> u8) \<Rightarrow> destination \<Rightarrow> string \<times> event \<Rightarrow> rust_str \<times> rust_str" where
  "entry H crc8 dest e = (str (fst e),
     hex_encode H (message_wire crc8 (val (message_command NULL_PARAMS dest (snd e)))))"

lemma null_command_packed:
  "pack_to_vec (message_ops crc8) (message_command NULL_PARAMS dest evt)
     = Ok (message_wire crc8 (val (message_command NULL_PARAMS dest evt)))"
  using pack_fresh [of crc8 "val (message_command NULL_PARAMS dest evt)"]
  by (simp add: message_command_def with_crc_new_def)

lemma print_entries:
  "print_listing (map (\<lambda>(msg, evt). (str msg, mk_fe_command H crc8 evt)) es)
     = (concat (map (\<lambda>(msg, code). print_command code msg) (map (entry H crc8 Frontend) es)), Ok ())"
  "print_listing (map (\<lambda>(msg, evt). (str msg, mk_ant_command H crc8 evt)) es)
     = (concat (map (\<lambda>(msg, code). print_command code msg) (map (entry H crc8 Ant) es)), Ok ())"
  by (induction es; force simp: mk_fe_command_def mk_ant_command_def null_command_packed entry_def)+

text \<open>The listing: for each label the destination and the event it names.\<close>

definition named_commands :: "(string \<times> destination \<times> event) list" where
  "named_commands =
    [(''5v supplied to ant'', Frontend, FEPowerSupplied), (''ant garage open'', Frontend, FEGarageOpen),
     (''rover is not turning'', Frontend, FERoverStop), (''rover is turning'', Frontend, FERoverMove),
     (''ant start'', Ant, AntStart), (''ant stop'', Ant, AntStop),
     (''ant forward (test only)'', Ant, AntMoveForward), (''ant backward (test only)'', Ant, AntMoveBackward),
     (''ant ping'', Ant, AntPing)]"

lemma rovermsgs_listing:
  "\<exists>out. rovermsgs H crc8 = (out, Ok ())
    \<and> listed out = map (\<lambda>(name, dest, evt). entry H crc8 dest (name, evt)) named_commands"
  unfolding rovermsgs_def print_entries by (simp add: entry_def print_command_def named_commands_def)

lemma entry_accepted:
  assumes "hex_laws H"
  shows "\<exists>pkt m. hex_decode H (snd (entry H crc8 dest (name, evt))) = Some pkt
    \<and> uplink_handle crc8 (PacketOk pkt) = UplinkIssue [GroundUpPacket pkt, GroundUpCommand m]
    \<and> val m = val (message_command NULL_PARAMS dest evt)"
  using uplink_wire [of "val (message_command NULL_PARAMS dest evt)" crc8] hex_laws.decode_encode [OF assms]
  by (fastforce simp: entry_def)

text \<open>C29: what \<open>rovermsgs\<close> lists, the relay understands.  With any checksum and any hexadecimal
  encoder that its decoder inverts, the tool ends without an error, and each code of its listing
  is the text of a packet that the uplink accepts as a command: to the destination and with the
  event that the label beside it names, in the order of the source, stamped with the null
  parameters, without a source and without a payload.\<close>

theorem rovermsgs_accepted:
  assumes "hex_laws H"
  shows "\<exists>out. rovermsgs H crc8 = (out, Ok ())
    \<and> list_all2 (\<lambda>(label, code) (name, dest, evt). label = str name
        \<and> (\<exists>pkt m. hex_decode H code = Some pkt
            \<and> uplink_handle crc8 (PacketOk pkt) = UplinkIssue [GroundUpPacket pkt, GroundUpCommand m]
            \<and> destination (message_header m) = dest \<and> event (ty (message_header m)) = evt
            \<and> header_unique_id (message_header m) = UniqueId (MissionEpoch 0) 0
            \<and> message_source m = Empty \<and> message_payload m = []))
        (listed out) named_commands"
proof -
  obtain out where out: "rovermsgs H crc8 = (out, Ok ())"
    "listed out = map (\<lambda>(name, dest, evt). entry H crc8 dest (name, evt)) named_commands"
    using rovermsgs_listing by blast
  have "label = str name \<and> (\<exists>pkt m. hex_decode H code = Some pkt
      \<and> uplink_handle crc8 (PacketOk pkt) = UplinkIssue [GroundUpPacket pkt, GroundUpCommand m]
      \<and> destination (message_header m) = dest \<and> event (ty (message_header m)) = evt
      \<and> header_unique_id (message_header m) = UniqueId (MissionEpoch 0) 0 \<and> message_source m = Empty \<and> message_payload m = [])"
    if "(label, code) = entry H crc8 dest (name, evt)" for label code name dest evt
    using entry_accepted [OF assms, of crc8 dest name evt] that
    by (auto simp: entry_def message_command_def header_command_def header_unique_id_def NULL_PARAMS_def)
  then show ?thesis using out
    by (intro exI [of _ out]) (auto simp: list_all2_map1 list_all2_same)
qed

theorem rovermsgs_accepted_witness:
  "\<exists>out. rovermsgs hex_reference (\<lambda>_. 7) = (out, Ok ()) \<and> length (listed out) = 9
    \<and> (\<exists>pkt m. hex_decode hex_reference (snd (listed out ! 4)) = Some pkt
        \<and> uplink_handle (\<lambda>_. 7) (PacketOk pkt) = UplinkIssue [GroundUpPacket pkt, GroundUpCommand m]
        \<and> destination (message_header m) = Ant \<and> event (ty (message_header m)) = AntStart)"
proof -
  obtain out where "rovermsgs hex_reference (\<lambda>_. 7) = (out, Ok ())" and
    all: "list_all2 (\<lambda>(label, code) (name, dest, evt). label = str name
        \<and> (\<exists>pkt m. hex_decode hex_reference code = Some pkt
            \<and> uplink_handle (\<lambda>_. 7) (PacketOk pkt) = UplinkIssue [GroundUpPacket pkt, GroundUpCommand m]
            \<and> destination (message_header m) = dest \<and> event (ty (message_header m)) = evt
            \<and> header_unique_id (message_header m) = UniqueId (MissionEpoch 0) 0
            \<and> message_source m = Empty \<and> message_payload m = []))
        (listed out) named_commands"
    using rovermsgs_accepted [OF hex_ref.hex_laws_axioms] by blast
  moreover have "length named_commands = 9" "named_commands ! 4 = (''ant start'', Ant, AntStart)"
    by (simp_all add: named_commands_def)
  ultimately show ?thesis
    using list_all2_lengthD [OF all] list_all2_nthD2 [OF all, of 4]
    by (intro exI [of _ out]) (auto simp: case_prod_beta)
qed

subsection \<open>console\<close>

datatype console_command =
    PowerSupplied
  | GarageOpenPending
  | RoverStopping
  | RoverMoving
  | PingAnt
  | PingFrontend
  | Start
  | DebugPing
  | Restart

fun console_event :: "console_command \<Rightarrow> event" where
  "console_event PowerSupplied = FEPowerSupplied"
| "console_event GarageOpenPending = FEGarageOpen"
| "console_event RoverStopping = FERoverStop"
| "console_event RoverMoving = FERoverMove"
| "console_event PingAnt = AntPing"
| "console_event PingFrontend = FEPing"
| "console_event Start = AntStart"
| "console_event DebugPing = DebugCSPing"
| "console_event Restart = FERestart"

text \<open>The packet that the console sends to the uplink for a command.\<close>

definition console_message :: "params \<Rightarrow> console_command \<Rightarrow> message" where
  "console_message env cmd = message_command env Frontend (console_event cmd)"

definition console_packet :: "(bytes \<Rightarrow> u8) \<Rightarrow> params \<Rightarrow> console_command \<Rightarrow> bytes result" where
  "console_packet crc8 env cmd = pack_to_vec (message_ops crc8) (console_message env cmd)"

text \<open>The console's start command starts nothing.  It is addressed to the frontend, which
  forwards only messages for the ant or the central station and has no transition for the
  start event: the state machine and its context are unchanged in every state.  Every other
  command except the frontend ping has an effect in some state.\<close>

theorem console_start_ignored:
  "handle_up_command X (console_message env Start) m c = Running (m, c)
   \<and> event (ty (message_header (console_message env Start))) = AntStart
   \<and> (\<forall>cmd. console_event cmd \<in> set handled_events \<longleftrightarrow> cmd \<noteq> Start \<and> cmd \<noteq> PingFrontend)"
proof (intro conjI allI)
  have "AntStart \<notin> set handled_events" by (simp add: handled_events_def)
  then show "handle_up_command X (console_message env Start) m c = Running (m, c)"
    by (simp add: handle_up_command_def console_message_def message_command_def header_command_def
        sm_step_unhandled)
  show "event (ty (message_header (console_message env Start))) = AntStart"
    by (simp add: console_message_def message_command_def header_command_def)
  show "console_event cmd \<in> set handled_events \<longleftrightarrow> cmd \<noteq> Start \<and> cmd \<noteq> PingFrontend" for cmd
    by (cases cmd) (simp_all add: handled_events_def)
qed

subsection \<open>serial\_console\<close>

text \<open>\<open>AUTOACK.fetch_xor(true)\<close>: the old value, and the toggled one.\<close>

definition toggle_autoack :: "bool \<Rightarrow> bool \<times> bool" where
  "toggle_autoack autoack = (autoack, autoack \<noteq> True)"

text \<open>The acknowledgement of a message: its header with the disposition changed, the original
  header and checksum as source, no payload.\<close>

definition auto_ack :: "(bytes \<Rightarrow> u8) \<Rightarrow> message \<Rightarrow> message result" where
  "auto_ack crc8 m =
     and_then (fst (with_crc_checksum message_val_ops (StandardCRC crc8) m)) (\<lambda>cs.
       let hdr = message_header m
       in Ok (with_crc_new \<lparr>
            header = \<lparr>
              header = hdr\<lparr> ty := (ty hdr)\<lparr> disposition := Ack \<rparr> \<rparr>,
              payload = Info \<lparr> info_header = hdr, info_checksum = cs ! 0 \<rparr> \<rparr>,
            payload = [] \<rparr>))"

text \<open>One turn of \<open>read_uplink\<close>: nothing is sent without automatic acknowledgement.\<close>

definition serial_console_turn :: "(bytes \<Rightarrow> u8) \<Rightarrow> bool \<Rightarrow> bytes \<Rightarrow> bytes option result" where
  "serial_console_turn crc8 autoack packet =
     and_then (unpack_from_slice (message_ops crc8) packet) (\<lambda>message.
       if \<not> autoack then Ok None
       else and_then (auto_ack crc8 message) (\<lambda>ack_msg.
         and_then (pack_to_vec (message_ops crc8) ack_msg) (\<lambda>bs. Ok (Some bs))))"

text \<open>A hexadecimal COBS literal: what it decodes to is sent, encoded again.  A panic inside the
  COBS library, which its laws exclude, is not told from an error here.\<close>

definition cobs_literal :: "cobs_lib \<Rightarrow> bytes \<Rightarrow> bytes option" where
  "cobs_literal L value =
     (case cobs_codec_decode_eof L () value of
        Inr (Some (Inr b), s, rest) \<Rightarrow> Some b
      | _ \<Rightarrow> None)"

lemma auto_ack_coherent:
  assumes "message_coherent crc8 m"
  shows "auto_ack crc8 m = Ok (with_crc_new \<lparr> header = \<lparr>
      header = (message_header m)\<lparr> ty := (ty (message_header m))\<lparr> disposition := Ack \<rparr> \<rparr>,
      payload = Info \<lparr> info_header = message_header m,
        info_checksum = crc8 (message_val_enc (val m)) \<rparr> \<rparr>, payload = [] \<rparr>)"
proof -
  obtain m' where "with_crc_checksum message_val_ops (StandardCRC crc8) m
      = (Ok (checksum_array (StandardCRC crc8) (message_val_enc (val m))), m')"
    using msg.checksum_coherent [of crc8 m] assms by (auto simp: message_coherent_def)
  then show ?thesis by (simp add: auto_ack_def Let_def)
qed

lemma console_turn_wire:
  "serial_console_turn crc8 True (message_wire crc8 v) = Ok (Some (message_wire crc8 \<lparr> header = \<lparr>
      header = (header (header v))\<lparr> ty := (ty (header (header v)))\<lparr> disposition := Ack \<rparr> \<rparr>,
      payload = Info \<lparr> info_header = header (header v),
        info_checksum = crc8 (message_val_enc v) \<rparr> \<rparr>, payload = [] \<rparr>))"
proof -
  obtain m where "unpack_from_slice (message_ops crc8) (message_wire crc8 v) = Ok m"
    "message_coherent crc8 m" "val m = v"
    using message.unpack_enc [of crc8 v] by blast
  then show ?thesis by (simp add: serial_console_turn_def auto_ack_coherent pack_fresh)
qed

text \<open>C25: a request is answered by the emulated central station.  In any reachable state of the
  commander, a request for a fresh message whose event is not the relay event, sent to the
  serial console, acknowledged there and received back, is issued as a message and as an
  acknowledgement, which resolves this very request: its caller gets the acknowledgement,
  marked invalid only if the request was, and the id is free again.\<close>

theorem request_answered_by_console:
  assumes "oneshot_laws X V" and "\<And>h. chan V w0 h = Unused"
    and "commander_run X V ops (commander_default, w0) = (c, w)"
    and "handle_request X (with_crc_new v) c w = (h, c1, w1, up)"
    and "event (ty (header (header v))) \<noteq> CSRelay"
  shows "\<exists>pkt reply m c2 w2.
    serial_handle_up crc8 up = Some [RawUpPacket pkt]
    \<and> serial_console_turn crc8 True pkt = Ok (Some reply)
    \<and> serial_handle_down crc8 reply = Some [DownMessageB m, AckMessageB m]
    \<and> handle_ack_message X m c1 w1 = (c2, w2)
    \<and> chan V w2 h = Delivered (ResponseMessage m)
    \<and> requests c2 (header_unique_id (header (header v))) = None
    \<and> disposition (ty (message_header m)) = Ack
    \<and> (send_result (Inr (Some (ResponseMessage m))) = Inr (ResponseMessage m)
        \<longleftrightarrow> \<not> invalid (ty (header (header v))))"
proof -
  have inv: "table_inv V (\<Union> (op_ids ` set ops)) c w"
    using oneshot_laws.commander_run_inv [OF assms(1)
        oneshot_laws.table_inv_default [OF assms(1,2)] assms(3)] by simp
  note rc = oneshot_laws.request_channel [OF assms(1) inv assms(4)]
  let ?hdr = "header (header v)"
  let ?av = "\<lparr> header = \<lparr> header = ?hdr\<lparr> ty := (ty ?hdr)\<lparr> disposition := Ack \<rparr> \<rparr>,
      payload = Info \<lparr> info_header = ?hdr, info_checksum = crc8 (message_val_enc v) \<rparr> \<rparr>, payload = [] \<rparr>"
  obtain m where m: "val m = ?av"
    "serial_handle_down crc8 (message_wire crc8 ?av) = Some (DownMessageB m # try_issue_ack m)"
    using serial_down_wire by blast
  let ?info = "\<lparr> info_header = ?hdr, info_checksum = crc8 (message_val_enc v) \<rparr>"
  let ?uid = "header_unique_id ?hdr"
  have src: "message_source m = Info ?info" and ty: "ty (message_header m) = (ty ?hdr)\<lparr> disposition := Ack \<rparr>"
    using m(1) by simp_all
  have req: "requests c1 ?uid = Some h" using rc(1) by (simp add: with_crc_new_def)
  have ack: "handle_ack_message X m c1 w1
      = (c1\<lparr> requests := (requests c1)(?uid := None) \<rparr>, snd (tx_send X h (ResponseMessage m) w1))"
    using assms(5) ty req by (simp add: handle_ack_message_def src is_relay_ack_def take_and_send_def)
  have "chan V (snd (tx_send X h (ResponseMessage m) w1)) h = Delivered (ResponseMessage m)"
    using oneshot_laws.send_open [OF assms(1) rc(2)] by simp
  moreover have "serial_handle_down crc8 (message_wire crc8 ?av) = Some [DownMessageB m, AckMessageB m]"
    using m(2) src by (simp add: try_issue_ack_def)
  moreover have "send_result (Inr (Some (ResponseMessage m))) = Inr (ResponseMessage m)
      \<longleftrightarrow> \<not> invalid (ty ?hdr)"
    using ty by (simp add: send_result_def response_header_def)
  ultimately show ?thesis
    using rc(3) ack ty serial_up_fresh [of crc8 v] console_turn_wire [of crc8 v]
    by (intro exI [of _ "message_wire crc8 v"] exI [of _ "message_wire crc8 ?av"] exI [of _ m]
        exI [of _ "c1\<lparr> requests := (requests c1)(?uid := None) \<rparr>"]
        exI [of _ "snd (tx_send X h (ResponseMessage m) w1)"]) simp
qed

theorem request_answered_by_console_witness:
  "\<exists>m c2 w2. handle_ack_message list_channels m
       \<lparr> requests = [header_unique_id (message_header (request_msg 1)) \<mapsto> 0], commander_once = False \<rparr> [Open]
       = (c2, w2)
     \<and> chan list_channels_view w2 0 = Delivered (ResponseMessage m)"
proof -
  have fresh: "chan list_channels_view [] h = Unused" for h by (simp add: list_channels_view_def)
  have run: "commander_run list_channels list_channels_view [] (commander_default, []) = (commander_default, [])"
    by simp
  have rq: "request_msg 1 = with_crc_new (val (request_msg 1))"
    by (simp add: request_msg_def message_command_def with_crc_new_def)
  have "handle_request list_channels (with_crc_new (val (request_msg 1))) commander_default []
      = (0, \<lparr> requests = [header_unique_id (message_header (request_msg 1)) \<mapsto> 0],
           commander_once = False \<rparr>, [Open], request_msg 1)"
    by (simp add: handle_request_def list_channels_def drop_sender_def commander_default_def
        with_crc_new_def flip: rq) (simp add: request_msg_def message_command_def with_crc_new_def)
  moreover have "event (ty (header (header (val (request_msg 1))))) \<noteq> CSRelay"
    by (simp add: request_msg_def message_command_def header_command_def)
  ultimately show ?thesis
    using request_answered_by_console [OF list_chan.oneshot_laws_axioms fresh run] by blast
qed

text \<open>A COBS literal is sent as it was typed.  Decoding the literal and encoding it again
  gives back the encoded message, ended by a zero; the zero may be left out of the literal.\<close>

theorem cobs_literal_resent:
  assumes "cobs_library L enc" and "msg \<noteq> []"
  shows "cobs_literal L (enc msg) = Some msg \<and> cobs_literal L (enc msg @ [0]) = Some msg
    \<and> cobs_codec_encode L msg dst = Inr (dst @ enc msg @ [0])"
proof -
  have ne: "enc msg \<noteq> []" using cobs_library.enc_not_empty [OF assms] .
  have "last (enc msg) \<noteq> 0"
    using cobs_library.enc_no_zero [OF assms] last_in_set [OF ne] by metis
  then show ?thesis
    using cobs_library.decode_encoded [OF assms, of "()" "[]"] ne
      cobs_library.encode_frame [OF assms]
    by (simp add: cobs_literal_def cobs_codec_decode_eof_def resize_def)
qed

theorem cobs_literal_resent_witness:
  "cobs_literal cobs_reference [4, 1, 2, 3] = Some [1, 2, 3]"
  using cobs_literal_resent [OF cobs_ref.cobs_library_axioms, of "[1, 2, 3]"] by simp

text \<open>The random relay message of \<open>SendSpam\<close>, as a function of its random values.\<close>

definition ack_type :: "event \<Rightarrow> message_type" where
  "ack_type evt = \<lparr> disposition = Ack, invalid = False, event = evt \<rparr>"

definition spam_relay :: "cs_payload \<Rightarrow> mission_epoch \<Rightarrow> u8 \<Rightarrow> ant_payload \<Rightarrow> cs_relay" where
  "spam_relay cs t n ant = \<lparr>
     header = cs,
     payload = with_crc_new \<lparr>
       header = \<lparr>
         header = \<lparr> magic = MagicValue, destination = Frontend, timestamp = t, seq = n,
           ty = ack_type AntPing \<rparr>,
         payload = Empty \<rparr>,
       payload = ant \<rparr> \<rparr>"

definition spam_message ::
  "cs_payload struct_ops \<Rightarrow> (bytes \<Rightarrow> u8) \<Rightarrow> cs_relay \<Rightarrow> message result" where
  "spam_message C crc8 relay =
     and_then (payload_into (cs_relay_ops C crc8) bytes_wrap_ops \<lparr>
       header = \<lparr>
         header = \<lparr> magic = MagicValue, destination = Frontend, timestamp = MissionEpoch 0, seq = 0,
           ty = ack_type CSRelay \<rparr>,
         payload = Empty \<rparr>,
       payload = relay \<rparr>) (\<lambda>hp. Ok (with_crc_new hp))"

lemma pack_cs_relay:
  assumes "byte_array_len C = 20" and "pack C (header r) = Ok cb" and "length cb = 20"
    and "ant_packet_coherent crc8 (payload r)"
  shows "pack_to_vec (cs_relay_ops C crc8) r = Ok (cb @ ant_packet_wire crc8 (val (payload r)))"
  using assms ant_packet.size_inv [OF assms(4)] ant_packet.pack_exact [OF assms(4)]
  by (simp add: pack_to_vec_def cs_relay_ops_def header_packet_ops_def hp_packed_bytes_size_def
      hp_pack_to_slice_def header_bytes_def cs_payload_bits_def slice_of_struct_def)

text \<open>The emulator's relay messages are decoded.  If the central station's packing succeeds
  and its parser accepts the result, a random relay message becomes a message whose packet is
  issued by the serial actor without an acknowledgement and from which \<open>AntDecode\<close> takes
  exactly the random ant packet.\<close>

theorem spam_relay_decoded:
  assumes "byte_array_len C = 20" and "pack C cs = Ok cb" and "length cb = 20"
    and "unpack C cb = Ok cs'"
  shows "\<exists>msg m p. spam_message C crc8 (spam_relay cs t n ant) = Ok msg
    \<and> serial_handle_down crc8 (message_wire crc8 (val msg)) = Some [DownMessageB m]
    \<and> ant_decode C crc8 m = Some [AntMessageB p]
    \<and> val p = val (payload (spam_relay cs t n ant))"
proof -
  let ?r = "spam_relay cs t n ant"
  have coh: "ant_packet_coherent crc8 (payload ?r)"
    by (simp add: spam_relay_def ant_packet_coherent_def)
  have packed: "pack_to_vec (cs_relay_ops C crc8) ?r = Ok (cb @ ant_packet_wire crc8 (val (payload ?r)))"
    by (rule pack_cs_relay [OF assms(1) _ assms(3) coh]) (simp add: spam_relay_def assms(2))
  obtain msg where msg: "spam_message C crc8 ?r = Ok msg"
    and v: "message_payload msg = cb @ ant_packet_wire crc8 (val (payload ?r))"
      "message_source msg = Empty" "ty (message_header msg) = ack_type CSRelay"
    by (simp add: spam_message_def payload_into_def packed bytes_wrap_ops_def
        bytes_wrap_unpack_from_slice_def with_crc_new_def)
  obtain m where m: "val m = val msg"
    "serial_handle_down crc8 (message_wire crc8 (val msg)) = Some (DownMessageB m # try_issue_ack m)"
    using serial_down_wire by blast
  have "\<exists>r. unpack_from_slice (cs_relay_ops C crc8) (message_payload m) = Ok r
      \<and> header r = cs' \<and> val (payload r) = val (payload ?r)"
    unfolding relay_unpack_iff [OF assms(1)] using assms(3,4) v(1) m(1) by auto
  then show ?thesis using msg m v
    by (auto simp: try_issue_ack_def ant_decode_def is_relay_ack_def ack_type_def)
qed

theorem spam_relay_decoded_witness:
  "\<forall>cs t n ant. \<exists>msg m p. spam_message cs_bytewise (\<lambda>_. 7) (spam_relay cs t n ant) = Ok msg
    \<and> serial_handle_down (\<lambda>_. 7) (message_wire (\<lambda>_. 7) (val msg)) = Some [DownMessageB m]
    \<and> ant_decode cs_bytewise (\<lambda>_. 7) m = Some [AntMessageB p]
    \<and> val p = val (payload (spam_relay cs t n ant))"
proof (intro allI, goal_cases)
  case (1 cs t n ant)
  obtain cb where cb: "pack cs_bytewise cs = Ok cb" "length cb = 20"
    by (simp add: cs_bytewise_def)
  obtain cs' where "unpack cs_bytewise cb = Ok cs'" by (simp add: cs_bytewise_def)
  moreover have "byte_array_len cs_bytewise = 20" by (simp add: cs_bytewise_def)
  ultimately show ?case using cb spam_relay_decoded by blast
qed

end
