(* ===== verification/Consoles.thy ===== *)
theory Consoles
  imports Tools Trace_Layer Texts Network
begin

text \<open>
  The loops of the command line tools of \<open>src/bin\<close>: the ground console's two loops, the loops
  of the serial console with their shared flag, and \<open>decode_downlink\<close>.  Libraries are
  parameters: hexadecimal and base64 text, the splitting of a line into words and the parser
  of commands, the serialiser and the compressor, the texts of libraries.  What a read of the
  terminal, of standard input or of a socket returned is an input.  A text that is printed is
  the list of its Unicode scalar values; the terminal takes all of it.
\<close>

subsection \<open>ASCII texts\<close>

text \<open>Strings of ASCII characters have one byte for each.\<close>

lemma byte_len_ascii: "(\<And>c. c \<in> set s \<Longrightarrow> c < 0x80) \<Longrightarrow> byte_len s = length s"
  by (induction s) (simp_all add: byte_len_def utf8_len_def)

lemma str_slice_to_ascii:
  "(\<And>c. c \<in> set s \<Longrightarrow> c < 0x80) \<Longrightarrow> n \<le> length s \<Longrightarrow> str_slice_to s n = Some (take n s)"
proof (induction s arbitrary: n)
  case (Cons c s)
  then have "utf8_len c = 1" by (simp add: utf8_len_def)
  then show ?case using Cons by (cases n) auto
qed simp

subsection \<open>What the console shows\<close>

text \<open>\<open>bytes_format\<close>: at most 60 hexadecimal digits; \<open>None\<close> is a cut inside a character.\<close>

definition bytes_format :: "hex_ops \<Rightarrow> rust_str \<Rightarrow> bytes \<Rightarrow> rust_str option" where
  "bytes_format H msg b =
     (let hex = hex_encode H b;
          shown = (if 60 < byte_len hex
                   then map_option (\<lambda>h. h @ str ''...<trunc>'') (str_slice_to hex 60)
                   else Some hex)
      in map_option (\<lambda>h. msg @ [0x0a, 0x09] @ str ''0x'' @ h @ [0x0a]) shown)"

definition msg_format :: "text_ops \<Rightarrow> (bytes \<Rightarrow> u8) \<Rightarrow> rust_str \<Rightarrow> message \<Rightarrow> rust_str option" where
  "msg_format T crc8 msg m =
     map_option (\<lambda>s. msg @ [0x0a, 0x09] @ s @ [0x0a]) (message_text T crc8 m)"

text \<open>The lines for a value, with the two line ends that follow; \<open>None\<close> is a panic.\<close>

definition console_line ::
  "text_ops \<Rightarrow> (bytes \<Rightarrow> u8) \<Rightarrow> nat \<Rightarrow> downlink \<Rightarrow> rust_str option" where
  "console_line T crc8 count msg =
     map_option (\<lambda>line. line @ [0x0a, 0x0a])
       (case msg of
          DownlinkLog b \<Rightarrow> Some (str ''LOG ('' @ dec_text count @ str '')'' @ [0x0a, 0x09] @ log_text T b)
        | SerialDownlinkRaw b \<Rightarrow> bytes_format (text_hex T) (str ''SERIAL DOWN (BYTES)'') b
        | SerialUplinkRaw b \<Rightarrow> bytes_format (text_hex T) (str ''SERIAL UP (BYTES)'') b
        | UplinkMirror b \<Rightarrow> bytes_format (text_hex T) (str ''UPLINK (BYTES)'') b
        | SerialDownlink m \<Rightarrow> msg_format T crc8 (str ''SERIAL DOWN (MSG)'') m
        | SerialUplink m \<Rightarrow> msg_format T crc8 (str ''SERIAL UP (MSG)'') m
        | UplinkInterpreted m \<Rightarrow> msg_format T crc8 (str ''UPLINK (MSG)'') m)"

context hex_laws
begin

lemma hex_ascii: "c \<in> set (hex_encode H bs) \<Longrightarrow> c < 0x80"
  using encode_digits by (fastforce simp: is_hex_digit_def)

lemma bytes_format_exact:
  "bytes_format H msg b = Some (msg @ [0x0a, 0x09] @ str ''0x''
    @ (if length b \<le> 30 then hex_encode H b else take 60 (hex_encode H b) @ str ''...<trunc>'')
    @ [0x0a])"
  using byte_len_ascii [of "hex_encode H b"] str_slice_to_ascii [of "hex_encode H b" 60] hex_ascii [of _ b]
    length_encode [of b]
  by (simp add: bytes_format_def Let_def)

end

lemma console_line_total:
  assumes "text_laws T"
  shows "\<exists>l. console_line T crc8 count (downlink_fresh d) = Some l"
proof -
  note laws = text_laws.hex [OF assms]
  show ?thesis
    by (cases d) (simp_all add: console_line_def hex_laws.bytes_format_exact [OF laws]
      msg_format_def message_text_shown)
qed

subsection \<open>The console's downlink loop\<close>

datatype loop_end =
    LoopWaiting
  | LoopFinished
  | LoopFailed
  | LoopReexec
  | LoopPanicked

text \<open>One packet after the other, in the same buffer; any error ends the loop.\<close>

fun read_downlink ::
  "text_ops \<Rightarrow> (bytes \<Rightarrow> u8) \<Rightarrow> (bytes \<Rightarrow> downlink option) \<Rightarrow> (bytes \<Rightarrow> bytes option) \<Rightarrow> recv_fun list
     \<Rightarrow> bytes \<Rightarrow> rust_str list \<times> loop_end" where
  "read_downlink T crc8 deserialize decompress [] buf = ([], LoopWaiting)"
| "read_downlink T crc8 deserialize decompress (recv # recvs) buf =
     (case recv buf of
        None \<Rightarrow> ([], LoopPanicked)
      | Some (Inl e) \<Rightarrow> ([], LoopFailed)
      | Some (Inr (count, buf')) \<Rightarrow>
          if length buf' < count then ([], LoopPanicked)
          else
            (case downlink_read deserialize decompress (take count buf') of
               None \<Rightarrow> ([], LoopFailed)
             | Some msg \<Rightarrow>
                 (case console_line T crc8 count msg of
                    None \<Rightarrow> ([], LoopPanicked)
                  | Some line \<Rightarrow>
                      (let (lines, e) = read_downlink T crc8 deserialize decompress recvs buf'
                       in (line # lines, e)))))"

text \<open>C28: the console shows what the relay handled, as long as the packets fit its buffer.  With
  inverse serialiser and compressor, the packets that a downlink actor sends for a list of
  broker messages, if each of them has at most 8192 bytes (a longer datagram is cut by \<open>recv\<close>),
  are shown one after the other; the text shown for a message is the one of the value that the
  actor extracted from it, headed for a log by the length of its packet.  No such packet makes
  the loop panic or end: it goes on waiting.\<close>

theorem console_shows_downlink:
  assumes "text_laws T" and "downlink_codec serialize deserialize compress decompress"
    and "list_all2 (\<lambda>msg pkt. \<exists>s. downlink_handle serialize compress msg a = SendTo s pkt) msgs pkts"
    and "\<forall>pkt \<in> set pkts. length pkt \<le> 8192" and "length buf = 8192"
  shows "\<exists>lines. read_downlink T crc8 deserialize decompress (map socket_recv pkts) buf = (lines, LoopWaiting)
    \<and> list_all2 (\<lambda>(msg, pkt) line. \<exists>d. downlink_extract msg = Some d
        \<and> console_line T crc8 (length pkt) (downlink_fresh d) = Some line) (zip msgs pkts) lines"
  using assms(3-5)
proof (induction arbitrary: buf rule: list_all2_induct)
  case (Cons msg msgs pkt pkts)
  obtain s where "downlink_handle serialize compress msg a = SendTo s pkt" using Cons.hyps(1) by blast
  from downlink_roundtrip_fresh [OF assms(2) this] obtain d where d: "downlink_extract msg = Some d"
    "downlink_read deserialize decompress pkt = Some (downlink_fresh d)" by blast
  obtain line where line: "console_line T crc8 (length pkt) (downlink_fresh d) = Some line"
    using console_line_total [OF assms(1)] by blast
  have len: "length pkt \<le> 8192" using Cons.prems(1) by simp
  let ?buf = "pkt @ drop (length pkt) buf"
  have recv: "socket_recv pkt buf = Some (Inr (length pkt, ?buf))"
    using len Cons.prems(2) by (simp add: socket_recv_def)
  have "length ?buf = 8192" using len Cons.prems(2) by simp
  from Cons.IH [OF _ this] Cons.prems(1) obtain lines where
    "read_downlink T crc8 deserialize decompress (map socket_recv pkts) ?buf = (lines, LoopWaiting)"
    "list_all2 (\<lambda>(msg, pkt) line. \<exists>d. downlink_extract msg = Some d
      \<and> console_line T crc8 (length pkt) (downlink_fresh d) = Some line) (zip msgs pkts) lines"
    by auto
  then show ?case using recv d line by (intro exI [of _ "line # lines"]) auto
qed simp

theorem console_shows_downlink_witness:
  "read_downlink text_reference (\<lambda>_. 7) wire_deserialize Some [socket_recv [6, 1, 255]] (replicate 8192 0)
    = ([str ''SERIAL DOWN (BYTES)'' @ [0x0a, 0x09] @ str ''0x01ff'' @ [0x0a, 0x0a, 0x0a]], LoopWaiting)"
proof -
  let ?a = "\<lparr> sender = Some (), downlink_subscribed = True \<rparr>"
  have "list_all2 (\<lambda>msg pkt. \<exists>s. downlink_handle wire_serialize Some msg ?a = SendTo s pkt)
      [RawDownPacket [1, 255]] [[6, 1, 255]]"
    by (simp add: downlink_handle_def gen_handle_def brotli_compress_def)
  from console_shows_downlink [OF text_ref.text_laws_axioms wire_codec.downlink_codec_axioms this,
      of "replicate 8192 0" "\<lambda>_. 7"]
  obtain line where "read_downlink text_reference (\<lambda>_. 7) wire_deserialize Some
      [socket_recv [6, 1, 255]] (replicate 8192 0) = ([line], LoopWaiting)"
    "console_line text_reference (\<lambda>_. 7) 3 (SerialDownlinkRaw [1, 255]) = Some line"
    by (auto simp: list_all2_Cons1 numeral_3_eq_3 simp del: read_downlink.simps)
  moreover have "console_line text_reference (\<lambda>_. 7) 3 (SerialDownlinkRaw [1, 255])
      = Some (str ''SERIAL DOWN (BYTES)'' @ [0x0a, 0x09] @ str ''0x01ff'' @ [0x0a, 0x0a, 0x0a])"
    by (simp add: console_line_def hex_laws.bytes_format_exact [OF text_laws.hex [OF text_ref.text_laws_axioms]])
      (simp add: text_reference_def hex_reference_def hex_digit_def str_def)
  ultimately show ?thesis by (simp del: read_downlink.simps)
qed

subsection \<open>The console's command loop\<close>

datatype readline_result =
    TypedLine rust_str
  | LineClosed
  | LineEof
  | LineInterrupted
  | LineIo

datatype console_choice = Send console_command | Reexec

text \<open>A turn: what the terminal returned and the parameters of this moment.\<close>

record console_turn =
  turn_line :: readline_result
  turn_params :: params

record command_parser =
  split_words :: "rust_str \<Rightarrow> rust_str list option"
  parse_words :: "rust_str list \<Rightarrow> console_choice option"

text \<open>An iteration of the loop on the connected socket: the packet that was sent, and the end of
  the loop.\<close>

definition io_turn ::
  "command_parser \<Rightarrow> (bytes \<Rightarrow> u8) \<Rightarrow> ('a, 's, 'w) datagram_ops \<Rightarrow> 's \<Rightarrow> console_turn \<Rightarrow> 'w
     \<Rightarrow> (bytes option \<times> loop_end option) \<times> 'w" where
  "io_turn C crc8 N sock t w =
     (case turn_line t of
        LineClosed \<Rightarrow> ((None, Some LoopFinished), w)
      | LineEof \<Rightarrow> ((None, Some LoopFinished), w)
      | LineInterrupted \<Rightarrow> ((None, Some LoopFinished), w)
      | LineIo \<Rightarrow> ((None, Some LoopFailed), w)
      | TypedLine line \<Rightarrow>
          (case split_words C line of
             None \<Rightarrow> ((None, None), w)
           | Some ws \<Rightarrow>
               (case parse_words C ws of
                  None \<Rightarrow> ((None, None), w)
                | Some Reexec \<Rightarrow> ((None, Some LoopReexec), w)
                | Some (Send command) \<Rightarrow>
                    (case console_packet crc8 (turn_params t) command of
                       Inl Panic \<Rightarrow> ((None, Some LoopPanicked), w)
                     | Inl (Fail e) \<Rightarrow> ((None, Some LoopFailed), w)
                     | Ok pkt \<Rightarrow>
                         (case dg_send N sock pkt w of
                            (Inl e, w') \<Rightarrow> ((None, Some LoopFailed), w')
                          | (Inr n, w') \<Rightarrow> ((Some pkt, None), w'))))))"

text \<open>The loop, with what others do to the sockets before each turn.\<close>

fun io_loop ::
  "command_parser \<Rightarrow> (bytes \<Rightarrow> u8) \<Rightarrow> ('a, 's, 'w) datagram_ops \<Rightarrow> 's \<Rightarrow> (('w \<Rightarrow> 'w) \<times> console_turn) list
     \<Rightarrow> 'w \<Rightarrow> (bytes list \<times> loop_end) \<times> 'w" where
  "io_loop C crc8 N sock [] w = (([], LoopWaiting), w)"
| "io_loop C crc8 N sock ((others, t) # ts) w =
     (case io_turn C crc8 N sock t (others w) of
        ((pkt, Some e), w1) \<Rightarrow> ((case pkt of None \<Rightarrow> [] | Some p \<Rightarrow> [p], e), w1)
      | ((pkt, None), w1) \<Rightarrow>
          (let ((pkts, e), w2) = io_loop C crc8 N sock ts w1
           in ((case pkt of None \<Rightarrow> pkts | Some p \<Rightarrow> p # pkts, e), w2)))"

text \<open>The command of a turn, and the commands of a list of turns, up to one that ends the loop.\<close>

definition turn_choice :: "command_parser \<Rightarrow> console_turn \<Rightarrow> console_choice option" where
  "turn_choice C t =
     (case turn_line t of
        TypedLine line \<Rightarrow> Option.bind (split_words C line) (parse_words C)
      | _ \<Rightarrow> None)"

fun commands_typed :: "command_parser \<Rightarrow> console_turn list \<Rightarrow> (params \<times> console_command) list" where
  "commands_typed C [] = []"
| "commands_typed C (t # ts) =
     (case turn_line t of
        TypedLine line \<Rightarrow>
          (case turn_choice C t of
             None \<Rightarrow> commands_typed C ts
           | Some Reexec \<Rightarrow> []
           | Some (Send command) \<Rightarrow> (turn_params t, command) # commands_typed C ts)
      | _ \<Rightarrow> [])"

lemma console_packet_wire:
  "console_packet crc8 env cmd = Ok (message_wire crc8 (val (console_message env cmd)))"
proof -
  have "console_message env cmd = with_crc_new (val (console_message env cmd))"
    by (simp add: console_message_def message_command_def with_crc_new_def)
  then show ?thesis using pack_fresh unfolding console_packet_def by metis
qed

text \<open>A turn with a command sends its packet or ends the loop; other turns send nothing.\<close>

lemma io_turn_choice:
  "io_turn C crc8 N sock t w =
     (case turn_choice C t of
        Some (Send cmd) \<Rightarrow>
          (case dg_send N sock (message_wire crc8 (val (console_message (turn_params t) cmd))) w of
             (Inl e, w') \<Rightarrow> ((None, Some LoopFailed), w')
           | (Inr n, w') \<Rightarrow> ((Some (message_wire crc8 (val (console_message (turn_params t) cmd))), None), w'))
      | Some Reexec \<Rightarrow> ((None, Some LoopReexec), w)
      | None \<Rightarrow>
          ((None, case turn_line t of TypedLine line \<Rightarrow> None | LineIo \<Rightarrow> Some LoopFailed
             | _ \<Rightarrow> Some LoopFinished), w))"
  by (simp add: io_turn_def turn_choice_def console_packet_wire
      split: readline_result.split option.split console_choice.split prod.split sum.split)

text \<open>The relay receives the commands that were typed.  Whatever is typed, whatever happens to the
  sockets meanwhile and however the loop ends, the packets that the console sends are those of
  the first commands typed, in their order, and of all of them unless the loop failed; it never
  panics, a line that is no command sends nothing, and for each packet the uplink issues
  exactly the command's message.\<close>

theorem console_commands_arrive:
  "(let ((pkts, e), w') = io_loop C crc8 N sock ts w;
        cmds = commands_typed C (map snd ts)
    in e \<noteq> LoopPanicked \<and> length pkts \<le> length cmds \<and> (length pkts = length cmds \<or> e = LoopFailed)
      \<and> list_all2 (\<lambda>(env, cmd) pkt. \<exists>m. val m = val (console_message env cmd)
          \<and> uplink_handle crc8 (PacketOk pkt) = UplinkIssue [GroundUpPacket pkt, GroundUpCommand m])
        (take (length pkts) cmds) pkts)"
proof (induction ts arbitrary: w)
  case (Cons x ts)
  obtain others t where x: "x = (others, t)" by fastforce
  show ?case
  proof (cases "turn_choice C t")
    case None
    then show ?thesis using Cons.IH [of "others w"] io_turn_choice [of C crc8 N sock t "others w"]
      by (cases "turn_line t") (auto simp: Let_def x split: prod.splits)
  next
    case (Some choice)
    then obtain line where line: "turn_line t = TypedLine line"
      by (auto simp: turn_choice_def split: readline_result.splits)
    show ?thesis
    proof (cases choice)
      case (Send cmd)
      let ?v = "val (console_message (turn_params t) cmd)"
      obtain r w1 where send: "dg_send N sock (message_wire crc8 ?v) (others w) = (r, w1)" by fastforce
      show ?thesis
        using Cons.IH [of w1] io_turn_choice [of C crc8 N sock t "others w"] Some Send line send
          uplink_wire [of ?v crc8]
        by (cases r) (auto simp: Let_def x split: prod.splits)
    qed (use Some line io_turn_choice [of C crc8 N sock t "others w"] in \<open>simp add: Let_def x\<close>)
  qed
qed simp

subsection \<open>The serial console\<close>

text \<open>The shared flag, what was handed to the framed writer and what was printed, whether the
  process runs its command loop, and whether the spawned reader lives: it unwraps its result,
  so an error ends it alone.\<close>

record serial_console =
  sc_autoack :: bool
  sc_sent :: "bytes list"
  sc_printed :: rust_str
  sc_running :: bool
  sc_reading :: bool

definition serial_console_new :: serial_console where
  "serial_console_new = \<lparr> sc_autoack = True, sc_sent = [], sc_printed = [], sc_running = True,
     sc_reading = True \<rparr>"

definition console_print :: "rust_str \<Rightarrow> serial_console \<Rightarrow> serial_console" where
  "console_print s c = c\<lparr> sc_printed := sc_printed c @ s \<rparr>"

datatype serial_command =
    Literal rust_str
  | CobsLiteral rust_str
  | AutoAck
  | SendSpam

text \<open>The libraries that split and parse a line, and the texts of their errors.\<close>

record serial_parser =
  split_line :: "rust_str \<Rightarrow> rust_str list option"
  parse_command :: "rust_str list \<Rightarrow> rust_str + serial_command"
  hex_error_text :: "rust_str \<Rightarrow> rust_str"
  cobs_error_text :: "bytes \<Rightarrow> rust_str"

text \<open>A packet is written unless the writer fails, which ends the loop that wrote it.\<close>

definition console_send :: "(bytes \<Rightarrow> bool) \<Rightarrow> bytes \<Rightarrow> serial_console \<Rightarrow> serial_console option" where
  "console_send writer pkt c = (if writer pkt then Some (c\<lparr> sc_sent := sc_sent c @ [pkt] \<rparr>) else None)"

type_synonym spam_values = "cs_payload \<times> mission_epoch \<times> u8 \<times> ant_payload"

text \<open>\<open>rand_relay()?.pack_to_vec()?\<close> for the random values of a turn of the loop.\<close>

definition spam_packet ::
  "cs_payload struct_ops \<Rightarrow> (bytes \<Rightarrow> u8) \<Rightarrow> spam_values \<Rightarrow> bytes result" where
  "spam_packet P crc8 r =
     (case r of (cs, t, n, ant) \<Rightarrow>
        and_then (spam_message P crc8 (spam_relay cs t n ant)) (pack_to_vec (message_ops crc8)))"

fun send_spam ::
  "cs_payload struct_ops \<Rightarrow> (bytes \<Rightarrow> u8) \<Rightarrow> (bytes \<Rightarrow> bool) \<Rightarrow> spam_values list \<Rightarrow> serial_console
     \<Rightarrow> serial_console option" where
  "send_spam P crc8 writer [] c = Some c"
| "send_spam P crc8 writer (r # rs) c =
     (case spam_packet P crc8 r of
        Ok pkt \<Rightarrow> Option.bind (console_send writer pkt c) (send_spam P crc8 writer rs)
      | Inl e \<Rightarrow> None)"

text \<open>A command; \<open>None\<close> ends the process.  \<open>spam\<close> gives the random values of the ten turns.  A
  command that runs to its end is followed by a line end.\<close>

definition run_command ::
  "serial_parser \<Rightarrow> cobs_lib \<Rightarrow> hex_ops \<Rightarrow> cs_payload struct_ops \<Rightarrow> (bytes \<Rightarrow> u8) \<Rightarrow> (bytes \<Rightarrow> bool)
     \<Rightarrow> (nat \<Rightarrow> spam_values) \<Rightarrow> serial_command \<Rightarrow> serial_console \<Rightarrow> serial_console option" where
  "run_command S L H P crc8 writer spam cmd c =
     (let finish = map_option (console_print [0x0a]);
          invalid_argument = (\<lambda>value. Some (console_print
            (str ''error: invalid argument: '' @ hex_error_text S value @ [0x0a]) c))
      in case cmd of
           AutoAck \<Rightarrow>
             (let (old, new) = toggle_autoack (sc_autoack c)
              in finish (Some (console_print
                   (str ''toggling autoack '' @ bool_text old @ str '' -> '' @ bool_text (\<not> old))
                   (c\<lparr> sc_autoack := new \<rparr>))))
         | CobsLiteral value \<Rightarrow>
             (case hex_decode H value of
                None \<Rightarrow> invalid_argument value
              | Some v \<Rightarrow>
                  (case cobs_literal L v of
                     None \<Rightarrow> Some (console_print
                       (str ''error parsing cobs data: '' @ cobs_error_text S v @ [0x0a]) c)
                   | Some b \<Rightarrow> finish (console_send writer b c)))
         | Literal value \<Rightarrow>
             (case hex_decode H value of
                None \<Rightarrow> invalid_argument value
              | Some v \<Rightarrow> finish (console_send writer v c))
         | SendSpam \<Rightarrow> finish (send_spam P crc8 writer (map spam [0..<10]) c))"

text \<open>An iteration of \<open>read_uplink\<close>: what it prints, and the packet it sends or its error.  Both
  message lines show the received message.\<close>

definition read_uplink_turn ::
  "text_ops \<Rightarrow> (bytes \<Rightarrow> u8) \<Rightarrow> bool \<Rightarrow> bytes \<Rightarrow> rust_str \<times> bytes option result" where
  "read_uplink_turn T crc8 autoack packet =
     (case unpack_from_slice (message_ops crc8) packet of
        Inl e \<Rightarrow> ([], Inl e)
      | Ok message \<Rightarrow>
          (let up = str ''UP PACKET'' @ [0x0a, 0x09] @ hex_encode (text_hex T) packet @ [0x0a]
           in case message_text T crc8 message of
                None \<Rightarrow> (up, Panicked)
              | Some text \<Rightarrow>
                  (let up = up @ str ''UP MESSAGE'' @ [0x0a, 0x09] @ text @ [0x0a]
                   in if \<not> autoack then (up, Ok None)
                      else
                        (case and_then (auto_ack crc8 message) (pack_to_vec (message_ops crc8)) of
                           Inl e \<Rightarrow> (up, Inl e)
                         | Ok bs \<Rightarrow>
                             (up @ str ''DOWN MESSAGE'' @ [0x0a, 0x09] @ text @ [0x0a]
                                @ str ''DOWN PACKET'' @ [0x0a, 0x09] @ hex_encode (text_hex T) bs @ [0x0a],
                              Ok (Some bs))))))"

text \<open>Its effect is the turn without the texts.\<close>

lemma read_uplink_turn_effect:
  "snd (read_uplink_turn T crc8 autoack packet) = serial_console_turn crc8 autoack packet"
proof (cases "unpack_from_slice (message_ops crc8) packet")
  case (Inr m)
  then have "message_coherent crc8 m" using message.unpack_sound by blast
  then show ?thesis using Inr message_text_shown [of crc8 m T]
    by (cases "auto_ack crc8 m"; cases "and_then (auto_ack crc8 m) (pack_to_vec (message_ops crc8))")
      (auto simp: read_uplink_turn_def serial_console_turn_def Let_def)
qed (simp add: read_uplink_turn_def serial_console_turn_def)

datatype serial_input =
    Typed readline_result "nat \<Rightarrow> spam_values"
  | Received "(io_error + (cobs_error + bytes)) option"

text \<open>An iteration of the command loop, or of \<open>read_uplink\<close>.\<close>

fun serial_console_step ::
  "serial_parser \<Rightarrow> cobs_lib \<Rightarrow> text_ops \<Rightarrow> cs_payload struct_ops \<Rightarrow> (bytes \<Rightarrow> u8) \<Rightarrow> (bytes \<Rightarrow> bool)
     \<Rightarrow> serial_input \<Rightarrow> serial_console \<Rightarrow> serial_console" where
  "serial_console_step S L T P crc8 writer (Typed r spam) c =
     (if \<not> sc_running c then c
      else
        (case r of
           TypedLine line \<Rightarrow>
             (case split_line S line of
                None \<Rightarrow> console_print (str ''failed to split line'' @ [0x0a]) c
              | Some ws \<Rightarrow>
                  (case parse_command S ws of
                     Inl e \<Rightarrow> console_print (str ''command error: '' @ e @ [0x0a]) c
                   | Inr cmd \<Rightarrow>
                       (case run_command S L (text_hex T) P crc8 writer spam cmd c of
                          None \<Rightarrow> c\<lparr> sc_running := False \<rparr>
                        | Some c' \<Rightarrow> c')))
         | _ \<Rightarrow> c\<lparr> sc_running := False \<rparr>))"
| "serial_console_step S L T P crc8 writer (Received item) c =
     (if \<not> sc_running c \<or> \<not> sc_reading c then c
      else
        (case item of
           None \<Rightarrow> c\<lparr> sc_reading := False \<rparr>
         | Some (Inl e) \<Rightarrow> c\<lparr> sc_reading := False \<rparr>
         | Some (Inr (Inl e)) \<Rightarrow> c\<lparr> sc_reading := False \<rparr>
         | Some (Inr (Inr packet)) \<Rightarrow>
             (let (text, result) = read_uplink_turn T crc8 (sc_autoack c) packet;
                  c = console_print text c
              in case result of
                   Inl e \<Rightarrow> c\<lparr> sc_reading := False \<rparr>
                 | Inr None \<Rightarrow> c
                 | Inr (Some reply) \<Rightarrow>
                     (case console_send writer reply c of
                        None \<Rightarrow> c\<lparr> sc_reading := False \<rparr>
                      | Some c' \<Rightarrow> c'))))"

definition serial_console_run ::
  "serial_parser \<Rightarrow> cobs_lib \<Rightarrow> text_ops \<Rightarrow> cs_payload struct_ops \<Rightarrow> (bytes \<Rightarrow> u8) \<Rightarrow> (bytes \<Rightarrow> bool)
     \<Rightarrow> serial_input list \<Rightarrow> serial_console \<Rightarrow> serial_console" where
  "serial_console_run S L T P crc8 writer = fold (serial_console_step S L T P crc8 writer)"

text \<open>The acknowledgement of a message on the wire, and what a turn prints about a message.\<close>

definition ack_wire :: "(bytes \<Rightarrow> u8) \<Rightarrow> message_val \<Rightarrow> bytes" where
  "ack_wire crc8 v = message_wire crc8 \<lparr> header = \<lparr>
      header = (header (header v))\<lparr> ty := (ty (header (header v)))\<lparr> disposition := Ack \<rparr> \<rparr>,
      payload = Info \<lparr> info_header = header (header v),
        info_checksum = crc8 (message_val_enc v) \<rparr> \<rparr>, payload = [] \<rparr>"

definition turn_text :: "text_ops \<Rightarrow> (bytes \<Rightarrow> u8) \<Rightarrow> bool \<Rightarrow> message_val \<Rightarrow> rust_str" where
  "turn_text T crc8 on v =
     (let show_message = the (message_text T crc8 (with_crc_new v));
          entry = (\<lambda>name s. str name @ [0x0a, 0x09] @ s @ [0x0a])
      in entry ''UP PACKET'' (hex_encode (text_hex T) (message_wire crc8 v))
         @ entry ''UP MESSAGE'' show_message
         @ (if on then entry ''DOWN MESSAGE'' show_message
              @ entry ''DOWN PACKET'' (hex_encode (text_hex T) (ack_wire crc8 v))
            else []))"

lemma read_uplink_turn_wire:
  "read_uplink_turn T crc8 on (message_wire crc8 v)
    = (turn_text T crc8 on v, Ok (if on then Some (ack_wire crc8 v) else None))"
proof -
  obtain m where m: "unpack_from_slice (message_ops crc8) (message_wire crc8 v) = Ok m"
    "message_coherent crc8 m" "val m = v"
    using message.unpack_enc [of crc8 v] by blast
  have shown: "message_text T crc8 m = message_text T crc8 (with_crc_new v)"
    using message_text_new [OF m(2), of T] m(3) by simp
  obtain s where "message_text T crc8 (with_crc_new v) = Some s"
    using message_text_shown [of crc8 "with_crc_new v" T] by auto
  then show ?thesis
    using m shown
    by (simp add: read_uplink_turn_def turn_text_def ack_wire_def auto_ack_coherent pack_fresh Let_def)
qed

text \<open>The last two lines are about different messages: the acknowledgement is sent and its packet
  printed, but the text above it is the received message's.\<close>

lemma down_message_is_up_message:
  "\<exists>text. turn_text T crc8 True v =
      str ''UP PACKET'' @ [0x0a, 0x09] @ hex_encode (text_hex T) (message_wire crc8 v) @ [0x0a]
      @ str ''UP MESSAGE'' @ [0x0a, 0x09] @ text @ [0x0a]
      @ str ''DOWN MESSAGE'' @ [0x0a, 0x09] @ text @ [0x0a]
      @ str ''DOWN PACKET'' @ [0x0a, 0x09] @ hex_encode (text_hex T) (ack_wire crc8 v) @ [0x0a]"
  by (simp add: turn_text_def Let_def) blast

text \<open>While the emulator runs and the writer works, every message that arrives is answered by
  its acknowledgement exactly if the flag is set at that moment, each line \<open>autoack\<close> toggles
  the flag, the texts of the turns are printed in their order, and nothing else is sent,
  printed or changed.\<close>

fun acks_expected ::
  "(bytes \<Rightarrow> u8) \<Rightarrow> bool \<Rightarrow> message_val option list \<Rightarrow> bytes list" where
  "acks_expected crc8 on [] = []"
| "acks_expected crc8 on (None # es) = acks_expected crc8 (\<not> on) es"
| "acks_expected crc8 on (Some v # es) =
     (if on then ack_wire crc8 v # acks_expected crc8 on es else acks_expected crc8 on es)"

fun texts_expected ::
  "text_ops \<Rightarrow> (bytes \<Rightarrow> u8) \<Rightarrow> bool \<Rightarrow> message_val option list \<Rightarrow> rust_str" where
  "texts_expected T crc8 on [] = []"
| "texts_expected T crc8 on (None # es) =
     str ''toggling autoack '' @ bool_text on @ str '' -> '' @ bool_text (\<not> on) @ [0x0a]
     @ texts_expected T crc8 (\<not> on) es"
| "texts_expected T crc8 on (Some v # es) = turn_text T crc8 on v @ texts_expected T crc8 on es"

theorem serial_console_acks:
  assumes "split_line S line = Some ws" and "parse_command S ws = Inr AutoAck"
    and "\<And>pkt. writer pkt" and "sc_running c" and "sc_reading c"
  shows "serial_console_run S L T P crc8 writer
      (map (\<lambda>e. case e of None \<Rightarrow> Typed (TypedLine line) spam
        | Some v \<Rightarrow> Received (Some (Inr (Inr (message_wire crc8 v))))) es) c
    = c\<lparr> sc_autoack := (if even (length (filter (\<lambda>e. e = None) es)) then sc_autoack c else \<not> sc_autoack c),
        sc_sent := sc_sent c @ acks_expected crc8 (sc_autoack c) es,
        sc_printed := sc_printed c @ texts_expected T crc8 (sc_autoack c) es \<rparr>"
  using assms(4,5)
proof (induction es arbitrary: c)
  case (Cons e es)
  let ?step = "serial_console_step S L T P crc8 writer"
  show ?case
  proof (cases e)
    case None
    let ?c = "c\<lparr> sc_autoack := \<not> sc_autoack c, sc_printed := sc_printed c
      @ texts_expected T crc8 (sc_autoack c) [None] \<rparr>"
    have "?step (Typed (TypedLine line) spam) c = ?c"
      using assms(1,2) Cons.prems by (simp add: run_command_def toggle_autoack_def console_print_def)
    then show ?thesis
      using Cons.IH [of ?c] Cons.prems by (simp add: None serial_console_run_def)
  next
    case (Some v)
    let ?c = "c\<lparr> sc_sent := sc_sent c @ (if sc_autoack c then [ack_wire crc8 v] else []),
      sc_printed := sc_printed c @ turn_text T crc8 (sc_autoack c) v \<rparr>"
    have "?step (Received (Some (Inr (Inr (message_wire crc8 v))))) c = ?c"
      using assms(3) Cons.prems
      by (cases "sc_autoack c") (simp_all add: read_uplink_turn_wire console_send_def console_print_def)
    then show ?thesis
      using Cons.IH [of ?c] Cons.prems by (simp add: Some serial_console_run_def)
  qed
qed (simp add: serial_console_run_def)

theorem serial_console_acks_witness:
  "\<exists>S L T P spam.
    (let c = serial_console_run S L T P (\<lambda>_. 7) (\<lambda>_. True)
      [Received (Some (Inr (Inr (message_wire (\<lambda>_. 7) (val (request_msg 1)))))),
       Typed (TypedLine [97]) spam,
       Received (Some (Inr (Inr (message_wire (\<lambda>_. 7) (val (request_msg 2))))))] serial_console_new
     in sc_sent c = [ack_wire (\<lambda>_. 7) (val (request_msg 1))]
      \<and> sc_printed c = turn_text T (\<lambda>_. 7) True (val (request_msg 1))
        @ str ''toggling autoack true -> false'' @ [0x0a] @ turn_text T (\<lambda>_. 7) False (val (request_msg 2)))"
proof -
  let ?S = "\<lparr> split_line = (\<lambda>l. Some [l]), parse_command = (\<lambda>ws. Inr AutoAck),
    hex_error_text = (\<lambda>_. []), cobs_error_text = (\<lambda>_. []) \<rparr>"
  have c: "sc_running serial_console_new" "sc_reading serial_console_new"
    by (simp_all add: serial_console_new_def)
  have p: "split_line ?S [97] = Some [[97]]" "parse_command ?S [[97]] = Inr AutoAck" by simp_all
  from serial_console_acks [OF p _ c, where writer = "\<lambda>_. True" and ?crc8.0 = "\<lambda>_. 7"
      and es = "[Some (val (request_msg 1)), None, Some (val (request_msg 2))]"]
  show ?thesis
    by (intro exI [of _ ?S] exI [of _ undefined])
      (simp add: serial_console_new_def bool_text_def str_def del: serial_console_step.simps)
qed

text \<open>One packet that is no message, or one COBS error, ends the acknowledgements for good.\<close>

theorem serial_console_reader_ends:
  assumes "\<not> sc_reading c"
  shows "sc_sent (serial_console_run S L T P crc8 writer (map Received items) c) = sc_sent c
    \<and> \<not> sc_reading (serial_console_step S L T P crc8 writer (Received (Some (Inr (Inl CobsProtocol))))
          serial_console_new)"
proof -
  have "serial_console_run S L T P crc8 writer (map Received items) c = c"
    using assms by (induction items) (simp_all add: serial_console_run_def)
  then show ?thesis by (simp add: serial_console_new_def)
qed

subsection \<open>decode\_downlink\<close>

record decode_mode =
  mode_hex :: bool
  mode_base64 :: bool

text \<open>What reading all of standard input returned: as a string, which fails if it is not UTF-8,
  and as bytes.\<close>

record stdin_read =
  stdin_text :: "rust_str option"
  stdin_bytes :: "bytes option"

definition is_whitespace :: "nat \<Rightarrow> bool" where
  "is_whitespace c \<longleftrightarrow> 0x09 \<le> c \<and> c \<le> 0x0d
     \<or> c \<in> {0x20, 0x85, 0xa0, 0x1680, 0x2028, 0x2029, 0x202f, 0x205f, 0x3000}
     \<or> 0x2000 \<le> c \<and> c \<le> 0x200a"

definition trim :: "rust_str \<Rightarrow> rust_str" where
  "trim s = rev (dropWhile is_whitespace (rev (dropWhile is_whitespace s)))"

definition decode_stdin ::
  "hex_ops \<Rightarrow> (rust_str \<Rightarrow> bytes option) \<Rightarrow> decode_mode \<Rightarrow> stdin_read \<Rightarrow> bytes option" where
  "decode_stdin H base64_decode mode input =
     (if mode_hex mode
      then Option.bind (stdin_text input) (\<lambda>s.
             hex_decode H (filter (\<lambda>c. c \<notin> {0x20, 0x09, 0x0a, 0x0d}) (trim s)))
      else if mode_base64 mode
      then Option.bind (stdin_text input) (\<lambda>s. base64_decode (trim s))
      else stdin_bytes input)"

text \<open>What is printed; hexadecimal text is complete here, and a log has its derived \<open>Debug\<close> text,
  a parameter.  \<open>None\<close> is an error or a panic.\<close>

definition decoded_line ::
  "text_ops \<Rightarrow> (log \<Rightarrow> rust_str) \<Rightarrow> (bytes \<Rightarrow> u8) \<Rightarrow> downlink \<Rightarrow> rust_str option" where
  "decoded_line T debug_log crc8 msg =
     (let println = (\<lambda>name s. name @ [0x0a, 0x09] @ s @ [0x0a])
      in case msg of
           DownlinkLog b \<Rightarrow> Some (println (str ''LOG'') (debug_log b))
         | SerialDownlink m \<Rightarrow> map_option (println (str ''SERIAL DOWNLINK'')) (message_text T crc8 m)
         | SerialUplink m \<Rightarrow> map_option (println (str ''SERIAL UPLINK'')) (message_text T crc8 m)
         | UplinkInterpreted m \<Rightarrow> map_option (println (str ''UPLINK ECHO'')) (message_text T crc8 m)
         | SerialDownlinkRaw b \<Rightarrow>
             Some (println (str ''SERIAL DOWNLINK (RAW)'') (hex_encode (text_hex T) b))
         | SerialUplinkRaw b \<Rightarrow>
             Some (println (str ''SERIAL UPLINK (RAW)'') (hex_encode (text_hex T) b))
         | UplinkMirror b \<Rightarrow>
             Some (println (str ''UPLINK ECHO (RAW)'') (hex_encode (text_hex T) b)))"

definition decode_downlink ::
  "text_ops \<Rightarrow> (log \<Rightarrow> rust_str) \<Rightarrow> (bytes \<Rightarrow> u8) \<Rightarrow> (rust_str \<Rightarrow> bytes option)
     \<Rightarrow> (bytes \<Rightarrow> downlink option) \<Rightarrow> (bytes \<Rightarrow> bytes option) \<Rightarrow> decode_mode \<Rightarrow> stdin_read
     \<Rightarrow> rust_str option" where
  "decode_downlink T debug_log crc8 base64_decode deserialize decompress mode input =
     Option.bind (decode_stdin (text_hex T) base64_decode mode input) (\<lambda>buf.
       Option.bind (downlink_read deserialize decompress buf) (decoded_line T debug_log crc8))"

lemma decoded_line_total: "\<exists>l. decoded_line T debug_log crc8 (downlink_fresh d) = Some l"
  by (cases d) (simp_all add: decoded_line_def message_text_shown Let_def)

lemma filter_trim:
  assumes "\<And>c. c \<in> set s \<Longrightarrow> is_whitespace c \<Longrightarrow> \<not> keep c"
  shows "filter keep (trim s) = filter keep s"
proof -
  have dw: "filter keep (dropWhile is_whitespace s) = filter keep s" if "set s \<subseteq> A"
    and "\<And>c. c \<in> A \<Longrightarrow> is_whitespace c \<Longrightarrow> \<not> keep c" for s A
    using that by (induction s) auto
  have "filter keep (trim s) = rev (filter keep (dropWhile is_whitespace (rev (dropWhile is_whitespace s))))"
    by (simp add: trim_def rev_filter)
  also have "\<dots> = rev (filter keep (rev (dropWhile is_whitespace s)))"
    using assms set_dropWhileD [of _ is_whitespace s] by (subst dw [of _ "set s"]) auto
  also have "\<dots> = filter keep s"
    using assms dw [of s "set s"] by (simp add: rev_filter [symmetric])
  finally show ?thesis .
qed

text \<open>A packet of the downlink is decoded from any layout of its hexadecimal text.  With inverse
  libraries, whatever spaces, tabs and line ends stand before, between and behind the digits
  of a packet that a downlink actor sent, the tool prints the line of the value that the actor
  extracted, the same as for the raw packet.\<close>

theorem decode_downlink_layout:
  assumes "text_laws T" and "downlink_codec serialize deserialize compress decompress"
    and "downlink_handle serialize compress msg a = SendTo s pkt"
    and "filter (\<lambda>c. c \<notin> {0x20, 0x09, 0x0a, 0x0d}) typed = hex_encode (text_hex T) pkt"
  shows "\<exists>d line. downlink_extract msg = Some d
    \<and> decoded_line T debug_log crc8 (downlink_fresh d) = Some line
    \<and> decode_downlink T debug_log crc8 b64 deserialize decompress
        \<lparr> mode_hex = True, mode_base64 = b \<rparr>
        \<lparr> stdin_text = Some typed, stdin_bytes = raw \<rparr> = Some line
    \<and> decode_downlink T debug_log crc8 b64 deserialize decompress
        \<lparr> mode_hex = False, mode_base64 = False \<rparr>
        \<lparr> stdin_text = txt, stdin_bytes = Some pkt \<rparr> = Some line"
proof -
  note H = text_laws.hex [OF assms(1)]
  obtain d where d: "downlink_extract msg = Some d"
    "downlink_read deserialize decompress pkt = Some (downlink_fresh d)"
    using downlink_roundtrip_fresh [OF assms(2,3)] by blast
  obtain line where line: "decoded_line T debug_log crc8 (downlink_fresh d) = Some line"
    using decoded_line_total by blast
  let ?keep = "\<lambda>c. c \<notin> {0x20, 0x09, 0x0a, 0x0d :: nat}"
  have "\<not> ?keep c" if "c \<in> set typed" "is_whitespace c" for c
  proof
    assume "?keep c"
    then have "c \<in> set (filter ?keep typed)" using that(1) by simp
    then have "is_hex_digit c" using hex_laws.encode_digits [OF H] unfolding assms(4) by blast
    then show False using that(2) by (auto simp: is_hex_digit_def is_whitespace_def)
  qed
  then have "filter ?keep (trim typed) = hex_encode (text_hex T) pkt"
    using filter_trim [of typed ?keep] assms(4) by simp
  then have "decode_stdin (text_hex T) b64 \<lparr> mode_hex = True, mode_base64 = b \<rparr>
      \<lparr> stdin_text = Some typed, stdin_bytes = raw \<rparr> = Some pkt"
    using hex_laws.decode_encode [OF H] by (simp add: decode_stdin_def)
  then show ?thesis using d line
    by (intro exI [of _ d] exI [of _ line]) (simp add: decode_downlink_def decode_stdin_def)
qed

theorem decode_downlink_layout_witness:
  "decode_downlink text_reference (\<lambda>_. []) (\<lambda>_. 7) (\<lambda>_. None) wire_deserialize Some
      \<lparr> mode_hex = True, mode_base64 = False \<rparr>
      \<lparr> stdin_text = Some [0x20, 0x30, 0x36, 0x0a, 0x66, 0x66, 0x0a], stdin_bytes = None \<rparr>
    = Some (str ''SERIAL DOWNLINK (RAW)'' @ [0x0a, 0x09] @ str ''ff'' @ [0x0a])"
proof -
  let ?a = "\<lparr> sender = Some (), downlink_subscribed = True \<rparr>"
    and ?text = "[0x20, 0x30, 0x36, 0x0a, 0x66, 0x66, 0x0a] :: rust_str"
  have send: "downlink_handle wire_serialize Some (RawDownPacket [255]) ?a = SendTo () [6, 255]"
    by (simp add: downlink_handle_def gen_handle_def brotli_compress_def)
  have "filter (\<lambda>c. c \<notin> {0x20, 0x09, 0x0a, 0x0d}) ?text = hex_encode (text_hex text_reference) [6, 255]"
    by (simp add: text_reference_def hex_reference_def hex_digit_def)
  from decode_downlink_layout [OF text_ref.text_laws_axioms wire_codec.downlink_codec_axioms send this,
      of "\<lambda>_. []" "\<lambda>_. 7" "\<lambda>_. None" False None]
  show ?thesis
    by (auto simp: decoded_line_def Let_def text_reference_def hex_reference_def hex_digit_def str_def)
qed

end
