(* ===== verification/Ground_Link.thy ===== *)
theory Ground_Link
  imports Consoles "HOL-Library.Sublist"
begin

text \<open>
  The ground console and the relay's uplink as two processes on one system of datagram sockets,
  from \<open>src/src/bin/console/main.rs\<close>, \<open>src/src/main.rs\<close> and \<open>runtime/src/ground/uplink.rs\<close>.
  Their steps interleave in any order, the relay may end and start again at any time, and the
  console executes itself anew when its socket is refused.
\<close>

subsection \<open>The console process\<close>

text \<open>It waits in \<open>connect_once\<close>, connects, and runs its command loop; or it has ended.\<close>

datatype 's console_status =
    Probing
  | Connecting
  | Connected 's
  | ConsoleExited
  | ConsoleFailed
  | ConsolePanicked

text \<open>\<open>exec_self\<close>: the process starts from the beginning, or panics when a child or \<open>execvp\<close> fails.\<close>

definition exec_self :: "bool \<Rightarrow> 's console_status" where
  "exec_self ok = (if ok then Probing else ConsolePanicked)"

definition console_ended :: "bool \<Rightarrow> loop_end \<Rightarrow> 's console_status" where
  "console_ended exec_ok e =
     (if e = LoopFinished then ConsoleExited
      else if e = LoopPanicked then ConsolePanicked
      else exec_self exec_ok)"

text \<open>The steps of \<open>main\<close>: an attempt of \<open>connect_once\<close>, the connection, a turn of the loop.  A
  socket is closed when the loop is left.\<close>

definition main_probe ::
  "('a, 's, 'w) datagram_ops \<Rightarrow> 'a \<Rightarrow> 'w \<Rightarrow> 's console_status \<times> 'w" where
  "main_probe N uplink w =
     (let (ok, w') = probe N [uplink] w in (if ok then Connecting else Probing, w'))"

definition main_connect ::
  "('a, 's, 'w) datagram_ops \<Rightarrow> 'a \<Rightarrow> 'w \<Rightarrow> 's console_status \<times> 'w" where
  "main_connect N uplink w =
     (case dg_connect N uplink w of
        (Inl e, w') \<Rightarrow> (ConsoleFailed, w')
      | (Inr sock, w') \<Rightarrow> (Connected sock, w'))"

definition main_turn ::
  "command_parser \<Rightarrow> (bytes \<Rightarrow> u8) \<Rightarrow> ('a, 's, 'w) datagram_ops \<Rightarrow> 's \<Rightarrow> console_turn \<Rightarrow> bool \<Rightarrow> 'w
     \<Rightarrow> (bytes list \<times> 's console_status) \<times> 'w" where
  "main_turn C crc8 N sock t exec_ok w =
     (let ((pkt, finish), w') = io_turn C crc8 N sock t w;
          sent = (case pkt of None \<Rightarrow> [] | Some p \<Rightarrow> [p])
      in case finish of
           None \<Rightarrow> ((sent, Connected sock), w')
         | Some e \<Rightarrow> ((sent, console_ended exec_ok e), dg_drop N sock w'))"

subsection \<open>Both processes\<close>

text \<open>The sockets, the console, the uplink's receiver with its buffer, the packets that the
  console's sends were told to have taken, and what the uplink has issued.\<close>

record ('s, 'w) link =
  lk_world :: 'w
  lk_console :: "'s console_status"
  lk_uplink :: "('s \<times> bytes) option"
  lk_sent :: "bytes list"
  lk_issued :: "broker_msg list"

definition link_start :: "'w \<Rightarrow> ('s, 'w) link" where
  "link_start w = \<lparr> lk_world = w, lk_console = Probing, lk_uplink = None, lk_sent = [], lk_issued = [] \<rparr>"

datatype link_label =
    ConsoleProbe
  | ConsoleConnect
  | ConsoleTurn console_turn bool
  | UplinkStart
  | UplinkTurn
  | RelayExit

text \<open>The uplink's socket goes with its actor, or with the process.\<close>

definition uplink_gone ::
  "('a, 's, 'w) datagram_ops \<Rightarrow> ('s, 'w) link \<Rightarrow> ('s, 'w) link" where
  "uplink_gone N st =
     (case lk_uplink st of
        None \<Rightarrow> st
      | Some (u, buf) \<Rightarrow> st\<lparr> lk_world := dg_drop N u (lk_world st), lk_uplink := None \<rparr>)"

definition uplink_step ::
  "(bytes \<Rightarrow> u8) \<Rightarrow> ('a, 's, 'w) datagram_ops \<Rightarrow> ('s, 'w) link \<Rightarrow> ('s, 'w) link" where
  "uplink_step crc8 N st =
     (case lk_uplink st of
        None \<Rightarrow> st
      | Some (u, buf) \<Rightarrow>
          (case dg_recv N u (resize UPLINK_BUF 0 buf) (lk_world st) of
             None \<Rightarrow> st
           | Some (r, w) \<Rightarrow>
               (case uplink_turn (\<lambda>packet. Some r) buf of
                  None \<Rightarrow> uplink_gone N (st\<lparr> lk_world := w \<rparr>)
                | Some item \<Rightarrow>
                    (let (result, rest) = (case item of
                           Inl e \<Rightarrow> (PacketErr e, []) | Inr (pkt, rest) \<Rightarrow> (PacketOk pkt, rest))
                     in case uplink_handle crc8 result of
                          UplinkIssue ms \<Rightarrow> st\<lparr> lk_world := w, lk_uplink := Some (u, rest),
                            lk_issued := lk_issued st @ ms \<rparr>
                        | _ \<Rightarrow> uplink_gone N (st\<lparr> lk_world := w \<rparr>)))))"

fun link_step ::
  "command_parser \<Rightarrow> (bytes \<Rightarrow> u8) \<Rightarrow> ('a, 's, 'w) datagram_ops \<Rightarrow> 'a \<Rightarrow> link_label
     \<Rightarrow> ('s, 'w) link \<Rightarrow> ('s, 'w) link" where
  "link_step C crc8 N addr ConsoleProbe st =
     (case lk_console st of
        Probing \<Rightarrow>
          (let (s, w) = main_probe N addr (lk_world st) in st\<lparr> lk_world := w, lk_console := s \<rparr>)
      | _ \<Rightarrow> st)"
| "link_step C crc8 N addr ConsoleConnect st =
     (case lk_console st of
        Connecting \<Rightarrow>
          (let (s, w) = main_connect N addr (lk_world st) in st\<lparr> lk_world := w, lk_console := s \<rparr>)
      | _ \<Rightarrow> st)"
| "link_step C crc8 N addr (ConsoleTurn t exec_ok) st =
     (case lk_console st of
        Connected sock \<Rightarrow>
          (let ((sent, s), w) = main_turn C crc8 N sock t exec_ok (lk_world st)
           in st\<lparr> lk_world := w, lk_console := s, lk_sent := lk_sent st @ sent \<rparr>)
      | _ \<Rightarrow> st)"
| "link_step C crc8 N addr UplinkStart st =
     (case lk_uplink st of
        None \<Rightarrow>
          (let (r, w) = make_uplink N addr (lk_world st)
           in st\<lparr> lk_world := w, lk_uplink := uplink_started r \<rparr>)
      | Some u \<Rightarrow> st)"
| "link_step C crc8 N addr UplinkTurn st = uplink_step crc8 N st"
| "link_step C crc8 N addr RelayExit st = uplink_gone N st"

definition link_run ::
  "command_parser \<Rightarrow> (bytes \<Rightarrow> u8) \<Rightarrow> ('a, 's, 'w) datagram_ops \<Rightarrow> 'a \<Rightarrow> link_label list
     \<Rightarrow> ('s, 'w) link \<Rightarrow> ('s, 'w) link" where
  "link_run C crc8 N addr = fold (link_step C crc8 N addr)"

lemma link_run_simps [simp]:
  "link_run C crc8 N addr [] st = st"
  "link_run C crc8 N addr (l # ls) st = link_run C crc8 N addr ls (link_step C crc8 N addr l st)"
  "link_run C crc8 N addr (ls @ ls') st = link_run C crc8 N addr ls' (link_run C crc8 N addr ls st)"
  by (simp_all add: link_run_def)

subsection \<open>What was typed is what is sent\<close>

definition typed_wire :: "(bytes \<Rightarrow> u8) \<Rightarrow> params \<times> console_command \<Rightarrow> bytes" where
  "typed_wire crc8 c = message_wire crc8 (val (console_message (fst c) (snd c)))"

fun typed_in :: "command_parser \<Rightarrow> link_label list \<Rightarrow> (params \<times> console_command) list" where
  "typed_in C [] = []"
| "typed_in C (ConsoleTurn t exec_ok # ls) =
     (case turn_choice C t of
        Some (Send cmd) \<Rightarrow> (turn_params t, cmd) # typed_in C ls
      | _ \<Rightarrow> typed_in C ls)"
| "typed_in C (l # ls) = typed_in C ls"

lemma typed_in_append: "typed_in C (ls @ ls') = typed_in C ls @ typed_in C ls'"
  by (induction C ls rule: typed_in.induct) (simp_all split: option.splits console_choice.splits)

lemma main_turn_sent:
  assumes "main_turn C crc8 N sock t exec_ok w = ((sent, s), w')"
  shows "sent = [] \<or> sent = map (typed_wire crc8) (typed_in C [ConsoleTurn t exec_ok])"
  using assms
  by (auto simp: main_turn_def io_turn_choice typed_wire_def Let_def
      split: option.splits console_choice.splits prod.splits sum.splits)

lemma uplink_gone_sel [simp]:
  "lk_sent (uplink_gone N st) = lk_sent st" "lk_console (uplink_gone N st) = lk_console st"
  "lk_issued (uplink_gone N st) = lk_issued st" "lk_uplink (uplink_gone N st) = None"
  by (simp_all add: uplink_gone_def split: option.split)

lemma uplink_step_sel [simp]:
  "lk_sent (uplink_step crc8 N st) = lk_sent st" "lk_console (uplink_step crc8 N st) = lk_console st"
  by (simp_all add: uplink_step_def Let_def split: option.split sum.split uplink_reaction.split)

lemma link_step_sent:
  "\<exists>x. lk_sent (link_step C crc8 N addr l st) = lk_sent st @ x
    \<and> (x = [] \<or> x = map (typed_wire crc8) (typed_in C [l]))"
proof (cases l)
  case (ConsoleTurn t exec_ok)
  show ?thesis
  proof (cases "lk_console st")
    case (Connected sock)
    obtain sent s w where m: "main_turn C crc8 N sock t exec_ok (lk_world st) = ((sent, s), w)"
      by (metis prod.exhaust)
    then have "lk_sent (link_step C crc8 N addr l st) = lk_sent st @ sent"
      by (simp add: ConsoleTurn Connected)
    then show ?thesis using main_turn_sent [OF m] ConsoleTurn by blast
  qed (simp_all add: ConsoleTurn)
qed (simp_all add: Let_def split: console_status.split option.split prod.split)

lemma link_run_sent:
  "\<exists>x. lk_sent (link_run C crc8 N addr ls st) = lk_sent st @ x
    \<and> subseq x (map (typed_wire crc8) (typed_in C ls))"
proof (induction ls arbitrary: st)
  case (Cons l ls)
  obtain x where x: "lk_sent (link_step C crc8 N addr l st) = lk_sent st @ x"
    "x = [] \<or> x = map (typed_wire crc8) (typed_in C [l])"
    using link_step_sent [of C crc8 N addr l st] by blast
  obtain y where y: "lk_sent (link_run C crc8 N addr ls (link_step C crc8 N addr l st))
      = lk_sent (link_step C crc8 N addr l st) @ y"
    "subseq y (map (typed_wire crc8) (typed_in C ls))"
    using Cons.IH [of "link_step C crc8 N addr l st"] by blast
  have "subseq x (map (typed_wire crc8) (typed_in C [l]))"
    using x(2) by (elim disjE) (simp_all only: list_emb_Nil subseq_order.refl)
  then have "subseq (x @ y) (map (typed_wire crc8) (typed_in C [l] @ typed_in C ls))"
    using y(2) by (simp only: map_append list_emb_append_mono)
  moreover have "typed_in C (l # ls) = typed_in C [l] @ typed_in C ls"
    using typed_in_append [of C "[l]" ls] by (simp only: append_Cons append_Nil)
  moreover have "lk_sent (link_run C crc8 N addr (l # ls) st) = lk_sent st @ x @ y"
    using x(1) y(1) by (simp only: link_run_simps append_assoc)
  ultimately show ?case by (intro exI [of _ "x @ y"]) (simp only:)
qed simp

lemma typed_wire_length: "length (typed_wire crc8 c) \<le> UPLINK_BUF"
  by (simp add: typed_wire_def length_message_wire console_message_def message_command_def UPLINK_BUF_def)

subsection \<open>The invariant\<close>

definition uplink_issues :: "(bytes \<Rightarrow> u8) \<Rightarrow> bytes \<Rightarrow> broker_msg list" where
  "uplink_issues crc8 d =
     (case uplink_handle crc8 (PacketOk d) of UplinkIssue ms \<Rightarrow> ms | _ \<Rightarrow> [])"

definition uplink_pending :: "('a, 's, 'w) net_view \<Rightarrow> ('s, 'w) link \<Rightarrow> bytes list" where
  "uplink_pending V st =
     (case lk_uplink st of None \<Rightarrow> [] | Some (u, buf) \<Rightarrow> nv_inbox V (lk_world st) u)"

abbreviation uplink_socket :: "('s, 'w) link \<Rightarrow> 's option" where
  "uplink_socket st \<equiv> map_option fst (lk_uplink st)"

text \<open>The address leads to the uplink's open socket, or to none that is open; the socket to which
  the console is connected is the uplink's or closed.\<close>

definition uplink_ok :: "('a, 's, 'w) net_view \<Rightarrow> 'a \<Rightarrow> ('s, 'w) link \<Rightarrow> bool" where
  "uplink_ok V addr st \<longleftrightarrow>
     (case uplink_socket st of
        None \<Rightarrow> \<forall>p. nv_bound V (lk_world st) addr = Some p \<longrightarrow> \<not> nv_alive V (lk_world st) p
      | Some u \<Rightarrow> nv_alive V (lk_world st) u \<and> nv_bound V (lk_world st) addr = Some u)"

definition console_ok :: "('a, 's, 'w) net_view \<Rightarrow> ('s, 'w) link \<Rightarrow> bool" where
  "console_ok V st \<longleftrightarrow>
     (\<forall>s. lk_console st = Connected s \<longrightarrow> nv_alive V (lk_world st) s \<and> uplink_socket st \<noteq> Some s
        \<and> (\<exists>p. nv_peer V (lk_world st) s = Some p
             \<and> (nv_alive V (lk_world st) p \<longrightarrow> uplink_socket st = Some p)))"

definition sockets_ok :: "('a, 's, 'w) net_view \<Rightarrow> 'a \<Rightarrow> ('s, 'w) link \<Rightarrow> bool" where
  "sockets_ok V addr st \<longleftrightarrow> nv_ok V (lk_world st) \<and> uplink_ok V addr st \<and> console_ok V st"

text \<open>What the uplink handled is, in order, among what was sent before that which waits at its
  socket.\<close>

definition packets_ok ::
  "(bytes \<Rightarrow> u8) \<Rightarrow> ('a, 's, 'w) net_view \<Rightarrow> ('s, 'w) link \<Rightarrow> bytes list \<Rightarrow> bytes list \<Rightarrow> bool" where
  "packets_ok crc8 V st handled gone \<longleftrightarrow>
     lk_issued st = concat (map (uplink_issues crc8) handled)
     \<and> lk_sent st = gone @ uplink_pending V st \<and> subseq handled gone
     \<and> set (lk_sent st) \<subseteq> range (typed_wire crc8)"

text \<open>A step of the console: the uplink keeps its socket, and what is sent waits there.\<close>

definition console_stepped ::
  "('a, 's, 'w) net_view \<Rightarrow> ('s, 'w) link \<Rightarrow> ('s, 'w) link \<Rightarrow> bytes list \<Rightarrow> bool" where
  "console_stepped V st st' x \<longleftrightarrow> lk_uplink st' = lk_uplink st \<and> lk_issued st' = lk_issued st
     \<and> lk_sent st' = lk_sent st @ x \<and> uplink_pending V st' = uplink_pending V st @ x"

lemma console_stepped_trans:
  "console_stepped V st st1 x \<Longrightarrow> console_stepped V st1 st2 y \<Longrightarrow> console_stepped V st st2 (x @ y)"
  by (simp add: console_stepped_def)

lemma console_stepped_socket: "console_stepped V st st' x \<Longrightarrow> uplink_socket st' = uplink_socket st"
  by (simp add: console_stepped_def)

context datagram_laws
begin

text \<open>Steps that leave the sockets other than new ones as they were.\<close>

lemma kept_uplink:
  assumes "sockets_ok V addr st" and "nv_ok V w" and "nv_bound V w = nv_bound V (lk_world st)"
    and "nv_keeps V S (lk_world st) w" and "\<And>s. s \<in> S \<Longrightarrow> uplink_socket st \<noteq> Some s"
    and "\<And>s p. s \<in> S \<Longrightarrow> nv_alive V w s \<Longrightarrow> nv_alive V (lk_world st) s"
    and "lk_world st' = w" and "lk_uplink st' = lk_uplink st"
  shows "uplink_ok V addr st'" and "uplink_pending V st' = uplink_pending V st"
proof -
  have ok: "nv_ok V (lk_world st)" and up: "uplink_ok V addr st"
    using assms(1) by (auto simp: sockets_ok_def)
  show "uplink_pending V st' = uplink_pending V st"
  proof (cases "lk_uplink st")
    case (Some ub)
    obtain u buf where ub: "ub = (u, buf)" by fastforce
    have "nv_alive V (lk_world st) u" using up Some ub by (simp add: uplink_ok_def)
    then have "nv_inbox V w u = nv_inbox V (lk_world st) u"
      using nv_keepsD(4) [OF assms(4) alive_known [OF ok]] assms(5) Some ub by auto
    then show ?thesis using Some ub by (simp add: uplink_pending_def assms(7,8))
  qed (simp add: uplink_pending_def assms(8))
  show "uplink_ok V addr st'"
  proof (cases "uplink_socket st")
    case None
    have "\<not> nv_alive V w p" if "nv_bound V w addr = Some p" for p
    proof -
      have p: "nv_bound V (lk_world st) addr = Some p" using that assms(3) by simp
      have "\<not> nv_alive V (lk_world st) p" using p up None by (simp add: uplink_ok_def)
      then show ?thesis using nv_keepsD(2) [OF assms(4) bound_known [OF ok p]] assms(6) by blast
    qed
    then show ?thesis using None by (simp add: uplink_ok_def assms(7,8))
  next
    case (Some u)
    have "nv_alive V (lk_world st) u" using up Some by (simp add: uplink_ok_def)
    then have "nv_alive V w u"
      using nv_keepsD(2) [OF assms(4) alive_known [OF ok]] assms(5) Some by blast
    then show ?thesis using up Some by (auto simp: uplink_ok_def assms(3,7,8))
  qed
qed

lemma kept_console:
  assumes "nv_ok V (lk_world st)" and "console_ok V st" and "lk_console st = Connected s"
    and "nv_keeps V S (lk_world st) w" and "s \<notin> S"
    and "\<And>p. p \<in> S \<Longrightarrow> nv_alive V w p \<Longrightarrow> nv_alive V (lk_world st) p"
    and "lk_world st' = w" and "lk_console st' = lk_console st"
    and "\<And>p. uplink_socket st = Some p \<Longrightarrow> nv_alive V w p \<Longrightarrow> uplink_socket st' = Some p"
    and "uplink_socket st' \<noteq> Some s"
  shows "console_ok V st'"
proof -
  obtain p where p: "nv_alive V (lk_world st) s" "nv_peer V (lk_world st) s = Some p"
    "nv_alive V (lk_world st) p \<longrightarrow> uplink_socket st = Some p"
    using assms(2,3) by (auto simp: console_ok_def)
  note k = nv_keepsD [OF assms(4) alive_known [OF assms(1) p(1)] assms(5)]
  have "nv_alive V w p \<longrightarrow> uplink_socket st' = Some p"
  proof
    assume a: "nv_alive V w p"
    then have "nv_alive V (lk_world st) p"
      using nv_keepsD(2) [OF assms(4) peer_known [OF assms(1) p(2)]] assms(6) by blast
    then show "uplink_socket st' = Some p" using p(3) assms(9) a by simp
  qed
  then show ?thesis using k p assms(3,7,8,10) by (simp add: console_ok_def)
qed

text \<open>The steps of the console.\<close>

lemma probe_step:
  assumes "sockets_ok V addr st"
  shows "sockets_ok V addr (link_step C crc8 N addr ConsoleProbe st)
    \<and> console_stepped V st (link_step C crc8 N addr ConsoleProbe st) []"
proof (cases "lk_console st")
  case Probing
  obtain ok w where pr: "probe N [addr] (lk_world st) = (ok, w)" by fastforce
  have wok: "nv_ok V (lk_world st)" using assms by (simp add: sockets_ok_def)
  note k = probe_exact [OF wok pr]
  have step: "link_step C crc8 N addr ConsoleProbe st
      = st\<lparr> lk_world := w, lk_console := (if ok then Connecting else Probing) \<rparr>"
    by (simp add: Probing main_probe_def pr del: probe.simps)
  show ?thesis
    using kept_uplink [OF assms conjunct1 [OF k], of "{}" "link_step C crc8 N addr ConsoleProbe st"] k
    by (simp add: step sockets_ok_def console_ok_def console_stepped_def del: link_step.simps)
qed (use assms in \<open>simp_all add: console_stepped_def\<close>)

lemma connect_step:
  assumes "sockets_ok V addr st"
  shows "sockets_ok V addr (link_step C crc8 N addr ConsoleConnect st)
    \<and> console_stepped V st (link_step C crc8 N addr ConsoleConnect st) []"
proof (cases "lk_console st")
  case Connecting
  obtain r w where c: "dg_connect N addr (lk_world st) = (r, w)" by fastforce
  have wok: "nv_ok V (lk_world st)" and up: "uplink_ok V addr st"
    using assms by (auto simp: sockets_ok_def)
  note k = connect_keeps [OF wok c]
  let ?st = "link_step C crc8 N addr ConsoleConnect st"
  have step: "?st = st\<lparr> lk_world := w,
      lk_console := (case r of Inl e \<Rightarrow> ConsoleFailed | Inr s \<Rightarrow> Connected s) \<rparr>"
    by (cases r) (simp_all add: Connecting main_connect_def c)
  have "console_ok V ?st"
  proof (cases r)
    case (Inr s)
    note o = nv_openedD [OF connect_opens [OF wok c [unfolded Inr]]]
    obtain p where p: "nv_bound V (lk_world st) addr = Some p" "nv_alive V (lk_world st) p"
      using connect_succeeds [OF wok, of addr] c Inr by blast
    have u: "uplink_socket st = Some p" using up p by (auto simp: uplink_ok_def split: option.splits)
    have "p \<noteq> s" using o(1) alive_known [OF wok p(2)] by blast
    then show ?thesis using o p u by (auto simp: step Inr console_ok_def simp del: link_step.simps)
  qed (simp add: step console_ok_def del: link_step.simps)
  then show ?thesis
    using kept_uplink [OF assms conjunct1 [OF k], of "{}" ?st] k
    by (simp add: step sockets_ok_def console_stepped_def del: link_step.simps)
qed (use assms in \<open>simp_all add: console_stepped_def\<close>)

lemma left_step:
  assumes "sockets_ok V addr st" and "lk_console st = Connected s"
    and "st' = st\<lparr> lk_world := dg_drop N s (lk_world st), lk_console := c, lk_sent := lk_sent st \<rparr>"
    and "\<And>s. c \<noteq> Connected s"
  shows "sockets_ok V addr st' \<and> console_stepped V st st' []"
proof -
  have wok: "nv_ok V (lk_world st)" and con: "console_ok V st" using assms(1) by (auto simp: sockets_ok_def)
  note d = drop_closes [OF wok, of s]
  have "uplink_socket st \<noteq> Some s" using con assms(2) by (simp add: console_ok_def)
  then show ?thesis
    using kept_uplink [OF assms(1) conjunct1 [OF d], of "{s}" st'] d assms(4)
    by (simp add: assms(3) sockets_ok_def console_ok_def console_stepped_def)
qed

lemma sent_step:
  assumes "sockets_ok V addr st" and "lk_console st = Connected s"
    and "nv_peer V (lk_world st) s = Some p" and "nv_alive V (lk_world st) p"
    and "dg_send N s d (lk_world st) = (r, w)" and "st' = st\<lparr> lk_world := w, lk_sent := lk_sent st @ [d] \<rparr>"
  shows "r = Inr (length d) \<and> sockets_ok V addr st' \<and> console_stepped V st st' [d]"
proof -
  have wok: "nv_ok V (lk_world st)" and up: "uplink_ok V addr st" and con: "console_ok V st"
    using assms(1) by (auto simp: sockets_ok_def)
  have s: "nv_alive V (lk_world st) s" "uplink_socket st \<noteq> Some s" "uplink_socket st = Some p"
    using con assms(2-4) by (auto simp: console_ok_def)
  from send_arrives [OF wok s(1) assms(3,4), of d] assms(5)
  have k: "r = Inr (length d)" "nv_ok V w" "nv_bound V w = nv_bound V (lk_world st)"
    "nv_keeps V {p} (lk_world st) w" "nv_alive V w p" "nv_inbox V w p = nv_inbox V (lk_world st) p @ [d]"
    by auto
  have "s \<noteq> p" using s by auto
  then have "console_ok V st'"
    using kept_console [OF wok con assms(2) k(4), of st'] s assms(4) by (simp add: assms(6))
  moreover have "uplink_ok V addr st'" using up s(3) k(3,5) by (auto simp: uplink_ok_def assms(6))
  moreover have "uplink_pending V st' = uplink_pending V st @ [d]"
    using s(3) k(6) by (auto simp: uplink_pending_def assms(6))
  ultimately show ?thesis using k(1,2) by (simp add: sockets_ok_def console_stepped_def assms(6))
qed

lemma ended_not_connected: "console_ended exec_ok e \<noteq> Connected s"
  by (simp add: console_ended_def exec_self_def)

text \<open>A turn with a command, while the socket at the other end is open and when it is closed.\<close>

lemma turn_sends:
  assumes "sockets_ok V addr st" and "lk_console st = Connected s"
    and "nv_peer V (lk_world st) s = Some p" and "nv_alive V (lk_world st) p"
    and "turn_choice C t = Some (Send cmd)"
    and "st' = link_step C crc8 N addr (ConsoleTurn t exec_ok) st"
  shows "sockets_ok V addr st' \<and> console_stepped V st st' [typed_wire crc8 (turn_params t, cmd)]
    \<and> lk_console st' = Connected s"
proof -
  let ?d = "typed_wire crc8 (turn_params t, cmd)"
  obtain r w where send: "dg_send N s ?d (lk_world st) = (r, w)" by fastforce
  let ?st = "st\<lparr> lk_world := w, lk_sent := lk_sent st @ [?d] \<rparr>"
  note k = sent_step [OF assms(1-4) send refl]
  have "main_turn C crc8 N s t exec_ok (lk_world st) = (([?d], Connected s), w)"
    using send k by (simp add: main_turn_def io_turn_choice assms(5) typed_wire_def)
  then have "st' = ?st\<lparr> lk_console := Connected s \<rparr>" by (simp add: assms(2,6))
  then have "st' = ?st" using assms(2) by simp
  then show ?thesis using k assms(2) by simp
qed

lemma turn_refused:
  assumes "sockets_ok V addr st" and "lk_console st = Connected s"
    and "nv_peer V (lk_world st) s = Some p" and "\<not> nv_alive V (lk_world st) p"
    and "turn_choice C t = Some (Send cmd)"
    and "st' = link_step C crc8 N addr (ConsoleTurn t exec_ok) st"
  shows "sockets_ok V addr st' \<and> console_stepped V st st' [] \<and> lk_console st' = exec_self exec_ok"
proof -
  have wok: "nv_ok V (lk_world st)" and con: "console_ok V st"
    using assms(1) by (auto simp: sockets_ok_def)
  have "nv_alive V (lk_world st) s" using con assms(2) by (simp add: console_ok_def)
  from send_refused [OF wok this assms(3,4)] obtain e where
    "dg_send N s (typed_wire crc8 (turn_params t, cmd)) (lk_world st) = (Inl e, lk_world st)" by blast
  then have "main_turn C crc8 N s t exec_ok (lk_world st)
      = (([], exec_self exec_ok), dg_drop N s (lk_world st))"
    by (simp add: main_turn_def io_turn_choice assms(5) console_ended_def typed_wire_def)
  then have st': "st' = st\<lparr> lk_world := dg_drop N s (lk_world st), lk_console := exec_self exec_ok,
      lk_sent := lk_sent st \<rparr>"
    by (simp add: assms(2,6))
  then show ?thesis using left_step [OF assms(1,2) st'] by (simp add: exec_self_def)
qed

lemma turn_step:
  assumes "sockets_ok V addr st" and "st' = link_step C crc8 N addr (ConsoleTurn t exec_ok) st"
  shows "\<exists>x. sockets_ok V addr st' \<and> console_stepped V st st' x"
proof (cases "lk_console st")
  case (Connected s)
  obtain p where p: "nv_peer V (lk_world st) s = Some p"
    using assms(1) Connected by (auto simp: sockets_ok_def console_ok_def)
  have left: ?thesis if "io_turn C crc8 N s t (lk_world st) = ((None, Some e), lk_world st)" for e
  proof -
    have "st' = st\<lparr> lk_world := dg_drop N s (lk_world st), lk_console := console_ended exec_ok e,
        lk_sent := lk_sent st \<rparr>"
      by (simp add: assms(2) Connected main_turn_def that)
    from left_step [OF assms(1) Connected this ended_not_connected] show ?thesis by blast
  qed
  show ?thesis
  proof (cases "turn_choice C t")
    case None
    show ?thesis
    proof (cases "turn_line t")
      case (TypedLine line)
      then have "main_turn C crc8 N s t exec_ok (lk_world st) = (([], Connected s), lk_world st)"
        by (simp add: main_turn_def io_turn_choice None)
      then have "st' = st" using assms(2) Connected by simp
      then show ?thesis using assms(1) by (simp add: console_stepped_def)
    qed ((rule left [of LoopFinished], simp add: io_turn_choice None; fail)
      | (rule left [of LoopFailed], simp add: io_turn_choice None))+
  next
    case (Some choice)
    show ?thesis
    proof (cases choice)
      case (Send cmd)
      then show ?thesis
        using turn_sends [OF assms(1) Connected p, of C t cmd st' crc8 exec_ok]
          turn_refused [OF assms(1) Connected p, of C t cmd st' crc8 exec_ok] Some assms(2) by blast
    qed (rule left [of LoopReexec], simp add: io_turn_choice Some)
  qed
qed (use assms in \<open>simp_all add: console_stepped_def\<close>)

text \<open>The steps of the uplink.\<close>

lemma gone_step:
  assumes "sockets_ok V addr st"
  shows "sockets_ok V addr (uplink_gone N st) \<and> uplink_pending V (uplink_gone N st) = []"
proof (cases "lk_uplink st")
  case (Some ub)
  obtain u buf where ub: "ub = (u, buf)" by fastforce
  have wok: "nv_ok V (lk_world st)" and up: "uplink_ok V addr st" and con: "console_ok V st"
    using assms by (auto simp: sockets_ok_def)
  note d = drop_closes [OF wok, of u]
  have st: "uplink_gone N st = st\<lparr> lk_world := dg_drop N u (lk_world st), lk_uplink := None \<rparr>"
    by (simp add: uplink_gone_def Some ub)
  have "console_ok V (uplink_gone N st)"
  proof (cases "\<exists>s. lk_console st = Connected s")
    case True
    then obtain s where s: "lk_console st = Connected s" by blast
    then have "s \<noteq> u" using con Some ub by (auto simp: console_ok_def)
    then show ?thesis
      using kept_console [OF wok con s, of "{u}" "dg_drop N u (lk_world st)" "uplink_gone N st"] d
      by (simp add: st Some ub)
  qed (simp add: st console_ok_def)
  moreover have "uplink_ok V addr (uplink_gone N st)"
    using up d Some ub by (simp add: uplink_ok_def st)
  ultimately show ?thesis using d by (simp add: sockets_ok_def st uplink_pending_def)
qed (use assms in \<open>simp add: uplink_gone_def uplink_pending_def\<close>)

lemma start_step:
  assumes "sockets_ok V addr st" and "st' = link_step C crc8 N addr UplinkStart st"
  shows "sockets_ok V addr st' \<and> uplink_pending V st' = uplink_pending V st
    \<and> lk_issued st' = lk_issued st \<and> lk_sent st' = lk_sent st"
proof (cases "lk_uplink st")
  case None
  obtain r w where b: "dg_bind N addr (lk_world st) = (r, w)" by fastforce
  have wok: "nv_ok V (lk_world st)" and up: "uplink_ok V addr st" and con: "console_ok V st"
    using assms by (auto simp: sockets_ok_def)
  note k = bind_keeps [OF wok b]
  have st: "st' = st\<lparr> lk_world := w,
      lk_uplink := (case r of Inl e \<Rightarrow> None | Inr u \<Rightarrow> Some (u, [])) \<rparr>"
    by (cases r) (simp_all add: assms(2) None make_uplink_def ok_or_log_def b uplink_started_def)
  have dead: "\<not> nv_alive V w p" if "nv_bound V (lk_world st) addr = Some p" for p
    using nv_keepsD(2) [of V "{}" "lk_world st" w, OF _ bound_known [OF wok that]] up None k that
    by (simp add: uplink_ok_def)
  have "console_ok V st'"
  proof (cases "\<exists>s. lk_console st = Connected s")
    case True
    then obtain s where s: "lk_console st = Connected s" by blast
    have "s \<in> nv_known V (lk_world st)" using con s alive_known [OF wok] by (auto simp: console_ok_def)
    then have "uplink_socket st' \<noteq> Some s"
      using k by (auto simp: st split: sum.splits dest: nv_openedD(1))
    then show ?thesis
      using kept_console [OF wok con s, of "{}" w st'] k by (simp add: st None)
  qed (simp add: st console_ok_def)
  moreover have "uplink_ok V addr st'"
    using k dead by (auto simp: uplink_ok_def st split: sum.splits dest: nv_openedD(3))
  moreover have "uplink_pending V st' = []"
    using k by (auto simp: uplink_pending_def st split: sum.splits dest: nv_openedD(5))
  ultimately show ?thesis using k by (simp add: sockets_ok_def st uplink_pending_def None)
qed (use assms in simp)

lemma take_step:
  assumes "sockets_ok V addr st" and "uplink_pending V st = d # ds"
    and "d = message_wire crc8 v" and "length d \<le> UPLINK_BUF" and "st' = uplink_step crc8 N st"
  shows "sockets_ok V addr st' \<and> uplink_pending V st' = ds \<and> uplink_socket st' = uplink_socket st
    \<and> lk_issued st' = lk_issued st @ uplink_issues crc8 d"
proof -
  obtain u buf where u: "lk_uplink st = Some (u, buf)" "nv_inbox V (lk_world st) u = d # ds"
    using assms(2) by (auto simp: uplink_pending_def split: option.splits)
  have wok: "nv_ok V (lk_world st)" and up: "uplink_ok V addr st" and con: "console_ok V st"
    using assms(1) by (auto simp: sockets_ok_def)
  have alive: "nv_alive V (lk_world st) u" using up u by (simp add: uplink_ok_def)
  obtain res where res: "socket_recv d (resize UPLINK_BUF 0 buf) = Some res" by (simp add: socket_recv_def)
  obtain w where k: "dg_recv N u (resize UPLINK_BUF 0 buf) (lk_world st) = Some (res, w)" "nv_ok V w"
    "nv_bound V w = nv_bound V (lk_world st)" "nv_keeps V {u} (lk_world st) w" "nv_alive V w u"
    "nv_inbox V w u = ds"
    using recv_takes [OF wok alive u(2) res] by blast
  obtain rest where "uplink_turn (\<lambda>packet. Some res) buf = Some (Inr (d, rest))"
    using uplink_turn_socket [of d buf] res assms(4) by (simp add: uplink_turn_def)
  moreover obtain m where m: "uplink_handle crc8 (PacketOk d) = UplinkIssue [GroundUpPacket d, GroundUpCommand m]"
    using uplink_wire [of v crc8] assms(3) by blast
  ultimately have st: "st' = st\<lparr> lk_world := w, lk_uplink := Some (u, rest),
      lk_issued := lk_issued st @ uplink_issues crc8 d \<rparr>"
    by (simp add: assms(5) uplink_step_def u k(1) uplink_issues_def)
  have "console_ok V st'"
  proof (cases "\<exists>s. lk_console st = Connected s")
    case True
    then obtain s where s: "lk_console st = Connected s" by blast
    then have "s \<noteq> u" using con u by (auto simp: console_ok_def)
    then show ?thesis
      using kept_console [OF wok con s k(4), of st'] alive by (simp add: st u)
  qed (simp add: st console_ok_def)
  then show ?thesis using up k u by (simp add: sockets_ok_def uplink_ok_def uplink_pending_def st)
qed

lemma idle_step:
  assumes "sockets_ok V addr st" and "uplink_pending V st = []"
  shows "uplink_step crc8 N st = st"
proof (cases "lk_uplink st")
  case (Some ub)
  obtain u buf where ub: "ub = (u, buf)" by fastforce
  have "nv_ok V (lk_world st)" "nv_alive V (lk_world st) u" "nv_inbox V (lk_world st) u = []"
    using assms Some ub by (auto simp: sockets_ok_def uplink_ok_def uplink_pending_def)
  then show ?thesis using recv_waits by (simp add: uplink_step_def Some ub)
qed (simp add: uplink_step_def)

text \<open>All steps.\<close>

lemma console_packets:
  assumes "console_stepped V st st' x" and "packets_ok crc8 V st handled gone"
    and "st' = link_step C crc8 N addr l st"
  shows "packets_ok crc8 V st' handled gone"
proof -
  obtain y where "lk_sent st' = lk_sent st @ y" "y = [] \<or> y = map (typed_wire crc8) (typed_in C [l])"
    unfolding assms(3) using link_step_sent [of C crc8 N addr l st] by blast
  then have "set x \<subseteq> range (typed_wire crc8)" using assms(1) by (auto simp: console_stepped_def)
  then show ?thesis using assms(1,2) unfolding packets_ok_def console_stepped_def by auto
qed

lemma uplink_step_inv:
  assumes "sockets_ok V addr st" and "packets_ok crc8 V st handled gone" and "st' = uplink_step crc8 N st"
  shows "\<exists>h. sockets_ok V addr st' \<and> packets_ok crc8 V st' (handled @ h) (gone @ h)"
proof (cases "uplink_pending V st")
  case Nil
  then have "st' = st" using idle_step [OF assms(1)] assms(3) by simp
  then show ?thesis using assms(1,2) by (intro exI [of _ "[]"]) simp
next
  case (Cons d ds)
  then have "d \<in> set (lk_sent st)" using assms(2) by (simp add: packets_ok_def)
  then obtain c where c: "d = typed_wire crc8 c" using assms(2) by (auto simp: packets_ok_def)
  have len: "length d \<le> UPLINK_BUF" using c typed_wire_length by blast
  note k = take_step [OF assms(1) Cons c [unfolded typed_wire_def] len assms(3)]
  have "packets_ok crc8 V st' (handled @ [d]) (gone @ [d])"
    using assms(2,3) k Cons unfolding packets_ok_def by auto
  then show ?thesis using k by blast
qed

lemma link_step_inv:
  assumes "sockets_ok V addr st" and "packets_ok crc8 V st handled gone"
    and "st' = link_step C crc8 N addr l st"
  shows "\<exists>h g. sockets_ok V addr st' \<and> packets_ok crc8 V st' (handled @ h) (gone @ g)
    \<and> (l = RelayExit \<or> g = h)"
proof -
  have console: ?thesis if "sockets_ok V addr st' \<and> console_stepped V st st' x" for x
    using that console_packets [OF _ assms(2,3), of x] by (intro exI [of _ "[]"]) simp
  show ?thesis
  proof (cases l)
    case ConsoleProbe
    then show ?thesis using console probe_step [OF assms(1), of C crc8] assms(3) by blast
  next
    case ConsoleConnect
    then show ?thesis using console connect_step [OF assms(1), of C crc8] assms(3) by blast
  next
    case (ConsoleTurn t exec_ok)
    then show ?thesis using console turn_step [OF assms(1), of st' C crc8 t exec_ok] assms(3) by blast
  next
    case UplinkStart
    note k = start_step [OF assms(1), of st' C crc8, folded UplinkStart, OF assms(3)]
    then have "packets_ok crc8 V st' handled gone" using assms(2) unfolding packets_ok_def by auto
    then show ?thesis using k by (intro exI [of _ "[]"]) simp
  next
    case RelayExit
    note k = gone_step [OF assms(1)]
    have st': "st' = uplink_gone N st" by (simp add: assms(3) RelayExit)
    have "packets_ok crc8 V st' handled (gone @ uplink_pending V st)"
      using assms(2) k unfolding packets_ok_def st' by auto
    then have "packets_ok crc8 V st' (handled @ []) (gone @ uplink_pending V st)" by simp
    then show ?thesis using k st' RelayExit by blast
  next
    case UplinkTurn
    then have "st' = uplink_step crc8 N st" by (simp add: assms(3))
    from uplink_step_inv [OF assms(1,2) this] show ?thesis by blast
  qed
qed

lemma link_run_inv:
  assumes "sockets_ok V addr st" and "packets_ok crc8 V st handled gone"
  shows "\<exists>h g. sockets_ok V addr (link_run C crc8 N addr ls st)
    \<and> packets_ok crc8 V (link_run C crc8 N addr ls st) (handled @ h) (gone @ g)
    \<and> (RelayExit \<in> set ls \<or> g = h)"
  using assms
proof (induction ls arbitrary: st handled gone)
  case (Cons l ls)
  obtain h g where step: "sockets_ok V addr (link_step C crc8 N addr l st)"
    "packets_ok crc8 V (link_step C crc8 N addr l st) (handled @ h) (gone @ g)" "l = RelayExit \<or> g = h"
    using link_step_inv [OF Cons.prems refl] by blast
  from Cons.IH [OF step(1,2)] obtain h' g' where
    "sockets_ok V addr (link_run C crc8 N addr (l # ls) st)"
    "packets_ok crc8 V (link_run C crc8 N addr (l # ls) st) (handled @ h @ h') (gone @ g @ g')"
    "RelayExit \<in> set ls \<or> g' = h'"
    by auto
  then show ?case using step(3)
    by (intro exI [of _ "h @ h'"] exI [of _ "g @ g'"]) auto
qed (intro exI [of _ "[]"], simp)

lemma start_inv:
  assumes "nv_ok V w" and "nv_bound V w addr = None"
  shows "sockets_ok V addr (link_start w)" and "packets_ok crc8 V (link_start w) [] []"
  using assms
  by (simp_all add: sockets_ok_def uplink_ok_def console_ok_def packets_ok_def link_start_def
      uplink_pending_def)

text \<open>The uplink works off what waits at its socket.\<close>

lemma uplink_drains:
  assumes "sockets_ok V addr st" and "set (uplink_pending V st) \<subseteq> range (typed_wire crc8)"
  shows "lk_issued (link_run C crc8 N addr (replicate (length (uplink_pending V st)) UplinkTurn) st)
    = lk_issued st @ concat (map (uplink_issues crc8) (uplink_pending V st))"
  using assms
proof (induction "uplink_pending V st" arbitrary: st)
  case (Cons d ds)
  let ?st = "uplink_step crc8 N st"
  have "d \<in> set (uplink_pending V st)" unfolding Cons.hyps(2) [symmetric] by simp
  then obtain c where c: "d = typed_wire crc8 c" using Cons.prems(2) by blast
  have len: "length d \<le> UPLINK_BUF" using c typed_wire_length by blast
  note k = take_step [OF Cons.prems(1) Cons.hyps(2) [symmetric] c [unfolded typed_wire_def] len refl]
  have "set (uplink_pending V ?st) \<subseteq> range (typed_wire crc8)"
    using k Cons.prems(2) unfolding Cons.hyps(2) [symmetric] by simp
  from Cons.hyps(1) [OF _ _ this] k have "lk_issued (link_run C crc8 N addr (replicate (length ds) UplinkTurn) ?st)
      = lk_issued ?st @ concat (map (uplink_issues crc8) ds)"
    by simp
  then show ?case using k by (simp flip: Cons.hyps(2))
qed simp

end

subsection \<open>Commands reach the relay\<close>

lemma subseq_mapE:
  assumes "subseq xs (map f ys)"
  obtains zs where "xs = map f zs" and "subseq zs ys"
proof -
  have "\<exists>zs. xs = map f zs \<and> subseq zs ys"
    using assms
  proof (induction ys arbitrary: xs)
    case (Cons y ys)
    show ?case
    proof (cases "subseq xs (map f ys)")
      case True
      then show ?thesis using Cons.IH by blast
    next
      case False
      then obtain xs' where "xs = f y # xs'" "subseq xs' (map f ys)"
        using Cons.prems by (auto elim: list_emb.cases)
      moreover from this(2) obtain zs where "xs' = map f zs" "subseq zs ys" using Cons.IH by blast
      ultimately show ?thesis by (intro exI [of _ "y # zs"]) simp
    qed
  qed (auto dest: list_emb_Nil2)
  then show thesis using that by blast
qed

lemma uplink_issues_typed:
  "\<exists>m. val m = val (console_message (fst c) (snd c))
    \<and> uplink_issues crc8 (typed_wire crc8 c) = [GroundUpPacket (message_wire crc8 (val m)), GroundUpCommand m]"
  using uplink_wire [of "val (console_message (fst c) (snd c))" crc8]
  by (auto simp: uplink_issues_def typed_wire_def)

lemma uplink_issues_all:
  "\<exists>ms. list_all2 (\<lambda>c m. val m = val (console_message (fst c) (snd c))) cmds ms
    \<and> map (\<lambda>m. message_wire crc8 (val m)) ms = map (typed_wire crc8) cmds
    \<and> concat (map (uplink_issues crc8) (map (typed_wire crc8) cmds))
      = concat (map (\<lambda>m. [GroundUpPacket (message_wire crc8 (val m)), GroundUpCommand m]) ms)"
proof (induction cmds)
  case (Cons c cmds)
  obtain ms where "list_all2 (\<lambda>c m. val m = val (console_message (fst c) (snd c))) cmds ms"
    "map (\<lambda>m. message_wire crc8 (val m)) ms = map (typed_wire crc8) cmds"
    "concat (map (uplink_issues crc8) (map (typed_wire crc8) cmds))
      = concat (map (\<lambda>m. [GroundUpPacket (message_wire crc8 (val m)), GroundUpCommand m]) ms)"
    using Cons.IH by blast
  moreover obtain m where m: "val m = val (console_message (fst c) (snd c))"
    "uplink_issues crc8 (typed_wire crc8 c) = [GroundUpPacket (message_wire crc8 (val m)), GroundUpCommand m]"
    using uplink_issues_typed by blast
  moreover have "message_wire crc8 (val m) = typed_wire crc8 c" by (simp add: typed_wire_def m(1))
  ultimately show ?case by (intro exI [of _ "m # ms"]) simp
qed simp

lemma link_issues_typed:
  assumes "datagram_laws N V" and "nv_ok V w" and "nv_bound V w addr = None"
  shows "\<exists>cmds ms. let st = link_run C crc8 N addr ls (link_start w) in
    subseq cmds (typed_in C ls)
    \<and> list_all2 (\<lambda>c m. val m = val (console_message (fst c) (snd c))) cmds ms
    \<and> lk_issued st
      = concat (map (\<lambda>m. [GroundUpPacket (message_wire crc8 (val m)), GroundUpCommand m]) ms)
    \<and> (RelayExit \<in> set ls \<or>
        lk_sent st = map (\<lambda>m. message_wire crc8 (val m)) ms @ uplink_pending V st)"
proof -
  let ?st = "link_run C crc8 N addr ls (link_start w)"
  note start = datagram_laws.start_inv [OF assms]
  obtain h g where inv: "packets_ok crc8 V ?st h g" "RelayExit \<in> set ls \<or> g = h"
    using datagram_laws.link_run_inv [OF assms(1) start, of C crc8 ls] by auto
  have "lk_sent ?st = g @ uplink_pending V ?st" "subseq h g"
    using inv(1) by (simp_all add: packets_ok_def)
  then have "subseq h (lk_sent ?st)" by (simp add: list_emb_prefix)
  moreover have "subseq (lk_sent ?st) (map (typed_wire crc8) (typed_in C ls))"
    using link_run_sent [of C crc8 N addr ls "link_start w"] by (simp add: link_start_def)
  ultimately have "subseq h (map (typed_wire crc8) (typed_in C ls))"
    by (rule subseq_order.order_trans)
  then obtain cmds where cmds: "h = map (typed_wire crc8) cmds" "subseq cmds (typed_in C ls)"
    by (rule subseq_mapE)
  obtain ms where "list_all2 (\<lambda>c m. val m = val (console_message (fst c) (snd c))) cmds ms"
    "map (\<lambda>m. message_wire crc8 (val m)) ms = h"
    "concat (map (uplink_issues crc8) h)
      = concat (map (\<lambda>m. [GroundUpPacket (message_wire crc8 (val m)), GroundUpCommand m]) ms)"
    using uplink_issues_all [of cmds crc8] cmds(1) by blast
  then show ?thesis using inv cmds(2)
    by (intro exI [of _ cmds] exI [of _ ms]) (auto simp: Let_def packets_ok_def)
qed

text \<open>C18: the relay acts upon what was typed, in order and at most once.  However the console, the
  uplink and restarts of the relay interleave, the uplink issues exactly the packets and
  messages of a subsequence of the commands that were typed; as long as the relay does not end,
  these are all that the console's sends were told to have taken, but for those that wait at
  the uplink's socket.\<close>

theorem link_in_order:
  assumes "datagram_laws N V" and "nv_ok V w" and "nv_bound V w addr = None"
  shows "\<exists>cmds ms. let st = link_run C crc8 N addr ls (link_start w) in
    subseq cmds (typed_in C ls)
    \<and> list_all2 (\<lambda>c m. val m = val (console_message (fst c) (snd c))) cmds ms
    \<and> lk_issued st
      = concat (map (\<lambda>m. [GroundUpPacket (message_wire crc8 (val m)), GroundUpCommand m]) ms)
    \<and> (RelayExit \<in> set ls \<or>
        lk_sent st = map (\<lambda>m. message_wire crc8 (val m)) ms @ uplink_pending V st)"
  by (rule link_issues_typed [OF assms])

text \<open>A parser that takes every line for one command, and a turn with a line.\<close>

definition ping_parser :: command_parser where
  "ping_parser = \<lparr> split_words = (\<lambda>l. Some [l]), parse_words = (\<lambda>ws. Some (Send PingAnt)) \<rparr>"

definition typed_line :: "u8 \<Rightarrow> console_turn" where
  "typed_line n = \<lparr> turn_line = TypedLine [],
     turn_params = \<lparr> env_time = MissionEpoch 5, env_seq = n \<rparr> \<rparr>"

lemma typed_line_choice: "turn_choice ping_parser (typed_line n) = Some (Send PingAnt)"
  by (simp add: turn_choice_def ping_parser_def typed_line_def)

theorem link_in_order_witness:
  "\<exists>cmds ms. let st = link_run ping_parser (\<lambda>_. 7) reference_net ''/up''
      [UplinkStart, ConsoleProbe, ConsoleConnect, ConsoleTurn (typed_line 1) True, UplinkTurn, RelayExit,
       UplinkStart, ConsoleTurn (typed_line 2) True] (link_start unix_world_new) in
    subseq cmds [(turn_params (typed_line 1), PingAnt), (turn_params (typed_line 2), PingAnt)]
    \<and> list_all2 (\<lambda>c m. val m = val (console_message (fst c) (snd c))) cmds ms
    \<and> lk_issued st
      = concat (map (\<lambda>m. [GroundUpPacket (message_wire (\<lambda>_. 7) (val m)), GroundUpCommand m]) ms)"
proof -
  let ?ls = "[UplinkStart, ConsoleProbe, ConsoleConnect, ConsoleTurn (typed_line 1) True, UplinkTurn,
    RelayExit, UplinkStart, ConsoleTurn (typed_line 2) True]"
  have w: "nv_ok reference_view unix_world_new" "nv_bound reference_view unix_world_new ''/up'' = None"
    by (simp_all add: unix_world_new_def uw_ok_def)
  have "typed_in ping_parser ?ls = [(turn_params (typed_line 1), PingAnt), (turn_params (typed_line 2), PingAnt)]"
    by (simp add: typed_line_choice)
  note k = link_in_order [OF reference.datagram_laws_axioms w, of ping_parser "\<lambda>_. 7" ?ls, unfolded this]
  show ?thesis using k unfolding Let_def by (elim exE conjE) (intro exI conjI)
qed

context datagram_laws
begin

text \<open>From any state in which the console runs and the uplink has its socket, typing a command and,
  if the console had to start anew, typing it again makes it wait at the uplink.\<close>

lemma connects:
  assumes "sockets_ok V addr st" and "uplink_socket st = Some u" and "lk_console st \<in> {Probing, Connecting}"
  shows "\<exists>s st'. st' = link_run C crc8 N addr [ConsoleProbe, ConsoleConnect] st
    \<and> sockets_ok V addr st' \<and> console_stepped V st st' []
    \<and> lk_console st' = Connected s \<and> nv_peer V (lk_world st') s = Some u \<and> nv_alive V (lk_world st') u"
proof -
  define st1 where "st1 = link_step C crc8 N addr ConsoleProbe st"
  define st2 where "st2 = link_step C crc8 N addr ConsoleConnect st1"
  have b: "nv_ok V (lk_world st)" "nv_bound V (lk_world st) addr = Some u" "nv_alive V (lk_world st) u"
    using assms(1,2) by (auto simp: sockets_ok_def uplink_ok_def)
  have s1: "sockets_ok V addr st1" "console_stepped V st st1 []"
    using probe_step [OF assms(1), of C crc8] by (simp_all add: st1_def)
  have s2: "sockets_ok V addr st2" "console_stepped V st1 st2 []"
    using connect_step [OF s1(1), of C crc8] by (simp_all add: st2_def)
  have c1: "lk_console st1 = Connecting"
  proof (cases "lk_console st = Probing")
    case True
    obtain ok w where pr: "probe N [addr] (lk_world st) = (ok, w)" by fastforce
    have ok using probe_exact [OF b(1) pr] b by simp
    then show ?thesis by (simp add: st1_def True main_probe_def pr del: probe.simps)
  qed (use assms(3) in \<open>simp add: st1_def\<close>)
  have u1: "uplink_socket st1 = Some u" using s1(2) assms(2) by (simp add: console_stepped_def)
  have b1: "nv_ok V (lk_world st1)" "nv_bound V (lk_world st1) addr = Some u" "nv_alive V (lk_world st1) u"
    using s1(1) u1 by (auto simp: sockets_ok_def uplink_ok_def)
  obtain s w where c: "dg_connect N addr (lk_world st1) = (Inr s, w)"
    using connect_succeeds [OF b1(1), of addr] b1 by blast
  note o = nv_openedD [OF connect_opens [OF b1(1) c]]
  have st2: "lk_console st2 = Connected s" "lk_world st2 = w"
    by (simp_all add: st2_def c1 main_connect_def c)
  have "nv_alive V w u" using nv_keepsD(2) [OF o(6) alive_known [OF b1(1,3)]] b1(3) by simp
  moreover have "console_stepped V st st2 []" using s1(2) s2(2) by (simp add: console_stepped_def)
  moreover have "st2 = link_run C crc8 N addr [ConsoleProbe, ConsoleConnect] st"
    by (simp add: st1_def st2_def del: link_step.simps)
  ultimately show ?thesis using s2(1) st2 o(4) b1(2) by auto
qed

lemma typed_connecting:
  assumes "sockets_ok V addr st" and "uplink_socket st = Some u" and "lk_console st \<in> {Probing, Connecting}"
    and "turn_choice C t = Some (Send cmd)"
    and "st' = link_run C crc8 N addr [ConsoleProbe, ConsoleConnect, ConsoleTurn t exec_ok] st"
  shows "sockets_ok V addr st' \<and> console_stepped V st st' [typed_wire crc8 (turn_params t, cmd)]"
proof -
  obtain s st2 where st2: "st2 = link_run C crc8 N addr [ConsoleProbe, ConsoleConnect] st"
    "sockets_ok V addr st2" "console_stepped V st st2 []" "lk_console st2 = Connected s"
    "nv_peer V (lk_world st2) s = Some u" "nv_alive V (lk_world st2) u"
    using connects [OF assms(1-3), of C crc8] by blast
  have "st' = link_step C crc8 N addr (ConsoleTurn t exec_ok) st2"
    by (simp add: assms(5) st2(1) del: link_step.simps)
  note k = turn_sends [OF st2(2,4-6) assms(4) this]
  show ?thesis using k console_stepped_trans [OF st2(3), of st' "[typed_wire crc8 (turn_params t, cmd)]"]
    by simp
qed

lemma typed_again:
  assumes "sockets_ok V addr st" and "uplink_socket st = Some u"
    and "lk_console st \<notin> {ConsoleExited, ConsoleFailed, ConsolePanicked}"
    and "turn_choice C t = Some (Send cmd)"
    and "st' = link_run C crc8 N addr [ConsoleTurn t True, ConsoleProbe, ConsoleConnect, ConsoleTurn t True] st"
  shows "\<exists>x. sockets_ok V addr st' \<and> console_stepped V st st' x
    \<and> typed_wire crc8 (turn_params t, cmd) \<in> set x"
proof -
  let ?d = "typed_wire crc8 (turn_params t, cmd)"
  let ?st = "link_step C crc8 N addr (ConsoleTurn t True) st"
  have st': "st' = link_run C crc8 N addr [ConsoleProbe, ConsoleConnect, ConsoleTurn t True] ?st"
    by (simp only: assms(5) link_run_simps)
  have again: ?thesis
    if st: "sockets_ok V addr ?st" "console_stepped V st ?st []" "lk_console ?st \<in> {Probing, Connecting}"
  proof -
    have u: "uplink_socket ?st = Some u" using console_stepped_socket [OF st(2)] assms(2) by simp
    note k = typed_connecting [OF st(1) u st(3) assms(4) st']
    have "console_stepped V st st' [?d]"
      using console_stepped_trans [OF st(2) conjunct2 [OF k]] by (simp only: append_Nil)
    then show ?thesis using conjunct1 [OF k] by (intro exI [of _ "[?d]"] conjI) simp_all
  qed
  show ?thesis
  proof (cases "\<exists>s. lk_console st = Connected s")
    case True
    then obtain s where s: "lk_console st = Connected s" by blast
    obtain p where p: "nv_peer V (lk_world st) s = Some p"
      using assms(1) s by (auto simp: sockets_ok_def console_ok_def)
    show ?thesis
    proof (cases "nv_alive V (lk_world st) p")
      case True
      note k = turn_sends [OF assms(1) s p True assms(4) refl, of crc8 True]
      have "link_run C crc8 N addr [ConsoleProbe, ConsoleConnect] ?st = ?st"
        using k by (simp del: link_step.simps(3))
      then have "st' = link_step C crc8 N addr (ConsoleTurn t True) ?st"
        by (simp add: st' del: link_step.simps)
      then obtain x where "sockets_ok V addr st'" "console_stepped V ?st st' x"
        using turn_step k by blast
      then show ?thesis using k console_stepped_trans [of V st ?st "[?d]" st' x]
        by (intro exI [of _ "?d # x"]) (simp del: link_step.simps)
    next
      case False
      show ?thesis
        using turn_refused [OF assms(1) s p False assms(4) refl, of crc8 True]
        by (intro again) (simp_all add: exec_self_def del: link_step.simps)
    qed
  next
    case False
    then have c: "lk_console st \<in> {Probing, Connecting}" using assms(3) by (cases "lk_console st") auto
    then have "?st = st" by auto
    then show ?thesis using assms(1) c by (intro again) (simp_all add: console_stepped_def)
  qed
qed

end

text \<open>C19: retrying works.  Whatever happened before, once the relay's uplink has a socket and the
  console still runs, a command typed twice, with one round of connecting between, is issued by
  the uplink after finitely many turns of its own.  The two lines are typed alike: the same
  command with the same parameters of the console's turn.\<close>

theorem retrying_works:
  assumes "datagram_laws N V" and "nv_ok V w" and "nv_bound V w addr = None"
    and "st = link_run C crc8 N addr ls (link_start w)"
    and "lk_uplink st \<noteq> None" and "lk_console st \<notin> {ConsoleExited, ConsoleFailed, ConsolePanicked}"
    and "turn_choice C t = Some (Send cmd)"
  shows "\<exists>n m xs. val m = val (console_message (turn_params t) cmd)
    \<and> lk_issued (link_run C crc8 N addr ([ConsoleTurn t True, ConsoleProbe, ConsoleConnect, ConsoleTurn t True]
        @ replicate n UplinkTurn) st) = lk_issued st @ xs
    \<and> GroundUpCommand m \<in> set xs"
proof -
  let ?ls = "[ConsoleTurn t True, ConsoleProbe, ConsoleConnect, ConsoleTurn t True]"
  let ?d = "typed_wire crc8 (turn_params t, cmd)"
  note start = datagram_laws.start_inv [OF assms(1-3)]
  obtain h g where inv: "sockets_ok V addr st" "packets_ok crc8 V st h g"
    using datagram_laws.link_run_inv [OF assms(1) start, of C crc8 ls] assms(4) by auto
  obtain u where u: "uplink_socket st = Some u" using assms(5) by auto
  define st1 where "st1 = link_run C crc8 N addr ?ls st"
  obtain x where st1: "sockets_ok V addr st1" "console_stepped V st st1 x" "?d \<in> set x"
    using datagram_laws.typed_again [OF assms(1) inv(1) u assms(6,7) st1_def] by blast
  have d: "?d \<in> set (uplink_pending V st1)" using st1(2,3) by (simp add: console_stepped_def)
  obtain h1 g1 where "packets_ok crc8 V st1 h1 g1"
    using datagram_laws.link_run_inv [OF assms(1) inv, of C ?ls] by (auto simp: st1_def)
  then have "set (uplink_pending V st1) \<subseteq> range (typed_wire crc8)" by (auto simp: packets_ok_def)
  from datagram_laws.uplink_drains [OF assms(1) st1(1) this, of C]
  have "lk_issued (link_run C crc8 N addr (?ls @ replicate (length (uplink_pending V st1)) UplinkTurn) st)
      = lk_issued st @ concat (map (uplink_issues crc8) (uplink_pending V st1))"
    using st1(2) by (simp add: console_stepped_def st1_def)
  moreover obtain m where "val m = val (console_message (turn_params t) cmd)"
    "GroundUpCommand m \<in> set (uplink_issues crc8 ?d)"
    using uplink_issues_typed [of "(turn_params t, cmd)" crc8] by auto
  moreover from this(2) d have
    "GroundUpCommand m \<in> set (concat (map (uplink_issues crc8) (uplink_pending V st1)))" by auto
  ultimately show ?thesis by blast
qed

text \<open>The relay was restarted, so that the console's socket is stale.\<close>

theorem retrying_works_witness:
  "\<exists>n m xs st. st = link_run ping_parser (\<lambda>_. 7) reference_net ''/up''
      [UplinkStart, ConsoleProbe, ConsoleConnect, RelayExit, UplinkStart] (link_start unix_world_new)
    \<and> lk_console st = Connected 2 \<and> uplink_socket st = Some 3
    \<and> val m = val (console_message (turn_params (typed_line 1)) PingAnt)
    \<and> lk_issued (link_run ping_parser (\<lambda>_. 7) reference_net ''/up''
        ([ConsoleTurn (typed_line 1) True, ConsoleProbe, ConsoleConnect, ConsoleTurn (typed_line 1) True]
          @ replicate n UplinkTurn) st) = lk_issued st @ xs
    \<and> GroundUpCommand m \<in> set xs"
proof -
  let ?ls = "[UplinkStart, ConsoleProbe, ConsoleConnect, RelayExit, UplinkStart]"
  let ?st = "link_run ping_parser (\<lambda>_. 7) reference_net ''/up'' ?ls (link_start unix_world_new)"
  have w: "nv_ok reference_view unix_world_new" "nv_bound reference_view unix_world_new ''/up'' = None"
    by (simp_all add: unix_world_new_def uw_ok_def)
  have "(lk_console ?st, uplink_socket ?st) = (Connected 2, Some 3)" by code_simp
  then have st: "lk_console ?st = Connected 2" "uplink_socket ?st = Some 3" by simp_all
  have "lk_uplink ?st \<noteq> None" using st(2) by auto
  moreover have "lk_console ?st \<notin> {ConsoleExited, ConsoleFailed, ConsolePanicked}" using st(1) by simp
  ultimately show ?thesis
    using retrying_works [OF reference.datagram_laws_axioms w refl _ _ typed_line_choice,
        of "\<lambda>_. 7" ?ls 1] st by blast
qed

end
