(* ===== verification/System_Causes.thy ===== *)
theory System_Causes
  imports System_Origin
begin

text \<open>
  Why the relay speaks.  Each future of the state machine that sends a command of the relay's own
  exists because the ground has sent the event that leads to it, and so does what the machine has
  deferred or sent to itself; the central station's reports of the BLE connection alone make the
  relay send nothing.
\<close>

subsection \<open>What leads to a command\<close>

text \<open>The event whose transition makes the future, directly or in a callback.\<close>

fun task_cause :: "task \<Rightarrow> event option" where
  "task_cause PingInterval = Some FEPowerSupplied"
| "task_cause PingCs = Some FEPowerSupplied"
| "task_cause GarageOpenRetry = Some FEGarageOpen"
| "task_cause BleSettle = None"
| "task_cause StartDelay = Some FERoverStop"
| "task_cause StartInterval = Some FERoverStop"
| "task_cause SendAntStart = Some FERoverStop"
| "task_cause AntStopRetry = Some FERoverMove"
| "task_cause SendCsPing = Some DebugCSPing"
| "task_cause SendAntPing = Some AntPing"
| "task_cause (Forward msg) = None"

text \<open>The command that an event from the ground leads to.\<close>

fun driven_by :: "event \<Rightarrow> (destination \<times> event) option" where
  "driven_by FEPowerSupplied = Some (CentralStation, CSPing)"
| "driven_by DebugCSPing = Some (CentralStation, CSPing)"
| "driven_by FEGarageOpen = Some (CentralStation, CSGarageOpen)"
| "driven_by FERoverStop = Some (Ant, AntStart)"
| "driven_by FERoverMove = Some (Ant, AntStop)"
| "driven_by AntPing = Some (Ant, AntPing)"
| "driven_by evt = None"

definition drives :: "event \<Rightarrow> message \<Rightarrow> bool" where
  "drives evt m \<longleftrightarrow> (let mh = message_header m in driven_by evt = Some (destination mh, event (ty mh)))"

lemma task_drives:
  assumes "task_message p t = Some m" and "\<And>msg. t \<noteq> Forward msg"
  shows "\<exists>evt. task_cause t = Some evt \<and> drives evt m"
  using assms
  by (cases t) (auto simp: drives_def message_command_def header_command_def)

subsection \<open>The machine\<close>

definition causes_inv :: "(event \<Rightarrow> bool) \<Rightarrow> ('h, 'c) sm_ctx_view \<Rightarrow> 'h machine \<Rightarrow> 'c \<Rightarrow> bool" where
  "causes_inv heard R m c \<longleftrightarrow>
     (\<forall>h t. live R c h = Some t \<longrightarrow> pred_option heard (task_cause t))
     \<and> list_all (\<lambda>t. pred_option heard (task_cause t)) (waiting R c)
     \<and> list_all heard (mailbox R c)
     \<and> pred_option heard (pending_evt m)"

lemma causes_mono:
  assumes "causes_inv heard R m c" and "\<And>evt. heard evt \<Longrightarrow> heard' evt"
  shows "causes_inv heard' R m c"
proof -
  have "pred_option heard' x" if "pred_option heard x" for x using that assms(2) by (cases x) simp_all
  then show ?thesis using assms unfolding causes_inv_def list_all_iff by blast
qed

lemma causes_live: "causes_inv heard R m c \<Longrightarrow> live R c h = Some t \<Longrightarrow> pred_option heard (task_cause t)"
  by (simp add: causes_inv_def)

lemma causes_waiting: "causes_inv heard R m c \<Longrightarrow> waiting R c = t # ts \<Longrightarrow> pred_option heard (task_cause t)"
  by (auto simp: causes_inv_def)

text \<open>A context with fewer futures, waits and mail, and one with one more future.\<close>

lemma causes_less:
  assumes "causes_inv heard R m c"
    and "\<And>h t. live R c' h = Some t \<Longrightarrow> live R c h = Some t"
    and "set (waiting R c') \<subseteq> set (waiting R c)" and "set (mailbox R c') \<subseteq> set (mailbox R c)"
    and "pred_option heard (pending_evt m')"
  shows "causes_inv heard R m' c'"
  using assms unfolding causes_inv_def list_all_iff by blast

lemma causes_more:
  assumes "causes_inv heard R m c" and "registers R t c hc" and "pred_option heard (task_cause t)"
    and "pending_evt m' = pending_evt m"
  shows "causes_inv heard R m' (snd hc)"
  using assms unfolding causes_inv_def registers_def by (auto split: if_splits)

context sm_context
begin

lemma causes_wait:
  "causes_inv heard R m c \<Longrightarrow> pred_option heard (task_cause t) \<Longrightarrow> pending_evt m' = pending_evt m \<Longrightarrow>
    causes_inv heard R m' (ctx_wait X t c)"
  unfolding causes_inv_def by auto

lemma causes_cancelled: "causes_inv heard R m c \<Longrightarrow> causes_inv heard R m (cancel_old X old c)"
  by (cases old) (auto simp: cancel_old_def causes_inv_def split: if_splits)

lemma causes_send:
  "causes_inv heard R m c \<Longrightarrow> heard evt \<Longrightarrow> pred_option heard (pending_evt m') \<Longrightarrow>
    causes_inv heard R m' (ctx_address_do_send X evt c)"
  unfolding causes_inv_def by auto

lemma sm_step_causes:
  assumes inv: "causes_inv heard R m c" and st: "sm_step X evt m c = Running (m', c')"
    and evt: "heard evt \<or> evt \<in> {CSBLEConnect, CSBLEDisconnect}"
  shows "causes_inv heard R m' c'"
proof -
  obtain m1 old c1 where arms: "sm_arms X (state m) evt (m\<lparr> running_task := None \<rparr>) (running_task m) c
      = Running (m1, old, c1)" and m': "m' = m1" and c': "c' = cancel_old X old c1"
    using st by (auto simp: sm_step_def Let_def split: process.splits)
  have same: "causes_inv heard R m2 c" if "pending_evt m2 = pending_evt m" for m2 :: "'h machine"
    using inv that by (simp add: causes_inv_def)
  have "causes_inv heard R m1 c1"
    using arms evt inv
    by (auto simp: sm_arms_def reset_handle_def Let_def case_prod_beta causes_inv_def split: if_splits)
  then show ?thesis unfolding m' c' by (rule causes_cancelled)
qed

lemma sm_env_causes:
  assumes inv: "causes_inv heard R m c" and st: "sm_env X R (m, c) l (m', c')"
    and "\<And>msg. l = UpCommand msg \<Longrightarrow> heard (event (ty (message_header msg)))"
  shows "causes_inv heard R m' c'"
proof -
  have fin: "causes_inv heard R m (finish R h c)" for h
    by (rule causes_less [OF inv]) (use inv in \<open>auto simp: causes_inv_def split: if_splits\<close>)
  from st show ?thesis
  proof cases
    case (up msg)
    obtain c1 where st1: "sm_step X (event (ty (message_header msg))) m c = Running (m', c1)"
      and c': "c' = (if destination (message_header msg) \<in> {Ant, CentralStation}
          then snd (ctx_spawn X (Forward msg) c1) else c1)"
      by (rule handle_up_commandE [OF up(2)])
    have "causes_inv heard R m' c1" using sm_step_causes [OF inv st1] assms(3) [OF up(1)] by blast
    then show ?thesis using causes_more [OF _ spawn_registers] by (simp add: c')
  next
    case (down msg)
    then show ?thesis using inv sm_step_causes [OF inv]
      by (auto simp: handle_down_message_def Let_def split: if_splits)
  next
    case (wrap evt rest)
    have "causes_inv heard R m (mailbox_pop R c)"
      by (rule causes_less [OF inv]) (use inv wrap(2) in \<open>auto simp: causes_inv_def\<close>)
    moreover have "heard evt" using inv wrap(2) by (simp add: causes_inv_def)
    ultimately show ?thesis using wrap(3) sm_step_causes by (auto simp: handle_event_wrap_def)
  next
    case (ping_tick h)
    have "heard FEPowerSupplied" using causes_live [OF inv ping_tick(4)] by simp
    then show ?thesis using ping_tick causes_more [OF inv spawn_registers] by (simp add: on_ping_tick_def)
  next
    case (start_tick h)
    have "heard FERoverStop" using causes_live [OF inv start_tick(4)] by simp
    then show ?thesis using start_tick causes_wait [OF inv] by (simp add: on_start_tick_def)
  next
    case (garage h ok)
    then show ?thesis using fin by (auto simp: on_garage_result_def causes_inv_def)
  next
    case (settle h ok)
    then show ?thesis using fin [of h] causes_send [OF fin [of h]] inv
      by (auto simp: on_ble_settle_def Let_def causes_inv_def split: option.splits)
  next
    case (delay h ok)
    have "heard FERoverStop" using causes_live [OF inv delay(3)] by simp
    then have "causes_inv heard R m (ctx_wait X SendAntStart (finish R h c))" using causes_wait [OF fin] by simp
    from causes_more [OF this interval_registers [of StartInterval _ 30000]] \<open>heard FERoverStop\<close> delay
    show ?thesis by (simp add: on_start_delay_def case_prod_beta causes_inv_def)
  next
    case (other_done h t msg ok)
    then show ?thesis using fin by simp
  next
    case (wait_end t ts)
    then show ?thesis using inv by (auto simp: causes_inv_def)
  qed
qed

end

subsection \<open>The relay\<close>

text \<open>The ground has sent a message with this event.\<close>

definition heard ::
  "('h, 'c, 'k, 'w, 'q, 'b) relay_deps \<Rightarrow> ('h, 'k, 's) relay_label list \<Rightarrow> event \<Rightarrow> bool" where
  "heard D ls evt \<longleftrightarrow> (\<exists>v. ground_said D ls v \<and> event (ty (header (header v))) = evt)"

lemma heard_mono: "heard D ls evt \<Longrightarrow> heard D (ls @ ls') evt"
  by (auto simp: heard_def ground_said_def)

abbreviation relay_causes ::
  "('h, 'c, 'k, 'w, 'q, 'b) relay_deps \<Rightarrow> ('h, 'c, 'k, 'w, 'b) relay_views
     \<Rightarrow> ('h, 'k, 's) relay_label list \<Rightarrow> ('h, 'c, 'k, 'w, 'q, 's, 'b) relay \<Rightarrow> bool" where
  "relay_causes D V ls st \<equiv> causes_inv (heard D ls) (view_ctx V) (rl_machine st) (rl_ctx st)"

text \<open>A request of the relay's own: the step that sends it, and before that the ground's event.\<close>

definition driven_request ::
  "('h, 'c, 'k, 'w, 'q, 'b) relay_deps \<Rightarrow> ('h, 'k, 's) relay_label list \<Rightarrow> message \<Rightarrow> bool" where
  "driven_request D ls m \<longleftrightarrow>
     (\<exists>as l bs evt. ls = as @ l # bs \<and> commanded_at l m \<and> heard D as evt \<and> drives evt m)"

lemma driven_mono: "driven_request D ls m \<Longrightarrow> driven_request D (ls @ ls') m"
  unfolding driven_request_def by fastforce

context relay_laws
begin

lemma machine_mail_causes:
  assumes c: "causes_inv h (view_ctx V) (rl_machine st) (rl_ctx st)"
    and "machine_mail D x st = Continues st'"
    and x: "\<And>msg. x = BrokerMail (GroundUpCommand msg) \<Longrightarrow> h (event (ty (message_header msg)))"
  shows "causes_inv h (view_ctx V) (rl_machine st') (rl_ctx st')"
proof -
  consider (same) "rl_machine st' = rl_machine st" "rl_ctx st' = rl_ctx st"
    | (up) msg where "x = BrokerMail (GroundUpCommand msg)"
        "handle_up_command (dep_ctx D) msg (rl_machine st) (rl_ctx st) = Running (rl_machine st', rl_ctx st')"
    | (down) msg where
        "handle_down_message (dep_ctx D) msg (rl_machine st) (rl_ctx st) = Running (rl_machine st', rl_ctx st')"
    using assms(2)
    by (cases x)
      (auto simp: machine_mail_def machine_result_def split: broker_msg.splits process.splits)
  then show ?thesis
  proof cases
    case same
    then show ?thesis using c by simp
  next
    case (up msg)
    show ?thesis by (rule ctx.sm_env_causes [OF c sm_env.up [OF up(2)]]) (use x up(1) in simp)
  next
    case (down msg)
    show ?thesis by (rule ctx.sm_env_causes [OF c sm_env.down [OF down]]) simp
  qed
qed

lemma step_causes:
  assumes o: "origin_inv D V ls ms st" and "relay_env D V st l st'" and c: "relay_causes D V ls st"
  shows "relay_causes D V (ls @ [l]) st'"
proof (rule causes_mono [OF _ heard_mono])
  have fin: "causes_inv (heard D ls) (view_ctx V) (rl_machine st) (finish (view_ctx V) h (rl_ctx st))" for h
    by (rule causes_less [OF c]) (use c in \<open>auto simp: causes_inv_def split: if_splits\<close>)
  show "relay_causes D V ls st'" using assms(2)
  proof cases
    case (deliver a x xs)
    show ?thesis
    proof (cases "a = AStateMachine")
      case True
      have heard: "heard D ls (event (ty (message_header msg)))" if "x = BrokerMail (GroundUpCommand msg)" for msg
        using origin_invD(1) [OF o, of x a] deliver(2) that by (auto simp: heard_def)
      show ?thesis
        by (rule machine_mail_causes [of _ "taken V a st" x])
          (use True deliver(3) c heard in \<open>simp_all add: handle_mail_def\<close>)
    next
      case False
      then show ?thesis using handle_mail_frame [OF deliver(3)] c by simp
    qed
  next
    case (one_shot h t now)
    then show ?thesis using fin by (simp add: send_task_frame)
  next
    case (wait_send t ts now)
    have "causes_inv (heard D ls) (view_ctx V) (rl_machine st) (wait_done (view_ctx V) (rl_ctx st))"
      by (rule causes_less [OF c]) (use c wait_send(3) in \<open>auto simp: causes_inv_def\<close>)
    then show ?thesis using wait_send(2) c by (simp add: send_task_frame)
  next
    case (machine k m x)
    have "causes_inv (heard D ls) (view_ctx V) m x"
      by (rule ctx.sm_env_causes [OF c machine(4)]) (use machine(3) in \<open>simp add: machine_internal_def\<close>)
    then show ?thesis using machine(2) by simp
  qed (use c in \<open>simp_all add: send_task_frame\<close>)
qed

lemma step_driven:
  assumes o: "origin_inv D V ls ms st" and c: "relay_causes D V ls st" and st: "relay_env D V st l st'"
    and m: "m \<in> set (step_requests V st l)"
  shows "ground_request D (ls @ [l]) m \<or> driven_request D (ls @ [l]) m"
proof -
  have fwd: "ground_request D (ls @ [l]) msg" if "live (view_ctx V) (rl_ctx st) h = Some (Forward msg)" for h msg
    using origin_invD(2) [OF o] that ground_request_mono by (meson forwarding_Some ranI)
  have own: "driven_request D (ls @ [l]) m"
    if "m \<in> set (task_requests st now t)" "pred_option (heard D ls) (task_cause t)" "\<And>msg. t \<noteq> Forward msg"
      "\<And>n. task_message \<lparr> env_time = epoch_now now, env_seq = n \<rparr> t = Some m \<Longrightarrow> commanded_at l m" for now t
  proof -
    note t = that
    have m: "task_message \<lparr> env_time = epoch_now now, env_seq = rl_seq st \<rparr> t = Some m"
      using t(1) by (simp add: task_requests_def params_env split: option.splits)
    obtain evt where "task_cause t = Some evt" "drives evt m" using task_drives [OF m t(3)] by blast
    then show ?thesis using t(2) t(4) [OF m] unfolding driven_request_def by fastforce
  qed
  show ?thesis using st
  proof cases
    case (one_shot h t now)
    show ?thesis
    proof (cases "\<exists>msg. t = Forward msg")
      case True
      then show ?thesis using one_shot m fwd by (auto simp: task_requests_def split: option.splits)
    next
      case False
      show ?thesis
        by (rule disjI2, rule own [of now t])
          (use False one_shot m causes_live [OF c one_shot(3)] in \<open>cases t; auto\<close>)+
    qed
  next
    case (retry_send h t now)
    show ?thesis
      by (rule disjI2, rule own [of now t])
        (use retry_send m causes_live [OF c retry_send(3)] in \<open>cases t; auto\<close>)+
  next
    case (wait_send t ts now)
    show ?thesis
      by (rule disjI2, rule own [of now t])
        (use wait_send m causes_waiting [OF c wait_send(3)] in \<open>cases t; auto\<close>)+
  qed (use m in simp_all)
qed

lemma run_driven:
  "request_run D V st ls' ms' st' \<Longrightarrow> relay_inv D V st \<Longrightarrow> origin_inv D V ls ms st \<Longrightarrow>
    relay_causes D V ls st \<Longrightarrow> m \<in> set ms' \<Longrightarrow> ground_request D (ls @ ls') m \<or> driven_request D (ls @ ls') m"
proof (induction arbitrary: ls ms rule: request_run.induct)
  case (request_cons st l st' ls' ms' st'')
  note prems = request_cons.prems and st = request_cons.hyps(1)
  show ?case
  proof (cases "m \<in> set (step_requests V st l)")
    case True
    from step_driven [OF prems(2,3) st True] show ?thesis
      using ground_request_mono [of D "ls @ [l]" m ls'] driven_mono [of D "ls @ [l]" m ls'] by auto
  next
    case False
    then have "m \<in> set ms'" using prems(4) by simp
    from request_cons.IH [OF relay_env_inv [OF st prems(1)] step_origin [OF prems(1,2) st]
        step_causes [OF prems(2) st prems(3)] this] show ?thesis by simp
  qed
qed simp

text \<open>What the port has been given since the start.\<close>

lemma port_driven:
  assumes "relay_started D V st0" and "request_run D V st0 ls ms st"
    and "raw_tx (rl_raw st) = Some tx" and "pkt \<in> set (queue tx)"
  shows "\<exists>m. pkt = message_wire (dep_crc8 D) (val m) \<and> (ground_request D ls m \<or> driven_request D ls m)"
proof -
  have c: "relay_causes D V [] st0"
    using assms(1) unfolding relay_started_def
    by (auto simp: causes_inv_def fresh_context_def relay_boot_simps machine_default_def)
  have "set (queue tx) \<subseteq> set (map (\<lambda>m. message_wire (dep_crc8 D) (val m)) ms)"
    using port_queue_requested [OF relay_laws_axioms assms(1-3)] by (auto elim!: list_emb_set)
  with assms(4) obtain m where "m \<in> set ms" "pkt = message_wire (dep_crc8 D) (val m)" by auto
  then show ?thesis
    using run_driven [OF assms(2) started_parts(1,2) [OF assms(1)] c] assms(1) by fastforce
qed

end

end
