(* ===== verification/Ground_To_Port.thy ===== *)
theory Ground_To_Port
  imports Ground_Link System_Causes
begin

text \<open>
  The console process, the sockets and the relay as one system.  The steps of \<open>Ground_Link\<close> and
  those of the actors (\<open>relay_env\<close>) interleave in any order; they meet where the uplink receives a
  datagram, which it issues to the relay's broker.  The relay may end at any time and start again
  from its boot, while the console and what waits in its socket live on.
\<close>

subsection \<open>The whole system\<close>

text \<open>The labels of the relay are those since it was last started.\<close>

record ('t, 'n, 'r, 'l) whole =
  wh_link :: "('t, 'n) link"
  wh_relay :: 'r
  wh_labels :: "'l list"

datatype ('h, 'k, 's) whole_label =
    WholeLink link_label
  | WholeRelay "('h, 'k, 's) relay_label"

fun link_labels :: "('h, 'k, 's) whole_label list \<Rightarrow> link_label list" where
  "link_labels [] = []"
| "link_labels (WholeLink l # ls) = l # link_labels ls"
| "link_labels (WholeRelay l # ls) = link_labels ls"

lemma link_labels_append [simp]: "link_labels (ls @ ls') = link_labels ls @ link_labels ls'"
  by (induction ls rule: link_labels.induct) simp_all

text \<open>A turn of the uplink issues nothing, or what its handler makes of a packet.\<close>

inductive whole_step ::
  "command_parser \<Rightarrow> ('a, 't, 'n) datagram_ops \<Rightarrow> 'a \<Rightarrow> ('h, 'c, 'k, 'w, 'q, 'b) relay_deps
     \<Rightarrow> ('h, 'c, 'k, 'w, 'b) relay_views
     \<Rightarrow> ('t, 'n, ('h, 'c, 'k, 'w, 'q, 's, 'b) relay, ('h, 'k, 's) relay_label) whole
     \<Rightarrow> ('h, 'k, 's) whole_label
     \<Rightarrow> ('t, 'n, ('h, 'c, 'k, 'w, 'q, 's, 'b) relay, ('h, 'k, 's) relay_label) whole \<Rightarrow> bool"
  for C N addr D V where
  whole_console: "l \<noteq> UplinkTurn \<Longrightarrow> l \<noteq> RelayExit \<Longrightarrow>
    whole_step C N addr D V st (WholeLink l)
      (st\<lparr> wh_link := link_step C (dep_crc8 D) N addr l (wh_link st) \<rparr>)"
| whole_quiet: "link_step C (dep_crc8 D) N addr UplinkTurn (wh_link st) = link \<Longrightarrow>
    lk_issued link = lk_issued (wh_link st) \<Longrightarrow>
    whole_step C N addr D V st (WholeLink UplinkTurn) (st\<lparr> wh_link := link \<rparr>)"
| whole_uplink: "link_step C (dep_crc8 D) N addr UplinkTurn (wh_link st) = link \<Longrightarrow>
    lk_issued link = lk_issued (wh_link st) @ out \<Longrightarrow>
    uplink_handle (dep_crc8 D) (PacketOk pkt) = UplinkIssue out \<Longrightarrow>
    relay_env D V (wh_relay st) (UplinkDatagram pkt) r \<Longrightarrow>
    whole_step C N addr D V st (WholeLink UplinkTurn)
      (st\<lparr> wh_link := link, wh_relay := r, wh_labels := wh_labels st @ [UplinkDatagram pkt] \<rparr>)"
| whole_relay: "relay_env D V (wh_relay st) l r \<Longrightarrow> (\<And>pkt. l \<noteq> UplinkDatagram pkt) \<Longrightarrow>
    whole_step C N addr D V st (WholeRelay l)
      (st\<lparr> wh_relay := r, wh_labels := wh_labels st @ [l] \<rparr>)"
| whole_exit: "relay_started D V r \<Longrightarrow>
    whole_step C N addr D V st (WholeLink RelayExit)
      (st\<lparr> wh_link := link_step C (dep_crc8 D) N addr RelayExit (wh_link st), wh_relay := r, wh_labels := [] \<rparr>)"

inductive whole_run ::
  "command_parser \<Rightarrow> ('a, 't, 'n) datagram_ops \<Rightarrow> 'a \<Rightarrow> ('h, 'c, 'k, 'w, 'q, 'b) relay_deps
     \<Rightarrow> ('h, 'c, 'k, 'w, 'b) relay_views
     \<Rightarrow> ('t, 'n, ('h, 'c, 'k, 'w, 'q, 's, 'b) relay, ('h, 'k, 's) relay_label) whole
     \<Rightarrow> ('h, 'k, 's) whole_label list
     \<Rightarrow> ('t, 'n, ('h, 'c, 'k, 'w, 'q, 's, 'b) relay, ('h, 'k, 's) relay_label) whole \<Rightarrow> bool"
  for C N addr D V where
  whole_nil: "whole_run C N addr D V st [] st"
| whole_snoc: "whole_run C N addr D V st ls st' \<Longrightarrow> whole_step C N addr D V st' l st'' \<Longrightarrow>
    whole_run C N addr D V st (ls @ [l]) st''"

definition whole_start ::
  "'n \<Rightarrow> 'r \<Rightarrow> ('t, 'n, 'r, 'l) whole" where
  "whole_start w r = \<lparr> wh_link = link_start w, wh_relay = r, wh_labels = [] \<rparr>"

subsection \<open>What the parts see\<close>

text \<open>The link goes through its own run, and the relay, since its last start, through one of its own,
  in which every datagram is one that the uplink has issued.\<close>

lemma whole_run_link:
  "whole_run C N addr D V st ls st' \<Longrightarrow>
    wh_link st' = link_run C (dep_crc8 D) N addr (link_labels ls) (wh_link st)"
proof (induction rule: whole_run.induct)
  case (whole_snoc st ls st' l st'')
  from whole_snoc.hyps(2) show ?case by cases (simp_all add: whole_snoc.IH del: link_step.simps)
qed simp

definition fed_by ::
  "('h, 'c, 'k, 'w, 'q, 'b) relay_deps \<Rightarrow> ('h, 'c, 'k, 'w, 'b) relay_views
     \<Rightarrow> ('t, 'n, ('h, 'c, 'k, 'w, 'q, 's, 'b) relay, ('h, 'k, 's) relay_label) whole \<Rightarrow> bool" where
  "fed_by D V st \<longleftrightarrow>
     (\<exists>r. relay_started D V r \<and> relay_run D V r (wh_labels st) (wh_relay st))
     \<and> (\<forall>pkt. UplinkDatagram pkt \<in> set (wh_labels st) \<longrightarrow> GroundUpPacket pkt \<in> set (lk_issued (wh_link st)))"

lemma relay_run_snoc:
  "relay_run D V st ls st' \<Longrightarrow> relay_env D V st' l st'' \<Longrightarrow> relay_run D V st (ls @ [l]) st''"
  by (rule relay_run_append) (auto intro: relay_run.intros)

lemma uplink_issue_packet:
  "uplink_handle crc8 (PacketOk pkt) = UplinkIssue out \<Longrightarrow> GroundUpPacket pkt \<in> set out"
  by (auto simp: uplink_handle_def split: sum.splits failure.splits)

lemma issued_grows:
  assumes "l \<noteq> UplinkTurn"
  shows "lk_issued (link_step C crc8 N addr l st) = lk_issued st"
  using assms by (cases l) (auto simp: Let_def split: console_status.splits option.splits prod.splits)

lemma whole_step_fed:
  assumes "whole_step C N addr D V st l st'" and "fed_by D V st"
  shows "fed_by D V st'"
  using assms(1)
proof cases
  case (whole_console l)
  then show ?thesis using assms(2) by (simp add: fed_by_def issued_grows del: link_step.simps)
next
  case (whole_quiet link)
  then show ?thesis using assms(2) by (simp add: fed_by_def)
next
  case (whole_uplink link out pkt r)
  then show ?thesis
    using assms(2) uplink_issue_packet [OF whole_uplink(5)] unfolding fed_by_def
    by (auto intro: relay_run_snoc)
next
  case (whole_relay l r)
  then show ?thesis using assms(2) unfolding fed_by_def by (auto intro: relay_run_snoc)
next
  case (whole_exit r)
  then show ?thesis by (auto simp: fed_by_def intro: relay_run.relay_nil)
qed

lemma whole_run_fed:
  "whole_run C N addr D V st ls st' \<Longrightarrow> fed_by D V st \<Longrightarrow> fed_by D V st'"
  by (induction rule: whole_run.induct) (auto intro: whole_step_fed)

lemma message_wire_inject: "message_wire crc8 v = message_wire crc8 w \<longleftrightarrow> v = w"
  by (auto simp: message_wire_def)

lemma list_all2_member: "list_all2 P xs ys \<Longrightarrow> y \<in> set ys \<Longrightarrow> \<exists>x \<in> set xs. P x y"
  by (induction rule: list_all2_induct) auto

text \<open>What the relay has heard from the ground was typed.\<close>

lemma said_typed:
  assumes "datagram_laws N W" and "nv_ok W w" and "nv_bound W w addr = None"
    and run: "whole_run C N addr D V (whole_start w r0) ls st" and fed: "fed_by D V st"
    and said: "ground_said D (wh_labels st) v"
  shows "\<exists>params cmd. (params, cmd) \<in> set (typed_in C (link_labels ls)) \<and> v = val (console_message params cmd)"
proof -
  obtain cmds ns where link: "subseq cmds (typed_in C (link_labels ls))"
    "list_all2 (\<lambda>c m. val m = val (console_message (fst c) (snd c))) cmds ns"
    "lk_issued (wh_link st) = concat (map (\<lambda>m. [GroundUpPacket (message_wire (dep_crc8 D) (val m)),
      GroundUpCommand m]) ns)"
    using link_issues_typed [OF assms(1-3), of C "dep_crc8 D" "link_labels ls"] whole_run_link [OF run]
    by (auto simp: whole_start_def Let_def)
  have "GroundUpPacket (message_wire (dep_crc8 D) v) \<in> set (lk_issued (wh_link st))"
    using fed said by (simp add: fed_by_def ground_said_def)
  then obtain n where n: "n \<in> set ns" "v = val n" by (auto simp: link(3) message_wire_inject)
  obtain c where c: "c \<in> set cmds" "v = val (console_message (fst c) (snd c))"
    using list_all2_member [OF link(2) n(1)] n(2) by auto
  have "c \<in> set (typed_in C (link_labels ls))" using link(1) c(1) by (auto elim!: list_emb_set)
  then show ?thesis using c(2) by (metis prod.collapse)
qed

lemma console_message_parts:
  "event (ty (header (header (val (console_message params cmd))))) = console_event cmd"
  "destination (message_header (console_message params cmd)) = Frontend"
  by (simp_all add: console_message_def message_command_def header_command_def)

text \<open>C14: nothing is said on the serial line that nobody asked for.  However the console, the sockets,
  the uplink, all actors and restarts of the relay interleave, each packet that the serial port has
  been given since the relay was started is the wire form of a command that the relay made in one of
  its own steps, and a command was typed into the console whose event drives exactly this command:
  the power and debug commands a ping of the central station, the garage command the opening of the
  garage, a stop of the rover the start of the ant, its move the stop of the ant, and the ant ping a
  ping.  The console never speaks to the ant or the central station directly.\<close>

theorem port_speaks_typed:
  assumes "datagram_laws N W" and "nv_ok W w" and "nv_bound W w addr = None"
    and "relay_laws D V queue alive" and "relay_started D V r0"
    and "whole_run C N addr D V (whole_start w r0) ls st"
    and "raw_tx (rl_raw (wh_relay st)) = Some tx" and "pkt \<in> set (queue tx)"
  shows "\<exists>m params cmd. pkt = message_wire (dep_crc8 D) (val m)
    \<and> (\<exists>l \<in> set (wh_labels st). commanded_at l m)
    \<and> (params, cmd) \<in> set (typed_in C (link_labels ls)) \<and> drives (console_event cmd) m"
proof -
  have "fed_by D V (whole_start w r0)"
    using assms(5) by (auto simp: fed_by_def whole_start_def intro: relay_run.relay_nil)
  then have fed: "fed_by D V st" by (rule whole_run_fed [OF assms(6)])
  then obtain r ms where r: "relay_started D V r" "request_run D V r (wh_labels st) ms (wh_relay st)"
    using relay_run_request_run unfolding fed_by_def by blast
  note typed = said_typed [OF assms(1-3,6) fed]
  obtain m where m: "pkt = message_wire (dep_crc8 D) (val m)"
    "ground_request D (wh_labels st) m \<or> driven_request D (wh_labels st) m"
    using relay_laws.port_driven [OF assms(4) r assms(7,8)] by blast
  have "\<not> ground_request D (wh_labels st) m"
    using typed console_message_parts(2) unfolding ground_request_def by fastforce
  then obtain as l bs evt where d: "wh_labels st = as @ l # bs" "commanded_at l m" "heard D as evt" "drives evt m"
    using m(2) unfolding driven_request_def by blast
  have "heard D (wh_labels st) evt" using heard_mono [OF d(3)] d(1) by simp
  then obtain params cmd where "(params, cmd) \<in> set (typed_in C (link_labels ls))" "console_event cmd = evt"
    using typed console_message_parts(1) unfolding heard_def by metis
  then show ?thesis using m(1) d by (intro exI [of _ m] exI [of _ params] exI [of _ cmd]) auto
qed

subsection \<open>A run of the whole system\<close>

lemma whole_run_append:
  "whole_run C N addr D V st1 ks st2 \<Longrightarrow> whole_run C N addr D V st0 ls st1 \<Longrightarrow>
    whole_run C N addr D V st0 (ls @ ks) st2"
proof (induction rule: whole_run.induct)
  case (whole_snoc st ls' st' l st'')
  from whole_run.whole_snoc [OF whole_snoc.IH [OF whole_snoc.prems] whole_snoc.hyps(2)] show ?case by simp
qed simp

text \<open>Steps of the console and the socket only, and steps of the actors only.\<close>

lemma whole_links:
  "UplinkTurn \<notin> set ls \<Longrightarrow> RelayExit \<notin> set ls \<Longrightarrow>
    whole_run C N addr D V st (map WholeLink ls)
      (st\<lparr> wh_link := link_run C (dep_crc8 D) N addr ls (wh_link st) \<rparr>)"
proof (induction ls rule: rev_induct)
  case (snoc l ls)
  let ?st = "st\<lparr> wh_link := link_run C (dep_crc8 D) N addr ls (wh_link st) \<rparr>"
  have "whole_step C N addr D V ?st (WholeLink l)
      (?st\<lparr> wh_link := link_step C (dep_crc8 D) N addr l (wh_link ?st) \<rparr>)"
    by (rule whole_console) (use snoc.prems in auto)
  from whole_run.whole_snoc [OF snoc.IH this] snoc.prems show ?case by (simp add: link_run_def del: link_step.simps)
qed (simp add: whole_nil)

lemma whole_relays:
  "relay_run D V r ls r' \<Longrightarrow> (\<And>pkt. UplinkDatagram pkt \<notin> set ls) \<Longrightarrow> wh_relay st = r \<Longrightarrow>
    whole_run C N addr D V st (map WholeRelay ls) (st\<lparr> wh_relay := r', wh_labels := wh_labels st @ ls \<rparr>)"
proof (induction arbitrary: st rule: relay_run.induct)
  case (relay_nil r)
  then have "st\<lparr> wh_relay := r, wh_labels := wh_labels st @ [] \<rparr> = st" by auto
  then show ?case using whole_nil [of C N addr D V st] by simp
next
  case (relay_cons r l r1 ls r')
  let ?st = "st\<lparr> wh_relay := r1, wh_labels := wh_labels st @ [l] \<rparr>"
  have "whole_step C N addr D V st (WholeRelay l) ?st"
    by (rule whole_relay) (use relay_cons in auto)
  from whole_run_append [OF relay_cons.IH [of ?st] whole_run.whole_snoc [OF whole_nil this]] relay_cons.prems(1)
  show ?case by auto
qed

text \<open>A ping is typed, and goes out of the port.\<close>

abbreviation sample_line :: "params \<times> console_command" where
  "sample_line \<equiv> (turn_params (typed_line 1), PingAnt)"

abbreviation sample_ping :: message where
  "sample_ping \<equiv> message_command \<lparr> env_time = MissionEpoch 0, env_seq = 0 \<rparr> Ant AntPing"

definition sample_typing :: "link_label list" where
  "sample_typing = [UplinkStart, ConsoleProbe, ConsoleConnect, ConsoleTurn (typed_line 1) True]"

definition sample_speaking :: "(nat, nat, nat) relay_label list" where
  "sample_speaking = [RawConnect True, Deliver AStateMachine, WaitSend EPOCH]"

abbreviation sample_typed :: "(nat, unix_world) link" where
  "sample_typed \<equiv> link_run ping_parser (\<lambda>_. 7) reference_net ''/up'' sample_typing (link_start unix_world_new)"

lemma sample_pending: "uplink_pending reference_view sample_typed = [typed_wire (\<lambda>_. 7) sample_line]"
proof -
  have "(case lk_uplink sample_typed of None \<Rightarrow> []
      | Some (u, buf) \<Rightarrow> (case uw_socks (lk_world sample_typed) u of None \<Rightarrow> [] | Some k \<Rightarrow> us_inbox k))
      = [typed_wire (\<lambda>_. 7) sample_line]"
    by code_simp
  then show ?thesis unfolding uplink_pending_def reference_view_def net_view.simps by blast
qed

lemma one_request: "(case xs of [RequestMail m] \<Rightarrow> m = x | _ \<Rightarrow> False) \<longleftrightarrow> xs = [RequestMail x]"
  by (cases xs) (auto split: mail.splits list.splits)

lemma sample_requests:
  "case sample_execs (UplinkDatagram (typed_wire (\<lambda>_. 7) sample_line) # sample_speaking) sample_boot of
    None \<Rightarrow> False
  | Some st \<Rightarrow> raw_tx (rl_raw st) = Some []
     \<and> (case box sample_views st ACommander of [RequestMail m] \<Rightarrow> m = sample_ping | _ \<Rightarrow> False)
     \<and> box sample_views st AStateMachine = [] \<and> box sample_views st AAntDecode = []
     \<and> box sample_views st ASerial = [] \<and> box sample_views st ARawIO = []"
  by code_simp

text \<open>The uplink takes it and issues it.\<close>

lemma sample_taken:
  "\<exists>m. let d = typed_wire (\<lambda>_. 7) sample_line; out = [GroundUpPacket d, GroundUpCommand m] in
    lk_issued (uplink_step (\<lambda>_. 7) reference_net sample_typed) = lk_issued sample_typed @ out
    \<and> uplink_handle (\<lambda>_. 7) (PacketOk d) = UplinkIssue out"
proof -
  have w: "nv_ok reference_view unix_world_new" "nv_bound reference_view unix_world_new ''/up'' = None"
    by (simp_all add: unix_world_new_def uw_ok_def)
  obtain h g where ok: "sockets_ok reference_view ''/up'' sample_typed" "packets_ok (\<lambda>_. 7) reference_view sample_typed h g"
    using reference.link_run_inv [OF reference.start_inv [OF w], of ping_parser "\<lambda>_. 7" sample_typing] by auto
  let ?v = "val (console_message (turn_params (typed_line 1)) PingAnt)"
  have d: "typed_wire (\<lambda>_. 7) sample_line = message_wire (\<lambda>_. 7) ?v" by (simp add: typed_wire_def)
  note k = reference.take_step [OF ok(1) sample_pending d typed_wire_length refl]
  obtain m where "uplink_handle (\<lambda>_. 7) (PacketOk (message_wire (\<lambda>_. 7) ?v))
      = UplinkIssue [GroundUpPacket (message_wire (\<lambda>_. 7) ?v), GroundUpCommand m]"
    using uplink_wire [of ?v "\<lambda>_. 7"] by blast
  then show ?thesis using k by (auto simp: d uplink_issues_def Let_def)
qed

text \<open>The actors work off their mail, which brings the ping to the port.\<close>

lemma sample_relay_speaks:
  "\<exists>r1 as r2. relay_env sample_deps sample_views sample_boot (UplinkDatagram (typed_wire (\<lambda>_. 7) sample_line)) r1
    \<and> relay_run sample_deps sample_views r1 (sample_speaking @ map Deliver as) r2
    \<and> sample_port [message_wire (\<lambda>_. 7) (val sample_ping)] r2"
proof -
  let ?D = sample_deps and ?V = sample_views
  let ?ls = "UplinkDatagram (typed_wire (\<lambda>_. 7) sample_line) # sample_speaking"
  obtain st where e: "sample_execs ?ls sample_boot = Some st" and p: "raw_tx (rl_raw st) = Some []"
    and b: "box ?V st ACommander = [RequestMail sample_ping]" "box ?V st AStateMachine = []"
      "box ?V st AAntDecode = []" "box ?V st ASerial = []" "box ?V st ARawIO = []"
    using sample_requests [unfolded one_request] unfolding option.case_eq_if
    by (auto simp del: relay_execs.simps split: if_splits)
  note run = relay_execs_run [OF e]
  have reach: "reachable_relay ?D ?V st" using sample_started run unfolding reachable_started by blast
  have crc: "dep_crc8 ?D = (\<lambda>_. 7)" by (simp add: sample_deps_def)
  note inv = sample_inv [OF reach]
  obtain as r2 where drain: "relay_run ?D ?V st (map Deliver as) r2" "\<forall>a. box ?V r2 a = []"
    using sample_relay.drains [OF inv] b(2) by auto
  have "request_on_its_way ?D ?V (\<lambda>q. q) (\<lambda>_. True) sample_ping [] st"
    using b p by (simp add: request_on_its_way_def port_holds_def Let_def)
  moreover have "message_coherent (dep_crc8 ?D) sample_ping" by (simp add: message_command_def)
  moreover have "has_started st ARawIO" using p sample_relay.relay_invD(4) [OF inv] by (auto simp: ports_ok_def)
  ultimately have "request_on_its_way ?D ?V (\<lambda>q. q) (\<lambda>_. True) sample_ping [] r2"
    using sample_relay.request_run [OF drain(1) inv refl] reachable_relay_table [OF sample_laws reach] by blast
  then have "sample_port [message_wire (\<lambda>_. 7) (val sample_ping)] r2"
    using drain(2) by (simp add: request_on_its_way_def Let_def crc)
  moreover obtain r1 where "relay_env ?D ?V sample_boot (UplinkDatagram (typed_wire (\<lambda>_. 7) sample_line)) r1"
    "relay_run ?D ?V r1 sample_speaking st"
    using run by (cases rule: relay_run.cases) auto
  ultimately show ?thesis using relay_run_append drain(1) by blast
qed

theorem port_speaks_typed_witness:
  "\<exists>m params cmd. message_wire (\<lambda>_. 7) (val sample_ping) = message_wire (\<lambda>_. 7) (val m)
    \<and> (params, cmd) \<in> {sample_line} \<and> drives (console_event cmd) m"
proof -
  let ?D = sample_deps and ?V = sample_views
  let ?run = "whole_run ping_parser reference_net ''/up'' ?D ?V"
  let ?st0 = "whole_start unix_world_new sample_boot
    :: (nat, unix_world, sample_relay_state, (nat, nat, nat) relay_label) whole"
  let ?d = "typed_wire (\<lambda>_. 7) sample_line"
  have crc: "dep_crc8 ?D = (\<lambda>_. 7)" by (simp add: sample_deps_def)
  have w: "nv_ok reference_view unix_world_new" "nv_bound reference_view unix_world_new ''/up'' = None"
    by (simp_all add: unix_world_new_def uw_ok_def)
  let ?st1 = "?st0\<lparr> wh_link := sample_typed \<rparr>"
  have run1: "?run ?st0 (map WholeLink sample_typing) ?st1"
    using whole_links [of sample_typing ping_parser reference_net "''/up''" ?D ?V ?st0]
    by (simp add: sample_typing_def whole_start_def crc)
  obtain m where m: "lk_issued (uplink_step (\<lambda>_. 7) reference_net sample_typed)
      = lk_issued sample_typed @ [GroundUpPacket ?d, GroundUpCommand m]"
    "uplink_handle (\<lambda>_. 7) (PacketOk ?d) = UplinkIssue [GroundUpPacket ?d, GroundUpCommand m]"
    using sample_taken by (auto simp: Let_def)
  obtain r1 as r2 where r: "relay_env ?D ?V sample_boot (UplinkDatagram ?d) r1"
    "relay_run ?D ?V r1 (sample_speaking @ map Deliver as) r2"
    "sample_port [message_wire (\<lambda>_. 7) (val sample_ping)] r2"
    using sample_relay_speaks by blast
  let ?st2 = "?st1\<lparr> wh_link := uplink_step (\<lambda>_. 7) reference_net sample_typed, wh_relay := r1,
    wh_labels := [UplinkDatagram ?d] \<rparr>"
  have "whole_step ping_parser reference_net ''/up'' ?D ?V ?st1 (WholeLink UplinkTurn) ?st2"
    using whole_uplink [of ping_parser ?D reference_net "''/up''" ?st1 _ _ ?d ?V r1] m r(1)
    by (simp add: crc whole_start_def)
  note run2 = whole_run.whole_snoc [OF run1 this]
  have "UplinkDatagram pkt \<notin> set (sample_speaking @ map Deliver as)" for pkt by (auto simp: sample_speaking_def)
  from whole_run_append [OF whole_relays [OF r(2) this, of ?st2] run2]
  obtain st where st: "?run ?st0 (map WholeLink sample_typing @ [WholeLink UplinkTurn]
      @ map WholeRelay (sample_speaking @ map Deliver as)) st" "wh_relay st = r2"
    by fastforce
  have labels: "link_labels (map WholeLink ls @ map WholeRelay ks) = ls" for ls and ks :: "(nat, nat, nat) relay_label list"
    by (induction ls) (induction ks, simp_all)
  have typed: "typed_in ping_parser (link_labels (map WholeLink sample_typing @ [WholeLink UplinkTurn]
      @ map WholeRelay (sample_speaking @ map Deliver as))) = [sample_line]"
    using labels [of "sample_typing @ [UplinkTurn]" "sample_speaking @ map Deliver as"]
    by (simp add: sample_typing_def typed_line_choice)
  obtain tx where tx: "raw_tx (rl_raw r2) = Some tx" "tx = [message_wire (\<lambda>_. 7) (val sample_ping)]"
    using r(3) by (auto simp: port_holds_def)
  from port_speaks_typed [OF reference.datagram_laws_axioms w sample_laws sample_started st(1), unfolded st(2),
      OF tx(1), of "message_wire (\<lambda>_. 7) (val sample_ping)"]
  show ?thesis unfolding typed crc tx(2) by auto
qed

end
