(* ===== verification/Log_Rest.thy ===== *)
theory Log_Rest
  imports Log_Runs
begin

text \<open>
  The relay comes to rest, its own log included.  A handler's events become logs, which the
  broker distributes to every downlink some time later (\<open>issue_async\<close> in \<open>src/trace/downlink.rs\<close>);
  a step here is a delivery, whose logs then wait at the broker, or the distribution of the
  first log that waits.  While the downlinks can pack and send, which they log below the level of
  the filter, the work that the mail can cause is bounded.
\<close>

subsection \<open>Deliveries with their logs\<close>

text \<open>The logs that the layer makes of what a handler logs.  What is not modelled of it, the events of
  the parser and of the libraries that a handler calls, is any list of at most \<open>k\<close> logs; a
  downlink whose socket takes the packet calls nothing that logs.\<close>

definition handler_logs ::
  "log_texts \<Rightarrow> ('h, 'c, 'k, 'w, 'q, 'b) relay_deps \<Rightarrow> actor_id \<Rightarrow> mail
     \<Rightarrow> ('h, 'c, 'k, 'w, 'q, 's, 'b) relay \<Rightarrow> broker_msg list option" where
  "handler_logs L D a x st = Option.bind (mail_logs L D a x st) (layer_logs informational True)"

definition callee_logs :: "nat \<Rightarrow> actor_id \<Rightarrow> broker_msg list \<Rightarrow> bool" where
  "callee_logs k a extra \<longleftrightarrow> list_all log_mail extra \<and> length extra \<le> log_cost k a"

inductive logged_step ::
  "nat \<Rightarrow> log_texts \<Rightarrow> ('h, 'c, 'k, 'w, 'q, 'b) relay_deps \<Rightarrow> ('h, 'c, 'k, 'w, 'b) relay_views
     \<Rightarrow> ('h, 'c, 'k, 'w, 'q, 's, 'b) relay \<times> broker_msg list \<Rightarrow> ('h, 'k, 's) relay_label
     \<Rightarrow> ('h, 'c, 'k, 'w, 'q, 's, 'b) relay \<times> broker_msg list \<Rightarrow> bool"
  for k L D V where
  handled: "inbox (view_mail V) (rl_mail st) a = x # xs \<Longrightarrow> handler_logs L D a x st = Some own \<Longrightarrow>
    callee_logs k a extra \<Longrightarrow> out \<in> shuffles own extra \<Longrightarrow> relay_env D V st (Deliver a) st' \<Longrightarrow>
    logged_step k L D V (st, p) (Deliver a) (st', p @ out)"
| distributed: "relay_env D V st (TraceLog l) st' \<Longrightarrow>
    logged_step k L D V (st, GroundLog l # p) (TraceLog l) (st', p)"

inductive logged_run ::
  "nat \<Rightarrow> log_texts \<Rightarrow> ('h, 'c, 'k, 'w, 'q, 'b) relay_deps \<Rightarrow> ('h, 'c, 'k, 'w, 'b) relay_views
     \<Rightarrow> ('h, 'c, 'k, 'w, 'q, 's, 'b) relay \<times> broker_msg list \<Rightarrow> ('h, 'k, 's) relay_label list
     \<Rightarrow> ('h, 'c, 'k, 'w, 'q, 's, 'b) relay \<times> broker_msg list \<Rightarrow> bool"
  for k L D V where
  logged_nil: "logged_run k L D V sp [] sp"
| logged_cons: "logged_step k L D V sp l sp' \<Longrightarrow> logged_run k L D V sp' ls sp'' \<Longrightarrow>
    logged_run k L D V sp (l # ls) sp''"

text \<open>The work that is left: each waiting log is distributed once and handled by each downlink.\<close>

definition rest_weight :: "nat \<Rightarrow> nat \<Rightarrow> (actor_id \<Rightarrow> mail list) \<Rightarrow> broker_msg list \<Rightarrow> nat" where
  "rest_weight n k boxes p = mail_total n ((3 + k) * (n + 1)) boxes + (n + 1) * length p"

subsection \<open>Few logs\<close>

lemma length_within [simp]: "length (within scope evs) = length evs"
  by (simp add: within_def)

lemma length_arm_logs: "length (arm_logs s evt) \<le> 1"
  by (simp add: arm_logs_def)

lemma length_do_step_logs: "length (do_step_logs X scope evt m c) \<le> 3"
  using length_arm_logs [of "state m" evt]
  by (auto simp: do_step_logs_def step_logs_def split: process.split)

lemma length_machine_logs:
  "up_command_logs L crc8 X msg m c = Some logs \<Longrightarrow> length logs \<le> 3"
  "length (down_message_logs X msg m c) \<le> 3"
  using length_do_step_logs by (auto simp: up_command_logs_def down_message_logs_def Let_def)

lemma length_serial_logs:
  "serial_up_logs L crc8 msg = Some logs \<Longrightarrow> length logs \<le> 3"
  "serial_down_logs L crc8 pkt = Some logs \<Longrightarrow> length logs \<le> 3"
  "ant_decode_logs L C crc8 msg = Some logs \<Longrightarrow> length logs \<le> 3"
  "length (raw_up_logs L M pkt r) \<le> 3"
  by (auto simp: serial_up_logs_def serial_down_logs_def issue_ack_logs_def ant_decode_logs_def raw_up_logs_def
      Let_def bind_eq_Some_conv split: sum.splits failure.splits source_info.splits option.splits)

lemma length_commander_logs:
  "length (ack_message_logs X msg c w) \<le> 3" "length (ant_message_logs X pkt c w) \<le> 3"
  by (auto simp: ack_message_logs_def ant_message_logs_def Let_def split: source_info.split option.split)

lemmas length_logs = length_machine_logs length_serial_logs length_commander_logs

lemma length_mail_logs:
  assumes "mail_logs L D a x st = Some logs" and "\<forall>i. a \<noteq> ADownlink i"
  shows "length logs \<le> 3"
proof (cases x)
  case (BrokerMail b)
  show ?thesis
    using assms by (cases a; cases b) (auto simp: mail_logs_def BrokerMail intro: length_logs)
qed (use assms in \<open>simp add: mail_logs_def\<close>)

text \<open>What a downlink that can pack logs is below the filter.\<close>

lemma downlink_quiet:
  assumes "downlink_logs L crc8 serialize compress b a = Some logs"
    and "\<And>d. Option.bind (serialize d) (brotli_compress compress) \<noteq> None"
  shows "filter (\<lambda>(s, evs, md). informational md) logs = []"
proof (cases "downlink_subscribed a")
  case True
  show ?thesis
  proof (cases "downlink_extract b")
    case (Some d)
    obtain pkt where "Option.bind (serialize d) (brotli_compress compress) = Some pkt" using assms(2) by blast
    then show ?thesis using assms(1) True Some
      by (auto simp: downlink_logs_def bind_eq_Some_conv within_def downlink_at_def event_at_def)
  qed (use assms(1) True in \<open>simp add: downlink_logs_def\<close>)
qed (use assms(1) in \<open>simp add: downlink_logs_def\<close>)

lemma handler_logs_few:
  assumes "log_texts_ascii L" and "mail_coherent (dep_crc8 D) x"
    and "\<And>l. x = BrokerMail (GroundLog l) \<Longrightarrow> log_ascii l"
    and packs: "\<And>d. Option.bind (dep_serialize D d) (brotli_compress (dep_compress D)) \<noteq> None"
  shows "\<exists>own. handler_logs L D a x st = Some own \<and> list_all log_mail own \<and> length own \<le> log_cost 3 a"
proof -
  obtain logs where logs: "mail_logs L D a x st = Some logs" "list_all logged_ok logs"
    using log_texts_ascii.mail_logs_ok [OF assms(1,2,3)] by blast
  obtain own where own: "layer_logs informational True logs = Some own" "list_all log_mail own"
    "length own = length (filter (\<lambda>(s, evs, md). informational md) logs)"
    using layer_logs_ok [OF logs(2), of informational True] by auto
  have "length own \<le> log_cost 3 a"
  proof (cases "\<exists>i. a = ADownlink i")
    case True
    then obtain i where a: "a = ADownlink i" ..
    have "filter (\<lambda>(s, evs, md). informational md) logs = []"
      using logs(1) downlink_quiet [OF _ packs]
      by (cases x) (auto simp: mail_logs_def a)
    then show ?thesis using own(3) by simp
  next
    case False
    then have "log_cost 3 a = 3" by (cases a) simp_all
    moreover have "length logs \<le> 3" by (rule length_mail_logs [OF logs(1)]) (use False in blast)
    ultimately show ?thesis using own(3) order_trans [OF length_filter_le [of "\<lambda>(s, evs, md). informational md" logs]] by simp
  qed
  then show ?thesis using logs(1) own(1,2) by (auto simp: handler_logs_def)
qed

lemma shuffled_logs:
  assumes "out \<in> shuffles own extra"
  shows "length out = length own + length extra" "list_all log_mail out \<longleftrightarrow> list_all log_mail own \<and> list_all log_mail extra"
  using length_shuffles [OF assms] set_shuffles [OF assms] by (auto simp: list_all_iff)

subsection \<open>Logged runs are runs\<close>

lemma logged_step_relay:
  "logged_step k L D V sp l sp' \<Longrightarrow> relay_env D V (fst sp) l (fst sp')"
  by (induction rule: logged_step.induct) simp_all

lemma logged_run_relay:
  "logged_run k L D V sp ls sp' \<Longrightarrow> relay_run D V (fst sp) ls (fst sp')"
  by (induction rule: logged_run.induct) (auto intro: relay_run.intros logged_step_relay)

text \<open>The mail holds only ASCII logs, as in every run whose logs are ASCII.\<close>

definition ascii_mail ::
  "('h, 'c, 'k, 'w, 'b) relay_views \<Rightarrow> ('h, 'c, 'k, 'w, 'q, 's, 'b) relay \<Rightarrow> bool" where
  "ascii_mail V st \<longleftrightarrow> (\<forall>a l. BrokerMail (GroundLog l) \<in> set (box V st a) \<longrightarrow> log_ascii l)"

lemma issues_no_log: "GroundLog l \<notin> set (issues D a x)"
proof (cases x)
  case (BrokerMail y)
  have "GroundLog l \<notin> set (issued_list (serial_handle_down (dep_crc8 D) pkt))" for pkt
    by (cases rule: serial_down_cases [of "dep_crc8 D" pkt])
      (auto simp: try_issue_ack_def split: source_info.splits)
  moreover have "GroundLog l \<notin> set (issued_list (serial_handle_up (dep_crc8 D) m))" for m
    by (auto simp: serial_handle_up_def split: sum.splits failure.splits)
  moreover have "GroundLog l \<notin> set (issued_list (ant_decode (dep_cs D) (dep_crc8 D) m))" for m
    using ant_decode_issues [of "dep_cs D" "dep_crc8 D" m]
    by (cases "ant_decode (dep_cs D) (dep_crc8 D) m") auto
  ultimately show ?thesis
    by (auto simp: BrokerMail issues_def split: broker_msg.splits if_splits)
qed (auto simp: issues_def split: if_splits)

context relay_laws
begin

lemma logged_step_rest:
  assumes "logged_step k L D V sp l sp'" and "relay_inv D V (fst sp)" and "ascii_mail V (fst sp)"
    and "list_all log_mail (snd sp)" and "log_texts_ascii L"
    and packs: "\<And>d. Option.bind (dep_serialize D d) (brotli_compress (dep_compress D)) \<noteq> None"
  shows "rest_weight (dep_addresses D) k (box V (fst sp')) (snd sp')
      < rest_weight (dep_addresses D) k (box V (fst sp)) (snd sp)
    \<and> relay_inv D V (fst sp') \<and> ascii_mail V (fst sp') \<and> list_all log_mail (snd sp')"
  using assms(1)
proof cases
  case (handled st a x xs own extra out st' p)
  let ?n = "dep_addresses D"
  have x: "x \<in> set (box V st a)" using handled(4) by simp
  have inv: "relay_inv D V st" and asc: "ascii_mail V st" using assms(2,3) handled(1) by simp_all
  have "mail_coherent (dep_crc8 D) x" by (rule mail_okD(1) [OF relay_invD(2) [OF inv] x])
  moreover have "log_ascii l" if "x = BrokerMail (GroundLog l)" for l
    using asc x that unfolding ascii_mail_def by blast
  ultimately have "\<exists>own. handler_logs L D a x st = Some own \<and> list_all log_mail own \<and> length own \<le> log_cost 3 a"
    by (rule handler_logs_few [OF assms(5) _ _ packs])
  then have own: "list_all log_mail own" "length own \<le> log_cost 3 a" using handled(5) by simp_all
  note out = shuffled_logs [OF handled(7)] and extra = handled(6) [unfolded callee_logs_def]
  have "length out \<le> log_cost (3 + k) a" using out(1) own(2) extra by (cases a) simp_all
  then have "(?n + 1) * length out \<le> log_cost ((3 + k) * (?n + 1)) a"
    by (cases a) (simp_all add: mult.commute [of "?n + 1"] mult_le_mono1 del: mult_Suc mult_Suc_right)
  then have "rest_weight ?n k (box V st') (p @ out) < rest_weight ?n k (box V st) p"
    using deliver_weight [OF inv handled(8), of "(3 + k) * (?n + 1)"]
    by (simp add: rest_weight_def distrib_left del: mult_Suc)
  moreover have "ascii_mail V st'"
    using handled(8)
  proof cases
    case (deliver y ys)
    show ?thesis
      using asc issues_no_log [of _ D a y] handle_mail_issues [OF deliver(2)]
      by (auto simp: ascii_mail_def dest!: set_tl)
  qed
  moreover have "list_all log_mail (p @ out)" using assms(4) handled(1) out(2) own(1) extra by simp
  ultimately show ?thesis using relay_env_inv [OF handled(8) inv] handled(1,3) by simp
next
  case (distributed st l st' p)
  let ?n = "dep_addresses D"
  have inv: "relay_inv D V st" and asc: "ascii_mail V st" and l: "log_ascii l" and p: "list_all log_mail p"
    using assms(2-4) distributed(1) by (auto simp: log_mail_def)
  have st': "rl_mail st' = issue_all (dep_mail D) [GroundLog l] (rl_mail st)"
    using distributed(4) by cases (simp add: issue_all_single)
  have "rest_weight ?n k (box V st') p < rest_weight ?n k (box V st) (GroundLog l # p)"
    using mail_total_issue [OF relay_invD(3) [OF inv], where out = "[GroundLog l]" and q = "(3 + k) * (?n + 1)"]
    unfolding st' [symmetric] rest_weight_def by simp
  moreover have "ascii_mail V st'" using asc l by (auto simp: ascii_mail_def st')
  ultimately show ?thesis using relay_env_inv [OF distributed(4) inv] distributed(1,3) p by simp
qed

lemma logged_run_rest:
  assumes "logged_run k L D V sp ls sp'" and "relay_inv D V (fst sp)" and "ascii_mail V (fst sp)"
    and "list_all log_mail (snd sp)" and "log_texts_ascii L"
    and "\<And>d. Option.bind (dep_serialize D d) (brotli_compress (dep_compress D)) \<noteq> None"
  shows "length ls + rest_weight (dep_addresses D) k (box V (fst sp')) (snd sp')
      \<le> rest_weight (dep_addresses D) k (box V (fst sp)) (snd sp)
    \<and> relay_inv D V (fst sp') \<and> ascii_mail V (fst sp') \<and> list_all log_mail (snd sp')"
  using assms(1-4)
proof (induction rule: logged_run.induct)
  case (logged_cons sp l sp' ls sp'')
  from logged_step_rest [OF logged_cons.hyps(1) logged_cons.prems assms(5,6)] logged_cons.IH
  show ?case by fastforce
qed simp

text \<open>A delivery that does not end the process is a step, with its own logs alone if its callees log
  nothing; a waiting log can be distributed.\<close>

lemma logged_progress:
  assumes inv: "relay_inv D V st" and "ascii_mail V st" and "list_all log_mail p" and "log_texts_ascii L"
    and "\<And>d. Option.bind (dep_serialize D d) (brotli_compress (dep_compress D)) \<noteq> None"
    and waits: "p \<noteq> [] \<or> box V st a = x # xs \<and> \<not> (a = AStateMachine \<and> restart_mail x)"
  shows "\<exists>l sp'. logged_step k L D V (st, p) l sp'"
proof (cases p)
  case (Cons b p')
  then obtain l where "b = GroundLog l" using assms(3) by (auto simp: log_mail_def)
  then show ?thesis using logged_step.distributed [OF relay_env.trace_log] Cons by blast
next
  case Nil
  then have x: "box V st a = x # xs" "\<not> (a = AStateMachine \<and> restart_mail x)" using waits by simp_all
  obtain st' where "relay_env D V st (Deliver a) st'"
    using handle_mail_reaction [OF inv x(1)] x(2) by blast
  moreover have "mail_coherent (dep_crc8 D) x" "x = BrokerMail (GroundLog l) \<Longrightarrow> log_ascii l" for l
    using mail_okD(1) [OF relay_invD(2) [OF inv], of x a] assms(2) x(1) unfolding ascii_mail_def
    by (simp, metis list.set_intros(1))
  then obtain own where "handler_logs L D a x st = Some own"
    using handler_logs_few [OF assms(4) _ _ assms(5), where x = x and a = a and st = st] by blast
  moreover have "callee_logs k a []" "own \<in> shuffles own []" for own by (simp_all add: callee_logs_def)
  ultimately show ?thesis using logged_step.handled [of V st a x xs, OF x(1)] by blast
qed

lemma run_ascii_mail:
  assumes "relay_started D V st0" and "relay_run D V st0 ls st" and "\<And>l. TraceLog l \<in> set ls \<Longrightarrow> log_ascii l"
  shows "relay_inv D V st" and "ascii_mail V st"
proof -
  note start = started_parts [OF assms(1)]
  show "relay_inv D V st" by (rule relay_run_inv [OF assms(2) start(1)])
  obtain ms where "request_run D V st0 ls ms st" using relay_run_request_run [OF assms(2)] by blast
  from origin_invD(1) [OF run_origin [OF this start(1,2)]] assms(3)
  show "ascii_mail V st" unfolding ascii_mail_def by fastforce
qed

end

text \<open>C20: the actors come to rest, their own log included.  Take any reachable state of the relay, its
  logs in ASCII, while the downlinks can pack and send, and let there be no new input.  Every
  handled message brings the logs that its handler issues, and up to \<open>k\<close> more from what the
  handler calls, which the broker later distributes to all downlinks.  Then in whatever order
  the actors take their mail and the broker its logs, there are no more steps than the weight of
  what is there; and as long as a log waits to be distributed, or an actor has mail other than a
  restart command at the state machine, which ends the process, there is a further step.\<close>

theorem relay_comes_to_rest:
  assumes "relay_laws D V queue alive" and "log_texts_ascii L" and "relay_started D V st0"
    and "relay_run D V st0 ls st" and "\<And>l. TraceLog l \<in> set ls \<Longrightarrow> log_ascii l"
    and "\<And>d. Option.bind (dep_serialize D d) (brotli_compress (dep_compress D)) \<noteq> None"
    and "list_all log_mail p" and "logged_run k L D V (st, p) steps (st', p')"
  shows "length steps + rest_weight (dep_addresses D) k (box V st') p'
      \<le> rest_weight (dep_addresses D) k (box V st) p
    \<and> ((\<exists>l sp. logged_step k L D V (st', p') l sp)
      \<or> p' = [] \<and> (\<forall>a x xs. box V st' a = x # xs \<longrightarrow> a = AStateMachine \<and> restart_mail x))"
proof -
  note ok = relay_laws.run_ascii_mail [OF assms(1,3,4,5)]
  have rest: "length steps + rest_weight (dep_addresses D) k (box V st') p'
      \<le> rest_weight (dep_addresses D) k (box V st) p
    \<and> relay_inv D V st' \<and> ascii_mail V st' \<and> list_all log_mail p'"
    using relay_laws.logged_run_rest [OF assms(1,8) _ _ _ assms(2,6)] ok assms(7) by simp
  then show ?thesis
    using relay_laws.logged_progress [OF assms(1), of st' p', OF _ _ _ assms(2,6)] by blast
qed

text \<open>Two bytes from the serial line, with a connected downlink: their weight is 53.  One delivery, to
  the serial actor, which logs that it cannot unpack them; the distribution of that log is a
  further step.\<close>

definition packing_deps :: "(nat, (task, event) table_ctx, nat, channel_state list, bytes list, list_mail) relay_deps" where
  "packing_deps = sample_deps\<lparr> dep_serialize := \<lambda>_. Some [0] \<rparr>"

lemma packing_laws: "relay_laws packing_deps sample_views (\<lambda>q. q) (\<lambda>_. True)"
  using sample_laws by (simp add: packing_deps_def relay_laws_def relay_laws_axioms_def)

lemma packing_started: "relay_started packing_deps sample_views sample_boot"
  using sample_started by (simp add: packing_deps_def relay_started_def relay_boot_def)

lemma bad_packet_logged:
  "case handler_logs sample_texts packing_deps ASerial (BrokerMail (RawDownPacket [1, 2])) st of
    None \<Rightarrow> False | Some own \<Rightarrow> length own = 1"
proof -
  have "handler_logs sample_texts packing_deps ASerial (BrokerMail (RawDownPacket [1, 2])) st
      = Option.bind (serial_down_logs sample_texts (\<lambda>_. 7) [1, 2]) (layer_logs informational True)"
    by (simp add: handler_logs_def mail_logs_def packing_deps_def sample_deps_def)
  moreover have "case Option.bind (serial_down_logs sample_texts (\<lambda>_. 7) [1, 2]) (layer_logs informational True) of
      None \<Rightarrow> False | Some own \<Rightarrow> length own = 1"
    by code_simp
  ultimately show ?thesis by simp
qed

theorem relay_comes_to_rest_witness:
  "\<exists>(st :: sample_relay_state) st' p'.
    relay_execs packing_deps sample_views [DownlinkConnect 0 (Some 4), SerialItem (Inr [1, 2])] sample_boot = Some st
    \<and> rest_weight 2 0 (box sample_views st) [] = 53
    \<and> logged_run 0 sample_texts packing_deps sample_views (st, []) [Deliver ASerial] (st', p')
    \<and> length p' = 1
    \<and> 1 + rest_weight 2 0 (box sample_views st') p' \<le> 53
    \<and> (\<exists>l sp. logged_step 0 sample_texts packing_deps sample_views (st', p') l sp)"
proof -
  let ?D = packing_deps and ?V = sample_views
  let ?ls = "[DownlinkConnect 0 (Some 4), SerialItem (Inr [1, 2])] :: (nat, nat, nat) relay_label list"
  have "case relay_execs packing_deps sample_views ?ls sample_boot of None \<Rightarrow> False
      | Some st \<Rightarrow> rest_weight 2 0 (box sample_views st) [] = 53
          \<and> single (\<lambda>x. case x of BrokerMail (RawDownPacket p) \<Rightarrow> p = [1, 2] | _ \<Rightarrow> False) (box sample_views st ASerial)
          \<and> relay_execs packing_deps sample_views [Deliver ASerial] st \<noteq> None"
    by code_simp
  then obtain st st' x where st: "relay_execs ?D ?V ?ls sample_boot = Some st"
    "rest_weight 2 0 (box ?V st) [] = 53" "box ?V st ASerial = [x]"
    "relay_execs ?D ?V [Deliver ASerial] st = Some st'"
    and x: "case x of BrokerMail (RawDownPacket p) \<Rightarrow> p = [1, 2] | _ \<Rightarrow> False"
    by (auto simp only: case_option_some single_iff)
  have x: "x = BrokerMail (RawDownPacket [1, 2])"
    using x by (simp split: mail.splits broker_msg.splits)
  obtain own where own: "handler_logs sample_texts ?D ASerial x st = Some own" "length own = 1"
    using bad_packet_logged [of st] by (auto simp: x split: option.splits)
  have step: "relay_env ?D ?V st (Deliver ASerial) st'"
    using relay_execs_run [OF st(4)] by (auto elim: relay_run.cases)
  have "callee_logs 0 ASerial []" "own \<in> shuffles own []" by (simp_all add: callee_logs_def)
  from logged_cons [OF logged_step.handled [OF st(3) own(1) this step, of "[]"] logged_nil]
  have run: "logged_run 0 sample_texts ?D ?V (st, []) [Deliver ASerial] (st', own)" by simp
  have D: "dep_addresses ?D = 2" "\<And>d. Option.bind (dep_serialize ?D d) (brotli_compress (dep_compress ?D)) \<noteq> None"
    by (simp_all add: packing_deps_def sample_deps_def brotli_compress_def)
  have "log_ascii l" if "TraceLog l \<in> set ?ls" for l using that by simp
  from relay_comes_to_rest [OF packing_laws log_ref.log_texts_ascii_axioms packing_started
      relay_execs_run [OF st(1)] this D(2) _ run]
  show ?thesis using st(1,2) own(2) run unfolding D(1) by fastforce
qed

end
