(* ===== verification/Spec2Isabelle.thy ===== *)
theory Spec2Isabelle
  imports System_Calls System_Ids Slice_Codec Scan_Stream Compose_Codec Relay_Main Serde_Forms
    Ground_To_Port Log_Rest
begin

text \<open>
  A verification development for \<open>antrelay\<close>, the relay between a rover's ground segment and
  the ant, a small robot behind a central station (CS).

  The program.  The ground sends datagrams to the \<^emph>\<open>uplink\<close> actor
  (\<open>runtime/src/ground/uplink.rs\<close>), which parses them as messages.  The \<^emph>\<open>control state
  machine\<close> (\<open>runtime/src/state_machine.rs\<close>) reacts to the rover's events and sends commands
  through the \<^emph>\<open>commander\<close> (\<open>serial/commander.rs\<close>), which keeps a table of requests that
  wait for an acknowledgement.  \<open>Serial\<close> (\<open>serial/mod.rs\<close>) packs and parses messages,
  \<open>RawIO\<close> (\<open>serial/raw.rs\<close>) frames them with COBS on the serial port, and \<open>AntDecode\<close>
  (\<open>serial/ant_decode.rs\<close>) takes ant packets out of the central station's relay messages.
  The \<^emph>\<open>downlink\<close> actor (\<open>ground/downlink.rs\<close>) sends all of this traffic, and the log, to
  the ground.  The actors exchange messages over a broker.

  The theories, in the order of their imports.
  \<^item> \<open>Prelude\<close>: results with panics as values, byte lists, little-endian numbers.
  \<^item> \<open>Packing\<close>: the interfaces of the packing traits as records of operations, with the
    locales of what a packable type promises.
  \<^item> \<open>Magic_Epoch\<close> (\<open>message/src/magic_value.rs\<close>, \<open>mission_epoch.rs\<close>), \<open>Header\<close>
    (\<open>header.rs\<close>), \<open>Packet\<close> (\<open>bytes_wrap.rs\<close>, \<open>source_info.rs\<close>, \<open>header_packet.rs\<close>),
    \<open>Crc\<close> (\<open>checksum.rs\<close>, \<open>crc.rs\<close>), \<open>Message\<close> (\<open>lib.rs\<close>): the message format, one locale
    interpretation per type, up to round trip, canonicity and totality of \<open>Message\<close>.
  \<^item> \<open>Payloads\<close> (\<open>ant.rs\<close>, \<open>cs.rs\<close>, \<open>payload/\<close>), \<open>Downlink_Data\<close> (\<open>downlink/\<close>): the types
    inside messages and on the downlink.
  \<^item> \<open>Framing\<close>, \<open>Delimiter_Codec\<close> (\<open>codec/src/all_delimiters.rs\<close>), \<open>Cobs_Codec\<close>
    (\<open>codec/src/cobs.rs\<close>): sessions of chunks and decode calls, and the two codecs as
    instances of one decoder contract; \<open>Slice_Codec\<close> (\<open>codec/src/packed_struct.rs\<close>);
    \<open>Compose_Codec\<close> (\<open>codec/src/compose.rs\<close>): two framing codecs, one inside the other.
  \<^item> \<open>Actor\<close>: the actor context as a parameter; \<open>State_Machine\<close>: the actor, its step function
    and handlers, the environment as a step relation, its invariant; \<open>Machine_Runs\<close>:
    properties of whole runs.
  \<^item> \<open>Commander\<close>, \<open>Serial\<close>, \<open>Services\<close> (\<open>runtime/src/system\<close>), \<open>Ground\<close> (\<open>ground/\<close>,
    \<open>util/src/lib.rs\<close>): the remaining actors and services.
  \<^item> \<open>Mail\<close>: the broker and the mailboxes as a parameter, what each actor subscribes to;
    \<open>System\<close>: the actors that \<open>src/src/main.rs\<close> starts as one state \<open>relay\<close>, their handlers
    dispatched by \<open>handle_mail\<close>, and the relation \<open>relay_env\<close>, whose steps are the delivery of
    one piece of mail and the inputs from outside, in any order; \<open>System_Exec\<close>: the same
    steps as a function; \<open>System_Inv\<close>: the locale \<open>relay_laws\<close> that joins the laws of the
    parameters, and the invariant; \<open>System_Runs\<close>: no handler panics, mail is used up and can
    always be drained; \<open>System_Paths\<close>: the ways of a ground command, of an acknowledgement
    and of a relayed ant packet through the actors; \<open>System_Origin\<close>: \<open>request_run\<close>, runs with the
    messages they request, and where everything comes from that the port transmits, that the
    ground receives and that callers get; \<open>System_Calls\<close>: \<open>call_run\<close>, the runs in which the
    retry driver tells the state machine what its calls really returned;
    \<open>System_Causes\<close>: which command from the ground each command of the relay's own goes back to;
    \<open>System_Ids\<close>: when two commands of a run have the same id.
  \<^item> \<open>Texts\<close>: what \<open>Display\<close> and \<open>Debug\<close> print for messages, telemetry and downlink values.
  \<^item> \<open>Network\<close> (\<open>net/src\<close>): datagram sockets over the system calls, and the locale of what the
    program relies on of them.
  \<^item> \<open>Tools\<close> and \<open>Consoles\<close> (\<open>src/src/bin\<close>): the messages of the tools and their loops;
    \<open>Ground_Link\<close>: the console process and the relay's uplink on one system of sockets, with
    restarts of either; \<open>Ground_To_Port\<close>: that system and all actors of the relay as one, from
    the keyboard to the serial line; \<open>Scan_Stream\<close> (\<open>util/src/futures\<close>).
  \<^item> \<open>Trace_Layer\<close> (\<open>src/src/trace/downlink.rs\<close>, \<open>src/src/lib.rs\<close>): the layer that makes a log
    of each event, and the attempts of \<open>connect_once\<close>; \<open>Trace_Init\<close> (\<open>src/src/trace/mod.rs\<close>,
    \<open>util/src/build.rs\<close>, \<open>macros.rs\<close>): build constants, layers and filters; \<open>Log_Texts\<close>: which
    texts the layer can take; \<open>Log_Events\<close>: the events and spans of every handler of
    \<open>runtime/src\<close>; \<open>Log_Runs\<close>: the log in runs of the relay, and what a downlink logs into its own
    mail; \<open>Log_Rest\<close>: deliveries with the logs that they bring, after finitely many of which
    the relay is at rest.
  \<^item> \<open>Serde_Forms\<close>: the serialisation of all downlink values as translations to serde's data
    model, over any format and over the layout of bincode.
  \<^item> \<open>Relay_Main\<close> (\<open>src/src/main.rs\<close>, \<open>options.rs\<close>, \<open>bin/*/options.rs\<close>): the options, the set-up,
    and the phases of \<open>main\<close> around \<open>connect_once\<close>, whose runs are runs of the relay.

  Modelling.  Structs are records, enums are datatypes, integers are words of their width.
  A fallible function returns a sum; a panic is a value of its own (\<open>Panicked\<close>, \<open>None\<close>, or a
  constructor), so that theorems exclude it.  A handler is a function from the actor's state
  and a message to the new state and the broker messages it issues.  A dictionary of
  operations stands for what a trait or a library provides; the laws used of it are the
  assumptions of a locale, and each locale is interpreted.  Where the
  laws of a parameter matter, a reference that satisfies them is interpreted as well; it serves
  the witnesses and no property is about it.  Parameters that stand for code
  outside the repository: the checksum algorithm (\<open>crc8\<close>), the actor context, oneshot and
  mpsc channels, the retry driver, the COBS and Aho-Corasick libraries, the system calls for
  sockets and files, the serialisation format and the compressor, the parser of the command line,
  the filters of the log, the bit layout of the central station's payload, and the texts of
  hexadecimal strings, times, floating point numbers, errors and of most derived \<open>Debug\<close>.
  The derived packing of structs whose fields are whole bytes is modelled from their
  attributes, the derived serialisation from the order of fields and variants.  The model is of
  the debug build, which has the commands \<open>DebugCSPing\<close> and \<open>Restart\<close>.

  The relation \<open>relay_env\<close> allows more than the program does: a future that retries may send
  any number of times while it lives, a send that the state machine waits for does not hold
  back its other mail, a port may be opened anew at any time, and datagrams have any length.
  What holds for every run of it holds for the program.  In \<open>relay_env\<close> the result of a
  future of the state machine is an input; \<open>call_env\<close> restricts it to results that the future's
  own requests can have, and every \<open>call_run\<close> is a \<open>request_run\<close>, which is a run of
  \<open>relay_env\<close>.  In \<open>relay_env\<close> any log may be issued at any time; \<open>logged_step\<close> restricts this to
  the logs that deliveries bring, which its runs distribute later, and every \<open>logged_run\<close> is a
  run of \<open>relay_env\<close>.  The steps that send a command carry what the clock shows then, which
  \<open>MissionEpoch::now\<close> reduces modulo \<open>u32::MAX\<close> milliseconds.  A restart command ends the process,
  so such a run has no further step.  The number of downlinks is \<open>dep_addresses\<close>.

  Bounds and fuel.  No definition uses fuel: the loops are structural recursion over the
  events they consume, or have a termination proof (the decoder of \<open>Delimiter_Codec\<close>, the
  reference decoding of \<open>Cobs_Codec\<close>).  Statements about decoding say how many further
  decode calls suffice.

  Not modelled.  The bit layout that the packing macro gives the central station's telemetry
  (\<open>cs.rs\<close>), which is not in the sources.  What a terminal does with the texts written to it, and
  the reading of lines.  Hashing (\<open>Hash\<close> implementations), and accessors that only hand out a
  field.  The events that the message parser, the codecs and the socket wrappers log, but for
  those of \<open>net/src/unix.rs\<close> that a downlink causes (\<open>logged_step\<close> allows up to \<open>k\<close> of them for each
  delivery other than to a downlink, for any \<open>k\<close>).  \<open>trace_catch!\<close>, which nothing uses; \<open>compose.rs\<close>
  is modelled although no module declaration names it.  Time passes only as the order of events:
  durations and delays are kept as the numbers given to the context, or left out.
\<close>

end
